(* ===== verification/Prelude.thy ===== *)
theory Prelude
  imports Main "HOL-Library.Word" "HOL-Library.Signed_Division" "HOL-Library.Multiset"
begin

text \<open>
  Shared vocabulary of the development.

  \<^item> \<open>fault\<close> and \<open>res\<close>: what a kernel routine does besides returning. A failed
    \<^verbatim>\<open>ASSERT\<close> (\<^verbatim>\<open>lib/debug.h\<close>) panics the kernel and is \<open>Inl Assertion\<close>; a \<^verbatim>\<open>PANIC\<close> is \<open>Inl Panic\<close>; an access
    outside a C array is \<open>Inl OutOfBounds\<close>; a division trap is \<open>Inl DivideError\<close>.
    \<open>bindR\<close> sequences two statements and \<open>assertR\<close> is the \<^verbatim>\<open>ASSERT\<close> macro.
  \<^item> \<open>s32\<close>, \<open>s64\<close>, \<open>u32\<close>: the value an integer has after it is stored in an
    \<^verbatim>\<open>int\<close>, an \<^verbatim>\<open>int64_t\<close> or an \<^verbatim>\<open>unsigned\<close> of the 80x86 (two's complement).
    C's \<^verbatim>\<open>/\<close> and \<^verbatim>\<open>%\<close> on signed operands are \<open>sdiv\<close> and \<open>smod\<close>.
  \<^item> the collection \<open>cint\<close> holds the facts that discharge the wrap-around when a value
    is in range.
\<close>

section \<open>Faults and results\<close>

datatype fault = Assertion | OutOfBounds | NullDeref | DivideError | Panic

type_synonym 'a res = "fault + 'a"

definition bindR :: "'a res \<Rightarrow> ('a \<Rightarrow> 'b res) \<Rightarrow> 'b res" where
  "bindR m f = (case m of Inl e \<Rightarrow> Inl e | Inr x \<Rightarrow> f x)"

definition assertR :: "bool \<Rightarrow> 'a res \<Rightarrow> 'a res" where
  "assertR b m = (if b then m else Inl Assertion)"

lemma bindR_Inr [simp]: "bindR (Inr x) f = f x"
  by (simp add: bindR_def)

lemma bindR_Inl [simp]: "bindR (Inl e) f = Inl e"
  by (simp add: bindR_def)

lemma assertR_True [simp]: "assertR True m = m"
  by (simp add: assertR_def)

lemma assertR_False [simp]: "assertR False m = Inl Assertion"
  by (simp add: assertR_def)

lemma bindR_eq_Inr [simp]: "bindR m f = Inr y \<longleftrightarrow> (\<exists>x. m = Inr x \<and> f x = Inr y)"
  by (cases m) auto

lemma assertR_eq_Inr [simp]: "assertR b m = Inr y \<longleftrightarrow> b \<and> m = Inr y"
  by (simp add: assertR_def)

lemma bindR_assoc: "bindR (bindR m f) g = bindR m (\<lambda>x. bindR (f x) g)"
  by (cases m) auto

lemma bindR_cong [fundef_cong]:
  "m = m' \<Longrightarrow> (\<And>x. m' = Inr x \<Longrightarrow> f x = f' x) \<Longrightarrow> bindR m f = bindR m' f'"
  by (cases m') auto

lemma assertR_cong [fundef_cong]:
  "b = b' \<Longrightarrow> (b' \<Longrightarrow> m = m') \<Longrightarrow> assertR b m = assertR b' m'"
  by (cases b') auto

text \<open>Routines with a loop that might not end return an option: \<open>None\<close> is not returning.\<close>

definition bindO :: "'a res option \<Rightarrow> ('a \<Rightarrow> 'b res option) \<Rightarrow> 'b res option" where
  "bindO r f = (case r of None \<Rightarrow> None | Some (Inl e) \<Rightarrow> Some (Inl e) | Some (Inr x) \<Rightarrow> f x)"

lemma bindO_simps [simp]: "bindO None f = None" "bindO (Some (Inl e)) f = Some (Inl e)" "bindO (Some (Inr x)) f = f x"
  by (simp_all add: bindO_def)

section \<open>Machine integers\<close>

named_theorems cint \<open>in-range facts about C integers\<close>

definition INT_MIN :: int where "INT_MIN = - (2 ^ 31)"
definition INT_MAX :: int where "INT_MAX = 2 ^ 31 - 1"
definition INT64_MIN :: int where "INT64_MIN = - (2 ^ 63)"
definition INT64_MAX :: int where "INT64_MAX = 2 ^ 63 - 1"

definition s32 :: "int \<Rightarrow> int" where
  "s32 x = (x + 2 ^ 31) mod 2 ^ 32 - 2 ^ 31"

definition s64 :: "int \<Rightarrow> int" where
  "s64 x = (x + 2 ^ 63) mod 2 ^ 64 - 2 ^ 63"

definition u32 :: "int \<Rightarrow> int" where
  "u32 x = x mod 2 ^ 32"

definition in_s32 :: "int \<Rightarrow> bool" where
  "in_s32 x \<longleftrightarrow> - (2 ^ 31) \<le> x \<and> x < 2 ^ 31"

definition in_s64 :: "int \<Rightarrow> bool" where
  "in_s64 x \<longleftrightarrow> - (2 ^ 63) \<le> x \<and> x < 2 ^ 63"

lemma s32_id [cint]: "in_s32 x \<Longrightarrow> s32 x = x"
  by (simp add: s32_def in_s32_def)

lemma s64_id [cint]: "in_s64 x \<Longrightarrow> s64 x = x"
  by (simp add: s64_def in_s64_def)

lemma u32_id [cint]: "0 \<le> x \<Longrightarrow> x < 2 ^ 32 \<Longrightarrow> u32 x = x"
  by (simp add: u32_def)

lemma in_s32_s32 [simp]: "in_s32 (s32 x)"
  by (simp add: s32_def in_s32_def)

lemma in_s64_s64 [simp]: "in_s64 (s64 x)"
  by (simp add: s64_def in_s64_def)

lemma s32_s32 [simp]: "s32 (s32 x) = s32 x"
  by (simp add: s32_id)

lemma in_s32_in_s64: "in_s32 x \<Longrightarrow> in_s64 x"
  by (simp add: in_s32_def in_s64_def)

lemma s32_sint: "s32 x = sint (word_of_int x :: 32 word)"
  by (simp add: s32_def sint_sbintrunc' signed_take_bit_eq_take_bit_shift take_bit_eq_mod)

section \<open>Truncating division\<close>

lemma sdiv_nonneg: "0 \<le> a \<Longrightarrow> 0 < b \<Longrightarrow> a sdiv b = a div (b::int)"
  by (cases "a = 0") (simp_all add: signed_divide_int_def sgn_if)

lemma sdiv_neg: "a < 0 \<Longrightarrow> 0 < b \<Longrightarrow> a sdiv b = - ((- a) div (b::int))"
  by (simp add: signed_divide_int_def)

lemma sdiv_minus: "0 < b \<Longrightarrow> (- a) sdiv b = - (a sdiv (b::int))"
  by (simp add: signed_divide_int_def sgn_if)

lemma sdiv_mono: "a \<le> a' \<Longrightarrow> 0 < b \<Longrightarrow> a sdiv b \<le> a' sdiv (b::int)"
proof -
  assume le: "a \<le> a'" and b: "0 < b"
  consider "0 \<le> a" | "a < 0" "0 \<le> a'" | "a' < 0" by linarith
  then show ?thesis
  proof cases
    case 1
    with le b show ?thesis by (simp add: sdiv_nonneg zdiv_mono1)
  next
    case 2
    have "0 \<le> (- a) div b" and "0 \<le> a' div b"
      using 2 b by (simp_all add: pos_imp_zdiv_nonneg_iff)
    with 2 b show ?thesis by (simp add: sdiv_nonneg sdiv_neg)
  next
    case 3
    with le b have "(- a') div b \<le> (- a) div b" by (simp add: zdiv_mono1)
    with 3 le b show ?thesis by (simp add: sdiv_neg)
  qed
qed

lemma sdiv_mult_self: "0 < b \<Longrightarrow> (a * b) sdiv b = (a::int)"
proof (cases "0 \<le> a")
  case True
  assume "0 < b"
  with True show ?thesis by (simp add: sdiv_nonneg)
next
  case False
  assume b: "0 < b"
  with False have "a * b < 0" by (simp add: mult_neg_pos)
  with b have "(a * b) sdiv b = - ((- a * b) div b)" by (simp add: sdiv_neg)
  also have "\<dots> = a" using b by (subst nonzero_mult_div_cancel_right) auto
  finally show ?thesis .
qed

lemma div_le_self_int: "0 \<le> a \<Longrightarrow> 0 < b \<Longrightarrow> a div b \<le> (a::int)"
  by (metis div_by_1 less_eq_int_code(1) zdiv_mono2 zero_less_one int_one_le_iff_zero_less)

lemma sdiv_abs_le: "0 < b \<Longrightarrow> \<bar>a sdiv b\<bar> \<le> \<bar>a::int\<bar>"
  by (cases "0 \<le> a") (simp_all add: sdiv_nonneg sdiv_neg pos_imp_zdiv_nonneg_iff div_le_self_int)

lemma sdiv_error: "0 < b \<Longrightarrow> \<bar>(a sdiv b) * b - a\<bar> < (b::int)"
proof -
  assume b: "0 < b"
  have eq: "x div b * b = x - x mod b" for x :: int
    by (simp add: minus_mod_eq_div_mult)
  have m: "0 \<le> x mod b \<and> x mod b < b" for x :: int
    using b by simp
  show ?thesis
  proof (cases "0 \<le> a")
    case True
    with b m [of a] show ?thesis by (simp add: sdiv_nonneg eq)
  next
    case False
    with b m [of "- a"] show ?thesis by (simp add: sdiv_neg eq)
  qed
qed

section \<open>The contract of a comparison function\<close>

text \<open>The containers (\<^verbatim>\<open>heap.c\<close>, \<^verbatim>\<open>list.c\<close>, \<^verbatim>\<open>stdlib.c\<close>) are given a comparison function by their
  client. What they rely on is that it is a strict weak order; each comparison function of
  the kernel is an interpretation of this locale.\<close>

locale strict_weak_order =
  fixes lt :: "'a \<Rightarrow> 'a \<Rightarrow> bool"
  assumes lt_asym: "lt a b \<Longrightarrow> \<not> lt b a"
    and lt_neg_trans: "\<not> lt a b \<Longrightarrow> \<not> lt b c \<Longrightarrow> \<not> lt a c"
begin

lemma lt_irrefl: "\<not> lt a a"
  using lt_asym by blast

lemma lt_trans: "lt a b \<Longrightarrow> lt b c \<Longrightarrow> lt a c"
  using lt_asym lt_neg_trans by blast

lemma lt_neg_lt_trans: "\<not> lt b a \<Longrightarrow> lt b c \<Longrightarrow> lt a c"
  using lt_neg_trans by blast

end

end
