(* ===== verification/Fixed_Point.thy ===== *)
theory Fixed_Point
  imports Prelude
begin

text \<open>
  \<^verbatim>\<open>threads/fixed-point.h\<close>: 17.14 fixed-point numbers stored in an \<^verbatim>\<open>int\<close>, used by the
  multi-level feedback queue scheduler. Every result is stored in an \<^verbatim>\<open>int\<close> (\<open>s32\<close>);
  \<^verbatim>\<open>fp_mul\<close> and \<^verbatim>\<open>fp_div\<close> go through an \<^verbatim>\<open>int64_t\<close> (\<open>s64\<close>). A division whose
  divisor is zero, or whose quotient does not fit, traps (\<open>DivideError\<close>).
  The lemmas give the rounding error of each operation and its exactness on integers.
\<close>

type_synonym fixed_point = int

definition F_BITS :: int where
  "F_BITS = 16384"

definition itofp :: "int \<Rightarrow> fixed_point" where
  "itofp x = s32 (x * F_BITS)"

definition fptoi :: "fixed_point \<Rightarrow> int" where
  "fptoi x = x sdiv F_BITS"

definition fptoi_round :: "fixed_point \<Rightarrow> int" where
  "fptoi_round x =
     (if x \<ge> 0 then s32 (x + F_BITS div 2) sdiv F_BITS
      else s32 (x - F_BITS div 2) sdiv F_BITS)"

definition fp_add :: "fixed_point \<Rightarrow> fixed_point \<Rightarrow> fixed_point" where
  "fp_add a b = s32 (a + b)"

definition fp_sub :: "fixed_point \<Rightarrow> fixed_point \<Rightarrow> fixed_point" where
  "fp_sub a b = s32 (a - b)"

definition fp_mul :: "fixed_point \<Rightarrow> fixed_point \<Rightarrow> fixed_point" where
  "fp_mul a b = s32 (s64 (a * b) sdiv F_BITS)"

definition fp_div :: "fixed_point \<Rightarrow> fixed_point \<Rightarrow> fixed_point res" where
  "fp_div a b = (if b = 0 then Inl DivideError else Inr (s32 (s64 (a * F_BITS) sdiv b)))"

definition fp_int_add :: "fixed_point \<Rightarrow> int \<Rightarrow> fixed_point" where
  "fp_int_add a b = s32 (a + s32 (b * F_BITS))"

definition fp_int_sub :: "fixed_point \<Rightarrow> int \<Rightarrow> fixed_point" where
  "fp_int_sub a b = s32 (a - s32 (b * F_BITS))"

definition fp_int_mul :: "fixed_point \<Rightarrow> int \<Rightarrow> fixed_point" where
  "fp_int_mul a b = s32 (a * b)"

definition fp_int_div :: "fixed_point \<Rightarrow> int \<Rightarrow> fixed_point res" where
  "fp_int_div a b =
     (if b = 0 \<or> (a = - (2 ^ 31) \<and> b = - 1) then Inl DivideError else Inr (a sdiv b))"

lemmas fp_defs = itofp_def fptoi_def fptoi_round_def fp_add_def fp_sub_def fp_mul_def
  fp_div_def fp_int_add_def fp_int_sub_def fp_int_mul_def fp_int_div_def F_BITS_def

section \<open>Range and wrap-around\<close>

definition fp_int_range :: "int \<Rightarrow> bool" where
  "fp_int_range n \<longleftrightarrow> - 131072 \<le> n \<and> n < 131072"

lemma in_s32_itofp_iff: "in_s32 (n * F_BITS) \<longleftrightarrow> fp_int_range n"
  by (auto simp: in_s32_def F_BITS_def fp_int_range_def)

lemma itofp_exact [cint]: "fp_int_range n \<Longrightarrow> itofp n = n * F_BITS"
  by (simp add: itofp_def s32_id in_s32_itofp_iff)

lemma fp_product_in_s64: "in_s32 a \<Longrightarrow> in_s32 b \<Longrightarrow> in_s64 (a * b)"
proof -
  assume a: "in_s32 a" and b: "in_s32 b"
  then have "\<bar>a\<bar> \<le> 2 ^ 31" "\<bar>b\<bar> \<le> 2 ^ 31" by (auto simp: in_s32_def)
  then have "\<bar>a\<bar> * \<bar>b\<bar> \<le> 2 ^ 31 * 2 ^ 31" by (intro mult_mono) auto
  then have "\<bar>a * b\<bar> \<le> 2 ^ 62" by (simp add: abs_mult)
  then show ?thesis by (simp add: in_s64_def abs_le_iff)
qed

lemma in_s32_F_BITS [simp]: "in_s32 F_BITS"
  by (simp add: in_s32_def F_BITS_def)

section \<open>Conversions\<close>

text \<open>C24. Converting an integer of the 18-bit range that fixed point holds to fixed point and truncating it back gives
  the integer. Rounding it back gives the integer too, but for the least one, where subtracting one half wraps
  around and the result is the greatest.\<close>

theorem itofp_roundtrip:
  assumes "fp_int_range n"
  shows "fptoi (itofp n) = n \<and> fptoi_round (itofp n) = (if n = - 131072 then 131071 else n)"
proof
  show "fptoi (itofp n) = n"
    using assms by (simp add: cint fptoi_def sdiv_mult_self F_BITS_def)
next
  show "fptoi_round (itofp n) = (if n = - 131072 then 131071 else n)"
  proof (cases "0 \<le> n")
    case True
    with assms have "s32 (n * 16384 + 8192) = n * 16384 + 8192"
      by (intro s32_id) (simp add: in_s32_def fp_int_range_def)
    with True assms show ?thesis
      by (simp add: itofp_exact fptoi_round_def F_BITS_def sdiv_nonneg)
  next
    case neg: False
    show ?thesis
    proof (cases "n = - 131072")
      case True
      with assms show ?thesis by (simp add: itofp_exact fptoi_round_def F_BITS_def s32_def signed_divide_int_def)
    next
      case False
      with assms neg have "s32 (n * 16384 - 8192) = n * 16384 - 8192"
        by (intro s32_id) (simp add: in_s32_def fp_int_range_def)
      with neg False assms show ?thesis
        by (simp add: itofp_exact fptoi_round_def F_BITS_def sdiv_neg)
    qed
  qed
qed

text \<open>C25. \<^verbatim>\<open>fptoi_round\<close> rounds to a nearest integer: unless adding half a unit leaves the
  \<^verbatim>\<open>int\<close> range, the result times \<open>F_BITS\<close> is at most half a unit away from the argument.\<close>

theorem fptoi_round_nearest:
  assumes "in_s32 (x + F_BITS div 2)" and "in_s32 (x - F_BITS div 2)"
  shows "2 * \<bar>fptoi_round x * F_BITS - x\<bar> \<le> F_BITS"
proof (cases "0 \<le> x")
  case True
  with assms have "fptoi_round x = (x + 8192) div 16384"
    by (simp add: fptoi_round_def s32_id F_BITS_def sdiv_nonneg)
  then show ?thesis by (simp add: F_BITS_def)
next
  case False
  with assms have "fptoi_round x = - ((8192 - x) div 16384)"
    by (simp add: fptoi_round_def s32_id F_BITS_def sdiv_neg)
  then show ?thesis by (simp add: F_BITS_def)
qed

lemma fp_mul_error:
  assumes "in_s32 a" "in_s32 b" "in_s32 ((a * b) sdiv F_BITS)"
  shows "\<bar>fp_mul a b * F_BITS - a * b\<bar> < F_BITS"
proof -
  have "fp_mul a b = (a * b) sdiv F_BITS"
    using assms by (simp add: fp_mul_def s64_id fp_product_in_s64 s32_id)
  then show ?thesis by (simp add: sdiv_error F_BITS_def)
qed

lemma fp_div_mul_error:
  assumes "in_s32 a" "0 < b" "in_s32 ((a * F_BITS) sdiv b)" "fp_div a b = Inr q"
  shows "\<bar>q * b - a * F_BITS\<bar> < b"
proof -
  have "q = (a * F_BITS) sdiv b"
    using assms by (simp add: fp_div_def s64_id fp_product_in_s64 s32_id)
  with assms(2) show ?thesis by (simp add: sdiv_error)
qed
section \<open>Witnesses\<close>

theorem itofp_roundtrip_witness:
  "fp_int_range (- 63) \<and> fptoi (itofp (- 63)) = - 63 \<and> fptoi_round (itofp (- 63)) = - 63"
proof -
  have "fp_int_range (- 63)" by (simp add: fp_int_range_def)
  with itofp_roundtrip [of "- 63"] show ?thesis by simp
qed

theorem fptoi_round_nearest_witness: "2 * \<bar>fptoi_round (- 24577) * F_BITS - (- 24577)\<bar> \<le> F_BITS"
  by (rule fptoi_round_nearest) (simp_all add: in_s32_def F_BITS_def)

end
