(* ===== verification/Heap.thy ===== *)
theory Heap
  imports Prelude
begin

text \<open>
  \<^verbatim>\<open>lib/kernel/heap.c\<close> and \<^verbatim>\<open>lib/kernel/heap.h\<close>: the binary max-heap behind the ready queue
  and the queue of sleeping threads. \<^verbatim>\<open>struct heap\<close> is a record; \<^verbatim>\<open>elems\<close> is a function
  on array indices, of which the heap uses \<open>1 \<dots> size\<close>. The comparison function reads the
  compared objects through pointers, so the field \<open>hp_less\<close> takes the memory \<open>'m\<close> the
  objects live in, and every operation that compares takes that memory.

  The contract of a comparison function is the locale \<open>strict_weak_order\<close>;
  inside it the sift operations are proved to restore the heap order, and pushing, popping
  and rebuilding are proved to keep the multiset of elements and to return a maximum.
\<close>

unbundle bit_operations_syntax

definition MAX_HEAP_SIZE :: nat where
  "MAX_HEAP_SIZE = 2048"

record ('m, 'a) heap =
  hp_size :: nat
  hp_elems :: "nat \<Rightarrow> 'a"
  hp_less :: "'m \<Rightarrow> 'a \<Rightarrow> 'a \<Rightarrow> bool"
  hp_push_cnt :: int

definition swap_elems :: "('m, 'a) heap \<Rightarrow> nat \<Rightarrow> nat \<Rightarrow> ('m, 'a) heap" where
  "swap_elems h i j =
     h\<lparr>hp_elems := (hp_elems h)(i := hp_elems h j, j := hp_elems h i)\<rparr>"

definition heap_init :: "('m, 'a) heap \<Rightarrow> ('m \<Rightarrow> 'a \<Rightarrow> 'a \<Rightarrow> bool) \<Rightarrow> ('m, 'a) heap" where
  "heap_init h lt = h\<lparr>hp_size := 0, hp_less := lt, hp_push_cnt := 0\<rparr>"

definition heap_size :: "('m, 'a) heap \<Rightarrow> nat" where
  "heap_size h = hp_size h"

definition heap_empty :: "('m, 'a) heap \<Rightarrow> bool" where
  "heap_empty h \<longleftrightarrow> hp_size h = 0"

definition heap_top :: "('m, 'a) heap \<Rightarrow> 'a res" where
  "heap_top h = assertR (\<not> heap_empty h) (Inr (hp_elems h 1))"

definition heap_entry_count :: "('m, 'a) heap \<Rightarrow> int \<times> ('m, 'a) heap" where
  "heap_entry_count h = (hp_push_cnt h, h\<lparr>hp_push_cnt := s64 (hp_push_cnt h + 1)\<rparr>)"

lemma drop_bit_Suc_0 [simp]: "drop_bit (Suc 0) (n::nat) = n div 2"
  by (simp add: drop_bit_eq_div)

lemma push_bit_Suc_0 [simp]: "push_bit (Suc 0) (n::nat) = 2 * n"
  by (simp add: push_bit_eq_mult)

lemma double_OR_1 [simp]: "(2 * n) OR Suc 0 = Suc (2 * (n::nat))"
  by (simp add: or_Suc_0_eq)

text \<open>The loop of \<^verbatim>\<open>up_heap\<close>: \<^verbatim>\<open>index >>= 1\<close> runs after each swap.\<close>

fun up_heap :: "'m \<Rightarrow> ('m, 'a) heap \<Rightarrow> nat \<Rightarrow> ('m, 'a) heap" where
  "up_heap m h index =
     (if index > 1 then
        if hp_less h m (hp_elems h (drop_bit 1 index)) (hp_elems h index)
        then up_heap m (swap_elems h (drop_bit 1 index) index) (drop_bit 1 index)
        else h
      else h)"

declare up_heap.simps [simp del]

text \<open>The child that \<^verbatim>\<open>down_heap\<close> compares with: the left one, or the right one when it
  exists and is greater.\<close>

definition larger_child :: "'m \<Rightarrow> ('m, 'a) heap \<Rightarrow> nat \<Rightarrow> nat" where
  "larger_child m h index =
     (let ch = push_bit 1 index
      in ch + of_bool (ch < hp_size h \<and> hp_less h m (hp_elems h ch) (hp_elems h (ch OR 1))))"

lemma larger_child_eq:
  "larger_child m h i =
     (if 2 * i < hp_size h \<and> hp_less h m (hp_elems h (2 * i)) (hp_elems h (Suc (2 * i)))
      then Suc (2 * i) else 2 * i)"
  by (simp add: larger_child_def Let_def mult.commute [of i 2])

lemma larger_child_ge: "2 * index \<le> larger_child m h index"
  by (simp add: larger_child_def push_bit_eq_mult Let_def)

text \<open>Elements are numbered from 1 and \<^verbatim>\<open>down_heap\<close> is called with \<^verbatim>\<open>index >= 1\<close> only;
  index 0 is no position of the heap, and the model leaves the heap as it is there.\<close>

function down_heap :: "'m \<Rightarrow> ('m, 'a) heap \<Rightarrow> nat \<Rightarrow> ('m, 'a) heap" where
  "down_heap m h index =
     (if index \<noteq> 0 \<and> push_bit 1 index \<le> hp_size h then
        let ch = larger_child m h index
        in if hp_less h m (hp_elems h index) (hp_elems h ch)
           then down_heap m (swap_elems h index ch) ch
           else h
      else h)"
  by pat_completeness auto
termination
proof (relation "measure (\<lambda>(m, h, index). hp_size h - index)", goal_cases)
  case 1
  show ?case by simp
next
  case (2 m h index ch)
  then show ?case
    using larger_child_ge [of index m h] by (auto simp: swap_elems_def push_bit_eq_mult)
qed

declare down_heap.simps [simp del]

text \<open>\<^verbatim>\<open>heap_rebuild\<close> sifts down from the last position to the first.\<close>

fun rebuild_loop :: "'m \<Rightarrow> ('m, 'a) heap \<Rightarrow> nat \<Rightarrow> ('m, 'a) heap" where
  "rebuild_loop m h 0 = h"
| "rebuild_loop m h (Suc i) = rebuild_loop m (down_heap m h (Suc i)) i"

definition heap_rebuild :: "'m \<Rightarrow> ('m, 'a) heap \<Rightarrow> ('m, 'a) heap" where
  "heap_rebuild m h = rebuild_loop m h (hp_size h)"

text \<open>The assertion of \<^verbatim>\<open>heap_push\<close> lets the size reach \<open>MAX_HEAP_SIZE\<close>, but the array has
  the indices \<open>0 \<dots> MAX_HEAP_SIZE - 1\<close>: the write of the last element is out of bounds.\<close>

definition heap_push :: "'m \<Rightarrow> ('m, 'a) heap \<Rightarrow> 'a \<Rightarrow> ('m, 'a) heap res" where
  "heap_push m h e =
     assertR (hp_size h + 1 \<le> MAX_HEAP_SIZE)
       (let n = hp_size h + 1
        in if n < MAX_HEAP_SIZE
           then Inr (up_heap m (h\<lparr>hp_size := n, hp_elems := (hp_elems h)(n := e)\<rparr>) n)
           else Inl OutOfBounds)"

definition heap_pop :: "'m \<Rightarrow> ('m, 'a) heap \<Rightarrow> ('a \<times> ('m, 'a) heap) res" where
  "heap_pop m h =
     assertR (\<not> heap_empty h)
       (bindR (heap_top h) (\<lambda>top.
          let h = swap_elems h 1 (hp_size h);
              h = h\<lparr>hp_size := hp_size h - 1\<rparr>
          in Inr (top, down_heap m h 1)))"

section \<open>Contents and heap order\<close>

definition heap_list :: "('m, 'a) heap \<Rightarrow> 'a list" where
  "heap_list h = map (hp_elems h) [1..<Suc (hp_size h)]"

definition heap_mset :: "('m, 'a) heap \<Rightarrow> 'a multiset" where
  "heap_mset h = mset (heap_list h)"

definition heap_ordered :: "'m \<Rightarrow> ('m, 'a) heap \<Rightarrow> bool" where
  "heap_ordered m h \<longleftrightarrow>
     (\<forall>i. 2 \<le> i \<and> i \<le> hp_size h \<longrightarrow> \<not> hp_less h m (hp_elems h (i div 2)) (hp_elems h i))"

definition heap_fits :: "('m, 'a) heap \<Rightarrow> bool" where
  "heap_fits h \<longleftrightarrow> hp_size h < MAX_HEAP_SIZE"

lemma swap_elems_simps [simp]:
  "hp_size (swap_elems h i j) = hp_size h"
  "hp_less (swap_elems h i j) = hp_less h"
  "hp_push_cnt (swap_elems h i j) = hp_push_cnt h"
  "hp_elems (swap_elems h i j) = (hp_elems h)(i := hp_elems h j, j := hp_elems h i)"
  by (simp_all add: swap_elems_def)

lemma length_heap_list [simp]: "length (heap_list h) = hp_size h"
  by (simp add: heap_list_def)

lemma nth_heap_list: "k < hp_size h \<Longrightarrow> heap_list h ! k = hp_elems h (Suc k)"
  by (simp add: heap_list_def del: upt_Suc)

lemma heap_mset_swap:
  assumes "1 \<le> i" "i \<le> hp_size h" "1 \<le> j" "j \<le> hp_size h"
  shows "heap_mset (swap_elems h i j) = heap_mset h"
proof -
  let ?xs = "heap_list h"
  have "heap_list (swap_elems h i j) = ?xs[i - 1 := ?xs ! (j - 1), j - 1 := ?xs ! (i - 1)]"
  proof (rule nth_equalityI)
    fix k
    assume "k < length (heap_list (swap_elems h i j))"
    with assms show "heap_list (swap_elems h i j) ! k
        = ?xs[i - 1 := ?xs ! (j - 1), j - 1 := ?xs ! (i - 1)] ! k"
      by (cases i; cases j) (auto simp: nth_heap_list nth_list_update)
  qed simp
  then show ?thesis
    using assms by (simp add: heap_mset_def mset_swap)
qed

lemma up_heap_frame [simp]:
  "hp_size (up_heap m h i) = hp_size h" "hp_less (up_heap m h i) = hp_less h"
  "hp_push_cnt (up_heap m h i) = hp_push_cnt h"
  by (induction m h i rule: up_heap.induct; subst up_heap.simps; simp)+

lemma down_heap_frame [simp]:
  "hp_size (down_heap m h i) = hp_size h" "hp_less (down_heap m h i) = hp_less h"
  "hp_push_cnt (down_heap m h i) = hp_push_cnt h"
  by (induction m h i rule: down_heap.induct; subst down_heap.simps; simp add: Let_def)+

lemma larger_child_le: "2 * i \<le> hp_size h \<Longrightarrow> larger_child m h i \<le> hp_size h"
  by (simp add: larger_child_def Let_def of_bool_def)

lemma larger_child_half [simp]: "larger_child m h i div 2 = i"
  by (simp add: larger_child_def Let_def of_bool_def)

lemma heap_mset_up_heap: "i \<le> hp_size h \<Longrightarrow> heap_mset (up_heap m h i) = heap_mset h"
proof (induction m h i rule: up_heap.induct)
  case (1 m h i)
  then show ?case
    by (subst up_heap.simps) (auto simp: heap_mset_swap)
qed

lemma heap_mset_down_heap: "heap_mset (down_heap m h i) = heap_mset h"
proof (induction m h i rule: down_heap.induct)
  case (1 m h i)
  then show ?case
    using larger_child_ge [of i m h] larger_child_le [of i h m]
    by (subst down_heap.simps) (auto simp: Let_def heap_mset_swap)
qed

section \<open>The contract of a comparison function\<close>

definition ordered_from :: "'m \<Rightarrow> ('m, 'a) heap \<Rightarrow> nat \<Rightarrow> nat \<Rightarrow> bool" where
  "ordered_from m h k i \<longleftrightarrow>
     (\<forall>j. 2 \<le> j \<and> j \<le> hp_size h \<and> k \<le> j div 2 \<and> j div 2 \<noteq> i \<longrightarrow>
          \<not> hp_less h m (hp_elems h (j div 2)) (hp_elems h j))"

context strict_weak_order
begin

lemma up_heap_ordered:
  assumes "hp_less h m = lt" "1 \<le> i"
    and "\<And>j. 2 \<le> j \<Longrightarrow> j \<le> hp_size h \<Longrightarrow> j \<noteq> i \<Longrightarrow> \<not> lt (hp_elems h (j div 2)) (hp_elems h j)"
    and "\<And>j. 2 \<le> i \<Longrightarrow> j \<le> hp_size h \<Longrightarrow> j div 2 = i \<Longrightarrow> \<not> lt (hp_elems h (i div 2)) (hp_elems h j)"
    and "i \<le> hp_size h"
  shows "heap_ordered m (up_heap m h i)"
  using assms
proof (induction m h i rule: up_heap.induct)
  case (1 m h i)
  note A = "1.prems"(3) and B = "1.prems"(4)
  let ?p = "i div 2" and ?e = "hp_elems h"
  show ?case
  proof (cases "1 < i \<and> lt (?e ?p) (?e i)")
    case False
    have "\<not> lt (?e (j div 2)) (?e j)" if "2 \<le> j" "j \<le> hp_size h" for j
      using False A that by (cases "j = i") auto
    then have "heap_ordered m h" using "1.prems"(1) by (simp add: heap_ordered_def)
    with False "1.prems"(1) show ?thesis by (subst up_heap.simps) auto
  next
    case True
    let ?h = "swap_elems h ?p i"
    have p: "1 \<le> ?p" "?p < i" "?p \<noteq> i" using True by auto
    have half: "j div 2 \<noteq> j" if "2 \<le> j" for j :: nat using that by auto
    have A': "\<not> lt (hp_elems ?h (j div 2)) (hp_elems ?h j)"
      if j: "2 \<le> j" "j \<le> hp_size h" "j \<noteq> ?p" for j
    proof -
      consider "j = i" | "j div 2 = i" "j \<noteq> i" | "j \<noteq> i" "j div 2 = ?p" | "j \<noteq> i" "j div 2 \<noteq> i" "j div 2 \<noteq> ?p"
        by blast
      then show ?thesis
      proof cases
        case 1
        then show ?thesis using True p lt_asym by auto
      next
        case 2
        then show ?thesis using B j True p by auto
      next
        case 3
        have "\<not> lt (?e ?p) (?e j)" using A [OF j(1,2) 3(1)] 3 by simp
        then show ?thesis using 3 j p True lt_trans by auto
      next
        case 4
        then show ?thesis using A [OF j(1,2)] j by auto
      qed
    qed
    have B': "\<not> lt (hp_elems ?h (?p div 2)) (hp_elems ?h j)"
      if j: "2 \<le> ?p" "j \<le> hp_size h" "j div 2 = ?p" for j
    proof -
      have pp: "\<not> lt (?e (?p div 2)) (?e ?p)" using A [of ?p] j p "1.prems"(5) by simp
      have ne: "?p div 2 \<noteq> ?p" "?p div 2 \<noteq> i" "j \<noteq> ?p" using j p by auto
      show ?thesis
      proof (cases "j = i")
        case True
        then show ?thesis using pp ne by simp
      next
        case False
        have "\<not> lt (?e ?p) (?e j)" using A [of j] False j by auto
        then show ?thesis using pp ne False lt_neg_trans by auto
      qed
    qed
    have "heap_ordered m (up_heap m ?h ?p)"
      using "1.IH" True "1.prems"(1,5) A' B' p by simp
    then show ?thesis using True "1.prems"(1) by (subst up_heap.simps) simp
  qed
qed

lemma larger_child_max:
  assumes "hp_less h m = lt" "j \<le> hp_size h" "j div 2 = i" "1 \<le> i"
  shows "\<not> lt (hp_elems h (larger_child m h i)) (hp_elems h j)"
proof -
  have irrefl: "\<not> lt a a" for a using lt_asym by blast
  consider "j = 2 * i" | "j = Suc (2 * i)" using assms(3) by linarith
  then show ?thesis
    using assms(1,2) irrefl lt_asym by cases (auto simp: larger_child_eq)
qed

lemma down_heap_ordered:
  assumes "hp_less h m = lt" "1 \<le> k" "k \<le> i" "ordered_from m h k i"
    and "\<And>j. k \<le> i div 2 \<Longrightarrow> j \<le> hp_size h \<Longrightarrow> j div 2 = i \<Longrightarrow> \<not> lt (hp_elems h (i div 2)) (hp_elems h j)"
  shows "ordered_from m (down_heap m h i) k 0"
  using assms
proof (induction m h i rule: down_heap.induct)
  case (1 m h i)
  let ?e = "hp_elems h" and ?c = "larger_child m h i"
  have lt: "hp_less h m = lt" and k: "1 \<le> k" "k \<le> i" using "1.prems" by auto
  have A: "\<not> lt (?e (j div 2)) (?e j)"
    if "2 \<le> j" "j \<le> hp_size h" "k \<le> j div 2" "j div 2 \<noteq> i" for j
    using "1.prems"(4) that lt by (simp add: ordered_from_def)
  note B = "1.prems"(5)
  note max = larger_child_max [OF lt]
  show ?case
  proof (cases "2 * i \<le> hp_size h \<and> lt (?e i) (?e ?c)")
    case False
    have "\<not> lt (?e (j div 2)) (?e j)" if j: "2 \<le> j" "j \<le> hp_size h" "k \<le> j div 2" for j
    proof (cases "j div 2 = i")
      case True
      then have "\<not> lt (?e i) (?e ?c)" using False j by auto
      moreover have "\<not> lt (?e ?c) (?e j)" using max j True k by auto
      ultimately show ?thesis using True lt_neg_trans by auto
    qed (use A j in auto)
    then have "ordered_from m h k 0" using lt by (simp add: ordered_from_def)
    with False lt show ?thesis by (subst down_heap.simps) (auto simp: Let_def)
  next
    case True
    let ?h = "swap_elems h i ?c"
    have c: "?c div 2 = i" "i < ?c" "?c \<le> hp_size h" "?c \<noteq> i"
      using larger_child_ge [of i m h] larger_child_le [of i h m] True k by auto
    have "ordered_from m ?h k ?c"
      unfolding ordered_from_def
    proof (intro allI impI)
      fix j
      assume "2 \<le> j \<and> j \<le> hp_size ?h \<and> k \<le> j div 2 \<and> j div 2 \<noteq> ?c"
      then have j: "2 \<le> j" "j \<le> hp_size h" "k \<le> j div 2" "j div 2 \<noteq> ?c" by auto
      consider "j = ?c" | "j \<noteq> ?c" "j div 2 = i" | "j = i" | "j \<noteq> ?c" "j \<noteq> i" "j div 2 \<noteq> i" by blast
      then show "\<not> hp_less ?h m (hp_elems ?h (j div 2)) (hp_elems ?h j)"
      proof cases
        case 1
        then show ?thesis using True c lt_asym lt by auto
      next
        case 2
        then show ?thesis using max [OF j(2) 2(2)] k lt c by auto
      next
        case 3
        then show ?thesis using B [of ?c] j c lt by auto
      next
        case 4
        then show ?thesis using A [OF j(1-3)] j lt c by auto
      qed
    qed
    moreover have "\<not> lt (hp_elems ?h (?c div 2)) (hp_elems ?h j)"
      if "j \<le> hp_size h" "j div 2 = ?c" for j
      using A [of j] that c k by auto
    ultimately have "ordered_from m (down_heap m ?h ?c) k 0"
      using "1.IH" True lt k c by simp
    then show ?thesis using True lt k by (subst down_heap.simps) (simp add: Let_def)
  qed
qed


lemma heap_ordered_from: "heap_ordered m h \<longleftrightarrow> ordered_from m h 1 0"
  by (auto simp: heap_ordered_def ordered_from_def)

lemma heap_root_max:
  assumes "hp_less h m = lt" "heap_ordered m h" "1 \<le> i" "i \<le> hp_size h"
  shows "\<not> lt (hp_elems h 1) (hp_elems h i)"
  using assms(3,4)
proof (induction i rule: less_induct)
  case (less i)
  show ?case
  proof (cases "i = 1")
    case True
    then show ?thesis using lt_asym by auto
  next
    case False
    then have "\<not> lt (hp_elems h 1) (hp_elems h (i div 2))" using less by auto
    moreover have "\<not> lt (hp_elems h (i div 2)) (hp_elems h i)"
      using assms(1,2) less.prems False by (auto simp: heap_ordered_def)
    ultimately show ?thesis by (rule lt_neg_trans)
  qed
qed

end

text \<open>What the operations do to the contents does not depend on the order.\<close>

lemma heap_push_contents:
  assumes "heap_push m h x = Inr h'"
  shows "heap_mset h' = add_mset x (heap_mset h)" "hp_size h' = Suc (hp_size h)"
    "hp_less h' = hp_less h" "hp_push_cnt h' = hp_push_cnt h"
proof -
  let ?n = "Suc (hp_size h)"
  let ?h = "h\<lparr>hp_size := ?n, hp_elems := (hp_elems h)(?n := x)\<rparr>"
  have h': "h' = up_heap m ?h ?n"
    using assms by (auto simp: heap_push_def Let_def split: if_splits)
  show "heap_mset h' = add_mset x (heap_mset h)"
    unfolding h'
    by (subst heap_mset_up_heap) (auto simp: heap_mset_def heap_list_def intro!: arg_cong [where f = mset])
  show "hp_size h' = Suc (hp_size h)" "hp_less h' = hp_less h" "hp_push_cnt h' = hp_push_cnt h"
    unfolding h' by simp_all
qed

lemma heap_pop_contents:
  assumes "heap_pop m h = Inr (x, h')"
  shows "heap_mset h = add_mset x (heap_mset h')" "hp_size h = Suc (hp_size h')"
    "hp_less h' = hp_less h" "hp_push_cnt h' = hp_push_cnt h" "x = hp_elems h 1"
proof -
  let ?n = "hp_size h"
  let ?s = "swap_elems h 1 ?n"
  let ?h = "?s\<lparr>hp_size := ?n - 1\<rparr>"
  have n: "1 \<le> ?n" and x: "x = hp_elems h 1" and h': "h' = down_heap m ?h 1"
    using assms by (auto simp: heap_pop_def heap_top_def heap_empty_def Let_def)
  have "heap_mset h = heap_mset ?s" using n by (simp add: heap_mset_swap)
  also have "heap_list ?s = heap_list ?h @ [hp_elems h 1]"
    using n by (cases ?n) (auto simp: heap_list_def)
  then have "heap_mset ?s = add_mset x (heap_mset ?h)" by (simp add: heap_mset_def x)
  finally show "heap_mset h = add_mset x (heap_mset h')"
    by (simp add: heap_mset_down_heap h')
  show "hp_size h = Suc (hp_size h')" using n by (simp add: h')
  show "hp_less h' = hp_less h" "hp_push_cnt h' = hp_push_cnt h" by (simp_all add: h')
  show "x = hp_elems h 1" by (rule x)
qed

context strict_weak_order
begin

lemma heap_push_ok:
  assumes "hp_less h m = lt" "heap_ordered m h" "hp_size h + 1 < MAX_HEAP_SIZE"
  shows "\<exists>h'. heap_push m h x = Inr h' \<and> heap_ordered m h' \<and> heap_mset h' = add_mset x (heap_mset h)
           \<and> hp_size h' = hp_size h + 1 \<and> hp_less h' = hp_less h \<and> hp_push_cnt h' = hp_push_cnt h"
proof -
  let ?n = "Suc (hp_size h)"
  let ?h = "h\<lparr>hp_size := ?n, hp_elems := (hp_elems h)(?n := x)\<rparr>"
  have "heap_ordered m (up_heap m ?h ?n)"
    using assms(1,2) by (intro up_heap_ordered) (auto simp: heap_ordered_def)
  moreover have "heap_push m h x = Inr (up_heap m ?h ?n)"
    using assms(3) by (simp add: heap_push_def Let_def)
  ultimately show ?thesis
    using heap_push_contents [of m h x "up_heap m ?h ?n"] by (simp del: up_heap.simps)
qed

lemma heap_pop_ok:
  assumes "hp_less h m = lt" "heap_ordered m h" "\<not> heap_empty h"
  shows "\<exists>h'. heap_pop m h = Inr (hp_elems h 1, h') \<and> heap_ordered m h'
           \<and> heap_mset h = add_mset (hp_elems h 1) (heap_mset h')
           \<and> (\<forall>x \<in># heap_mset h. \<not> lt (hp_elems h 1) x)
           \<and> hp_size h' = hp_size h - 1 \<and> hp_less h' = hp_less h \<and> hp_push_cnt h' = hp_push_cnt h"
proof -
  let ?h = "(swap_elems h 1 (hp_size h))\<lparr>hp_size := hp_size h - 1\<rparr>"
  have "ordered_from m (down_heap m ?h 1) 1 0"
    using assms(1,2) by (intro down_heap_ordered) (auto simp: heap_ordered_def ordered_from_def)
  moreover have "heap_pop m h = Inr (hp_elems h 1, down_heap m ?h 1)"
    using assms(3) by (simp add: heap_pop_def heap_top_def Let_def)
  moreover have "\<not> lt (hp_elems h 1) x" if "x \<in># heap_mset h" for x
    using that heap_root_max [OF assms(1,2)] by (auto simp: heap_mset_def heap_list_def)
  ultimately show ?thesis
    using heap_pop_contents(1-4) [of m h "hp_elems h 1" "down_heap m ?h 1"]
    by (simp add: heap_ordered_from)
qed

lemma rebuild_loop_ordered:
  "hp_less h m = lt \<Longrightarrow> ordered_from m h (Suc i) 0 \<Longrightarrow> ordered_from m (rebuild_loop m h i) 1 0"
proof (induction i arbitrary: h)
  case 0
  then show ?case by simp
next
  case (Suc i)
  have "ordered_from m (down_heap m h (Suc i)) (Suc i) 0"
    using Suc.prems by (intro down_heap_ordered) (auto simp: ordered_from_def)
  then show ?case using Suc by simp
qed

lemma heap_rebuild_ordered: "hp_less h m = lt \<Longrightarrow> heap_ordered m (heap_rebuild m h)"
  unfolding heap_rebuild_def heap_ordered_from
  by (rule rebuild_loop_ordered) (auto simp: ordered_from_def)

end

lemma rebuild_loop_frame [simp]:
  "hp_size (rebuild_loop m h i) = hp_size h" "hp_less (rebuild_loop m h i) = hp_less h"
  "hp_push_cnt (rebuild_loop m h i) = hp_push_cnt h" "heap_mset (rebuild_loop m h i) = heap_mset h"
  by (induction i arbitrary: h) (simp_all add: heap_mset_down_heap)

lemma heap_rebuild_frame [simp]:
  "hp_size (heap_rebuild m h) = hp_size h" "hp_less (heap_rebuild m h) = hp_less h"
  "hp_push_cnt (heap_rebuild m h) = hp_push_cnt h" "heap_mset (heap_rebuild m h) = heap_mset h"
  by (simp_all add: heap_rebuild_def)

section \<open>What the heap promises\<close>

text \<open>C18. Popping a non-empty ordered heap, for any comparison that is a strict weak order,
  returns an element that no element of the heap exceeds, removes exactly that element and
  leaves the rest ordered.\<close>

theorem heap_pop_max:
  assumes "strict_weak_order (hp_less h m)" "heap_ordered m h" "\<not> heap_empty h"
  shows "\<exists>top h'. heap_pop m h = Inr (top, h') \<and> heap_ordered m h'
           \<and> heap_mset h = add_mset top (heap_mset h')
           \<and> (\<forall>x \<in># heap_mset h. \<not> hp_less h m top x)"
  using strict_weak_order.heap_pop_ok [OF assms(1) refl assms(2,3)] by blast

text \<open>C19. \<^verbatim>\<open>heap_rebuild\<close> orders any array: whatever the order of the elements was before, the
  result is ordered and holds the same elements.\<close>

theorem heap_rebuild_correct:
  assumes "strict_weak_order (hp_less h m)"
  shows "heap_ordered m (heap_rebuild m h) \<and> heap_mset (heap_rebuild m h) = heap_mset h"
  using strict_weak_order.heap_rebuild_ordered [OF assms refl] by simp

text \<open>C20. \<^verbatim>\<open>heap_push\<close> on an ordered heap with room keeps the order and adds the element; with
  \<open>MAX_HEAP_SIZE - 1\<close> elements its assertion still holds and the element is written
  behind the array.\<close>

theorem heap_push_correct:
  assumes "strict_weak_order (hp_less h m)" "heap_ordered m h"
  shows "(hp_size h + 1 < MAX_HEAP_SIZE \<longrightarrow>
            (\<exists>h'. heap_push m h x = Inr h' \<and> heap_ordered m h'
               \<and> heap_mset h' = add_mset x (heap_mset h)))
       \<and> (hp_size h + 1 = MAX_HEAP_SIZE \<longrightarrow> heap_push m h x = Inl OutOfBounds)
       \<and> (hp_size h + 1 > MAX_HEAP_SIZE \<longrightarrow> heap_push m h x = Inl Assertion)"
  using strict_weak_order.heap_push_ok [OF assms(1) refl assms(2), of x]
  by (auto simp: heap_push_def)

section \<open>Witnesses\<close>

definition sample_heap :: "(unit, int) heap" where
  "sample_heap = \<lparr>hp_size = 3, hp_elems = (\<lambda>i. if i = 1 then 5 else if i = 2 then 9 else 7),
     hp_less = (\<lambda>_ a b. a < b), hp_push_cnt = 0\<rparr>"

interpretation int_less: strict_weak_order "(<) :: int \<Rightarrow> int \<Rightarrow> bool"
  by unfold_locales auto

lemma sample_heap_less: "strict_weak_order (hp_less sample_heap ())"
  using int_less.strict_weak_order_axioms by (simp add: sample_heap_def)

theorem heap_rebuild_correct_witness:
  "heap_ordered () (heap_rebuild () sample_heap)
   \<and> heap_mset (heap_rebuild () sample_heap) = heap_mset sample_heap
   \<and> hp_elems (heap_rebuild () sample_heap) 1 = 9"
  using heap_rebuild_correct [OF sample_heap_less]
  by (simp add: heap_rebuild_def sample_heap_def numeral_eq_Suc down_heap.simps larger_child_eq)

lemma rebuilt_sample:
  "heap_ordered () (heap_rebuild () sample_heap)" "hp_size (heap_rebuild () sample_heap) = 3"
  "strict_weak_order (hp_less (heap_rebuild () sample_heap) ())"
  using strict_weak_order.heap_rebuild_ordered [OF sample_heap_less refl] sample_heap_less
  by (simp_all add: sample_heap_def)

theorem heap_pop_max_witness:
  "\<exists>top h'. heap_pop () (heap_rebuild () sample_heap) = Inr (top, h') \<and> heap_ordered () h'
     \<and> heap_mset (heap_rebuild () sample_heap) = add_mset top (heap_mset h')"
  using heap_pop_max [OF rebuilt_sample(3,1)] rebuilt_sample(2) by (auto simp: heap_empty_def)

theorem heap_push_correct_witness:
  "\<exists>h'. heap_push () (heap_rebuild () sample_heap) 8 = Inr h' \<and> heap_ordered () h'
     \<and> heap_mset h' = add_mset 8 (heap_mset sample_heap)"
  using heap_push_correct [OF rebuilt_sample(3,1), of 8] rebuilt_sample(2)
  by (simp add: MAX_HEAP_SIZE_def)

end
