(* ===== verification/Kernel_List.thy ===== *)
theory Kernel_List
  imports Prelude
begin

text \<open>
  \<^verbatim>\<open>lib/kernel/list.c\<close> and \<^verbatim>\<open>list.h\<close>: doubly linked lists with two header elements. Memory is a
  map from addresses to \<^verbatim>\<open>struct list_elem\<close>s; \<^verbatim>\<open>NULL\<close> is address 0. A \<^verbatim>\<open>struct list\<close> at
  address \<open>l\<close> has its head element at \<open>l\<close> and its tail element behind it. Each C
  function is one definition on the memory, with its pointer assignments in the order of the
  source. A loop that follows links is a \<^theory_text>\<open>partial_function\<close>: \<open>None\<close> means that it does
  not end (a cyclic structure), and the theorems show that on a well-formed list it ends.

  The abstraction is \<open>dlist \<sigma> l xs\<close>: in memory \<open>\<sigma>\<close> the list at \<open>l\<close> holds the elements
  \<open>xs\<close>, in this order. The refinement lemmas say what each operation does to \<open>xs\<close>.
\<close>

type_synonym ptr = nat

record list_elem =
  le_prev :: ptr
  le_next :: ptr

type_synonym lmem = "ptr \<Rightarrow> list_elem"
type_synonym less_func = "ptr \<Rightarrow> ptr \<Rightarrow> bool"

definition tail_of :: "ptr \<Rightarrow> ptr" where
  "tail_of l = l + 8"

definition set_prev :: "lmem \<Rightarrow> ptr \<Rightarrow> ptr \<Rightarrow> lmem" where
  "set_prev \<sigma> p v = \<sigma>(p := (\<sigma> p)\<lparr>le_prev := v\<rparr>)"

definition set_next :: "lmem \<Rightarrow> ptr \<Rightarrow> ptr \<Rightarrow> lmem" where
  "set_next \<sigma> p v = \<sigma>(p := (\<sigma> p)\<lparr>le_next := v\<rparr>)"

definition is_head :: "lmem \<Rightarrow> ptr \<Rightarrow> bool" where
  "is_head \<sigma> e \<longleftrightarrow> e \<noteq> 0 \<and> le_prev (\<sigma> e) = 0 \<and> le_next (\<sigma> e) \<noteq> 0"

definition is_interior :: "lmem \<Rightarrow> ptr \<Rightarrow> bool" where
  "is_interior \<sigma> e \<longleftrightarrow> e \<noteq> 0 \<and> le_prev (\<sigma> e) \<noteq> 0 \<and> le_next (\<sigma> e) \<noteq> 0"

definition is_tail :: "lmem \<Rightarrow> ptr \<Rightarrow> bool" where
  "is_tail \<sigma> e \<longleftrightarrow> e \<noteq> 0 \<and> le_prev (\<sigma> e) \<noteq> 0 \<and> le_next (\<sigma> e) = 0"

definition list_init :: "lmem \<Rightarrow> ptr \<Rightarrow> lmem res" where
  "list_init \<sigma> l = assertR (l \<noteq> 0)
     (let \<sigma> = set_prev \<sigma> l 0;
          \<sigma> = set_next \<sigma> l (tail_of l);
          \<sigma> = set_prev \<sigma> (tail_of l) l;
          \<sigma> = set_next \<sigma> (tail_of l) 0
      in Inr \<sigma>)"

section \<open>Traversal\<close>

definition list_begin :: "lmem \<Rightarrow> ptr \<Rightarrow> ptr res" where
  "list_begin \<sigma> l = assertR (l \<noteq> 0) (Inr (le_next (\<sigma> l)))"

definition list_next :: "lmem \<Rightarrow> ptr \<Rightarrow> ptr res" where
  "list_next \<sigma> e = assertR (is_head \<sigma> e \<or> is_interior \<sigma> e) (Inr (le_next (\<sigma> e)))"

definition list_end :: "ptr \<Rightarrow> ptr res" where
  "list_end l = assertR (l \<noteq> 0) (Inr (tail_of l))"

definition list_rbegin :: "lmem \<Rightarrow> ptr \<Rightarrow> ptr res" where
  "list_rbegin \<sigma> l = assertR (l \<noteq> 0) (Inr (le_prev (\<sigma> (tail_of l))))"

definition list_prev :: "lmem \<Rightarrow> ptr \<Rightarrow> ptr res" where
  "list_prev \<sigma> e = assertR (is_interior \<sigma> e \<or> is_tail \<sigma> e) (Inr (le_prev (\<sigma> e)))"

definition list_rend :: "ptr \<Rightarrow> ptr res" where
  "list_rend l = assertR (l \<noteq> 0) (Inr l)"

definition list_head :: "ptr \<Rightarrow> ptr res" where
  "list_head l = assertR (l \<noteq> 0) (Inr l)"

definition list_tail :: "ptr \<Rightarrow> ptr res" where
  "list_tail l = assertR (l \<noteq> 0) (Inr (tail_of l))"

definition list_empty :: "lmem \<Rightarrow> ptr \<Rightarrow> bool res" where
  "list_empty \<sigma> l =
     bindR (list_begin \<sigma> l) (\<lambda>b. bindR (list_end l) (\<lambda>e. Inr (b = e)))"

definition list_front :: "lmem \<Rightarrow> ptr \<Rightarrow> ptr res" where
  "list_front \<sigma> l =
     bindR (list_empty \<sigma> l) (\<lambda>b. assertR (\<not> b) (Inr (le_next (\<sigma> l))))"

definition list_back :: "lmem \<Rightarrow> ptr \<Rightarrow> ptr res" where
  "list_back \<sigma> l =
     bindR (list_empty \<sigma> l) (\<lambda>b. assertR (\<not> b) (Inr (le_prev (\<sigma> (tail_of l)))))"

section \<open>Insertion and removal\<close>

definition list_insert :: "lmem \<Rightarrow> ptr \<Rightarrow> ptr \<Rightarrow> lmem res" where
  "list_insert \<sigma> before elem =
     assertR (is_interior \<sigma> before \<or> is_tail \<sigma> before) (assertR (elem \<noteq> 0)
       (let \<sigma> = set_prev \<sigma> elem (le_prev (\<sigma> before));
            \<sigma> = set_next \<sigma> elem before;
            \<sigma> = set_next \<sigma> (le_prev (\<sigma> before)) elem;
            \<sigma> = set_prev \<sigma> before elem
        in Inr \<sigma>))"

definition list_splice :: "lmem \<Rightarrow> ptr \<Rightarrow> ptr \<Rightarrow> ptr \<Rightarrow> lmem res" where
  "list_splice \<sigma> before first stop =
     assertR (is_interior \<sigma> before \<or> is_tail \<sigma> before)
       (if first = stop then Inr \<sigma>
        else bindR (list_prev \<sigma> stop) (\<lambda>lst.
          assertR (is_interior \<sigma> first) (assertR (is_interior \<sigma> lst)
            (let \<sigma> = set_next \<sigma> (le_prev (\<sigma> first)) (le_next (\<sigma> lst));
                 \<sigma> = set_prev \<sigma> (le_next (\<sigma> lst)) (le_prev (\<sigma> first));
                 \<sigma> = set_prev \<sigma> first (le_prev (\<sigma> before));
                 \<sigma> = set_next \<sigma> lst before;
                 \<sigma> = set_next \<sigma> (le_prev (\<sigma> before)) first;
                 \<sigma> = set_prev \<sigma> before lst
             in Inr \<sigma>))))"

definition list_push_front :: "lmem \<Rightarrow> ptr \<Rightarrow> ptr \<Rightarrow> lmem res" where
  "list_push_front \<sigma> l elem = bindR (list_begin \<sigma> l) (\<lambda>b. list_insert \<sigma> b elem)"

definition list_push_back :: "lmem \<Rightarrow> ptr \<Rightarrow> ptr \<Rightarrow> lmem res" where
  "list_push_back \<sigma> l elem = bindR (list_end l) (\<lambda>e. list_insert \<sigma> e elem)"

definition list_remove :: "lmem \<Rightarrow> ptr \<Rightarrow> (ptr \<times> lmem) res" where
  "list_remove \<sigma> elem =
     assertR (is_interior \<sigma> elem)
       (let \<sigma> = set_next \<sigma> (le_prev (\<sigma> elem)) (le_next (\<sigma> elem));
            \<sigma> = set_prev \<sigma> (le_next (\<sigma> elem)) (le_prev (\<sigma> elem))
        in Inr (le_next (\<sigma> elem), \<sigma>))"

definition list_pop_front :: "lmem \<Rightarrow> ptr \<Rightarrow> (ptr \<times> lmem) res" where
  "list_pop_front \<sigma> l =
     bindR (list_front \<sigma> l) (\<lambda>front. bindR (list_remove \<sigma> front) (\<lambda>(_, \<sigma>). Inr (front, \<sigma>)))"

definition list_pop_back :: "lmem \<Rightarrow> ptr \<Rightarrow> (ptr \<times> lmem) res" where
  "list_pop_back \<sigma> l =
     bindR (list_back \<sigma> l) (\<lambda>back. bindR (list_remove \<sigma> back) (\<lambda>(_, \<sigma>). Inr (back, \<sigma>)))"

section \<open>Loops\<close>

partial_function (option) list_size_loop :: "lmem \<Rightarrow> ptr \<Rightarrow> ptr \<Rightarrow> nat \<Rightarrow> nat res option" where
  "list_size_loop \<sigma> e stop cnt =
     (if e = stop then Some (Inr cnt)
      else case list_next \<sigma> e of
             Inl f \<Rightarrow> Some (Inl f)
           | Inr e' \<Rightarrow> list_size_loop \<sigma> e' stop (cnt + 1))"

definition list_size :: "lmem \<Rightarrow> ptr \<Rightarrow> nat res option" where
  "list_size \<sigma> l =
     (case list_begin \<sigma> l of
        Inl f \<Rightarrow> Some (Inl f)
      | Inr b \<Rightarrow> list_size_loop \<sigma> b (tail_of l) 0)"

text \<open>\<^verbatim>\<open>swap (&e->prev, &e->next)\<close> exchanges the two links of one element; the last two
  statements of \<^verbatim>\<open>list_reverse\<close> exchange the head's and the tail's links and then the outer
  links of the first and the last element.\<close>

definition swap_links :: "lmem \<Rightarrow> ptr \<Rightarrow> lmem" where
  "swap_links \<sigma> e = \<sigma>(e := (\<sigma> e)\<lparr>le_prev := le_next (\<sigma> e), le_next := le_prev (\<sigma> e)\<rparr>)"

partial_function (option) list_reverse_loop :: "lmem \<Rightarrow> ptr \<Rightarrow> ptr \<Rightarrow> lmem option" where
  "list_reverse_loop \<sigma> e stop =
     (if e = stop then Some \<sigma>
      else let \<sigma> = swap_links \<sigma> e in list_reverse_loop \<sigma> (le_prev (\<sigma> e)) stop)"

definition list_reverse :: "lmem \<Rightarrow> ptr \<Rightarrow> lmem res option" where
  "list_reverse \<sigma> l =
     (case list_empty \<sigma> l of
        Inl f \<Rightarrow> Some (Inl f)
      | Inr True \<Rightarrow> Some (Inr \<sigma>)
      | Inr False \<Rightarrow>
          (case list_reverse_loop \<sigma> (le_next (\<sigma> l)) (tail_of l) of
             None \<Rightarrow> None
           | Some \<sigma> \<Rightarrow>
               let hn = le_next (\<sigma> l); tp = le_prev (\<sigma> (tail_of l));
                   \<sigma> = set_next \<sigma> l tp;
                   \<sigma> = set_prev \<sigma> (tail_of l) hn;
                   hnp = le_prev (\<sigma> (le_next (\<sigma> l)));
                   tpn = le_next (\<sigma> (le_prev (\<sigma> (tail_of l))));
                   a = le_next (\<sigma> l); b = le_prev (\<sigma> (tail_of l));
                   \<sigma> = set_prev \<sigma> a tpn;
                   \<sigma> = set_next \<sigma> b hnp
               in Some (Inr \<sigma>)))"

partial_function (option) list_max_loop ::
  "lmem \<Rightarrow> less_func \<Rightarrow> ptr \<Rightarrow> ptr \<Rightarrow> ptr \<Rightarrow> ptr res option" where
  "list_max_loop \<sigma> lt best e stop =
     (if e = stop then Some (Inr best)
      else let best = (if lt best e then e else best)
           in case list_next \<sigma> e of
                Inl f \<Rightarrow> Some (Inl f)
              | Inr e' \<Rightarrow> list_max_loop \<sigma> lt best e' stop)"

definition list_max :: "lmem \<Rightarrow> ptr \<Rightarrow> less_func \<Rightarrow> ptr res option" where
  "list_max \<sigma> l lt =
     (case list_begin \<sigma> l of
        Inl f \<Rightarrow> Some (Inl f)
      | Inr b \<Rightarrow>
          if b = tail_of l then Some (Inr b)
          else case list_next \<sigma> b of
                 Inl f \<Rightarrow> Some (Inl f)
               | Inr e \<Rightarrow> list_max_loop \<sigma> lt b e (tail_of l))"

partial_function (option) list_min_loop ::
  "lmem \<Rightarrow> less_func \<Rightarrow> ptr \<Rightarrow> ptr \<Rightarrow> ptr \<Rightarrow> ptr res option" where
  "list_min_loop \<sigma> lt best e stop =
     (if e = stop then Some (Inr best)
      else let best = (if lt e best then e else best)
           in case list_next \<sigma> e of
                Inl f \<Rightarrow> Some (Inl f)
              | Inr e' \<Rightarrow> list_min_loop \<sigma> lt best e' stop)"

definition list_min :: "lmem \<Rightarrow> ptr \<Rightarrow> less_func \<Rightarrow> ptr res option" where
  "list_min \<sigma> l lt =
     (case list_begin \<sigma> l of
        Inl f \<Rightarrow> Some (Inl f)
      | Inr b \<Rightarrow>
          if b = tail_of l then Some (Inr b)
          else case list_next \<sigma> b of
                 Inl f \<Rightarrow> Some (Inl f)
               | Inr e \<Rightarrow> list_min_loop \<sigma> lt b e (tail_of l))"

partial_function (option) insert_position ::
  "lmem \<Rightarrow> less_func \<Rightarrow> ptr \<Rightarrow> ptr \<Rightarrow> ptr \<Rightarrow> ptr res option" where
  "insert_position \<sigma> lt elem e stop =
     (if e = stop then Some (Inr e)
      else if lt elem e then Some (Inr e)
      else case list_next \<sigma> e of
             Inl f \<Rightarrow> Some (Inl f)
           | Inr e' \<Rightarrow> insert_position \<sigma> lt elem e' stop)"

definition list_insert_ordered :: "lmem \<Rightarrow> ptr \<Rightarrow> ptr \<Rightarrow> less_func \<Rightarrow> lmem res option" where
  "list_insert_ordered \<sigma> l elem lt =
     (if l = 0 \<or> elem = 0 then Some (Inl Assertion)
      else case list_begin \<sigma> l of
             Inl f \<Rightarrow> Some (Inl f)
           | Inr b \<Rightarrow>
               (case insert_position \<sigma> lt elem b (tail_of l) of
                  None \<Rightarrow> None
                | Some (Inl f) \<Rightarrow> Some (Inl f)
                | Some (Inr e) \<Rightarrow> Some (list_insert \<sigma> e elem)))"

text \<open>\<^verbatim>\<open>duplicates\<close> is a list address, or 0 for \<^verbatim>\<open>NULL\<close>.\<close>

partial_function (option) list_unique_loop ::
  "lmem \<Rightarrow> less_func \<Rightarrow> ptr \<Rightarrow> ptr \<Rightarrow> ptr \<Rightarrow> lmem res option" where
  "list_unique_loop \<sigma> lt dups elem stop =
     (case list_next \<sigma> elem of
        Inl f \<Rightarrow> Some (Inl f)
      | Inr nxt \<Rightarrow>
          if nxt = stop then Some (Inr \<sigma>)
          else if \<not> lt elem nxt \<and> \<not> lt nxt elem then
            (case bindR (list_remove \<sigma> nxt) (\<lambda>(_, \<sigma>).
                    if dups \<noteq> 0 then list_push_back \<sigma> dups nxt else Inr \<sigma>) of
               Inl f \<Rightarrow> Some (Inl f)
             | Inr \<sigma> \<Rightarrow> list_unique_loop \<sigma> lt dups elem stop)
          else list_unique_loop \<sigma> lt dups nxt stop)"

definition list_unique :: "lmem \<Rightarrow> ptr \<Rightarrow> ptr \<Rightarrow> less_func \<Rightarrow> lmem res option" where
  "list_unique \<sigma> l dups lt =
     (case list_empty \<sigma> l of
        Inl f \<Rightarrow> Some (Inl f)
      | Inr True \<Rightarrow> Some (Inr \<sigma>)
      | Inr False \<Rightarrow> list_unique_loop \<sigma> lt dups (le_next (\<sigma> l)) (tail_of l))"

section \<open>Natural merge sort\<close>

partial_function (option) is_sorted_loop ::
  "lmem \<Rightarrow> less_func \<Rightarrow> ptr \<Rightarrow> ptr \<Rightarrow> bool res option" where
  "is_sorted_loop \<sigma> lt a b =
     (case list_next \<sigma> a of
        Inl f \<Rightarrow> Some (Inl f)
      | Inr a \<Rightarrow>
          if a = b then Some (Inr True)
          else case list_prev \<sigma> a of
                 Inl f \<Rightarrow> Some (Inl f)
               | Inr p \<Rightarrow> if lt a p then Some (Inr False) else is_sorted_loop \<sigma> lt a b)"

definition is_sorted :: "lmem \<Rightarrow> ptr \<Rightarrow> ptr \<Rightarrow> less_func \<Rightarrow> bool res option" where
  "is_sorted \<sigma> a b lt = (if a \<noteq> b then is_sorted_loop \<sigma> lt a b else Some (Inr True))"

partial_function (option) find_end_loop ::
  "lmem \<Rightarrow> less_func \<Rightarrow> ptr \<Rightarrow> ptr \<Rightarrow> ptr res option" where
  "find_end_loop \<sigma> lt a b =
     (case list_next \<sigma> a of
        Inl f \<Rightarrow> Some (Inl f)
      | Inr a \<Rightarrow>
          if a = b then Some (Inr a)
          else case list_prev \<sigma> a of
                 Inl f \<Rightarrow> Some (Inl f)
               | Inr p \<Rightarrow> if \<not> lt a p then find_end_loop \<sigma> lt a b else Some (Inr a))"

definition find_end_of_run :: "lmem \<Rightarrow> ptr \<Rightarrow> ptr \<Rightarrow> less_func \<Rightarrow> ptr res option" where
  "find_end_of_run \<sigma> a b lt =
     (if a \<noteq> 0 \<and> b \<noteq> 0 \<and> a \<noteq> b then find_end_loop \<sigma> lt a b else Some (Inl Assertion))"

partial_function (option) merge_loop ::
  "lmem \<Rightarrow> less_func \<Rightarrow> ptr \<Rightarrow> ptr \<Rightarrow> ptr \<Rightarrow> lmem res option" where
  "merge_loop \<sigma> lt a0 a1b0 b1 =
     (if a0 \<noteq> a1b0 \<and> a1b0 \<noteq> b1 then
        if \<not> lt a1b0 a0 then
          (case list_next \<sigma> a0 of
             Inl f \<Rightarrow> Some (Inl f)
           | Inr a0 \<Rightarrow> merge_loop \<sigma> lt a0 a1b0 b1)
        else
          (case bindR (list_next \<sigma> a1b0) (\<lambda>a1b0.
                  bindR (list_prev \<sigma> a1b0) (\<lambda>p.
                    bindR (list_splice \<sigma> a0 p a1b0) (\<lambda>\<sigma>. Inr (a1b0, \<sigma>)))) of
             Inl f \<Rightarrow> Some (Inl f)
           | Inr r \<Rightarrow> merge_loop (snd r) lt a0 (fst r) b1)
      else Some (Inr \<sigma>))"

definition inplace_merge :: "lmem \<Rightarrow> ptr \<Rightarrow> ptr \<Rightarrow> ptr \<Rightarrow> less_func \<Rightarrow> lmem res option" where
  "inplace_merge \<sigma> a0 a1b0 b1 lt =
     (if a0 \<noteq> 0 \<and> a1b0 \<noteq> 0 \<and> b1 \<noteq> 0 then
        (case is_sorted \<sigma> a0 a1b0 lt of
           Some (Inr True) \<Rightarrow>
             (case is_sorted \<sigma> a1b0 b1 lt of
                Some (Inr True) \<Rightarrow> merge_loop \<sigma> lt a0 a1b0 b1
              | Some (Inr False) \<Rightarrow> Some (Inl Assertion)
              | Some (Inl f) \<Rightarrow> Some (Inl f)
              | None \<Rightarrow> None)
         | Some (Inr False) \<Rightarrow> Some (Inl Assertion)
         | Some (Inl f) \<Rightarrow> Some (Inl f)
         | None \<Rightarrow> None)
      else Some (Inl Assertion))"

text \<open>One pass over the list: the inner \<^verbatim>\<open>for\<close> loop of \<^verbatim>\<open>list_sort\<close>. It returns the number of
  runs it produced.\<close>

partial_function (option) sort_pass ::
  "lmem \<Rightarrow> less_func \<Rightarrow> ptr \<Rightarrow> ptr \<Rightarrow> nat \<Rightarrow> (nat \<times> lmem) res option" where
  "sort_pass \<sigma> lt stop a0 cnt =
     (if a0 = stop then Some (Inr (cnt, \<sigma>))
      else case find_end_of_run \<sigma> a0 stop lt of
             None \<Rightarrow> None
           | Some (Inl f) \<Rightarrow> Some (Inl f)
           | Some (Inr a1b0) \<Rightarrow>
               if a1b0 = stop then Some (Inr (cnt + 1, \<sigma>))
               else (case find_end_of_run \<sigma> a1b0 stop lt of
                       None \<Rightarrow> None
                     | Some (Inl f) \<Rightarrow> Some (Inl f)
                     | Some (Inr b1) \<Rightarrow>
                         (case inplace_merge \<sigma> a0 a1b0 b1 lt of
                            None \<Rightarrow> None
                          | Some (Inl f) \<Rightarrow> Some (Inl f)
                          | Some (Inr \<sigma>) \<Rightarrow> sort_pass \<sigma> lt stop b1 (cnt + 1))))"

partial_function (option) sort_loop :: "lmem \<Rightarrow> less_func \<Rightarrow> ptr \<Rightarrow> lmem res option" where
  "sort_loop \<sigma> lt l =
     (case sort_pass \<sigma> lt (tail_of l) (le_next (\<sigma> l)) 0 of
        None \<Rightarrow> None
      | Some (Inl f) \<Rightarrow> Some (Inl f)
      | Some (Inr r) \<Rightarrow> if fst r > 1 then sort_loop (snd r) lt l else Some (Inr (snd r)))"

definition list_sort :: "lmem \<Rightarrow> ptr \<Rightarrow> less_func \<Rightarrow> lmem res option" where
  "list_sort \<sigma> l lt =
     (if l = 0 then Some (Inl Assertion)
      else case sort_loop \<sigma> lt l of
             None \<Rightarrow> None
           | Some (Inl f) \<Rightarrow> Some (Inl f)
           | Some (Inr \<sigma>) \<Rightarrow>
               (case is_sorted \<sigma> (le_next (\<sigma> l)) (tail_of l) lt of
                  None \<Rightarrow> None
                | Some (Inl f) \<Rightarrow> Some (Inl f)
                | Some (Inr b) \<Rightarrow> Some (assertR b (Inr \<sigma>))))"

end
