(* ===== verification/Kernel_List_Props.thy ===== *)
theory Kernel_List_Props
  imports Kernel_List
begin

text \<open>
  The list abstraction for \<open>Kernel_List\<close> and the refinement of every list operation: what it
  does to the sequence of elements, that it does not fault and that its loops end.
\<close>

section \<open>Links and chains\<close>

abbreviation nx :: "lmem \<Rightarrow> ptr \<Rightarrow> ptr" where "nx \<sigma> p \<equiv> le_next (\<sigma> p)"
abbreviation pv :: "lmem \<Rightarrow> ptr \<Rightarrow> ptr" where "pv \<sigma> p \<equiv> le_prev (\<sigma> p)"

definition linked :: "lmem \<Rightarrow> ptr \<Rightarrow> ptr \<Rightarrow> bool" where
  "linked \<sigma> x y \<longleftrightarrow> nx \<sigma> x = y \<and> pv \<sigma> y = x"

abbreviation chain :: "lmem \<Rightarrow> ptr list \<Rightarrow> bool" where
  "chain \<sigma> zs \<equiv> successively (linked \<sigma>) zs"

definition dlist :: "lmem \<Rightarrow> ptr \<Rightarrow> ptr list \<Rightarrow> bool" where
  "dlist \<sigma> l xs \<longleftrightarrow>
     l \<noteq> 0 \<and> 0 \<notin> set xs \<and> distinct (l # xs @ [tail_of l])
     \<and> pv \<sigma> l = 0 \<and> nx \<sigma> (tail_of l) = 0 \<and> chain \<sigma> (l # xs @ [tail_of l])"

definition footprint :: "ptr \<Rightarrow> ptr list \<Rightarrow> ptr set" where
  "footprint l xs = insert l (insert (tail_of l) (set xs))"

lemma set_link_simps [simp]:
  "nx (set_next \<sigma> p v) q = (if q = p then v else nx \<sigma> q)"
  "pv (set_next \<sigma> p v) q = pv \<sigma> q"
  "nx (set_prev \<sigma> p v) q = nx \<sigma> q"
  "pv (set_prev \<sigma> p v) q = (if q = p then v else pv \<sigma> q)"
  "q \<noteq> p \<Longrightarrow> set_next \<sigma> p v q = \<sigma> q"
  "q \<noteq> p \<Longrightarrow> set_prev \<sigma> p v q = \<sigma> q"
  by (simp_all add: set_next_def set_prev_def)

lemma tail_of_neq [simp]: "tail_of l \<noteq> 0" "tail_of l \<noteq> l" "l \<noteq> tail_of l"
  by (simp_all add: tail_of_def)

lemma chain_frame:
  assumes "\<And>p. p \<in> set (butlast zs) \<Longrightarrow> nx \<sigma>' p = nx \<sigma> p"
    and "\<And>p. p \<in> set (tl zs) \<Longrightarrow> pv \<sigma>' p = pv \<sigma> p"
  shows "chain \<sigma>' zs = chain \<sigma> zs"
  using assms
proof (induction zs rule: induct_list012)
  case (3 x y zs)
  then show ?case by (auto simp: linked_def)
qed auto

lemma chain_append:
  "xs \<noteq> [] \<Longrightarrow> ys \<noteq> [] \<Longrightarrow>
   chain \<sigma> (xs @ ys) \<longleftrightarrow> chain \<sigma> xs \<and> chain \<sigma> ys \<and> linked \<sigma> (last xs) (hd ys)"
  by (auto simp: successively_append_iff)

lemma chain_ConsD: "chain \<sigma> (x # zs) \<Longrightarrow> zs \<noteq> [] \<Longrightarrow> nx \<sigma> x = hd zs \<and> pv \<sigma> (hd zs) = x"
  by (cases zs) (auto simp: linked_def)

text \<open>A list split at a position: \<open>as\<close> ends with the element before the position and
  \<open>bs\<close> starts with the element at it.\<close>

lemma dlist_split:
  "dlist \<sigma> l (xs @ ys) \<longleftrightarrow>
     l \<noteq> 0 \<and> 0 \<notin> set (xs @ ys) \<and> distinct ((l # xs) @ ys @ [tail_of l])
     \<and> pv \<sigma> l = 0 \<and> nx \<sigma> (tail_of l) = 0
     \<and> chain \<sigma> (l # xs) \<and> chain \<sigma> (ys @ [tail_of l])
     \<and> linked \<sigma> (last (l # xs)) (hd (ys @ [tail_of l]))"
  using chain_append [of "l # xs" "ys @ [tail_of l]" \<sigma>] by (auto simp: dlist_def)

lemma dlist_nonnull: "dlist \<sigma> l xs \<Longrightarrow> p \<in> footprint l xs \<Longrightarrow> p \<noteq> 0"
  unfolding dlist_def footprint_def using tail_of_neq(1) by (metis insertE)

text \<open>The neighbours of a position, and the classification of list elements by the
  assertions of the code.\<close>

lemma dlist_at:
  assumes "dlist \<sigma> l (xs @ ys)"
  shows "nx \<sigma> (last (l # xs)) = hd (ys @ [tail_of l])"
    and "pv \<sigma> (hd (ys @ [tail_of l])) = last (l # xs)"
    and "last (l # xs) \<in> footprint l (xs @ ys)" and "hd (ys @ [tail_of l]) \<in> footprint l (xs @ ys)"
    and "last (l # xs) \<noteq> 0" and "hd (ys @ [tail_of l]) \<noteq> 0"
proof -
  show "nx \<sigma> (last (l # xs)) = hd (ys @ [tail_of l])"
    and "pv \<sigma> (hd (ys @ [tail_of l])) = last (l # xs)"
    using assms unfolding dlist_split linked_def by blast+
  show 1: "last (l # xs) \<in> footprint l (xs @ ys)" and 2: "hd (ys @ [tail_of l]) \<in> footprint l (xs @ ys)"
    by (auto simp: footprint_def hd_append)
  show "last (l # xs) \<noteq> 0" "hd (ys @ [tail_of l]) \<noteq> 0"
    using dlist_nonnull [OF assms] 1 2 by blast+
qed

lemma dlist_interior:
  assumes "dlist \<sigma> l (xs @ y # ys)"
  shows "is_interior \<sigma> y" "pv \<sigma> y = last (l # xs)" "nx \<sigma> y = hd (ys @ [tail_of l])"
proof -
  have "dlist \<sigma> l ((xs @ [y]) @ ys)" using assms by simp
  note a = dlist_at [OF assms] and b = dlist_at [OF this]
  show "pv \<sigma> y = last (l # xs)" "nx \<sigma> y = hd (ys @ [tail_of l])" using a b by auto
  then show "is_interior \<sigma> y" using a b by (simp add: is_interior_def)
qed

lemma dlist_before:
  assumes "dlist \<sigma> l (xs @ ys)"
  shows "is_interior \<sigma> (hd (ys @ [tail_of l])) \<or> is_tail \<sigma> (hd (ys @ [tail_of l]))"
  using dlist_at [OF assms] by (auto simp: is_interior_def is_tail_def)

lemma dlist_after:
  assumes "dlist \<sigma> l (xs @ ys)"
  shows "is_head \<sigma> (last (l # xs)) \<or> is_interior \<sigma> (last (l # xs))"
  using dlist_at [OF assms] by (auto simp: is_interior_def is_head_def)

section \<open>Inserting and removing one element\<close>

lemma last_butlast_distinct:
  "distinct zs \<Longrightarrow> zs \<noteq> [] \<Longrightarrow> last zs \<notin> set (butlast zs)"
  by (metis append_butlast_last_id distinct_butlast not_distinct_conv_prefix)

lemma hd_tl_distinct: "distinct zs \<Longrightarrow> zs \<noteq> [] \<Longrightarrow> hd zs \<notin> set (tl zs)"
  by (cases zs) auto

lemma list_insert_refine:
  assumes d: "dlist \<sigma> l (xs @ ys)" and e: "e \<noteq> 0" "e \<notin> footprint l (xs @ ys)"
  shows "\<exists>\<sigma>'. list_insert \<sigma> (hd (ys @ [tail_of l])) e = Inr \<sigma>' \<and> dlist \<sigma>' l (xs @ e # ys)
           \<and> (\<forall>p. p \<notin> footprint l (e # xs @ ys) \<longrightarrow> \<sigma>' p = \<sigma> p)"
proof -
  let ?as = "l # xs" and ?bs = "ys @ [tail_of l]"
  let ?p = "last ?as" and ?b = "hd ?bs"
  note at = dlist_at [OF d]
  define \<sigma>' where "\<sigma>' = set_prev (set_next (set_next (set_prev \<sigma> e ?p) e ?b) ?p e) ?b e"
  have ne: "?p \<noteq> e" "?b \<noteq> e" using at e by auto
  have "list_insert \<sigma> ?b e = Inr \<sigma>'"
    using dlist_before [OF d] e at(2) ne by (simp add: list_insert_def Let_def \<sigma>'_def)
  moreover have "dlist \<sigma>' l (xs @ e # ys)"
  proof -
    have dist: "distinct (?as @ ?bs)" and ca: "chain \<sigma> ?as" and cb: "chain \<sigma> ?bs"
      using d unfolding dlist_split by auto
    have pa: "?p \<in> set ?as" and ba: "?b \<in> set ?bs"
      by (rule last_in_set, simp, rule hd_in_set, simp)
    then have pb: "?p \<noteq> ?b" using dist by (metis disjoint_iff distinct_append)
    have "chain \<sigma>' ?as = chain \<sigma> ?as"
    proof (rule chain_frame)
      fix q assume q: "q \<in> set (butlast ?as)"
      then have "q \<in> set ?as" by (rule in_set_butlastD)
      then have "q \<noteq> ?p" "q \<noteq> e"
        using last_butlast_distinct [of ?as] dist e q by (auto simp: footprint_def)
      then show "nx \<sigma>' q = nx \<sigma> q" by (simp add: \<sigma>'_def)
    next
      fix q assume q: "q \<in> set (tl ?as)"
      then have "q \<noteq> ?b" "q \<noteq> e" using dist e ba by (auto simp: footprint_def)
      then show "pv \<sigma>' q = pv \<sigma> q" by (simp add: \<sigma>'_def)
    qed
    moreover have "chain \<sigma>' ?bs = chain \<sigma> ?bs"
    proof (rule chain_frame)
      fix q assume q: "q \<in> set (butlast ?bs)"
      then have "q \<noteq> ?p" "q \<noteq> e" using dist e pa by (auto simp: footprint_def)
      then show "nx \<sigma>' q = nx \<sigma> q" by (simp add: \<sigma>'_def)
    next
      fix q assume q: "q \<in> set (tl ?bs)"
      then have "q \<noteq> ?b" "q \<noteq> e"
        using hd_tl_distinct [of ?bs] dist e by (auto simp: footprint_def dest: list.set_sel(2) [rotated])
      then show "pv \<sigma>' q = pv \<sigma> q" by (simp add: \<sigma>'_def)
    qed
    moreover have "linked \<sigma>' ?p e" "linked \<sigma>' e ?b"
      using ne pb by (auto simp: linked_def \<sigma>'_def)
    ultimately have "chain \<sigma>' (?as @ [e] @ ?bs)"
      using ca cb by (simp add: successively_append_iff del: append_Cons)
    moreover have "pv \<sigma>' l = 0" "nx \<sigma>' (tail_of l) = 0"
      using d dist e pb by (auto simp: dlist_def \<sigma>'_def footprint_def hd_append split: if_splits)
    ultimately show ?thesis
      using d e unfolding dlist_def by (auto simp: footprint_def)
  qed
  moreover have "\<sigma>' p = \<sigma> p" if "p \<notin> footprint l (e # xs @ ys)" for p
  proof -
    have "p \<noteq> ?p" "p \<noteq> ?b" "p \<noteq> e" using at that by (auto simp: footprint_def)
    then show ?thesis by (simp add: \<sigma>'_def)
  qed
  ultimately show ?thesis by blast
qed

lemma list_remove_refine:
  assumes d: "dlist \<sigma> l (xs @ e # ys)"
  shows "\<exists>\<sigma>'. list_remove \<sigma> e = Inr (hd (ys @ [tail_of l]), \<sigma>') \<and> dlist \<sigma>' l (xs @ ys)
           \<and> (\<forall>p. p \<notin> footprint l (xs @ ys) \<longrightarrow> \<sigma>' p = \<sigma> p)"
proof -
  let ?as = "l # xs" and ?bs = "ys @ [tail_of l]"
  let ?p = "last ?as" and ?b = "hd ?bs"
  note int = dlist_interior [OF d]
  define \<sigma>' where "\<sigma>' = set_prev (set_next \<sigma> ?p ?b) ?b ?p"
  have dist: "distinct (?as @ e # ?bs)" and ca: "chain \<sigma> ?as" and ceb: "chain \<sigma> (e # ?bs)"
    using d unfolding dlist_split by auto
  have cb: "chain \<sigma> ?bs" using ceb by (simp add: successively_Cons)
  have pa: "?p \<in> set ?as" and ba: "?b \<in> set ?bs" by (rule last_in_set, simp, rule hd_in_set, simp)
  then have ne: "?p \<noteq> e" "?b \<noteq> e" "?p \<noteq> ?b" using dist
    by (metis disjoint_iff distinct_append list.set_intros(1), metis distinct.simps(2) distinct_append,
        metis disjoint_iff distinct_append list.set_intros(2))
  have "list_remove \<sigma> e = Inr (?b, \<sigma>')"
    using int ne by (simp add: list_remove_def Let_def \<sigma>'_def)
  moreover have "dlist \<sigma>' l (xs @ ys)"
  proof -
    have "chain \<sigma>' ?as = chain \<sigma> ?as"
    proof (rule chain_frame)
      fix q assume q: "q \<in> set (butlast ?as)"
      then have "q \<noteq> ?p" using last_butlast_distinct [of ?as] dist by auto
      then show "nx \<sigma>' q = nx \<sigma> q" by (simp add: \<sigma>'_def)
    next
      fix q assume q: "q \<in> set (tl ?as)"
      then have "q \<noteq> ?b" using dist ba by auto
      then show "pv \<sigma>' q = pv \<sigma> q" by (simp add: \<sigma>'_def)
    qed
    moreover have "chain \<sigma>' ?bs = chain \<sigma> ?bs"
    proof (rule chain_frame)
      fix q assume q: "q \<in> set (butlast ?bs)"
      then have "q \<noteq> ?p" using dist pa by auto
      then show "nx \<sigma>' q = nx \<sigma> q" by (simp add: \<sigma>'_def)
    next
      fix q assume q: "q \<in> set (tl ?bs)"
      then have "q \<noteq> ?b" using hd_tl_distinct [of ?bs] dist by auto
      then show "pv \<sigma>' q = pv \<sigma> q" by (simp add: \<sigma>'_def)
    qed
    moreover have "linked \<sigma>' ?p ?b" using ne by (auto simp: linked_def \<sigma>'_def)
    ultimately have c: "chain \<sigma>' (?as @ ?bs)"
      using ca cb by (simp add: successively_append_iff del: append_Cons)
    moreover have "pv \<sigma>' l = 0" "nx \<sigma>' (tail_of l) = 0"
      using d dist pa ba by (auto simp: dlist_def \<sigma>'_def)
    ultimately show ?thesis
      using d unfolding dlist_def by auto
  qed
  moreover have "\<sigma>' p = \<sigma> p" if "p \<notin> footprint l (xs @ ys)" for p
  proof -
    have "p \<noteq> ?p" "p \<noteq> ?b" using pa ba that by (auto simp: footprint_def)
    then show ?thesis by (simp add: \<sigma>'_def)
  qed
  ultimately show ?thesis by blast
qed

lemma list_init_refine:
  assumes "l \<noteq> 0"
  shows "\<exists>\<sigma>'. list_init \<sigma> l = Inr \<sigma>' \<and> dlist \<sigma>' l [] \<and> (\<forall>p. p \<notin> footprint l [] \<longrightarrow> \<sigma>' p = \<sigma> p)"
  using assms by (simp add: list_init_def Let_def dlist_def linked_def footprint_def)

lemma list_empty_refine: "dlist \<sigma> l xs \<Longrightarrow> list_empty \<sigma> l = Inr (xs = [])"
  using dlist_at(1) [of \<sigma> l "[]" xs]
  by (cases xs) (auto simp: list_empty_def list_begin_def list_end_def dlist_def)

lemma list_push_back_refine:
  assumes "dlist \<sigma> l xs" "e \<noteq> 0" "e \<notin> footprint l xs"
  shows "\<exists>\<sigma>'. list_push_back \<sigma> l e = Inr \<sigma>' \<and> dlist \<sigma>' l (xs @ [e])
           \<and> (\<forall>p. p \<notin> footprint l (e # xs) \<longrightarrow> \<sigma>' p = \<sigma> p)"
  using list_insert_refine [of \<sigma> l xs "[]" e] assms
  by (simp add: list_push_back_def list_end_def dlist_def)

lemma list_push_front_refine:
  assumes "dlist \<sigma> l xs" "e \<noteq> 0" "e \<notin> footprint l xs"
  shows "\<exists>\<sigma>'. list_push_front \<sigma> l e = Inr \<sigma>' \<and> dlist \<sigma>' l (e # xs)
           \<and> (\<forall>p. p \<notin> footprint l (e # xs) \<longrightarrow> \<sigma>' p = \<sigma> p)"
  using list_insert_refine [of \<sigma> l "[]" xs e] assms dlist_at(1) [of \<sigma> l "[]" xs]
  by (simp add: list_push_front_def list_begin_def dlist_def)

lemma list_pop_front_refine:
  assumes "dlist \<sigma> l (x # xs)"
  shows "\<exists>\<sigma>'. list_pop_front \<sigma> l = Inr (x, \<sigma>') \<and> dlist \<sigma>' l xs
           \<and> (\<forall>p. p \<notin> footprint l xs \<longrightarrow> \<sigma>' p = \<sigma> p)"
  using list_remove_refine [of \<sigma> l "[]" x xs] assms dlist_at(1) [of \<sigma> l "[]" "x # xs"]
  by (auto simp: list_pop_front_def list_front_def list_empty_refine)

lemma list_pop_back_refine:
  assumes "dlist \<sigma> l (xs @ [x])"
  shows "\<exists>\<sigma>'. list_pop_back \<sigma> l = Inr (x, \<sigma>') \<and> dlist \<sigma>' l xs
           \<and> (\<forall>p. p \<notin> footprint l xs \<longrightarrow> \<sigma>' p = \<sigma> p)"
  using list_remove_refine [of \<sigma> l xs x "[]"] assms dlist_at(2) [of \<sigma> l "xs @ [x]" "[]"]
  by (auto simp: list_pop_back_def list_back_def list_empty_refine)

text \<open>Lists with disjoint footprints do not affect each other.\<close>

lemma dlist_frame:
  assumes "dlist \<sigma> l xs" "\<And>p. p \<in> footprint l xs \<Longrightarrow> \<sigma>' p = \<sigma> p"
  shows "dlist \<sigma>' l xs"
proof -
  have "chain \<sigma>' (l # xs @ [tail_of l]) = chain \<sigma> (l # xs @ [tail_of l])"
  proof (rule chain_frame)
    fix p assume "p \<in> set (butlast (l # xs @ [tail_of l]))"
    then have "p \<in> set (l # xs @ [tail_of l])" by (rule in_set_butlastD)
    then show "nx \<sigma>' p = nx \<sigma> p" using assms(2) by (auto simp: footprint_def)
  next
    fix p assume "p \<in> set (tl (l # xs @ [tail_of l]))"
    then show "pv \<sigma>' p = pv \<sigma> p" using assms(2) by (auto simp: footprint_def)
  qed
  with assms show ?thesis by (simp add: dlist_def footprint_def)
qed

section \<open>Loops over a list\<close>

lemma dlist_hd_neq: "dlist \<sigma> l (xs @ y # ys) \<Longrightarrow> y \<noteq> tail_of l"
  by (auto simp: dlist_def)

lemma list_begin_refine: "dlist \<sigma> l xs \<Longrightarrow> list_begin \<sigma> l = Inr (hd (xs @ [tail_of l]))"
  using dlist_at(1) [of \<sigma> l "[]" xs] by (simp add: list_begin_def dlist_def)

lemma list_next_refine: "dlist \<sigma> l (xs @ y # ys) \<Longrightarrow> list_next \<sigma> y = Inr (hd (ys @ [tail_of l]))"
  using dlist_interior [of \<sigma> l xs y ys] by (simp add: list_next_def)

lemma list_prev_refine:
  "dlist \<sigma> l (xs @ ys) \<Longrightarrow> list_prev \<sigma> (hd (ys @ [tail_of l])) = Inr (last (l # xs))"
  using dlist_before [of \<sigma> l xs ys] dlist_at(2) [of \<sigma> l xs ys] by (simp add: list_prev_def)

lemma list_size_loop_refine:
  "dlist \<sigma> l (xs @ ys) \<Longrightarrow>
   list_size_loop \<sigma> (hd (ys @ [tail_of l])) (tail_of l) cnt = Some (Inr (cnt + length ys))"
proof (induction ys arbitrary: xs cnt)
  case Nil
  then show ?case by (simp add: list_size_loop.simps)
next
  case (Cons y ys)
  note IH = Cons.IH [of "xs @ [y]" "cnt + 1"]
  show ?case
    using IH Cons.prems dlist_hd_neq [OF Cons.prems] list_next_refine [OF Cons.prems]
    by (subst list_size_loop.simps) simp
qed

lemma list_size_refine: "dlist \<sigma> l xs \<Longrightarrow> list_size \<sigma> l = Some (Inr (length xs))"
  using list_size_loop_refine [of \<sigma> l "[]" xs 0]
  by (simp add: list_size_def list_begin_refine)

text \<open>The scan of \<^verbatim>\<open>list_max\<close> and of \<^verbatim>\<open>list_min\<close> over a sequence.\<close>

definition scan_max :: "('a \<Rightarrow> 'a \<Rightarrow> bool) \<Rightarrow> 'a list \<Rightarrow> 'a" where
  "scan_max lt xs = fold (\<lambda>e best. if lt best e then e else best) (tl xs) (hd xs)"

lemma list_max_loop_refine:
  "dlist \<sigma> l (xs @ ys) \<Longrightarrow>
   list_max_loop \<sigma> lt best (hd (ys @ [tail_of l])) (tail_of l) =
     Some (Inr (fold (\<lambda>e best. if lt best e then e else best) ys best))"
proof (induction ys arbitrary: xs best)
  case Nil
  then show ?case by (simp add: list_max_loop.simps)
next
  case (Cons y ys)
  note IH = Cons.IH [of "xs @ [y]" "if lt best y then y else best"]
  show ?case
    using IH Cons.prems dlist_hd_neq [OF Cons.prems] list_next_refine [OF Cons.prems]
    by (subst list_max_loop.simps) (simp split: if_splits)
qed

lemma list_max_refine:
  assumes "dlist \<sigma> l xs" "xs \<noteq> []"
  shows "list_max \<sigma> l lt = Some (Inr (scan_max lt xs))"
proof -
  obtain x ys where xs: "xs = x # ys" using assms(2) by (cases xs) auto
  show ?thesis
    using assms(1) dlist_hd_neq [of \<sigma> l "[]" x ys] list_next_refine [of \<sigma> l "[]" x ys]
      list_max_loop_refine [of \<sigma> l "[x]" ys lt x]
    by (simp add: xs list_max_def list_begin_refine scan_max_def)
qed

lemma list_min_loop_refine:
  "dlist \<sigma> l (xs @ ys) \<Longrightarrow>
   list_min_loop \<sigma> lt best (hd (ys @ [tail_of l])) (tail_of l) =
     Some (Inr (fold (\<lambda>e best. if lt e best then e else best) ys best))"
proof (induction ys arbitrary: xs best)
  case Nil
  then show ?case by (simp add: list_min_loop.simps)
next
  case (Cons y ys)
  note IH = Cons.IH [of "xs @ [y]" "if lt y best then y else best"]
  show ?case
    using IH Cons.prems dlist_hd_neq [OF Cons.prems] list_next_refine [OF Cons.prems]
    by (subst list_min_loop.simps) (simp split: if_splits)
qed

lemma list_min_refine:
  assumes "dlist \<sigma> l xs" "xs \<noteq> []"
  shows "list_min \<sigma> l lt = Some (Inr (scan_max (\<lambda>a b. lt b a) xs))"
proof -
  obtain x ys where xs: "xs = x # ys" using assms(2) by (cases xs) auto
  show ?thesis
    using assms(1) dlist_hd_neq [of \<sigma> l "[]" x ys] list_next_refine [of \<sigma> l "[]" x ys]
      list_min_loop_refine [of \<sigma> l "[x]" ys lt x]
    by (simp add: xs list_min_def list_begin_refine scan_max_def)
qed

lemma list_max_empty: "dlist \<sigma> l [] \<Longrightarrow> list_max \<sigma> l lt = Some (Inr (tail_of l))"
  by (simp add: list_max_def list_begin_refine)

lemma scan_max_in: "xs \<noteq> [] \<Longrightarrow> scan_max lt xs \<in> set xs"
proof -
  have "fold (\<lambda>e best. if lt best e then e else best) ys b \<in> insert b (set ys)" for ys b
    by (induction ys arbitrary: b) auto
  then show "xs \<noteq> [] \<Longrightarrow> scan_max lt xs \<in> set xs"
    by (cases xs) (auto simp: scan_max_def)
qed

context strict_weak_order
begin

text \<open>The scan returns the first of the greatest elements.\<close>

lemma scan_fold_max:
  "fold (\<lambda>e best. if lt best e then e else best) ys b = r \<Longrightarrow>
   \<not> lt r b \<and> (\<forall>y \<in> set ys. \<not> lt r y)
     \<and> (r = b \<or> (\<exists>us vs. ys = us @ r # vs \<and> lt b r \<and> (\<forall>u \<in> set us. lt u r)))"
proof (induction ys arbitrary: b)
  case Nil
  then show ?case by (simp add: lt_irrefl)
next
  case (Cons y ys)
  let ?b = "if lt b y then y else b"
  have "fold (\<lambda>e best. if lt best e then e else best) ys ?b = r" using Cons.prems by simp
  from Cons.IH [OF this] have ih: "\<not> lt r ?b" "\<forall>z \<in> set ys. \<not> lt r z"
    "r = ?b \<or> (\<exists>us vs. ys = us @ r # vs \<and> lt ?b r \<and> (\<forall>u \<in> set us. lt u r))"
    by blast+
  show ?case
  proof (cases "lt b y")
    case True
    have 1: "\<not> lt r b" using ih(1) True lt_trans by auto
    have 2: "\<exists>us vs. y # ys = us @ r # vs \<and> lt b r \<and> (\<forall>u \<in> set us. lt u r)"
      using ih(3)
    proof
      assume "r = ?b"
      with True show ?thesis by (intro exI [of _ "[]"] exI [of _ ys]) simp
    next
      assume "\<exists>us vs. ys = us @ r # vs \<and> lt ?b r \<and> (\<forall>u \<in> set us. lt u r)"
      then obtain us vs where u: "ys = us @ r # vs" "lt y r" "\<forall>u \<in> set us. lt u r"
        using True by auto
      then have "y # ys = (y # us) @ r # vs" "lt b r" "\<forall>u \<in> set (y # us). lt u r"
        using True lt_trans by auto
      then show ?thesis by blast
    qed
    show ?thesis using ih(1,2) 1 2 True by auto
  next
    case False
    then have 1: "\<not> lt r y" using ih(1) lt_neg_trans by auto
    have 2: "r = b \<or> (\<exists>us vs. y # ys = us @ r # vs \<and> lt b r \<and> (\<forall>u \<in> set us. lt u r))"
      using ih(3)
    proof
      assume "r = ?b"
      then show ?thesis using False by simp
    next
      assume "\<exists>us vs. ys = us @ r # vs \<and> lt ?b r \<and> (\<forall>u \<in> set us. lt u r)"
      then obtain us vs where u: "ys = us @ r # vs" "lt b r" "\<forall>u \<in> set us. lt u r"
        using False by auto
      have "lt y r" by (rule lt_neg_lt_trans [OF False u(2)])
      with u have "y # ys = (y # us) @ r # vs" "\<forall>u \<in> set (y # us). lt u r" by auto
      with u(2) show ?thesis by blast
    qed
    show ?thesis using ih(1,2) 1 2 False by simp
  qed
qed

lemma scan_max_first:
  assumes "xs \<noteq> []" "scan_max lt xs = r"
  shows "\<exists>us vs. xs = us @ r # vs \<and> (\<forall>u \<in> set us. lt u r) \<and> (\<forall>x \<in> set xs. \<not> lt r x)"
proof -
  obtain x ys where xs: "xs = x # ys" using assms by (cases xs) auto
  have m: "\<not> lt r x \<and> (\<forall>y \<in> set ys. \<not> lt r y)
     \<and> (r = x \<or> (\<exists>us vs. ys = us @ r # vs \<and> lt x r \<and> (\<forall>u \<in> set us. lt u r)))"
    using scan_fold_max [of ys x r] assms(2) by (simp add: scan_max_def xs)
  then have g: "\<forall>y \<in> set xs. \<not> lt r y" by (simp add: xs)
  from m consider "r = x" | us vs where "ys = us @ r # vs" "lt x r" "\<forall>u \<in> set us. lt u r"
    by blast
  then show ?thesis
  proof cases
    case 1
    with g show ?thesis by (intro exI [of _ "[]"] exI [of _ ys]) (simp add: xs)
  next
    case (2 us vs)
    then have "xs = (x # us) @ r # vs" "\<forall>u \<in> set (x # us). lt u r" by (simp_all add: xs)
    with g show ?thesis by blast
  qed
qed

end

subsection \<open>Ordered insertion\<close>

lemma insert_position_refine:
  "dlist \<sigma> l (xs @ ys) \<Longrightarrow>
   insert_position \<sigma> lt e (hd (ys @ [tail_of l])) (tail_of l) =
     Some (Inr (hd (dropWhile (\<lambda>y. \<not> lt e y) ys @ [tail_of l])))"
proof (induction ys arbitrary: xs)
  case Nil
  then show ?case by (simp add: insert_position.simps)
next
  case (Cons y ys)
  note IH = Cons.IH [of "xs @ [y]"]
  show ?case
    using IH Cons.prems dlist_hd_neq [OF Cons.prems] list_next_refine [OF Cons.prems]
    by (subst insert_position.simps) simp
qed

lemma list_insert_ordered_refine:
  assumes d: "dlist \<sigma> l xs" and e: "e \<noteq> 0" "e \<notin> footprint l xs"
  shows "\<exists>\<sigma>'. list_insert_ordered \<sigma> l e lt = Some (Inr \<sigma>')
           \<and> dlist \<sigma>' l (takeWhile (\<lambda>y. \<not> lt e y) xs @ e # dropWhile (\<lambda>y. \<not> lt e y) xs)
           \<and> (\<forall>p. p \<notin> footprint l (e # xs) \<longrightarrow> \<sigma>' p = \<sigma> p)"
proof -
  have l: "l \<noteq> 0" using d by (simp add: dlist_def)
  have "insert_position \<sigma> lt e (hd (xs @ [tail_of l])) (tail_of l) =
     Some (Inr (hd (dropWhile (\<lambda>y. \<not> lt e y) xs @ [tail_of l])))"
    using insert_position_refine [of \<sigma> l "[]" xs] d by simp
  moreover obtain \<sigma>' where
    "list_insert \<sigma> (hd (dropWhile (\<lambda>y. \<not> lt e y) xs @ [tail_of l])) e = Inr \<sigma>'"
    "dlist \<sigma>' l (takeWhile (\<lambda>y. \<not> lt e y) xs @ e # dropWhile (\<lambda>y. \<not> lt e y) xs)"
    "\<forall>p. p \<notin> footprint l (e # xs) \<longrightarrow> \<sigma>' p = \<sigma> p"
    using list_insert_refine [of \<sigma> l "takeWhile (\<lambda>y. \<not> lt e y) xs" "dropWhile (\<lambda>y. \<not> lt e y) xs" e]
      d e by auto
  ultimately show ?thesis
    using l e list_begin_refine [OF d] by (simp add: list_insert_ordered_def)
qed

abbreviation nondecreasing :: "('a \<Rightarrow> 'a \<Rightarrow> bool) \<Rightarrow> 'a list \<Rightarrow> bool" where
  "nondecreasing lt xs \<equiv> sorted_wrt (\<lambda>a b. \<not> lt b a) xs"

context strict_weak_order
begin

lemma insert_ordered_sorted:
  assumes "nondecreasing lt xs"
  shows "nondecreasing lt (takeWhile (\<lambda>y. \<not> lt e y) xs @ e # dropWhile (\<lambda>y. \<not> lt e y) xs)"
  using assms
proof (induction xs)
  case Nil
  then show ?case by simp
next
  case (Cons x xs)
  show ?case
  proof (cases "lt e x")
    case True
    then have "\<not> lt y e" if "y \<in> set (x # xs)" for y
      using Cons.prems that lt_asym lt_neg_trans by (metis list.set_intros(1) set_ConsD sorted_wrt.simps(2))
    with True Cons.prems show ?thesis by auto
  next
    case False
    have "set (takeWhile (\<lambda>y. \<not> lt e y) xs) \<subseteq> set xs" "set (dropWhile (\<lambda>y. \<not> lt e y) xs) \<subseteq> set xs"
      by (auto dest: set_takeWhileD set_dropWhileD)
    with False Cons show ?thesis by auto
  qed
qed

end

subsection \<open>Reversal\<close>

abbreviation swapped :: "list_elem \<Rightarrow> list_elem" where
  "swapped n \<equiv> n\<lparr>le_prev := le_next n, le_next := le_prev n\<rparr>"

lemma list_reverse_loop_eq:
  "successively (\<lambda>x y. nx \<sigma> x = y) (ys @ [t]) \<Longrightarrow> distinct (ys @ [t]) \<Longrightarrow>
   list_reverse_loop \<sigma> (hd (ys @ [t])) t = Some (\<lambda>p. if p \<in> set ys then swapped (\<sigma> p) else \<sigma> p)"
proof (induction ys arbitrary: \<sigma>)
  case Nil
  then show ?case by (simp add: list_reverse_loop.simps)
next
  case (Cons y ys)
  let ?s = "swap_links \<sigma> y"
  have y: "y \<notin> set ys" "y \<noteq> t" using Cons.prems by auto
  have nxt: "pv ?s y = hd (ys @ [t])"
    using Cons.prems(1) by (simp add: swap_links_def successively_Cons)
  have "successively (\<lambda>x z. nx ?s x = z) (ys @ [t]) = successively (\<lambda>x z. nx \<sigma> x = z) (ys @ [t])"
    using y Cons.prems(2) by (intro successively_cong) (auto simp: swap_links_def)
  then have "successively (\<lambda>x z. nx ?s x = z) (ys @ [t])"
    using Cons.prems(1) by (simp add: successively_Cons)
  then have "list_reverse_loop ?s (hd (ys @ [t])) t = Some (\<lambda>p. if p \<in> set ys then swapped (?s p) else ?s p)"
    using Cons by simp
  moreover have "(\<lambda>p. if p \<in> set ys then swapped (?s p) else ?s p)
      = (\<lambda>p. if p \<in> set (y # ys) then swapped (\<sigma> p) else \<sigma> p)"
    using y by (auto simp: swap_links_def)
  ultimately show ?case
    using y nxt by (subst list_reverse_loop.simps) (simp add: Let_def)
qed

lemma list_reverse_refine:
  assumes d: "dlist \<sigma> l xs"
  shows "\<exists>\<sigma>'. list_reverse \<sigma> l = Some (Inr \<sigma>') \<and> dlist \<sigma>' l (rev xs)
           \<and> (\<forall>p. p \<notin> footprint l xs \<longrightarrow> \<sigma>' p = \<sigma> p)"
proof (cases "xs = []")
  case True
  then show ?thesis using d by (simp add: list_reverse_def list_empty_refine)
next
  case False
  let ?t = "tail_of l" and ?a = "hd xs" and ?z = "last xs"
  define \<rho> where "\<rho> = (\<lambda>p. if p \<in> set xs then swapped (\<sigma> p) else \<sigma> p)"
  define \<sigma>' where "\<sigma>' = set_next (set_prev (set_prev (set_next \<rho> l ?z) ?t ?a) ?z l) ?a ?t"
  have dist: "distinct (l # xs @ [?t])" and c: "chain \<sigma> (l # xs @ [?t])"
    using d by (auto simp: dlist_def)
  have ends: "?a \<in> set xs" "?z \<in> set xs" using False by auto
  have lx: "nx \<sigma> l = ?a" "pv \<sigma> ?a = l"
    using dlist_at(1,2) [of \<sigma> l "[]" xs] d False by auto
  have tx: "pv \<sigma> ?t = ?z" "nx \<sigma> ?z = ?t"
    using dlist_at(1,2) [of \<sigma> l xs "[]"] d False by auto
  have "successively (\<lambda>x y. nx \<sigma> x = y) (xs @ [?t])"
    using c by (auto simp: successively_Cons linked_def elim: successively_mono)
  then have "list_reverse_loop \<sigma> ?a ?t = Some \<rho>"
    using list_reverse_loop_eq [of \<sigma> xs ?t] dist False by (simp add: \<rho>_def)
  moreover have "nx \<rho> l = ?a" "pv \<rho> ?t = ?z" "pv \<rho> ?z = ?t" "nx \<rho> ?a = l"
    using dist ends lx tx by (auto simp: \<rho>_def)
  moreover have "?a \<noteq> l" "?z \<noteq> l" "?a \<noteq> ?t" "?z \<noteq> ?t" using dist ends by auto
  ultimately have "list_reverse \<sigma> l = Some (Inr \<sigma>')"
    using d False lx by (simp add: list_reverse_def list_empty_refine Let_def \<sigma>'_def)
  moreover have "dlist \<sigma>' l (rev xs)"
  proof -
    have cx: "chain \<sigma> xs" using c by (simp add: successively_Cons successively_append_iff)
    have "successively (\<lambda>x y. linked \<sigma>' y x) xs"
      using cx
    proof (rule successively_mono)
      fix x y assume xy: "x \<in> set xs" "y \<in> set xs" "linked \<sigma> x y"
      have "y \<noteq> ?a" using xy lx dist by (auto simp: linked_def)
      moreover have "x \<noteq> ?z" using xy tx dist by (auto simp: linked_def)
      ultimately show "linked \<sigma>' y x"
        using xy dist by (auto simp: linked_def \<sigma>'_def \<rho>_def)
    qed
    then have "chain \<sigma>' (rev xs)" by simp
    moreover have "linked \<sigma>' l ?z" "linked \<sigma>' ?a ?t"
      using dist ends by (auto simp: linked_def \<sigma>'_def)
    ultimately have "chain \<sigma>' (l # rev xs @ [?t])"
      using False by (simp add: successively_Cons successively_append_iff hd_rev last_rev)
    moreover have "pv \<sigma>' l = 0" "nx \<sigma>' ?t = 0"
      using d ends dist by (auto simp: \<sigma>'_def \<rho>_def dlist_def)
    ultimately show ?thesis using d by (simp add: dlist_def)
  qed
  moreover have "\<sigma>' p = \<sigma> p" if "p \<notin> footprint l xs" for p
  proof -
    have "p \<noteq> ?a" "p \<noteq> ?z" "p \<noteq> l" "p \<noteq> ?t" "p \<notin> set xs" using that ends by (auto simp: footprint_def)
    then show ?thesis by (simp add: \<sigma>'_def \<rho>_def)
  qed
  ultimately show ?thesis by blast
qed

subsection \<open>Removing adjacent duplicates\<close>

fun uniq :: "('a \<Rightarrow> 'a \<Rightarrow> bool) \<Rightarrow> 'a \<Rightarrow> 'a list \<Rightarrow> 'a list \<times> 'a list" where
  "uniq lt x [] = ([], [])"
| "uniq lt x (y # ys) =
     (if \<not> lt x y \<and> \<not> lt y x then (let (k, d) = uniq lt x ys in (k, y # d))
      else (let (k, d) = uniq lt y ys in (y # k, d)))"

lemma list_unique_loop_refine:
  assumes "dlist \<sigma> l (xs @ x # ys)"
    and "dups \<noteq> 0 \<Longrightarrow> dlist \<sigma> dups ds \<and> footprint dups ds \<inter> footprint l (xs @ x # ys) = {}"
  shows "\<exists>\<sigma>'. list_unique_loop \<sigma> lt dups x (tail_of l) = Some (Inr \<sigma>')
           \<and> dlist \<sigma>' l (xs @ x # fst (uniq lt x ys))
           \<and> (dups \<noteq> 0 \<longrightarrow> dlist \<sigma>' dups (ds @ snd (uniq lt x ys)))"
  using assms
proof (induction ys arbitrary: xs x \<sigma> ds)
  case Nil
  then show ?case
    using list_next_refine [OF Nil.prems(1)] by (subst list_unique_loop.simps) simp
next
  case (Cons y ys)
  have d: "dlist \<sigma> l ((xs @ [x]) @ y # ys)" using Cons.prems(1) by simp
  note y = dlist_hd_neq [OF d] and nxt = list_next_refine [OF Cons.prems(1)]
  show ?case
  proof (cases "\<not> lt x y \<and> \<not> lt y x")
    case False
    obtain \<sigma>' where "list_unique_loop \<sigma> lt dups y (tail_of l) = Some (Inr \<sigma>')"
      "dlist \<sigma>' l ((xs @ [x]) @ y # fst (uniq lt y ys))"
      "dups \<noteq> 0 \<longrightarrow> dlist \<sigma>' dups (ds @ snd (uniq lt y ys))"
      using Cons.IH [OF d, of ds] Cons.prems(2) by auto
    with False y nxt show ?thesis
      by (subst list_unique_loop.simps) (auto simp: split_def Let_def)
  next
    case True
    obtain \<sigma>1 where r: "list_remove \<sigma> y = Inr (hd (ys @ [tail_of l]), \<sigma>1)"
      and d1: "dlist \<sigma>1 l (xs @ x # ys)" and f1: "\<forall>p. p \<notin> footprint l (xs @ x # ys) \<longrightarrow> \<sigma>1 p = \<sigma> p"
      using list_remove_refine [OF d] by auto
    obtain \<sigma>2 ds' where p: "(if dups \<noteq> 0 then list_push_back \<sigma>1 dups y else Inr \<sigma>1) = Inr \<sigma>2"
      and d2: "dlist \<sigma>2 l (xs @ x # ys)"
      and e2: "dups \<noteq> 0 \<longrightarrow> ds' = ds @ [y] \<and> dlist \<sigma>2 dups ds' \<and> footprint dups ds' \<inter> footprint l (xs @ x # ys) = {}"
    proof (cases "dups = 0")
      case True
      with d1 show ?thesis by (intro that [of \<sigma>1 ds]) simp_all
    next
      case False
      note pr = Cons.prems(2) [OF False]
      have sub: "footprint l (xs @ x # ys) \<subseteq> footprint l (xs @ x # y # ys)" by (auto simp: footprint_def)
      have "dlist \<sigma>1 dups ds"
      proof (rule dlist_frame)
        show "dlist \<sigma> dups ds" using pr by simp
        fix p assume "p \<in> footprint dups ds"
        then have "p \<notin> footprint l (xs @ x # ys)" using pr sub by auto
        then show "\<sigma>1 p = \<sigma> p" using f1 by simp
      qed
      moreover have y0: "y \<noteq> 0" using d by (auto simp: dlist_def)
      moreover have yn: "y \<notin> footprint dups ds" "y \<notin> footprint l (xs @ x # ys)"
        using pr d by (auto simp: footprint_def dlist_def)
      ultimately obtain \<sigma>2 where b: "list_push_back \<sigma>1 dups y = Inr \<sigma>2" "dlist \<sigma>2 dups (ds @ [y])"
        "\<forall>p. p \<notin> footprint dups (y # ds) \<longrightarrow> \<sigma>2 p = \<sigma>1 p"
        using list_push_back_refine by metis
      have "dlist \<sigma>2 l (xs @ x # ys)"
      proof (rule dlist_frame [OF d1])
        fix p assume p: "p \<in> footprint l (xs @ x # ys)"
        then have "p \<notin> footprint dups (y # ds)" using pr yn by (auto simp: footprint_def)
        then show "\<sigma>2 p = \<sigma>1 p" using b(3) by blast
      qed
      moreover have "footprint dups (ds @ [y]) \<inter> footprint l (xs @ x # ys) = {}"
        using pr yn by (auto simp: footprint_def)
      ultimately show ?thesis using b False by (intro that [of \<sigma>2 "ds @ [y]"]) simp_all
    qed
    obtain \<sigma>' where "list_unique_loop \<sigma>2 lt dups x (tail_of l) = Some (Inr \<sigma>')"
      "dlist \<sigma>' l (xs @ x # fst (uniq lt x ys))"
      "dups \<noteq> 0 \<longrightarrow> dlist \<sigma>' dups (ds' @ snd (uniq lt x ys))"
      using Cons.IH [OF d2, of ds'] e2 by auto
    with True y nxt r p e2 show ?thesis
      by (subst list_unique_loop.simps) (auto simp: split_def Let_def)
  qed
qed

subsection \<open>Splicing within a list\<close>

lemma chain_ends_frame:
  assumes "\<And>p. p \<in> set zs \<Longrightarrow> p \<noteq> last zs \<Longrightarrow> nx \<sigma>' p = nx \<sigma> p"
    and "\<And>p. p \<in> set zs \<Longrightarrow> p \<noteq> hd zs \<Longrightarrow> pv \<sigma>' p = pv \<sigma> p"
    and "distinct zs" and "chain \<sigma> zs"
  shows "chain \<sigma>' zs"
proof (cases "zs = []")
  case False
  have "chain \<sigma>' zs = chain \<sigma> zs"
  proof (rule chain_frame)
    fix p assume p: "p \<in> set (butlast zs)"
    then have "p \<in> set zs" "p \<noteq> last zs"
      using last_butlast_distinct [OF assms(3) False] by (auto dest: in_set_butlastD)
    then show "nx \<sigma>' p = nx \<sigma> p" by (rule assms(1))
  next
    fix p assume p: "p \<in> set (tl zs)"
    then have "p \<in> set zs" "p \<noteq> hd zs"
      using hd_tl_distinct [OF assms(3) False] False by (auto dest: list.set_sel(2) [rotated])
    then show "pv \<sigma>' p = pv \<sigma> p" by (rule assms(2))
  qed
  with assms(4) show ?thesis by simp
qed simp

definition spliced :: "lmem \<Rightarrow> ptr list \<Rightarrow> ptr list \<Rightarrow> ptr list \<Rightarrow> ptr list \<Rightarrow> lmem" where
  "spliced \<sigma> as ys zs bs =
     set_prev (set_next (set_next (set_prev (set_prev (set_next \<sigma> (last ys) (hd bs)) (hd bs) (last ys))
       (hd zs) (last as)) (last zs) (hd ys)) (last as) (hd zs)) (hd ys) (last zs)"

lemma chain_spliced:
  assumes dist: "distinct (as @ ys @ zs @ bs)" and c: "chain \<sigma> (as @ ys @ zs @ bs)"
    and ne: "as \<noteq> []" "ys \<noteq> []" "zs \<noteq> []" "bs \<noteq> []"
  shows "chain (spliced \<sigma> as ys zs bs) (as @ zs @ ys @ bs)"
proof -
  let ?s = "spliced \<sigma> as ys zs bs"
  have cs: "chain \<sigma> as" "chain \<sigma> ys" "chain \<sigma> zs" "chain \<sigma> bs"
    using c ne by (auto simp: successively_append_iff)
  have mem: "last as \<in> set as" "hd ys \<in> set ys" "last ys \<in> set ys" "hd zs \<in> set zs"
    "last zs \<in> set zs" "hd bs \<in> set bs" using ne by auto
  have dj: "set as \<inter> set ys = {}" "set as \<inter> set zs = {}" "set as \<inter> set bs = {}"
    "set ys \<inter> set zs = {}" "set ys \<inter> set bs = {}" "set zs \<inter> set bs = {}"
    using dist by auto
  have neq: "last as \<noteq> last ys" "last as \<noteq> last zs" "last ys \<noteq> last zs" "hd bs \<noteq> hd ys" "hd bs \<noteq> hd zs"
    "hd ys \<noteq> hd zs" using mem dj by auto
  have nx_same: "nx ?s p = nx \<sigma> p" if "p \<noteq> last ys" "p \<noteq> last zs" "p \<noteq> last as" for p
    using that by (simp add: spliced_def)
  have pv_same: "pv ?s p = pv \<sigma> p" if "p \<noteq> hd bs" "p \<noteq> hd zs" "p \<noteq> hd ys" for p
    using that by (simp add: spliced_def)
  have "chain ?s as" "chain ?s ys" "chain ?s zs" "chain ?s bs"
    using mem dj dist cs by (auto intro!: chain_ends_frame [of _ ?s \<sigma>] nx_same pv_same)
  moreover have "linked ?s (last as) (hd zs)" "linked ?s (last zs) (hd ys)" "linked ?s (last ys) (hd bs)"
    using neq by (auto simp: linked_def spliced_def)
  ultimately show ?thesis using ne by (simp add: successively_append_iff)
qed

lemma list_splice_refine:
  assumes d: "dlist \<sigma> l (xs @ ys @ zs @ ws)" and ne: "ys \<noteq> []" "zs \<noteq> []"
  shows "\<exists>\<sigma>'. list_splice \<sigma> (hd ys) (hd zs) (hd (ws @ [tail_of l])) = Inr \<sigma>'
           \<and> dlist \<sigma>' l (xs @ zs @ ys @ ws)
           \<and> (\<forall>p. p \<notin> footprint l (xs @ ys @ zs @ ws) \<longrightarrow> \<sigma>' p = \<sigma> p)"
proof -
  define as bs where "as = l # xs" and "bs = ws @ [tail_of l]"
  have ab: "as \<noteq> []" "bs \<noteq> []" by (simp_all add: as_def bs_def)
  let ?s = "spliced \<sigma> as ys zs bs"
  have dist: "distinct (as @ ys @ zs @ bs)" and c: "chain \<sigma> (as @ ys @ zs @ bs)"
    using d by (simp_all add: dlist_def as_def bs_def)
  have mem: "last as \<in> set as" "hd ys \<in> set ys" "last ys \<in> set ys" "hd zs \<in> set zs"
    "last zs \<in> set zs" "hd bs \<in> set bs" using ne ab by auto
  have dj: "set as \<inter> set ys = {}" "set as \<inter> set zs = {}" "set as \<inter> set bs = {}"
    "set ys \<inter> set zs = {}" "set ys \<inter> set bs = {}" "set zs \<inter> set bs = {}"
    using dist by auto
  have foot: "footprint l (xs @ ys @ zs @ ws) = set as \<union> set ys \<union> set zs \<union> set bs"
    by (auto simp: footprint_def as_def bs_def)
  have nz: "p \<noteq> 0" if "p \<in> set as \<union> set ys \<union> set zs \<union> set bs" for p
    using dlist_nonnull [OF d] that foot by blast
  have ls: "linked \<sigma> (last as) (hd ys)" "linked \<sigma> (last ys) (hd zs)" "linked \<sigma> (last zs) (hd bs)"
    using c ne ab by (auto simp: successively_append_iff)
  have "nx \<sigma> (hd ys) \<noteq> 0"
  proof -
    obtain y ys' where y: "ys = y # ys'" using ne by (cases ys) auto
    have "nx \<sigma> y = hd ((ys' @ zs @ ws) @ [tail_of l])"
      using dlist_interior(3) [of \<sigma> l xs y "ys' @ zs @ ws"] d y by simp
    also have "\<dots> \<noteq> 0" using dlist_at(6) [of \<sigma> l "xs @ [y]" "ys' @ zs @ ws"] d y by simp
    finally show ?thesis by (simp add: y)
  qed
  then have i1: "is_interior \<sigma> (hd ys)"
    using ls mem nz by (auto simp: is_interior_def linked_def)
  have "nx \<sigma> (hd zs) \<noteq> 0"
  proof -
    obtain z zs' where z: "zs = z # zs'" using ne by (cases zs) auto
    have "nx \<sigma> z = hd ((zs' @ ws) @ [tail_of l])"
      using dlist_interior(3) [of \<sigma> l "xs @ ys" z "zs' @ ws"] d z by simp
    also have "\<dots> \<noteq> 0" using dlist_at(6) [of \<sigma> l "xs @ ys @ [z]" "zs' @ ws"] d z by simp
    finally show ?thesis by (simp add: z)
  qed
  then have i2: "is_interior \<sigma> (hd zs)"
    using ls mem nz by (auto simp: is_interior_def linked_def)
  have "dlist \<sigma> l ((xs @ ys @ butlast zs) @ last zs # ws)"
    using d append_butlast_last_id [OF ne(2)] by (metis append.assoc append_Cons append_Nil)
  then have i3: "is_interior \<sigma> (last zs)" by (rule dlist_interior)
  have "list_prev \<sigma> (hd bs) = Inr (last zs)"
    using list_prev_refine [of \<sigma> l "xs @ ys @ zs" ws] d ne by (simp add: bs_def)
  moreover have "hd zs \<noteq> hd bs" using mem dj by auto
  moreover have "last zs \<noteq> last ys" "hd zs \<noteq> hd ys" "hd bs \<noteq> hd ys" "last ys \<noteq> last as" "last zs \<noteq> last as"
    using mem dj by auto
  ultimately have "list_splice \<sigma> (hd ys) (hd zs) (hd bs) = Inr ?s"
    using i1 i2 i3 ls by (simp add: list_splice_def Let_def spliced_def linked_def)
  moreover have "dlist ?s l (xs @ zs @ ys @ ws)"
  proof -
    have "chain ?s (l # (xs @ zs @ ys @ ws) @ [tail_of l])"
      using chain_spliced [OF dist c ab(1) ne ab(2)] by (simp add: as_def bs_def)
    moreover have "pv ?s l = 0" "nx ?s (tail_of l) = 0"
    proof -
      have "l \<in> set as" "tail_of l \<in> set bs" by (simp_all add: as_def bs_def)
      then show "pv ?s l = 0" "nx ?s (tail_of l) = 0"
        using mem dj d by (auto simp: spliced_def dlist_def)
    qed
    ultimately show ?thesis using d by (auto simp: dlist_def)
  qed
  moreover have "?s p = \<sigma> p" if "p \<notin> footprint l (xs @ ys @ zs @ ws)" for p
  proof -
    have "p \<noteq> last as" "p \<noteq> hd ys" "p \<noteq> last ys" "p \<noteq> hd zs" "p \<noteq> last zs" "p \<noteq> hd bs"
      using that mem unfolding foot by auto
    then show ?thesis by (simp add: spliced_def)
  qed
  ultimately show ?thesis by (auto simp: bs_def)
qed

text \<open>C22. On a non-empty list, \<^verbatim>\<open>list_max\<close> returns an element that no element exceeds and
  that exceeds every element before it: the first of the greatest.\<close>

theorem list_max_first:
  assumes "strict_weak_order lt" "dlist \<sigma> l xs" "xs \<noteq> []"
  shows "\<exists>us r vs. list_max \<sigma> l lt = Some (Inr r) \<and> xs = us @ r # vs
           \<and> (\<forall>u \<in> set us. lt u r) \<and> (\<forall>x \<in> set xs. \<not> lt r x)"
  using list_max_refine [OF assms(2,3)] strict_weak_order.scan_max_first [OF assms(1,3) refl] by metis

text \<open>C23. \<^verbatim>\<open>list_insert_ordered\<close> puts a new element into a non-decreasing list, at a place where the list
  stays non-decreasing, and keeps the other elements and their order.\<close>

theorem list_insert_ordered_correct:
  assumes "strict_weak_order lt" "dlist \<sigma> l xs" "nondecreasing lt xs" "e \<noteq> 0" "e \<notin> footprint l xs"
  shows "\<exists>\<sigma>' us vs. list_insert_ordered \<sigma> l e lt = Some (Inr \<sigma>') \<and> dlist \<sigma>' l (us @ e # vs)
           \<and> xs = us @ vs \<and> nondecreasing lt (us @ e # vs)"
  using list_insert_ordered_refine [OF assms(2,4,5), of lt]
    strict_weak_order.insert_ordered_sorted [OF assms(1,3), of e] by (metis takeWhile_dropWhile_id)

section \<open>Sequences of operations\<close>

text \<open>A client's calls on the list at \<open>l\<close>, on the links and on the sequence that the list stands for. A call
  that fails an assertion ends the run.\<close>

datatype list_op = Push_front ptr | Push_back ptr | Insert ptr ptr | Remove ptr | Pop_front | Pop_back
  | Front | Back | Reverse | Size | Empty

datatype list_out = Nothing | Elem ptr | Number nat | Truth bool

fun list_do :: "ptr \<Rightarrow> list_op \<Rightarrow> lmem \<Rightarrow> (list_out \<times> lmem) res option" where
  "list_do l (Push_front e) \<sigma> = Some (bindR (list_push_front \<sigma> l e) (\<lambda>\<sigma>. Inr (Nothing, \<sigma>)))"
| "list_do l (Push_back e) \<sigma> = Some (bindR (list_push_back \<sigma> l e) (\<lambda>\<sigma>. Inr (Nothing, \<sigma>)))"
| "list_do l (Insert b e) \<sigma> = Some (bindR (list_insert \<sigma> b e) (\<lambda>\<sigma>. Inr (Nothing, \<sigma>)))"
| "list_do l (Remove e) \<sigma> = Some (bindR (list_remove \<sigma> e) (\<lambda>(x, \<sigma>). Inr (Elem x, \<sigma>)))"
| "list_do l Pop_front \<sigma> = Some (bindR (list_pop_front \<sigma> l) (\<lambda>(x, \<sigma>). Inr (Elem x, \<sigma>)))"
| "list_do l Pop_back \<sigma> = Some (bindR (list_pop_back \<sigma> l) (\<lambda>(x, \<sigma>). Inr (Elem x, \<sigma>)))"
| "list_do l Front \<sigma> = Some (bindR (list_front \<sigma> l) (\<lambda>x. Inr (Elem x, \<sigma>)))"
| "list_do l Back \<sigma> = Some (bindR (list_back \<sigma> l) (\<lambda>x. Inr (Elem x, \<sigma>)))"
| "list_do l Reverse \<sigma> = bindO (list_reverse \<sigma> l) (\<lambda>\<sigma>. Some (Inr (Nothing, \<sigma>)))"
| "list_do l Size \<sigma> = bindO (list_size \<sigma> l) (\<lambda>n. Some (Inr (Number n, \<sigma>)))"
| "list_do l Empty \<sigma> = Some (bindR (list_empty \<sigma> l) (\<lambda>b. Inr (Truth b, \<sigma>)))"

fun seq_do :: "ptr \<Rightarrow> list_op \<Rightarrow> ptr list \<Rightarrow> (list_out \<times> ptr list) res" where
  "seq_do l (Push_front e) xs = Inr (Nothing, e # xs)"
| "seq_do l (Push_back e) xs = Inr (Nothing, xs @ [e])"
| "seq_do l (Insert b e) xs = Inr (Nothing, takeWhile ((\<noteq>) b) xs @ e # dropWhile ((\<noteq>) b) xs)"
| "seq_do l (Remove e) xs = Inr (Elem (hd (tl (dropWhile ((\<noteq>) e) xs) @ [tail_of l])), remove1 e xs)"
| "seq_do l Pop_front xs = assertR (xs \<noteq> []) (Inr (Elem (hd xs), tl xs))"
| "seq_do l Pop_back xs = assertR (xs \<noteq> []) (Inr (Elem (last xs), butlast xs))"
| "seq_do l Front xs = assertR (xs \<noteq> []) (Inr (Elem (hd xs), xs))"
| "seq_do l Back xs = assertR (xs \<noteq> []) (Inr (Elem (last xs), xs))"
| "seq_do l Reverse xs = Inr (Nothing, rev xs)"
| "seq_do l Size xs = Inr (Number (length xs), xs)"
| "seq_do l Empty xs = Inr (Truth (xs = []), xs)"

text \<open>What the interface asks of a call: an element to insert is not in the list yet, one to remove or to
  insert before is in it (or, for the latter, the end). Popping an empty list is not excluded.\<close>

fun op_ok :: "ptr \<Rightarrow> list_op \<Rightarrow> ptr list \<Rightarrow> bool" where
  "op_ok l (Push_front e) xs \<longleftrightarrow> e \<noteq> 0 \<and> e \<notin> footprint l xs"
| "op_ok l (Push_back e) xs \<longleftrightarrow> e \<noteq> 0 \<and> e \<notin> footprint l xs"
| "op_ok l (Insert b e) xs \<longleftrightarrow> e \<noteq> 0 \<and> e \<notin> footprint l xs \<and> b \<in> insert (tail_of l) (set xs)"
| "op_ok l (Remove e) xs \<longleftrightarrow> e \<in> set xs"
| "op_ok l _ xs \<longleftrightarrow> True"

fun new_elems :: "list_op \<Rightarrow> ptr set" where
  "new_elems (Push_front e) = {e}"
| "new_elems (Push_back e) = {e}"
| "new_elems (Insert b e) = {e}"
| "new_elems _ = {}"

fun list_run :: "ptr \<Rightarrow> list_op list \<Rightarrow> lmem \<Rightarrow> (list_out list \<times> lmem) res option" where
  "list_run l [] \<sigma> = Some (Inr ([], \<sigma>))"
| "list_run l (c # cs) \<sigma> =
     bindO (list_do l c \<sigma>) (\<lambda>(r, \<sigma>). bindO (list_run l cs \<sigma>) (\<lambda>(rs, \<sigma>). Some (Inr (r # rs, \<sigma>))))"

fun seq_run :: "ptr \<Rightarrow> list_op list \<Rightarrow> ptr list \<Rightarrow> (list_out list \<times> ptr list) res" where
  "seq_run l [] xs = Inr ([], xs)"
| "seq_run l (c # cs) xs =
     bindR (seq_do l c xs) (\<lambda>(r, xs). bindR (seq_run l cs xs) (\<lambda>(rs, xs). Inr (r # rs, xs)))"

fun ops_ok :: "ptr \<Rightarrow> list_op list \<Rightarrow> ptr list \<Rightarrow> bool" where
  "ops_ok l [] xs \<longleftrightarrow> True"
| "ops_ok l (c # cs) xs \<longleftrightarrow> op_ok l c xs \<and> (case seq_do l c xs of Inl _ \<Rightarrow> True | Inr (_, xs) \<Rightarrow> ops_ok l cs xs)"

text \<open>The memory that a call or a run leaves implements the sequence, and other memory is untouched.\<close>

definition implements :: "ptr \<Rightarrow> ptr set \<Rightarrow> lmem \<Rightarrow> ('r \<times> lmem) res option \<Rightarrow> ('r \<times> ptr list) res \<Rightarrow> bool" where
  "implements l P \<sigma> c a \<longleftrightarrow>
     (case a of Inl e \<Rightarrow> c = Some (Inl e)
      | Inr (r, xs) \<Rightarrow> (\<exists>\<sigma>'. c = Some (Inr (r, \<sigma>')) \<and> dlist \<sigma>' l xs \<and> footprint l xs \<subseteq> P \<and> (\<forall>p. p \<notin> P \<longrightarrow> \<sigma>' p = \<sigma> p)))"

lemma implements_Inr [simp]:
  "implements l P \<sigma> c (Inr (r, xs)) \<longleftrightarrow>
     (\<exists>\<sigma>'. c = Some (Inr (r, \<sigma>')) \<and> dlist \<sigma>' l xs \<and> footprint l xs \<subseteq> P \<and> (\<forall>p. p \<notin> P \<longrightarrow> \<sigma>' p = \<sigma> p))"
  by (simp add: implements_def)

lemma implements_Inl [simp]: "implements l P \<sigma> c (Inl e) \<longleftrightarrow> c = Some (Inl e)"
  by (simp add: implements_def)

lemma list_front_refine: "dlist \<sigma> l xs \<Longrightarrow> list_front \<sigma> l = assertR (xs \<noteq> []) (Inr (hd xs))"
  using dlist_at(1) [of \<sigma> l "[]" xs] by (cases xs) (simp_all add: list_front_def list_empty_refine)

lemma list_back_refine: "dlist \<sigma> l xs \<Longrightarrow> list_back \<sigma> l = assertR (xs \<noteq> []) (Inr (last xs))"
  using dlist_at(2) [of \<sigma> l xs "[]"] by (cases xs rule: rev_cases) (simp_all add: list_back_def list_empty_refine)

lemma list_do_implements:
  assumes d: "dlist \<sigma> l xs" and ok: "op_ok l c xs"
  shows "implements l (footprint l xs \<union> new_elems c) \<sigma> (list_do l c \<sigma>) (seq_do l c xs)"
proof (cases c)
  case (Push_front e)
  then show ?thesis using list_push_front_refine [OF d, of e] ok by (auto simp: footprint_def)
next
  case (Push_back e)
  then show ?thesis using list_push_back_refine [OF d, of e] ok by (auto simp: footprint_def)
next
  case (Insert b e)
  let ?us = "takeWhile ((\<noteq>) b) xs" and ?vs = "dropWhile ((\<noteq>) b) xs"
  have "hd (?vs @ [tail_of l]) = b"
  proof (cases "b \<in> set xs")
    case True
    then have "?vs \<noteq> []" by auto
    then show ?thesis using hd_dropWhile [of "(\<noteq>) b" xs] by simp
  next
    case False
    then have "?vs = []" by (auto simp: dropWhile_eq_Nil_conv)
    moreover have "b = tail_of l" using False ok Insert by simp
    ultimately show ?thesis by (simp only: append_Nil list.sel)
  qed
  then have "\<exists>\<sigma>'. list_insert \<sigma> b e = Inr \<sigma>' \<and> dlist \<sigma>' l (?us @ e # ?vs) \<and> (\<forall>p. p \<notin> footprint l (e # xs) \<longrightarrow> \<sigma>' p = \<sigma> p)"
    using list_insert_refine [of \<sigma> l ?us ?vs e] d ok Insert by simp
  moreover have "footprint l (?us @ e # ?vs) \<subseteq> footprint l xs \<union> {e}"
    by (auto simp: footprint_def dest: set_takeWhileD set_dropWhileD)
  ultimately show ?thesis using Insert by (auto simp: footprint_def)
next
  case (Remove e)
  then obtain us vs where xs: "xs = us @ e # vs" "e \<notin> set us" using ok by (auto dest: split_list_first)
  then have "dropWhile ((\<noteq>) e) xs = e # vs" "remove1 e xs = us @ vs"
    by (auto simp: dropWhile_append remove1_append)
  moreover have "\<exists>\<sigma>'. list_remove \<sigma> e = Inr (hd (vs @ [tail_of l]), \<sigma>') \<and> dlist \<sigma>' l (us @ vs)
      \<and> (\<forall>p. p \<notin> footprint l (us @ vs) \<longrightarrow> \<sigma>' p = \<sigma> p)"
    using list_remove_refine d unfolding xs(1) by blast
  ultimately show ?thesis using Remove xs(1) by (auto simp: footprint_def)
next
  case Pop_front
  then show ?thesis
    using list_pop_front_refine [of \<sigma> l "hd xs" "tl xs"] d list_front_refine [OF d]
    by (cases xs) (auto simp: list_pop_front_def footprint_def)
next
  case Pop_back
  then show ?thesis
    using list_pop_back_refine [of \<sigma> l "butlast xs" "last xs"] d list_back_refine [OF d]
    by (cases xs rule: rev_cases) (auto simp: list_pop_back_def footprint_def)
next
  case Reverse
  then show ?thesis using list_reverse_refine [OF d] by (auto simp: footprint_def)
next
  case Front
  then show ?thesis using d by (cases "xs = []") (simp_all add: list_front_refine)
next
  case Back
  then show ?thesis using d by (cases "xs = []") (simp_all add: list_back_refine)
qed (use d in \<open>simp_all add: list_size_refine list_empty_refine\<close>)

lemma list_run_implements:
  "dlist \<sigma> l xs \<Longrightarrow> ops_ok l cs xs \<Longrightarrow> footprint l xs \<union> \<Union> (new_elems ` set cs) \<subseteq> P \<Longrightarrow>
   implements l P \<sigma> (list_run l cs \<sigma>) (seq_run l cs xs)"
proof (induction cs arbitrary: \<sigma> xs)
  case (Cons c cs)
  note step = list_do_implements [OF Cons.prems(1), of c]
  show ?case
  proof (cases "seq_do l c xs")
    case (Inl e)
    with step Cons.prems(2) show ?thesis by simp
  next
    case (Inr q)
    obtain r ys where q: "q = (r, ys)" by (cases q)
    with step Inr Cons.prems(2) obtain \<sigma>1 where 1: "list_do l c \<sigma> = Some (Inr (r, \<sigma>1))" "dlist \<sigma>1 l ys"
        "footprint l ys \<subseteq> footprint l xs \<union> new_elems c" "\<And>p. p \<notin> footprint l xs \<union> new_elems c \<Longrightarrow> \<sigma>1 p = \<sigma> p"
      by auto
    have "implements l P \<sigma>1 (list_run l cs \<sigma>1) (seq_run l cs ys)"
      using Cons.prems(2,3) Inr q 1(2,3) by (intro Cons.IH) auto
    moreover have "\<sigma>1 p = \<sigma> p" if "p \<notin> P" for p using 1(4) Cons.prems(3) that by auto
    ultimately show ?thesis
      using Inr q 1(1) by (cases "seq_run l cs ys") auto
  qed
qed simp

text \<open>C21. The list operations on the links implement a sequence. Any sequence of calls that insert at either end
  or before an element, remove, pop at either end, look at either end, reverse, measure or test for
  emptiness, on a list with any elements, none included, ends and gives the results that the same calls have
  on a sequence, and leaves the list with the elements of that sequence in order; a call that pops or
  looks at an end of an empty list fails an assertion, and no other call does. A second list that shares
  no memory with the first and with the inserted elements is not affected.\<close>

theorem list_queue_correct:
  assumes "dlist \<sigma> l xs" "ops_ok l cs xs"
    and "dlist \<sigma> m ys" "footprint m ys \<inter> (footprint l xs \<union> \<Union> (new_elems ` set cs)) = {}"
  shows "case seq_run l cs xs of
      Inl e \<Rightarrow> list_run l cs \<sigma> = Some (Inl e)
    | Inr (rs, xs') \<Rightarrow> (\<exists>\<sigma>'. list_run l cs \<sigma> = Some (Inr (rs, \<sigma>')) \<and> dlist \<sigma>' l xs' \<and> dlist \<sigma>' m ys)"
proof (cases "seq_run l cs xs")
  case (Inl e)
  with list_run_implements [OF assms(1,2) subset_refl] show ?thesis by simp
next
  case (Inr q)
  obtain rs zs where q: "q = (rs, zs)" by (cases q)
  then obtain \<sigma>' where "list_run l cs \<sigma> = Some (Inr (rs, \<sigma>'))" "dlist \<sigma>' l zs"
      "\<And>p. p \<notin> footprint l xs \<union> \<Union> (new_elems ` set cs) \<Longrightarrow> \<sigma>' p = \<sigma> p"
    using list_run_implements [OF assms(1,2) subset_refl] Inr by auto
  moreover from this(3) have "dlist \<sigma>' m ys" using assms(4) by (intro dlist_frame [OF assms(3)]) auto
  ultimately show ?thesis using Inr q by simp
qed

section \<open>Witnesses\<close>

text \<open>Two lists in one memory: at 16 with the elements 100 and 200, at 40 with the element 300;
  elements compare by address.\<close>

definition sample_mem :: lmem where
  "sample_mem p =
     (if p = 16 then \<lparr>le_prev = 0, le_next = 200\<rparr>
      else if p = 200 then \<lparr>le_prev = 16, le_next = 100\<rparr>
      else if p = 100 then \<lparr>le_prev = 200, le_next = 24\<rparr>
      else if p = 24 then \<lparr>le_prev = 100, le_next = 0\<rparr>
      else if p = 40 then \<lparr>le_prev = 0, le_next = 300\<rparr>
      else if p = 300 then \<lparr>le_prev = 40, le_next = 48\<rparr>
      else if p = 48 then \<lparr>le_prev = 300, le_next = 0\<rparr>
      else \<lparr>le_prev = 0, le_next = 0\<rparr>)"

lemma sample_lists: "dlist sample_mem 16 [200, 100]" "dlist sample_mem 40 [300]"
  by (simp_all add: dlist_def linked_def tail_of_def sample_mem_def)

interpretation addr_less: strict_weak_order "(<) :: nat \<Rightarrow> nat \<Rightarrow> bool"
  by unfold_locales auto

theorem list_max_first_witness:
  "\<exists>r. list_max sample_mem 16 (<) = Some (Inr r) \<and> r = 200"
proof -
  obtain us r vs where "list_max sample_mem 16 (<) = Some (Inr r)" "[200, 100] = us @ r # vs"
    "\<forall>x \<in> set [200, 100]. \<not> r < x"
    using list_max_first [OF addr_less.strict_weak_order_axioms sample_lists(1)] by blast
  then show ?thesis by (cases us) (auto simp: Cons_eq_append_conv)
qed

theorem list_insert_ordered_correct_witness:
  "\<exists>\<sigma>' us vs. list_insert_ordered sample_mem 40 200 (<) = Some (Inr \<sigma>')
     \<and> dlist \<sigma>' 40 (us @ 200 # vs) \<and> [300] = us @ vs \<and> sorted (us @ 200 # vs)"
proof -
  have "200 \<notin> footprint 40 [300]" by (simp add: footprint_def tail_of_def)
  then show ?thesis
    using list_insert_ordered_correct [OF addr_less.strict_weak_order_axioms sample_lists(2), of 200]
    by (auto simp: not_less sorted_wrt_iff_nth_less)
qed

text \<open>Popped until it is empty, the list is still good for reversing and for a push; then a pop too many.\<close>

theorem list_queue_correct_witness:
  "(\<exists>\<sigma>'. list_run 16 [Pop_front, Push_back 400, Pop_back, Pop_back, Reverse, Size, Empty, Push_front 200, Insert 24 400] sample_mem
        = Some (Inr ([Elem 200, Nothing, Elem 400, Elem 100, Nothing, Number 0, Truth True, Nothing, Nothing], \<sigma>'))
      \<and> dlist \<sigma>' 16 [200, 400] \<and> dlist \<sigma>' 40 [300])
   \<and> list_run 16 [Pop_front, Pop_front, Pop_front] sample_mem = Some (Inl Assertion)"
proof
  let ?cs = "[Pop_front, Push_back 400, Pop_back, Pop_back, Reverse, Size, Empty, Push_front 200, Insert 24 400]"
  have "ops_ok 16 ?cs [200, 100]" "footprint 40 [300] \<inter> (footprint 16 [200, 100] \<union> \<Union> (new_elems ` set ?cs)) = {}"
    by (simp_all add: footprint_def tail_of_def)
  from list_queue_correct [OF sample_lists(1) this(1) sample_lists(2) this(2)]
  show "\<exists>\<sigma>'. list_run 16 ?cs sample_mem
        = Some (Inr ([Elem 200, Nothing, Elem 400, Elem 100, Nothing, Number 0, Truth True, Nothing, Nothing], \<sigma>'))
      \<and> dlist \<sigma>' 16 [200, 400] \<and> dlist \<sigma>' 40 [300]"
    by (simp del: list_run.simps)
  let ?ds = "[Pop_front, Pop_front, Pop_front]"
  have "ops_ok 16 ?ds [200, 100]" "footprint 40 [300] \<inter> (footprint 16 [200, 100] \<union> \<Union> (new_elems ` set ?ds)) = {}"
    by (simp_all add: footprint_def tail_of_def)
  from list_queue_correct [OF sample_lists(1) this(1) sample_lists(2) this(2)]
  show "list_run 16 ?ds sample_mem = Some (Inl Assertion)" by (simp del: list_run.simps)
qed

end
