(* ===== verification/Kernel_List_Sort.thy ===== *)
theory Kernel_List_Sort
  imports Kernel_List_Props
begin

text \<open>
  The natural merge sort of \<^verbatim>\<open>lib/kernel/list.c\<close> on the links of a list. Each pointer routine
  (\<^verbatim>\<open>find_end_of_run\<close>, \<^verbatim>\<open>is_sorted\<close>, \<^verbatim>\<open>inplace_merge\<close>, one pass, the outer loop) refines a
  function on the sequence of elements; the number of runs at least halves in a pass, so the
  loop ends, and the result is a stable sort.
\<close>

section \<open>The merge sort\<close>

fun merge :: "('a \<Rightarrow> 'a \<Rightarrow> bool) \<Rightarrow> 'a list \<Rightarrow> 'a list \<Rightarrow> 'a list" where
  "merge lt [] bs = bs"
| "merge lt as [] = as"
| "merge lt (a # as) (b # bs) =
     (if \<not> lt b a then a # merge lt as (b # bs) else b # merge lt (a # as) bs)"

fun run :: "('a \<Rightarrow> 'a \<Rightarrow> bool) \<Rightarrow> 'a \<Rightarrow> 'a list \<Rightarrow> 'a list \<times> 'a list" where
  "run lt x [] = ([], [])"
| "run lt x (y # ys) =
     (if \<not> lt y x then (let (r, s) = run lt y ys in (y # r, s)) else ([], y # ys))"

lemma run_append: "run lt x ys = (r, s) \<Longrightarrow> ys = r @ s"
  by (induction ys arbitrary: x r s) (auto split: if_splits prod.splits)

lemma run_sorted: "run lt x ys = (r, s) \<Longrightarrow> successively (\<lambda>a b. \<not> lt b a) (x # r)"
  by (induction ys arbitrary: x r s) (auto split: if_splits prod.splits)

lemma find_end_loop_refine:
  "dlist \<sigma> l (xs @ x # ys) \<Longrightarrow>
   find_end_loop \<sigma> lt x (tail_of l) = Some (Inr (hd (snd (run lt x ys) @ [tail_of l])))"
proof (induction ys arbitrary: xs x)
  case Nil
  then show ?case
    using list_next_refine [OF Nil.prems] by (subst find_end_loop.simps) simp
next
  case (Cons y ys)
  have d: "dlist \<sigma> l ((xs @ [x]) @ y # ys)" using Cons.prems by simp
  have "list_prev \<sigma> y = Inr x" using list_prev_refine [OF d] by simp
  then show ?case
    using Cons.IH [OF d] dlist_hd_neq [OF d] list_next_refine [OF Cons.prems]
    by (subst find_end_loop.simps) (simp add: split_def Let_def)
qed

lemma find_end_of_run_refine:
  assumes "dlist \<sigma> l (xs @ x # ys)"
  shows "find_end_of_run \<sigma> x (tail_of l) lt = Some (Inr (hd (snd (run lt x ys) @ [tail_of l])))"
  using find_end_loop_refine [OF assms] dlist_hd_neq [OF assms] assms
  by (auto simp: find_end_of_run_def dlist_def)

lemma is_sorted_loop_refine:
  "dlist \<sigma> l (xs @ x # ys @ zs) \<Longrightarrow>
   is_sorted_loop \<sigma> lt x (hd (zs @ [tail_of l])) = Some (Inr (successively (\<lambda>a b. \<not> lt b a) (x # ys)))"
proof (induction ys arbitrary: xs x)
  case Nil
  then show ?case
    using list_next_refine [of \<sigma> l xs x zs] by (subst is_sorted_loop.simps) simp
next
  case (Cons y ys)
  have d: "dlist \<sigma> l ((xs @ [x]) @ y # ys @ zs)" using Cons.prems by simp
  have "list_prev \<sigma> y = Inr x" using list_prev_refine [OF d] by simp
  moreover have "y \<noteq> hd (zs @ [tail_of l])"
    using d by (cases zs) (auto simp: dlist_def)
  ultimately show ?case
    using Cons.IH [OF d] list_next_refine [of \<sigma> l xs x "y # ys @ zs"] Cons.prems
    by (subst is_sorted_loop.simps) simp
qed

lemma is_sorted_refine:
  assumes "dlist \<sigma> l (xs @ ys @ zs)"
  shows "is_sorted \<sigma> (hd (ys @ zs @ [tail_of l])) (hd (zs @ [tail_of l])) lt
           = Some (Inr (successively (\<lambda>a b. \<not> lt b a) ys))"
proof (cases ys)
  case Nil
  then show ?thesis by (simp add: is_sorted_def)
next
  case (Cons y ys')
  have "y \<noteq> hd (zs @ [tail_of l])"
    using assms Cons by (cases zs) (auto simp: dlist_def)
  then show ?thesis
    using is_sorted_loop_refine [of \<sigma> l xs y ys' zs lt] assms Cons by (simp add: is_sorted_def)
qed

lemma merge_Nil2 [simp]: "merge lt as [] = as"
  by (cases as) auto

lemma merge_loop_refine:
  "dlist \<sigma> l (xs @ as @ bs @ zs) \<Longrightarrow>
   \<exists>\<sigma>'. merge_loop \<sigma> lt (hd (as @ bs @ zs @ [tail_of l])) (hd (bs @ zs @ [tail_of l])) (hd (zs @ [tail_of l]))
          = Some (Inr \<sigma>')
        \<and> dlist \<sigma>' l (xs @ merge lt as bs @ zs)
        \<and> (\<forall>p. p \<notin> footprint l (xs @ as @ bs @ zs) \<longrightarrow> \<sigma>' p = \<sigma> p)"
proof (induction lt as bs arbitrary: xs \<sigma> rule: merge.induct)
  case (1 lt bs)
  then show ?case by (subst merge_loop.simps) auto
next
  case (2 lt a as)
  then show ?case by (subst merge_loop.simps) auto
next
  case (3 lt a as b bs)
  note d = "3.prems"
  have ne: "a \<noteq> b" "b \<noteq> hd (zs @ [tail_of l])"
    using d by (cases zs; auto simp: dlist_def)+
  show ?case
  proof (cases "lt b a")
    case False
    have "list_next \<sigma> a = Inr (hd (as @ (b # bs) @ zs @ [tail_of l]))"
      using list_next_refine [of \<sigma> l xs a "as @ (b # bs) @ zs"] d by simp
    moreover obtain \<sigma>' where "merge_loop \<sigma> lt (hd (as @ (b # bs) @ zs @ [tail_of l])) b (hd (zs @ [tail_of l]))
          = Some (Inr \<sigma>')" "dlist \<sigma>' l ((xs @ [a]) @ merge lt as (b # bs) @ zs)"
      "\<forall>p. p \<notin> footprint l (xs @ (a # as) @ (b # bs) @ zs) \<longrightarrow> \<sigma>' p = \<sigma> p"
      using "3.IH"(1) [OF False, of \<sigma> "xs @ [a]"] d by auto
    ultimately show ?thesis
      using False ne by (subst merge_loop.simps) auto
  next
    case True
    let ?b' = "hd (bs @ zs @ [tail_of l])"
    obtain \<sigma>1 where s: "list_splice \<sigma> a b ?b' = Inr \<sigma>1"
      and d1: "dlist \<sigma>1 l ((xs @ [b]) @ (a # as) @ bs @ zs)"
      and f1: "\<forall>p. p \<notin> footprint l (xs @ (a # as) @ (b # bs) @ zs) \<longrightarrow> \<sigma>1 p = \<sigma> p"
      using list_splice_refine [of \<sigma> l xs "a # as" "[b]" "bs @ zs"] d by auto
    have n: "list_next \<sigma> b = Inr ?b'"
      using list_next_refine [of \<sigma> l "xs @ a # as" b "bs @ zs"] d by simp
    have p: "list_prev \<sigma> ?b' = Inr b"
      using list_prev_refine [of \<sigma> l "xs @ a # as @ [b]" "bs @ zs"] d by simp
    have foot: "footprint l ((xs @ [b]) @ (a # as) @ bs @ zs) = footprint l (xs @ (a # as) @ (b # bs) @ zs)"
      by (auto simp: footprint_def)
    obtain \<sigma>' where "merge_loop \<sigma>1 lt a ?b' (hd (zs @ [tail_of l])) = Some (Inr \<sigma>')"
      "dlist \<sigma>' l ((xs @ [b]) @ merge lt (a # as) bs @ zs)"
      "\<forall>p. p \<notin> footprint l (xs @ (a # as) @ (b # bs) @ zs) \<longrightarrow> \<sigma>' p = \<sigma>1 p"
      using "3.IH"(2) [OF _ d1] True foot by auto
    with s n p f1 True ne show ?thesis
      by (subst merge_loop.simps) auto
  qed
qed

lemma mset_merge: "mset (merge lt as bs) = mset as + mset bs"
  by (induction lt as bs rule: merge.induct) auto

lemma set_merge: "set (merge lt as bs) = set as \<union> set bs"
  by (metis mset_merge set_mset_mset set_mset_union)

text \<open>One pass of \<^verbatim>\<open>list_sort\<close> on the sequence of elements: the number of runs it writes and
  the sequence it leaves.\<close>

function pass :: "('a \<Rightarrow> 'a \<Rightarrow> bool) \<Rightarrow> 'a list \<Rightarrow> nat \<times> 'a list" where
  "pass lt [] = (0, [])"
| "pass lt (x # ys) =
     (case run lt x ys of
        (r, []) \<Rightarrow> (1, x # r)
      | (r, y # s) \<Rightarrow>
          (case run lt y s of
             (r', s') \<Rightarrow> (Suc (fst (pass lt s')), merge lt (x # r) (y # r') @ snd (pass lt s'))))"
  by pat_completeness auto
termination
  by (relation "measure (length o snd)") (auto dest!: run_append [OF sym])

fun nruns :: "('a \<Rightarrow> 'a \<Rightarrow> bool) \<Rightarrow> 'a list \<Rightarrow> nat" where
  "nruns lt [] = 0"
| "nruns lt [x] = 1"
| "nruns lt (x # y # ys) = of_bool (lt y x) + nruns lt (y # ys)"

lemma nruns_append_le: "nruns lt (xs @ ys) \<le> nruns lt xs + nruns lt ys"
proof (induction xs rule: induct_list012)
  case (2 x)
  then show ?case by (cases ys) auto
qed auto

lemma nruns_run: "nruns lt (x # ys) = Suc (nruns lt (snd (run lt x ys)))"
  by (induction ys arbitrary: x) (auto simp: split_def Let_def)

lemma nruns_le_1: "nruns lt xs \<le> 1 \<longleftrightarrow> successively (\<lambda>a b. \<not> lt b a) xs"
proof (induction xs rule: induct_list012)
  case (3 x y zs)
  have "nruns lt (y # zs) \<ge> 1" by (simp add: nruns_run)
  with 3 show ?case by auto
qed auto

lemma mset_pass: "mset (snd (pass lt xs)) = mset xs"
proof (induction lt xs rule: pass.induct)
  case (2 lt x ys)
  then show ?case
    by (auto simp: mset_merge dest!: run_append split: prod.splits list.splits)
qed auto

lemma pass_count: "2 * fst (pass lt xs) \<le> Suc (nruns lt xs)"
proof (induction lt xs rule: pass.induct)
  case (2 lt x ys)
  show ?case
  proof (cases "snd (run lt x ys)")
    case Nil
    then show ?thesis by (cases "run lt x ys") (simp add: nruns_run)
  next
    case (Cons y s)
    obtain r where r: "run lt x ys = (r, y # s)" using Cons by (cases "run lt x ys") auto
    obtain r' s' where r': "run lt y s = (r', s')" by (cases "run lt y s")
    have "nruns lt (x # ys) = 2 + nruns lt s'"
      using r r' by (simp add: nruns_run [of lt x] nruns_run [of lt y])
    moreover have "2 * fst (pass lt s') \<le> Suc (nruns lt s')"
      using "2.IH" r r' by simp
    ultimately show ?thesis using r r' by simp
  qed
qed auto

definition same_rank :: "('a \<Rightarrow> 'a \<Rightarrow> bool) \<Rightarrow> 'a \<Rightarrow> 'a \<Rightarrow> bool" where
  "same_rank lt x y \<longleftrightarrow> \<not> lt x y \<and> \<not> lt y x"

context strict_weak_order
begin

lemma successively_nondecreasing: "successively (\<lambda>a b. \<not> lt b a) xs \<longleftrightarrow> nondecreasing lt xs"
  by (rule successively_conv_sorted_wrt) (simp add: transp_def, blast dest: lt_neg_trans)

lemma merge_nondecreasing:
  "nondecreasing lt as \<Longrightarrow> nondecreasing lt bs \<Longrightarrow> nondecreasing lt (merge lt as bs)"
proof (induction l \<equiv> lt as bs rule: merge.induct)
  case (3 a as b bs)
  show ?case
  proof (cases "lt b a")
    case True
    then have "\<not> lt y b" if "y \<in> set (a # as)" for y
      using "3.prems"(1) that lt_asym lt_neg_trans by (metis set_ConsD sorted_wrt.simps(2))
    with True 3 show ?thesis by (auto simp: set_merge)
  next
    case False
    then have "\<not> lt y a" if "y \<in> set (b # bs)" for y
      using "3.prems"(2) that lt_neg_trans by (metis set_ConsD sorted_wrt.simps(2))
    with False 3 show ?thesis by (auto simp: set_merge)
  qed
qed auto

lemma merge_stable:
  "nondecreasing lt as \<Longrightarrow> filter (same_rank lt x) (merge lt as bs) = filter (same_rank lt x) as @ filter (same_rank lt x) bs"
proof (induction l \<equiv> lt as bs rule: merge.induct)
  case (3 a as b bs)
  show ?case
  proof (cases "lt b a")
    case True
    have "filter (same_rank lt x) (a # as) = []" if "same_rank lt x b"
    proof -
      have "lt x y" if y: "y \<in> set (a # as)" for y
      proof -
        have "\<not> lt y a" using "3.prems" y lt_irrefl by auto
        then have "lt b y" using True lt_neg_trans by blast
        then show ?thesis using \<open>same_rank lt x b\<close> lt_neg_trans unfolding same_rank_def by blast
      qed
      then show ?thesis unfolding same_rank_def by (auto simp: filter_empty_conv)
    qed
    with True 3 show ?thesis by auto
  next
    case False
    with 3 show ?thesis by auto
  qed
qed auto

lemma pass_runs: "nruns lt (snd (pass lt xs)) \<le> fst (pass lt xs)"
proof (induction l \<equiv> lt xs rule: pass.induct)
  case (2 x ys)
  show ?case
  proof (cases "snd (run lt x ys)")
    case Nil
    then obtain r where r: "run lt x ys = (r, [])" by (cases "run lt x ys") auto
    then show ?thesis using run_sorted [OF r] nruns_le_1 [of lt "x # r"] by simp
  next
    case (Cons y s)
    obtain r where r: "run lt x ys = (r, y # s)" using Cons by (cases "run lt x ys") auto
    obtain r' s' where r': "run lt y s = (r', s')" by (cases "run lt y s")
    have "nondecreasing lt (merge lt (x # r) (y # r'))"
      using run_sorted [OF r] run_sorted [OF r'] by (intro merge_nondecreasing) (simp_all only: successively_nondecreasing)
    then have "nruns lt (merge lt (x # r) (y # r')) \<le> 1"
      by (simp only: nruns_le_1 successively_nondecreasing)
    moreover have "nruns lt (snd (pass lt s')) \<le> fst (pass lt s')"
      using 2 r r' by simp
    ultimately show ?thesis
      using nruns_append_le [of lt "merge lt (x # r) (y # r')" "snd (pass lt s')"] r r' by simp
  qed
qed auto

lemma pass_stable: "filter (same_rank lt z) (snd (pass lt xs)) = filter (same_rank lt z) xs"
proof (induction l \<equiv> lt xs rule: pass.induct)
  case (2 x ys)
  show ?case
  proof (cases "snd (run lt x ys)")
    case Nil
    then obtain r where r: "run lt x ys = (r, [])" by (cases "run lt x ys") auto
    then show ?thesis using run_append [OF r] by simp
  next
    case (Cons y s)
    obtain r where r: "run lt x ys = (r, y # s)" using Cons by (cases "run lt x ys") auto
    obtain r' s' where r': "run lt y s = (r', s')" by (cases "run lt y s")
    have "nondecreasing lt (x # r)"
      using run_sorted [OF r] by (simp only: successively_nondecreasing)
    then show ?thesis
      using 2 r r' run_append [OF r] run_append [OF r'] merge_stable [of "x # r" z "y # r'"]
      by simp
  qed
qed auto

end

lemma inplace_merge_refine:
  assumes d: "dlist \<sigma> l (xs @ as @ bs @ zs)" and ne: "as \<noteq> []" "bs \<noteq> []"
    and sorted: "successively (\<lambda>a b. \<not> lt b a) as" "successively (\<lambda>a b. \<not> lt b a) bs"
  shows "\<exists>\<sigma>'. inplace_merge \<sigma> (hd as) (hd bs) (hd (zs @ [tail_of l])) lt = Some (Inr \<sigma>')
           \<and> dlist \<sigma>' l (xs @ merge lt as bs @ zs)
           \<and> (\<forall>p. p \<notin> footprint l (xs @ as @ bs @ zs) \<longrightarrow> \<sigma>' p = \<sigma> p)"
proof -
  have "is_sorted \<sigma> (hd as) (hd bs) lt = Some (Inr True)"
    using is_sorted_refine [of \<sigma> l xs as "bs @ zs" lt] d ne sorted by simp
  moreover have "is_sorted \<sigma> (hd bs) (hd (zs @ [tail_of l])) lt = Some (Inr True)"
    using is_sorted_refine [of \<sigma> l "xs @ as" bs zs lt] d ne sorted by simp
  moreover have "hd as \<noteq> 0" "hd bs \<noteq> 0" "hd (zs @ [tail_of l]) \<noteq> 0"
    using dlist_at(6) [of \<sigma> l xs "as @ bs @ zs"] dlist_at(6) [of \<sigma> l "xs @ as" "bs @ zs"]
      dlist_at(6) [of \<sigma> l "xs @ as @ bs" zs] d ne by auto
  ultimately show ?thesis
    using merge_loop_refine [OF d, of lt] ne by (simp add: inplace_merge_def)
qed

lemma sort_pass_refine:
  "dlist \<sigma> l (ws @ xs) \<Longrightarrow>
   \<exists>\<sigma>'. sort_pass \<sigma> lt (tail_of l) (hd (xs @ [tail_of l])) cnt = Some (Inr (cnt + fst (pass lt xs), \<sigma>'))
      \<and> dlist \<sigma>' l (ws @ snd (pass lt xs))
      \<and> (\<forall>p. p \<notin> footprint l (ws @ xs) \<longrightarrow> \<sigma>' p = \<sigma> p)"
proof (induction lt xs arbitrary: \<sigma> ws cnt rule: pass.induct)
  case (1 lt)
  then show ?case by (subst sort_pass.simps) simp
next
  case (2 lt x ys)
  note x = dlist_hd_neq [OF "2.prems"] and f1 = find_end_of_run_refine [OF "2.prems", of lt]
  show ?case
  proof (cases "snd (run lt x ys)")
    case Nil
    then obtain r where r: "run lt x ys = (r, [])" by (cases "run lt x ys") auto
    then show ?thesis
      using "2.prems" x f1 run_append [OF r] by (subst sort_pass.simps) simp
  next
    case (Cons y s)
    obtain r where r: "run lt x ys = (r, y # s)" using Cons by (cases "run lt x ys") auto
    obtain r' s' where r': "run lt y s = (r', s')" by (cases "run lt y s")
    have eq: "x # ys = (x # r) @ (y # r') @ s'" using run_append [OF r] run_append [OF r'] by simp
    have d: "dlist \<sigma> l ((ws @ x # r) @ y # s)" using "2.prems" run_append [OF r] by simp
    note y = dlist_hd_neq [OF d] and f2 = find_end_of_run_refine [OF d, of lt]
    obtain \<sigma>1 where m: "inplace_merge \<sigma> x y (hd (s' @ [tail_of l])) lt = Some (Inr \<sigma>1)"
      and d1: "dlist \<sigma>1 l ((ws @ merge lt (x # r) (y # r')) @ s')"
      and fr1: "\<forall>p. p \<notin> footprint l (ws @ x # ys) \<longrightarrow> \<sigma>1 p = \<sigma> p"
      using inplace_merge_refine [of \<sigma> l ws "x # r" "y # r'" s' lt] "2.prems" run_sorted [OF r]
        run_sorted [OF r'] eq by auto
    have foot: "footprint l ((ws @ merge lt (x # r) (y # r')) @ s') = footprint l (ws @ x # ys)"
      using eq by (auto simp: footprint_def set_merge simp del: merge.simps)
    obtain \<sigma>' where "sort_pass \<sigma>1 lt (tail_of l) (hd (s' @ [tail_of l])) (cnt + 1)
        = Some (Inr (cnt + 1 + fst (pass lt s'), \<sigma>'))"
      "dlist \<sigma>' l ((ws @ merge lt (x # r) (y # r')) @ snd (pass lt s'))"
      "\<forall>p. p \<notin> footprint l (ws @ x # ys) \<longrightarrow> \<sigma>' p = \<sigma>1 p"
      using "2.IH" [OF r [symmetric] refl r' [symmetric] d1, of "cnt + 1"] foot by auto
    with x y f1 f2 r r' m fr1 show ?thesis
      by (subst sort_pass.simps) auto
  qed
qed

lemma sort_loop_refine:
  assumes "strict_weak_order lt"
  shows "dlist \<sigma> l xs \<Longrightarrow>
     \<exists>\<sigma>' ys. sort_loop \<sigma> lt l = Some (Inr \<sigma>') \<and> dlist \<sigma>' l ys \<and> nondecreasing lt ys
       \<and> mset ys = mset xs \<and> (\<forall>x. filter (same_rank lt x) ys = filter (same_rank lt x) xs)
       \<and> (\<forall>p. p \<notin> footprint l xs \<longrightarrow> \<sigma>' p = \<sigma> p)"
proof (induction "nruns lt xs" arbitrary: \<sigma> xs rule: less_induct)
  case less
  let ?n = "fst (pass lt xs)" and ?ys = "snd (pass lt xs)"
  have b: "nx \<sigma> l = hd (xs @ [tail_of l])"
    using dlist_at(1) [of \<sigma> l "[]" xs] less.prems by simp
  obtain \<sigma>1 where p: "sort_pass \<sigma> lt (tail_of l) (nx \<sigma> l) 0 = Some (Inr (?n, \<sigma>1))"
    and d1: "dlist \<sigma>1 l ?ys" and f1: "\<forall>p. p \<notin> footprint l xs \<longrightarrow> \<sigma>1 p = \<sigma> p"
    using sort_pass_refine [of \<sigma> l "[]" xs lt 0] less.prems b by auto
  note st = strict_weak_order.pass_stable [OF assms] and ms = mset_pass [of lt xs]
  note le = strict_weak_order.pass_runs [OF assms, of xs]
  show ?case
  proof (cases "?n > 1")
    case True
    then have dec: "nruns lt ?ys < nruns lt xs" using le pass_count [of lt xs] by linarith
    have foot: "footprint l ?ys = footprint l xs" using ms by (metis footprint_def set_mset_mset)
    obtain \<sigma>' ys where "sort_loop \<sigma>1 lt l = Some (Inr \<sigma>')" "dlist \<sigma>' l ys" "nondecreasing lt ys"
      "mset ys = mset ?ys" "\<forall>x. filter (same_rank lt x) ys = filter (same_rank lt x) ?ys"
      "\<forall>p. p \<notin> footprint l ?ys \<longrightarrow> \<sigma>' p = \<sigma>1 p"
      using less.hyps [OF dec d1] by blast
    moreover from this(1) have "sort_loop \<sigma> lt l = Some (Inr \<sigma>')"
      using p True by (subst sort_loop.simps) simp
    ultimately show ?thesis using st ms foot f1 by metis
  next
    case False
    then have "nruns lt ?ys \<le> 1" using le by simp
    then have "nondecreasing lt ?ys"
      by (simp only: nruns_le_1 strict_weak_order.successively_nondecreasing [OF assms])
    moreover have "sort_loop \<sigma> lt l = Some (Inr \<sigma>1)"
      using p False by (subst sort_loop.simps) simp
    ultimately show ?thesis using d1 f1 st ms by metis
  qed
qed

text \<open>C14. \<^verbatim>\<open>list_sort\<close> returns on every well-formed list, for every comparison that is a strict
  weak order, without failing an assertion; the list is then a non-decreasing permutation of
  the old one in which elements of the same rank keep their order, and no memory outside the
  list has changed.\<close>

theorem list_sort_correct:
  assumes "strict_weak_order lt" "dlist \<sigma> l xs"
  shows "\<exists>\<sigma>' ys. list_sort \<sigma> l lt = Some (Inr \<sigma>') \<and> dlist \<sigma>' l ys \<and> nondecreasing lt ys
       \<and> mset ys = mset xs \<and> (\<forall>x. filter (same_rank lt x) ys = filter (same_rank lt x) xs)
       \<and> (\<forall>p. p \<notin> footprint l xs \<longrightarrow> \<sigma>' p = \<sigma> p)"
proof -
  obtain \<sigma>' ys where s: "sort_loop \<sigma> lt l = Some (Inr \<sigma>')" "dlist \<sigma>' l ys" "nondecreasing lt ys"
    "mset ys = mset xs" "\<forall>x. filter (same_rank lt x) ys = filter (same_rank lt x) xs"
    "\<forall>p. p \<notin> footprint l xs \<longrightarrow> \<sigma>' p = \<sigma> p"
    using sort_loop_refine [OF assms] by blast
  have "is_sorted \<sigma>' (nx \<sigma>' l) (tail_of l) lt = Some (Inr True)"
    using is_sorted_refine [of \<sigma>' l "[]" ys "[]" lt] s(2,3) dlist_at(1) [of \<sigma>' l "[]" ys]
      strict_weak_order.successively_nondecreasing [OF assms(1), of ys] by simp
  moreover have "l \<noteq> 0" using assms(2) by (simp add: dlist_def)
  ultimately have "list_sort \<sigma> l lt = Some (Inr \<sigma>')" using s(1) by (simp add: list_sort_def)
  with s show ?thesis by blast
qed

section \<open>Witness\<close>

theorem list_sort_correct_witness:
  "\<exists>\<sigma>' ys. list_sort sample_mem 16 (<) = Some (Inr \<sigma>') \<and> dlist \<sigma>' 16 ys \<and> sorted ys
     \<and> mset ys = {#200, 100#}"
  using list_sort_correct [OF addr_less.strict_weak_order_axioms sample_lists(1)]
  by (auto simp: not_less sorted_wrt_iff_nth_less)

end
