(* ===== verification/Thread_State.thy ===== *)
theory Thread_State
  imports Fixed_Point Heap Kernel_List_Props
begin

text \<open>
  The state that \<^verbatim>\<open>threads/thread.c\<close>, \<^verbatim>\<open>threads/synch.c\<close>, \<^verbatim>\<open>devices/timer.c\<close> and the interrupt
  layer of \<^verbatim>\<open>threads/interrupt.c\<close> share: one record of the kernel's globals, with the memory of
  thread structures, semaphores, locks and condition variables as maps from addresses.

  A \<^verbatim>\<open>struct list\<close> of threads or locks is the sequence of its elements; \<open>Kernel_List_Props\<close>
  proves that the links implement that sequence (\<^verbatim>\<open>list_push_back\<close> appends, \<^verbatim>\<open>list_remove\<close>
  removes, \<^verbatim>\<open>list_max\<close> is \<open>scan_max\<close>).

  A thread that is not running is suspended inside a kernel routine. Its page holds its kernel
  stack next to its \<^verbatim>\<open>struct thread\<close>; the field \<open>t_stack\<close> is that stack, innermost frame
  first. A frame names the place where a routine goes on: the statement after a call, or a
  statement with interrupts enabled before which another thread may run.
\<close>

section \<open>Types\<close>

type_synonym tptr = nat
type_synonym lptr = nat
type_synonym cptr = nat

datatype intr_level = INTR_OFF | INTR_ON

datatype thread_status = THREAD_RUNNING | THREAD_READY | THREAD_BLOCKED | THREAD_DYING

text \<open>Semaphores are objects of their own, embedded in a lock, or on the stack of a thread
  inside \<^verbatim>\<open>cond_wait\<close> (\<^verbatim>\<open>struct semaphore_elem\<close>).\<close>

datatype semaref = Sema nat | Lock_sema lptr | Cond_sema tptr

datatype frame =
    F_kernel_thread nat nat
  | F_function nat nat
  | F_exit
  | F_intr_enable
  | F_set_level intr_level
  | F_iret intr_level
  | F_yield
  | F_set_priority int
  | F_new_priority int
  | F_yield_below int
  | F_set_nice int
  | F_timer_sleep int
  | F_thread_create string int nat nat
  | F_take_init_tid
  | F_init_rest int
  | F_take_tid tptr int nat nat
  | F_create_rest tptr int int nat nat
  | F_create_start tptr int nat nat
  | F_create_yield int
  | F_idle_start nat
  | F_idle_loop
  | F_idle_wake
  | F_sema_down semaref
  | F_sema_loop semaref intr_level
  | F_sema_up semaref
  | F_lock_acquire lptr
  | F_lock_try_acquire lptr
  | F_try_hold lptr
  | F_try_push lptr
  | F_lock_wait lptr
  | F_donate tptr int
  | F_donate_lock tptr int
  | F_donate_holder tptr int
  | F_donate_next tptr int
  | F_sort_ready
  | F_lock_acquired lptr
  | F_lock_release lptr
  | F_update_priority
  | F_cond_wait cptr lptr
  | F_cond_signal cptr lptr
  | F_cond_broadcast cptr lptr

record thread =
  t_tid :: int
  t_status :: thread_status
  t_name :: string
  t_stack :: "frame list"
  t_priority :: int
  t_priority_origin :: int
  t_wake_time :: int
  t_entry_ord :: int
  t_nice :: int
  t_recent_cpu :: fixed_point
  t_locks_holding :: "lptr list"
  t_lock_waiting :: "lptr option"
  t_magic :: int

record semaphore =
  s_value :: int
  s_waiters :: "tptr list"

record lock =
  l_holder :: tptr
  l_priority_donate :: int

type_synonym tmem = "tptr \<Rightarrow> thread"

record kernel =
  thr :: tmem
  ready_heap :: "(tmem, tptr) heap"
  all_list :: "tptr list"
  idle_thread :: tptr
  initial_thread :: tptr
  tid_lock :: lptr
  running :: tptr
  next_tid :: int
  idle_ticks :: int
  kernel_ticks :: int
  thread_ticks :: int
  thread_mlfqs :: bool
  load_avg :: fixed_point
  semas :: "semaref \<Rightarrow> semaphore"
  locks :: "lptr \<Rightarrow> lock"
  conds :: "cptr \<Rightarrow> tptr list"
  ticks :: int
  sleep_thread_heap :: "(tmem, tptr) heap"
  unexpected_cnt :: "nat \<Rightarrow> int"
  intr :: intr_level
  in_external_intr :: bool
  yield_on_return :: bool

section \<open>Constants\<close>

definition PRI_MIN :: int where "PRI_MIN = 0"
definition PRI_DEFAULT :: int where "PRI_DEFAULT = 31"
definition PRI_MAX :: int where "PRI_MAX = 63"
definition DONATE_MAX_DEPTH :: int where "DONATE_MAX_DEPTH = 8"
definition TIME_SLICE :: int where "TIME_SLICE = 4"
definition TIMER_FREQ :: int where "TIMER_FREQ = 100"
definition THREAD_MAGIC :: int where "THREAD_MAGIC = 0xcd6abf4b"

section \<open>Updating one object\<close>

definition upd_thread :: "tptr \<Rightarrow> (thread \<Rightarrow> thread) \<Rightarrow> kernel \<Rightarrow> kernel" where
  "upd_thread t f k = k\<lparr>thr := (thr k)(t := f (thr k t))\<rparr>"

definition set_status :: "tptr \<Rightarrow> thread_status \<Rightarrow> kernel \<Rightarrow> kernel" where
  "set_status t st = upd_thread t (\<lambda>th. th\<lparr>t_status := st\<rparr>)"

definition upd_sema :: "semaref \<Rightarrow> (semaphore \<Rightarrow> semaphore) \<Rightarrow> kernel \<Rightarrow> kernel" where
  "upd_sema s f k = k\<lparr>semas := (semas k)(s := f (semas k s))\<rparr>"

definition upd_lock :: "lptr \<Rightarrow> (lock \<Rightarrow> lock) \<Rightarrow> kernel \<Rightarrow> kernel" where
  "upd_lock l f k = k\<lparr>locks := (locks k)(l := f (locks k l))\<rparr>"

text \<open>Pushing frames on the stack of the running thread, and dropping its top frame.\<close>

definition push_frames :: "frame list \<Rightarrow> kernel \<Rightarrow> kernel" where
  "push_frames fs k = upd_thread (running k) (\<lambda>th. th\<lparr>t_stack := fs @ t_stack th\<rparr>) k"

definition pop_frame :: "kernel \<Rightarrow> kernel" where
  "pop_frame k = upd_thread (running k) (\<lambda>th. th\<lparr>t_stack := tl (t_stack th)\<rparr>) k"

section \<open>The interrupt level\<close>

definition intr_context :: "kernel \<Rightarrow> bool" where
  "intr_context k = in_external_intr k"

definition intr_get_level :: "kernel \<Rightarrow> intr_level" where
  "intr_get_level k = intr k"

definition intr_disable :: "kernel \<Rightarrow> kernel" where
  "intr_disable k = k\<lparr>intr := INTR_OFF\<rparr>"

definition intr_enable :: "kernel \<Rightarrow> kernel res" where
  "intr_enable k = assertR (\<not> intr_context k) (Inr (k\<lparr>intr := INTR_ON\<rparr>))"

definition intr_set_level :: "intr_level \<Rightarrow> kernel \<Rightarrow> kernel res" where
  "intr_set_level level k = (if level = INTR_ON then intr_enable k else Inr (intr_disable k))"

definition intr_yield_on_return :: "kernel \<Rightarrow> kernel res" where
  "intr_yield_on_return k = assertR (intr_context k) (Inr (k\<lparr>yield_on_return := True\<rparr>))"

end
