(* ===== verification/Thread.thy ===== *)
theory Thread
  imports Thread_State
begin

text \<open>
  \<^verbatim>\<open>threads/thread.c\<close>, as built for the threads project (without \<^verbatim>\<open>USERPROG\<close>). Each routine
  is a function on the kernel state; a routine that gives up the processor pushes the frame
  where it goes on before \<open>schedule\<close> switches to the next thread.
\<close>

section \<open>Comparison of threads\<close>

definition cmp_thread_priority_heap :: "tmem \<Rightarrow> tptr \<Rightarrow> tptr \<Rightarrow> bool" where
  "cmp_thread_priority_heap m a b =
     (if t_priority (m a) \<noteq> t_priority (m b) then t_priority (m a) < t_priority (m b)
      else t_entry_ord (m a) > t_entry_ord (m b))"

definition cmp_thread_priority :: "tmem \<Rightarrow> tptr \<Rightarrow> tptr \<Rightarrow> bool" where
  "cmp_thread_priority m a b \<longleftrightarrow> t_priority (m a) < t_priority (m b)"

definition cmp_lock_priority :: "(lptr \<Rightarrow> lock) \<Rightarrow> lptr \<Rightarrow> lptr \<Rightarrow> bool" where
  "cmp_lock_priority ls a b \<longleftrightarrow> l_priority_donate (ls a) < l_priority_donate (ls b)"

definition sort_ready_heap :: "kernel \<Rightarrow> kernel" where
  "sort_ready_heap k = k\<lparr>ready_heap := heap_rebuild (thr k) (ready_heap k)\<rparr>"

section \<open>Identifying threads\<close>

definition is_thread :: "tmem \<Rightarrow> tptr \<Rightarrow> bool" where
  "is_thread m t \<longleftrightarrow> t \<noteq> 0 \<and> t_magic (m t) = THREAD_MAGIC"

definition running_thread :: "kernel \<Rightarrow> tptr" where
  "running_thread k = running k"

definition thread_current :: "kernel \<Rightarrow> tptr res" where
  "thread_current k =
     (let t = running_thread k
      in assertR (is_thread (thr k) t) (assertR (t_status (thr k t) = THREAD_RUNNING) (Inr t)))"

definition thread_tid :: "kernel \<Rightarrow> int res" where
  "thread_tid k = bindR (thread_current k) (\<lambda>t. Inr (t_tid (thr k t)))"

definition thread_name :: "kernel \<Rightarrow> string res" where
  "thread_name k = bindR (thread_current k) (\<lambda>t. Inr (t_name (thr k t)))"

section \<open>Scheduling\<close>

definition next_thread_to_run :: "kernel \<Rightarrow> (tptr \<times> kernel) res" where
  "next_thread_to_run k =
     (if heap_empty (ready_heap k) then Inr (idle_thread k, k)
      else bindR (heap_pop (thr k) (ready_heap k)) (\<lambda>(t, h). Inr (t, k\<lparr>ready_heap := h\<rparr>)))"

text \<open>\<^verbatim>\<open>palloc_free_page\<close> overwrites the page with \<^verbatim>\<open>0xcc\<close> bytes. The status, the name and the
  list heads would hold values that are none of theirs; those fields keep what they had, and
  nothing reads them while the magic number is wrong.\<close>

definition free_thread_page :: "tptr \<Rightarrow> kernel \<Rightarrow> kernel" where
  "free_thread_page t =
     upd_thread t (\<lambda>th. th\<lparr>t_tid := s32 0xcccccccc, t_priority := s32 0xcccccccc,
                            t_priority_origin := s32 0xcccccccc,
                            t_wake_time := s64 0xcccccccccccccccc, t_entry_ord := s32 0xcccccccc,
                            t_nice := s32 0xcccccccc, t_recent_cpu := s32 0xcccccccc,
                            t_lock_waiting := Some 0xcccccccc, t_magic := 0xcccccccc\<rparr>)"

definition thread_schedule_tail :: "tptr option \<Rightarrow> kernel \<Rightarrow> kernel res" where
  "thread_schedule_tail prev k =
     (let c = running_thread k
      in assertR (intr_get_level k = INTR_OFF)
        (let k = set_status c THREAD_RUNNING k; k = k\<lparr>thread_ticks := 0\<rparr>
         in case prev of
              None \<Rightarrow> Inr k
            | Some p \<Rightarrow>
                if t_status (thr k p) = THREAD_DYING \<and> p \<noteq> initial_thread k
                then assertR (p \<noteq> c) (Inr (free_thread_page p k))
                else Inr k))"

text \<open>\<^verbatim>\<open>switch_threads\<close> continues on the stack of the next thread, which was suspended inside its
  own call of \<^verbatim>\<open>schedule\<close> (or starts in \<^verbatim>\<open>switch_entry\<close>), so the tail runs there with the
  previous thread as its argument.\<close>

definition schedule :: "kernel \<Rightarrow> kernel res" where
  "schedule k =
     (let c = running_thread k
      in bindR (next_thread_to_run k) (\<lambda>(nxt, k).
           assertR (intr_get_level k = INTR_OFF)
             (assertR (t_status (thr k c) \<noteq> THREAD_RUNNING)
               (assertR (is_thread (thr k) nxt)
                 (if c \<noteq> nxt then thread_schedule_tail (Some c) (k\<lparr>running := nxt\<rparr>)
                  else thread_schedule_tail None k)))))"

definition thread_block :: "kernel \<Rightarrow> kernel res" where
  "thread_block k =
     assertR (\<not> intr_context k) (assertR (intr_get_level k = INTR_OFF)
       (bindR (thread_current k) (\<lambda>t. schedule (set_status t THREAD_BLOCKED k))))"

text \<open>The two statements that enter a thread into the ready queue; \<^verbatim>\<open>entry_ord\<close> is an \<^verbatim>\<open>int\<close>
  and takes the low half of the 64-bit counter.\<close>

definition enqueue_ready :: "tptr \<Rightarrow> kernel \<Rightarrow> kernel res" where
  "enqueue_ready t k =
     (let (n, h) = heap_entry_count (ready_heap k);
          k = upd_thread t (\<lambda>th. th\<lparr>t_entry_ord := s32 n\<rparr>) (k\<lparr>ready_heap := h\<rparr>)
      in bindR (heap_push (thr k) (ready_heap k) t) (\<lambda>h. Inr (k\<lparr>ready_heap := h\<rparr>)))"

definition thread_unblock :: "tptr \<Rightarrow> kernel \<Rightarrow> kernel res" where
  "thread_unblock t k =
     assertR (is_thread (thr k) t)
       (let old_level = intr_get_level k; k = intr_disable k
        in assertR (t_status (thr k t) = THREAD_BLOCKED)
             (bindR (enqueue_ready t k) (\<lambda>k.
                intr_set_level old_level (set_status t THREAD_READY k))))"

definition thread_yield :: "kernel \<Rightarrow> kernel res" where
  "thread_yield k =
     bindR (thread_current k) (\<lambda>c.
       assertR (\<not> intr_context k)
         (let old_level = intr_get_level k;
              k = push_frames [F_set_level old_level] (intr_disable k)
          in bindR (if c \<noteq> idle_thread k then enqueue_ready c k else Inr k) (\<lambda>k.
               schedule (set_status c THREAD_READY k))))"

definition thread_exit :: "kernel \<Rightarrow> kernel res" where
  "thread_exit k =
     assertR (\<not> intr_context k)
       (let k = intr_disable k
        in bindR (thread_current k) (\<lambda>t.
             assertR (t \<in> set (all_list k))
               (schedule (set_status t THREAD_DYING (k\<lparr>all_list := remove1 t (all_list k)\<rparr>)))))"

section \<open>Priorities and the feedback queue\<close>

fun foreach :: "(tptr \<Rightarrow> kernel \<Rightarrow> kernel res) \<Rightarrow> tptr list \<Rightarrow> kernel \<Rightarrow> kernel res" where
  "foreach f [] k = Inr k"
| "foreach f (t # ts) k = bindR (f t k) (foreach f ts)"

definition thread_foreach :: "(tptr \<Rightarrow> kernel \<Rightarrow> kernel res) \<Rightarrow> kernel \<Rightarrow> kernel res" where
  "thread_foreach f k =
     assertR (intr_get_level k = INTR_OFF) (foreach f (all_list k) k)"

definition mlfqs_priority :: "thread \<Rightarrow> int res" where
  "mlfqs_priority th =
     bindR (fp_int_div (t_recent_cpu th) 4) (\<lambda>q.
       let p = s32 (PRI_MAX - fptoi_round q);
           p = s32 (p - s32 (2 * t_nice th))
       in Inr (if p > PRI_MAX then PRI_MAX else if p < PRI_MIN then PRI_MIN else p))"

definition donated_priority :: "(lptr \<Rightarrow> lock) \<Rightarrow> thread \<Rightarrow> int" where
  "donated_priority ls th =
     (let priority = t_priority_origin th
      in if t_locks_holding th \<noteq> []
         then let d = l_priority_donate (ls (scan_max (cmp_lock_priority ls) (t_locks_holding th)))
              in if d > priority then d else priority
         else priority)"

definition thread_update_priority :: "tptr \<Rightarrow> kernel \<Rightarrow> kernel res" where
  "thread_update_priority t k =
     (if thread_mlfqs k
      then bindR (mlfqs_priority (thr k t)) (\<lambda>p. Inr (upd_thread t (\<lambda>th. th\<lparr>t_priority := p\<rparr>) k))
      else Inr (upd_thread t (\<lambda>th. th\<lparr>t_priority := donated_priority (locks k) th\<rparr>) k))"

text \<open>\<^verbatim>\<open>thread_set_priority\<close> runs with interrupts on, and a donor may change the priority between its
  statements: the two \<^verbatim>\<open>if\<close> statements are frames of their own.\<close>

definition thread_set_priority :: "int \<Rightarrow> kernel \<Rightarrow> kernel res" where
  "thread_set_priority new_priority k =
     (if thread_mlfqs k then Inr k
      else bindR (thread_current k) (\<lambda>c.
        let old_priority = t_priority (thr k c);
            k = upd_thread c (\<lambda>th. th\<lparr>t_priority_origin := new_priority\<rparr>) k
        in Inr (push_frames [F_new_priority new_priority, F_yield_below old_priority] k)))"

definition set_new_priority :: "int \<Rightarrow> kernel \<Rightarrow> kernel res" where
  "set_new_priority new_priority k =
     bindR (thread_current k) (\<lambda>c.
       Inr (if t_priority (thr k c) < new_priority \<or> t_locks_holding (thr k c) = []
            then upd_thread c (\<lambda>th. th\<lparr>t_priority := new_priority\<rparr>) k else k))"

definition yield_below :: "int \<Rightarrow> kernel \<Rightarrow> kernel res" where
  "yield_below old_priority k =
     bindR (thread_current k) (\<lambda>c. if t_priority (thr k c) < old_priority then thread_yield k else Inr k)"

definition thread_get_priority :: "kernel \<Rightarrow> int res" where
  "thread_get_priority k = bindR (thread_current k) (\<lambda>t. Inr (t_priority (thr k t)))"

definition thread_set_nice :: "int \<Rightarrow> kernel \<Rightarrow> kernel res" where
  "thread_set_nice nice k =
     bindR (thread_current k) (\<lambda>c.
       Inr (push_frames [F_update_priority, F_yield] (upd_thread c (\<lambda>th. th\<lparr>t_nice := nice\<rparr>) k)))"

definition thread_get_nice :: "kernel \<Rightarrow> int res" where
  "thread_get_nice k = bindR (thread_current k) (\<lambda>t. Inr (t_nice (thr k t)))"

definition thread_get_load_avg :: "kernel \<Rightarrow> int" where
  "thread_get_load_avg k = fptoi_round (fp_int_mul (load_avg k) 100)"

definition thread_get_recent_cpu :: "kernel \<Rightarrow> int res" where
  "thread_get_recent_cpu k =
     bindR (thread_current k) (\<lambda>t. Inr (fptoi_round (fp_int_mul (t_recent_cpu (thr k t)) 100)))"

definition decayed_recent_cpu :: "fixed_point \<Rightarrow> thread \<Rightarrow> fixed_point res" where
  "decayed_recent_cpu la th =
     bindR (fp_div (fp_int_mul la 2) (fp_add (fp_int_mul la 2) (itofp 1))) (\<lambda>coeff.
       Inr (fp_int_add (fp_mul coeff (t_recent_cpu th)) (t_nice th)))"

definition thread_update_recent_cpu :: "tptr \<Rightarrow> kernel \<Rightarrow> kernel res" where
  "thread_update_recent_cpu t k =
     (if t = idle_thread k then Inr k
      else bindR (decayed_recent_cpu (load_avg k) (thr k t)) (\<lambda>r.
             Inr (upd_thread t (\<lambda>th. th\<lparr>t_recent_cpu := r\<rparr>) k)))"

definition next_load_avg :: "fixed_point \<Rightarrow> int \<Rightarrow> fixed_point res" where
  "next_load_avg la ready =
     bindR (fp_div (itofp 59) (itofp 60)) (\<lambda>eff1.
       bindR (fp_int_div (itofp 1) 60) (\<lambda>eff2.
         Inr (fp_add (fp_mul eff1 la) (fp_int_mul eff2 ready))))"

definition update_load_avg :: "kernel \<Rightarrow> kernel res" where
  "update_load_avg k =
     bindR (thread_current k) (\<lambda>c.
       let cnt = int (heap_size (ready_heap k));
           cnt = (if c \<noteq> idle_thread k then cnt + 1 else cnt)
       in bindR (next_load_avg (load_avg k) cnt) (\<lambda>la. Inr (k\<lparr>load_avg := la\<rparr>)))"

definition thread_tick :: "kernel \<Rightarrow> kernel res" where
  "thread_tick k =
     bindR (thread_current k) (\<lambda>t.
       let k = (if t = idle_thread k then k\<lparr>idle_ticks := s64 (idle_ticks k + 1)\<rparr>
                else k\<lparr>kernel_ticks := s64 (kernel_ticks k + 1)\<rparr>)
       in bindR
         (if thread_mlfqs k then
            let k = (if t \<noteq> idle_thread k
                     then upd_thread t (\<lambda>th. th\<lparr>t_recent_cpu := fp_int_add (t_recent_cpu th) 1\<rparr>) k
                     else k)
            in bindR (if ticks k smod 4 = 0 then thread_foreach thread_update_priority k else Inr k) (\<lambda>k.
                 if ticks k smod TIMER_FREQ = 0
                 then bindR (update_load_avg k) (thread_foreach thread_update_recent_cpu)
                 else Inr k)
          else Inr k) (\<lambda>k.
         let k = k\<lparr>thread_ticks := u32 (thread_ticks k + 1)\<rparr>
         in if thread_ticks k \<ge> TIME_SLICE then intr_yield_on_return k else Inr k))"

section \<open>Creation\<close>

definition init_thread :: "tptr \<Rightarrow> string \<Rightarrow> int \<Rightarrow> kernel \<Rightarrow> kernel res" where
  "init_thread t name priority k =
     assertR (t \<noteq> 0) (assertR (PRI_MIN \<le> priority \<and> priority \<le> PRI_MAX)
       (let th = \<lparr>t_tid = 0, t_status = THREAD_BLOCKED, t_name = take 15 name,
                  t_stack = t_stack (thr k t),
                  t_priority = priority, t_priority_origin = priority, t_wake_time = 0,
                  t_entry_ord = 0, t_nice = 0, t_recent_cpu = 0, t_locks_holding = [],
                  t_lock_waiting = None, t_magic = THREAD_MAGIC\<rparr>
        in Inr (k\<lparr>thr := (thr k)(t := th), all_list := all_list k @ [t]\<rparr>)))"

text \<open>\<^verbatim>\<open>thread_create\<close>, first part: up to the call of \<^verbatim>\<open>allocate_tid\<close>, whose lock may block the
  caller. \<open>page\<close> is the zeroed page that \<^verbatim>\<open>palloc_get_page\<close> returned; without a page the call returns
  \<^verbatim>\<open>TID_ERROR\<close> and changes nothing.\<close>

definition thread_create_begin ::
  "string \<Rightarrow> int \<Rightarrow> nat \<Rightarrow> nat \<Rightarrow> tptr option \<Rightarrow> kernel \<Rightarrow> kernel res" where
  "thread_create_begin name priority function aux page k =
     assertR (function \<noteq> 0)
       (case page of
          None \<Rightarrow> Inr k
        | Some t \<Rightarrow>
            bindR (init_thread t name priority (upd_thread t (\<lambda>th. th\<lparr>t_stack := []\<rparr>) k)) (\<lambda>k.
              Inr (push_frames [F_lock_acquire (tid_lock k), F_take_tid t priority function aux] k)))"

definition take_tid :: "tptr \<Rightarrow> int \<Rightarrow> nat \<Rightarrow> nat \<Rightarrow> kernel \<Rightarrow> kernel" where
  "take_tid t priority function aux k =
     push_frames [F_lock_release (tid_lock k), F_create_rest t (next_tid k) priority function aux]
       (k\<lparr>next_tid := s32 (next_tid k + 1)\<rparr>)"

text \<open>The rest of \<^verbatim>\<open>thread_create\<close>, with interrupts on between its three parts: the thread's number and
  its feedback-queue options; the stack, whose three frames make the new thread start in
  \<^verbatim>\<open>kernel_thread (function, aux)\<close>, and \<^verbatim>\<open>thread_unblock\<close>; and the comparison of the priorities.\<close>

definition thread_create_rest ::
  "tptr \<Rightarrow> int \<Rightarrow> int \<Rightarrow> nat \<Rightarrow> nat \<Rightarrow> kernel \<Rightarrow> kernel res" where
  "thread_create_rest t tid priority function aux k =
     bindR
       (let k = upd_thread t (\<lambda>th. th\<lparr>t_tid := tid\<rparr>) k
        in if thread_mlfqs k then
             bindR (thread_current k) (\<lambda>c.
               let k = (if c \<noteq> initial_thread k
                        then upd_thread t (\<lambda>th. th\<lparr>t_nice := t_nice (thr k c),
                                                   t_recent_cpu := t_recent_cpu (thr k c)\<rparr>) k
                        else upd_thread t (\<lambda>th. th\<lparr>t_nice := 0, t_recent_cpu := 0\<rparr>) k)
               in thread_update_priority c k)
           else Inr k) (\<lambda>k.
     Inr (push_frames [F_create_start t priority function aux] k))"

definition create_start :: "tptr \<Rightarrow> int \<Rightarrow> nat \<Rightarrow> nat \<Rightarrow> kernel \<Rightarrow> kernel res" where
  "create_start t priority function aux k =
     assertR (is_thread (thr k) t)
       (let k = upd_thread t (\<lambda>th. th\<lparr>t_stack := [F_kernel_thread function aux]\<rparr>) k
        in bindR (thread_unblock t k) (\<lambda>k. Inr (push_frames [F_create_yield priority] k)))"

definition create_yield :: "int \<Rightarrow> kernel \<Rightarrow> kernel res" where
  "create_yield priority k =
     bindR (thread_current k) (\<lambda>c. if priority > t_priority (thr k c) then thread_yield k else Inr k)"

text \<open>\<^verbatim>\<open>kernel_thread\<close>: the function runs as the frame \<open>F_function\<close>, and \<^verbatim>\<open>thread_exit\<close> follows
  it. The function pointer 1 stands for \<^verbatim>\<open>idle\<close>.\<close>

definition IDLE_FUNCTION :: nat where
  "IDLE_FUNCTION = 1"

definition kernel_thread :: "nat \<Rightarrow> nat \<Rightarrow> kernel \<Rightarrow> kernel res" where
  "kernel_thread function aux k =
     assertR (function \<noteq> 0)
       (bindR (intr_enable k) (\<lambda>k.
          Inr (push_frames
                 [if function = IDLE_FUNCTION then F_idle_start aux else F_function function aux, F_exit] k)))"

section \<open>The idle thread\<close>

definition idle_start :: "nat \<Rightarrow> kernel \<Rightarrow> kernel res" where
  "idle_start idle_started k =
     bindR (thread_current k) (\<lambda>t.
       Inr (push_frames [F_sema_up (Sema idle_started), F_idle_loop] (k\<lparr>idle_thread := t\<rparr>)))"

definition idle_loop :: "kernel \<Rightarrow> kernel res" where
  "idle_loop k = thread_block (push_frames [F_idle_wake] (intr_disable k))"

definition idle_wake :: "kernel \<Rightarrow> kernel res" where
  "idle_wake k = Inr (push_frames [F_idle_loop] (k\<lparr>intr := INTR_ON\<rparr>))"

section \<open>Initialisation\<close>

text \<open>\<^verbatim>\<open>thread_init\<close> up to the call of \<^verbatim>\<open>allocate_tid\<close>, which goes through the lock and so yields
  once, and its two statements after it.\<close>

definition thread_init :: "kernel \<Rightarrow> kernel res" where
  "thread_init k =
     assertR (intr_get_level k = INTR_OFF)
       (let k = upd_lock (tid_lock k) (\<lambda>_. \<lparr>l_holder = 0, l_priority_donate = PRI_MIN\<rparr>) k;
            k = upd_sema (Lock_sema (tid_lock k)) (\<lambda>_. \<lparr>s_value = 1, s_waiters = []\<rparr>) k;
            k = k\<lparr>ready_heap := heap_init (ready_heap k) cmp_thread_priority_heap, all_list := []\<rparr>;
            k = k\<lparr>initial_thread := running_thread k\<rparr>
        in bindR (init_thread (initial_thread k) ''main'' PRI_DEFAULT k) (\<lambda>k.
             Inr (push_frames [F_lock_acquire (tid_lock k), F_take_init_tid]
                    (set_status (initial_thread k) THREAD_RUNNING k))))"

definition take_init_tid :: "kernel \<Rightarrow> kernel" where
  "take_init_tid k =
     push_frames [F_lock_release (tid_lock k), F_init_rest (next_tid k)]
       (k\<lparr>next_tid := s32 (next_tid k + 1)\<rparr>)"

definition thread_init_rest :: "int \<Rightarrow> kernel \<Rightarrow> kernel" where
  "thread_init_rest tid k =
     (upd_thread (initial_thread k) (\<lambda>th. th\<lparr>t_tid := tid\<rparr>) k)\<lparr>load_avg := 0\<rparr>"

definition thread_start :: "nat \<Rightarrow> kernel \<Rightarrow> kernel" where
  "thread_start idle_started k =
     push_frames [F_thread_create ''idle'' PRI_MIN IDLE_FUNCTION idle_started,
                  F_intr_enable, F_sema_down (Sema idle_started)]
       (upd_sema (Sema idle_started) (\<lambda>_. \<lparr>s_value = 0, s_waiters = []\<rparr>) k)"

end
