(* ===== verification/Synch.thy ===== *)
theory Synch
  imports Thread
begin

text \<open>
  \<^verbatim>\<open>threads/synch.c\<close>: semaphores, locks with priority donation, and condition variables. A
  routine that runs with interrupts enabled is split where a timer interrupt may come in
  between two accesses of shared data, with a frame for each remaining part.
\<close>

section \<open>Semaphores\<close>

definition sema_init :: "semaref \<Rightarrow> int \<Rightarrow> kernel \<Rightarrow> kernel" where
  "sema_init s v = upd_sema s (\<lambda>_. \<lparr>s_value = v, s_waiters = []\<rparr>)"

text \<open>The loop of \<^verbatim>\<open>sema_down\<close>: a thread that finds the value zero waits and tests it again when
  it is scheduled the next time.\<close>

definition sema_down_loop :: "semaref \<Rightarrow> intr_level \<Rightarrow> kernel \<Rightarrow> kernel res" where
  "sema_down_loop s old_level k =
     (if s_value (semas k s) = 0
      then bindR (thread_current k) (\<lambda>t.
             thread_block (push_frames [F_sema_loop s old_level]
               (upd_sema s (\<lambda>x. x\<lparr>s_waiters := s_waiters x @ [t]\<rparr>) k)))
      else intr_set_level old_level (upd_sema s (\<lambda>x. x\<lparr>s_value := u32 (s_value x - 1)\<rparr>) k))"

definition sema_down :: "semaref \<Rightarrow> kernel \<Rightarrow> kernel res" where
  "sema_down s k =
     assertR (\<not> intr_context k) (sema_down_loop s (intr_get_level k) (intr_disable k))"

definition sema_try_down :: "semaref \<Rightarrow> kernel \<Rightarrow> bool \<times> kernel" where
  "sema_try_down s k =
     (if s_value (semas k s) > 0
      then (True, upd_sema s (\<lambda>x. x\<lparr>s_value := u32 (s_value x - 1)\<rparr>) k)
      else (False, k))"

text \<open>The part of \<^verbatim>\<open>sema_up\<close> with interrupts off.\<close>

definition sema_wake :: "semaref \<Rightarrow> kernel \<Rightarrow> kernel res" where
  "sema_wake s k =
     (let old_level = intr_get_level k; k = intr_disable k
      in bindR
           (if s_waiters (semas k s) \<noteq> []
            then let t = scan_max (cmp_thread_priority (thr k)) (s_waiters (semas k s))
                 in bindR (thread_unblock t k) (\<lambda>k.
                      Inr (upd_sema s (\<lambda>x. x\<lparr>s_waiters := remove1 t (s_waiters x)\<rparr>) k))
            else Inr k) (\<lambda>k.
           intr_set_level old_level (upd_sema s (\<lambda>x. x\<lparr>s_value := u32 (s_value x + 1)\<rparr>) k)))"

definition sema_up :: "semaref \<Rightarrow> kernel \<Rightarrow> kernel res" where
  "sema_up s k =
     bindR (sema_wake s k) (\<lambda>k.
       if intr_context k then intr_yield_on_return k else Inr (push_frames [F_yield] k))"

definition sema_waiter_priority :: "kernel \<Rightarrow> semaref \<Rightarrow> int" where
  "sema_waiter_priority k s =
     (if s_waiters (semas k s) \<noteq> []
      then let p = t_priority (thr k (scan_max (cmp_thread_priority (thr k)) (s_waiters (semas k s))))
           in if p > PRI_MIN then p else PRI_MIN
      else PRI_MIN)"

section \<open>Locks\<close>

definition lock_init :: "lptr \<Rightarrow> kernel \<Rightarrow> kernel" where
  "lock_init l k =
     sema_init (Lock_sema l) 1 (upd_lock l (\<lambda>_. \<lparr>l_holder = 0, l_priority_donate = PRI_MIN\<rparr>) k)"

definition lock_held_by_current_thread :: "lptr \<Rightarrow> kernel \<Rightarrow> bool res" where
  "lock_held_by_current_thread l k =
     bindR (thread_current k) (\<lambda>t. Inr (l_holder (locks k l) = t))"

text \<open>Both ways to take a free lock set \<^verbatim>\<open>holder\<close> and the list of held locks after
  \<^verbatim>\<open>sema_try_down\<close> has restored the interrupt level.\<close>

definition lock_try_acquire :: "lptr \<Rightarrow> kernel \<Rightarrow> (bool \<times> kernel) res" where
  "lock_try_acquire l k =
     bindR (lock_held_by_current_thread l k) (\<lambda>held.
       assertR (\<not> held)
         (let (success, k) = sema_try_down (Lock_sema l) k
          in Inr (success, if success then push_frames [F_try_hold l] k else k)))"

definition try_hold :: "lptr \<Rightarrow> kernel \<Rightarrow> kernel res" where
  "try_hold l k =
     bindR (thread_current k) (\<lambda>c.
       Inr (push_frames [F_try_push l] (upd_lock l (\<lambda>x. x\<lparr>l_holder := c\<rparr>) k)))"

definition hold_lock :: "lptr \<Rightarrow> thread \<Rightarrow> thread" where
  "hold_lock l th = th\<lparr>t_locks_holding := t_locks_holding th @ [l]\<rparr>"

definition try_push :: "lptr \<Rightarrow> kernel \<Rightarrow> kernel res" where
  "try_push l k = bindR (thread_current k) (\<lambda>c. Inr (upd_thread c (hold_lock l) k))"

definition lock_acquire :: "lptr \<Rightarrow> kernel \<Rightarrow> kernel res" where
  "lock_acquire l k =
     assertR (\<not> intr_context k)
       (bindR (lock_held_by_current_thread l k) (\<lambda>held.
          assertR (\<not> held)
            (bindR (lock_try_acquire l k) (\<lambda>(success, k).
               Inr (if success then k else push_frames [F_lock_wait l] k)))))"

definition lock_wait :: "lptr \<Rightarrow> kernel \<Rightarrow> kernel res" where
  "lock_wait l k =
     bindR (thread_current k) (\<lambda>c.
       Inr (push_frames [F_donate c 0, F_sort_ready, F_sema_down (Lock_sema l), F_lock_acquired l]
              (upd_thread c (\<lambda>th. th\<lparr>t_lock_waiting := Some l\<rparr>) k)))"

definition lock_acquired :: "lptr \<Rightarrow> kernel \<Rightarrow> kernel res" where
  "lock_acquired l k =
     bindR (thread_current k) (\<lambda>c.
       Inr (upd_thread c (\<lambda>th. hold_lock l (th\<lparr>t_lock_waiting := None\<rparr>))
              (upd_lock l (\<lambda>x. x\<lparr>l_holder := c\<rparr>) k)))"

text \<open>One level of \<^verbatim>\<open>donate_priority\<close>. It runs with interrupts on, so the tests up to the assertion, each of
  the two assignments and the recursive call are frames of their own: in between, the thread may get the
  lock it waits for, and the lock may lose its holder.\<close>

definition donate_priority :: "tptr \<Rightarrow> int \<Rightarrow> kernel \<Rightarrow> kernel res" where
  "donate_priority t dep k =
     (if thread_mlfqs k then Inr k
      else assertR (t \<noteq> 0)
        (case t_lock_waiting (thr k t) of
           None \<Rightarrow> Inr k
         | Some l \<Rightarrow>
             if dep > DONATE_MAX_DEPTH then Inr k
             else if l_priority_donate (locks k l) < t_priority (thr k t)
             then assertR (l_holder (locks k l) \<noteq> 0)
                    (Inr (push_frames [F_donate_lock t dep, F_donate_holder t dep, F_donate_next t dep] k))
             else Inr k))"

text \<open>\<^verbatim>\<open>t->lock_waiting\<close>, dereferenced.\<close>

definition waited_lock :: "tptr \<Rightarrow> kernel \<Rightarrow> lptr res" where
  "waited_lock t k = (case t_lock_waiting (thr k t) of None \<Rightarrow> Inl NullDeref | Some l \<Rightarrow> Inr l)"

definition donate_lock :: "tptr \<Rightarrow> kernel \<Rightarrow> kernel res" where
  "donate_lock t k =
     bindR (waited_lock t k) (\<lambda>l. Inr (upd_lock l (\<lambda>x. x\<lparr>l_priority_donate := t_priority (thr k t)\<rparr>) k))"

definition donate_holder :: "tptr \<Rightarrow> kernel \<Rightarrow> kernel res" where
  "donate_holder t k =
     bindR (waited_lock t k) (\<lambda>l.
       let h = l_holder (locks k l)
       in if h = 0 then Inl NullDeref
          else Inr (if t_priority (thr k t) > t_priority (thr k h)
                    then upd_thread h (\<lambda>th. th\<lparr>t_priority := t_priority (thr k t)\<rparr>) k else k))"

definition donate_next :: "tptr \<Rightarrow> int \<Rightarrow> kernel \<Rightarrow> kernel res" where
  "donate_next t dep k =
     bindR (waited_lock t k) (\<lambda>l. Inr (push_frames [F_donate (l_holder (locks k l)) (dep + 1)] k))"

definition lock_release :: "lptr \<Rightarrow> kernel \<Rightarrow> kernel res" where
  "lock_release l k =
     bindR (lock_held_by_current_thread l k) (\<lambda>held.
       assertR held
         (bindR (thread_current k) (\<lambda>c.
            assertR (l \<in> set (t_locks_holding (thr k c)))
              (Inr (push_frames [F_update_priority, F_sema_up (Lock_sema l)]
                (upd_thread c (\<lambda>th. th\<lparr>t_locks_holding := remove1 l (t_locks_holding th)\<rparr>)
                  (upd_lock l (\<lambda>_. \<lparr>l_holder = 0, l_priority_donate = PRI_MIN\<rparr>) k)))))))"

section \<open>Condition variables\<close>

text \<open>The list of a condition variable holds \<^verbatim>\<open>struct semaphore_elem\<close>s on the stacks of waiting
  threads; the thread names the element.\<close>

definition cmp_sema_priority :: "kernel \<Rightarrow> tptr \<Rightarrow> tptr \<Rightarrow> bool" where
  "cmp_sema_priority k a b \<longleftrightarrow>
     sema_waiter_priority k (Cond_sema a) < sema_waiter_priority k (Cond_sema b)"

definition cond_init :: "cptr \<Rightarrow> kernel \<Rightarrow> kernel" where
  "cond_init c k = k\<lparr>conds := (conds k)(c := [])\<rparr>"

definition cond_wait :: "cptr \<Rightarrow> lptr \<Rightarrow> kernel \<Rightarrow> kernel res" where
  "cond_wait c l k =
     assertR (\<not> intr_context k)
       (bindR (lock_held_by_current_thread l k) (\<lambda>held.
          assertR held
            (bindR (thread_current k) (\<lambda>t.
               let k = sema_init (Cond_sema t) 0 k;
                   k = k\<lparr>conds := (conds k)(c := conds k c @ [t])\<rparr>
               in Inr (push_frames [F_lock_release l, F_sema_down (Cond_sema t), F_lock_acquire l] k)))))"

definition cond_signal :: "cptr \<Rightarrow> lptr \<Rightarrow> kernel \<Rightarrow> kernel res" where
  "cond_signal c l k =
     assertR (\<not> intr_context k)
       (bindR (lock_held_by_current_thread l k) (\<lambda>held.
          assertR held
            (if conds k c \<noteq> []
             then let m = scan_max (cmp_sema_priority k) (conds k c)
                  in Inr (push_frames [F_sema_up (Cond_sema m)]
                            (k\<lparr>conds := (conds k)(c := remove1 m (conds k c))\<rparr>))
             else Inr k)))"

definition cond_broadcast :: "cptr \<Rightarrow> lptr \<Rightarrow> kernel \<Rightarrow> kernel res" where
  "cond_broadcast c l k =
     (if conds k c \<noteq> [] then Inr (push_frames [F_cond_signal c l, F_cond_broadcast c l] k) else Inr k)"

end
