(* ===== verification/Timer.thy ===== *)
theory Timer
  imports Thread
begin

text \<open>
  \<^verbatim>\<open>devices/timer.c\<close>: the tick counter, the heap of sleeping threads and the timer interrupt.
  Calibration and busy waiting, which depend on how long instructions take, are left out.
\<close>

section \<open>Sleeping\<close>

definition cmp_awake_time :: "tmem \<Rightarrow> tptr \<Rightarrow> tptr \<Rightarrow> bool" where
  "cmp_awake_time m a b \<longleftrightarrow> t_wake_time (m a) > t_wake_time (m b)"

text \<open>Of \<^verbatim>\<open>timer_init\<close>, what it does to the state of the kernel; programming the timer chip and
  registering the handler, which the step relation calls for its interrupt, are left out.\<close>

definition timer_init :: "kernel \<Rightarrow> kernel" where
  "timer_init k = k\<lparr>sleep_thread_heap := heap_init (sleep_thread_heap k) cmp_awake_time\<rparr>"

definition timer_ticks :: "kernel \<Rightarrow> int" where
  "timer_ticks k = ticks k"

definition timer_elapsed :: "int \<Rightarrow> kernel \<Rightarrow> int" where
  "timer_elapsed since k = s64 (timer_ticks k - since)"

definition timer_sleep :: "int \<Rightarrow> kernel \<Rightarrow> kernel res" where
  "timer_sleep n k =
     (if n < 0 then Inr k
      else let old_level = intr_get_level k; k = intr_disable k
           in bindR (thread_current k) (\<lambda>t.
                let k = upd_thread t (\<lambda>th. th\<lparr>t_wake_time := s64 (timer_ticks k + n)\<rparr>) k
                in bindR (heap_push (thr k) (sleep_thread_heap k) t) (\<lambda>h.
                     thread_block (push_frames [F_set_level old_level] (k\<lparr>sleep_thread_heap := h\<rparr>)))))"

section \<open>The timer interrupt\<close>

text \<open>The body of the loop of \<^verbatim>\<open>timer_wake\<close>.\<close>

definition wake_top :: "kernel \<Rightarrow> kernel res" where
  "wake_top k =
     bindR (heap_pop (thr k) (sleep_thread_heap k)) (\<lambda>(top, h).
       bindR (thread_unblock top (k\<lparr>sleep_thread_heap := h\<rparr>)) (\<lambda>k.
         bindR (thread_current k) (\<lambda>c.
           if t_priority (thr k top) > t_priority (thr k c) then intr_yield_on_return k else Inr k)))"

fun wake_loop :: "nat \<Rightarrow> int \<Rightarrow> kernel \<Rightarrow> kernel res" where
  "wake_loop 0 cur_time k = Inr k"
| "wake_loop (Suc n) cur_time k =
     (if heap_empty (sleep_thread_heap k) then Inr k
      else bindR (heap_top (sleep_thread_heap k)) (\<lambda>top.
        if t_wake_time (thr k top) > cur_time then Inr k
        else bindR (wake_top k) (wake_loop n cur_time)))"

text \<open>Each turn of the loop takes one thread out of the heap, so the size of the heap bounds the
  number of turns.\<close>

definition timer_wake :: "int \<Rightarrow> kernel \<Rightarrow> kernel res" where
  "timer_wake cur_time k = wake_loop (heap_size (sleep_thread_heap k)) cur_time k"

definition timer_interrupt :: "kernel \<Rightarrow> kernel res" where
  "timer_interrupt k =
     (let k = k\<lparr>ticks := s64 (ticks k + 1)\<rparr>
      in bindR (timer_wake (ticks k) k) thread_tick)"

end
