(* ===== verification/Machine.thy ===== *)
theory Machine
  imports Synch Timer
begin

text \<open>
  The running kernel as a transition system: the external-interrupt path of
  \<^verbatim>\<open>threads/interrupt.c\<close>, the execution of one frame of the running thread, and the step
  relation that lets thread code call the kernel in any order and timer interrupts arrive
  whenever they are enabled.
\<close>

section \<open>External interrupts\<close>

type_synonym handler_table = "nat \<Rightarrow> (kernel \<Rightarrow> kernel res) option"

definition unexpected_interrupt :: "nat \<Rightarrow> kernel \<Rightarrow> kernel" where
  "unexpected_interrupt vec k =
     k\<lparr>unexpected_cnt := (unexpected_cnt k)(vec := u32 (unexpected_cnt k vec + 1))\<rparr>"

definition invoke_handler :: "handler_table \<Rightarrow> nat \<Rightarrow> kernel \<Rightarrow> kernel res" where
  "invoke_handler handlers vec k =
     (case handlers vec of
        Some handler \<Rightarrow> handler k
      | None \<Rightarrow> if vec = 0x27 \<or> vec = 0x2f then Inr k else Inr (unexpected_interrupt vec k))"

definition intr_handler :: "handler_table \<Rightarrow> nat \<Rightarrow> kernel \<Rightarrow> kernel res" where
  "intr_handler handlers vec k =
     (let external = (vec \<ge> 0x20 \<and> vec < 0x30)
      in if external
         then assertR (intr_get_level k = INTR_OFF)
                (assertR (\<not> intr_context k)
                  (bindR (invoke_handler handlers vec (k\<lparr>in_external_intr := True, yield_on_return := False\<rparr>)) (\<lambda>k.
                     assertR (intr_get_level k = INTR_OFF)
                       (assertR (intr_context k)
                         (let k = k\<lparr>in_external_intr := False\<rparr>
                          in if yield_on_return k then thread_yield k else Inr k)))))
         else invoke_handler handlers vec k)"

text \<open>\<^verbatim>\<open>timer_init\<close> registers the one handler whose work the scheduler depends on. The processor
  saves the interrupt flag and clears it on the way in; \<^verbatim>\<open>iret\<close> restores it.\<close>

definition handlers :: handler_table where
  "handlers = [0x20 \<mapsto> timer_interrupt]"

definition external_interrupt :: "nat \<Rightarrow> kernel \<Rightarrow> kernel res" where
  "external_interrupt vec k = intr_handler handlers vec (intr_disable (push_frames [F_iret (intr k)] k))"

section \<open>Executing one frame\<close>

text \<open>\<open>page\<close> is what the page allocator gives, should the frame ask for a page.\<close>

fun exec_frame :: "tptr option \<Rightarrow> frame \<Rightarrow> kernel \<Rightarrow> kernel res" where
  "exec_frame page (F_kernel_thread fn aux) k = kernel_thread fn aux k"
| "exec_frame page (F_function fn aux) k = Inr k"
| "exec_frame page F_exit k = thread_exit k"
| "exec_frame page F_intr_enable k = intr_enable k"
| "exec_frame page (F_set_level level) k = intr_set_level level k"
| "exec_frame page (F_iret level) k = Inr (k\<lparr>intr := level\<rparr>)"
| "exec_frame page F_yield k = thread_yield k"
| "exec_frame page (F_set_priority p) k = thread_set_priority p k"
| "exec_frame page (F_new_priority p) k = set_new_priority p k"
| "exec_frame page (F_yield_below p) k = yield_below p k"
| "exec_frame page (F_set_nice n) k = thread_set_nice n k"
| "exec_frame page (F_timer_sleep n) k = timer_sleep n k"
| "exec_frame page (F_thread_create name p fn aux) k = thread_create_begin name p fn aux page k"
| "exec_frame page F_take_init_tid k = Inr (take_init_tid k)"
| "exec_frame page (F_init_rest tid) k = Inr (thread_init_rest tid k)"
| "exec_frame page (F_take_tid t p fn aux) k = Inr (take_tid t p fn aux k)"
| "exec_frame page (F_create_rest t tid p fn aux) k = thread_create_rest t tid p fn aux k"
| "exec_frame page (F_create_start t p fn aux) k = create_start t p fn aux k"
| "exec_frame page (F_create_yield p) k = create_yield p k"
| "exec_frame page (F_idle_start s) k = idle_start s k"
| "exec_frame page F_idle_loop k = idle_loop k"
| "exec_frame page F_idle_wake k = idle_wake k"
| "exec_frame page (F_sema_down s) k = sema_down s k"
| "exec_frame page (F_sema_loop s level) k = sema_down_loop s level k"
| "exec_frame page (F_sema_up s) k = sema_up s k"
| "exec_frame page (F_lock_acquire l) k = lock_acquire l k"
| "exec_frame page (F_lock_try_acquire l) k = bindR (lock_try_acquire l k) (\<lambda>(_, k). Inr k)"
| "exec_frame page (F_try_hold l) k = try_hold l k"
| "exec_frame page (F_try_push l) k = try_push l k"
| "exec_frame page (F_lock_wait l) k = lock_wait l k"
| "exec_frame page (F_donate t dep) k = donate_priority t dep k"
| "exec_frame page (F_donate_lock t dep) k = donate_lock t k"
| "exec_frame page (F_donate_holder t dep) k = donate_holder t k"
| "exec_frame page (F_donate_next t dep) k = donate_next t dep k"
| "exec_frame page F_sort_ready k = Inr (sort_ready_heap k)"
| "exec_frame page (F_lock_acquired l) k = lock_acquired l k"
| "exec_frame page (F_lock_release l) k = lock_release l k"
| "exec_frame page F_update_priority k = bindR (thread_current k) (\<lambda>c. thread_update_priority c k)"
| "exec_frame page (F_cond_wait c l) k = cond_wait c l k"
| "exec_frame page (F_cond_signal c l) k = cond_signal c l k"
| "exec_frame page (F_cond_broadcast c l) k = cond_broadcast c l k"

definition top_frames :: "kernel \<Rightarrow> frame list" where
  "top_frames k = t_stack (thr k (running k))"

definition resume :: "tptr option \<Rightarrow> kernel \<Rightarrow> kernel res" where
  "resume page k =
     (case top_frames k of [] \<Rightarrow> Inl Assertion | f # _ \<Rightarrow> exec_frame page f (pop_frame k))"

section \<open>The step relation\<close>

text \<open>What thread code may call. A page from the allocator is not the page of a live thread;
  the semaphores inside locks and condition variables are private to \<^verbatim>\<open>synch.c\<close>; \<^verbatim>\<open>idle\<close> is
  private to \<^verbatim>\<open>thread.c\<close>.\<close>

fun callable :: "frame \<Rightarrow> bool" where
  "callable (F_thread_create _ _ fn _) = (fn \<noteq> IDLE_FUNCTION)"
| "callable (F_sema_down (Sema _)) = True"
| "callable (F_sema_up (Sema _)) = True"
| "callable (F_lock_acquire _) = True"
| "callable (F_lock_try_acquire _) = True"
| "callable (F_lock_release _) = True"
| "callable (F_cond_wait _ _) = True"
| "callable (F_cond_signal _ _) = True"
| "callable (F_cond_broadcast _ _) = True"
| "callable F_yield = True"
| "callable F_exit = True"
| "callable (F_set_level _) = True"
| "callable (F_set_priority _) = True"
| "callable (F_set_nice _) = True"
| "callable (F_timer_sleep _) = True"
| "callable _ = False"

definition page_ok :: "kernel \<Rightarrow> tptr option \<Rightarrow> bool" where
  "page_ok k page = (case page of None \<Rightarrow> True | Some t \<Rightarrow> t \<noteq> 0 \<and> \<not> is_thread (thr k) t)"

fun is_function :: "frame \<Rightarrow> bool" where
  "is_function (F_function _ _) = True"
| "is_function _ = False"

definition in_thread_code :: "kernel \<Rightarrow> bool" where
  "in_thread_code k = (case top_frames k of [] \<Rightarrow> False | f # _ \<Rightarrow> is_function f)"

text \<open>Initialising a semaphore, a lock or a condition variable is a call too, on an object that
  nobody is using.\<close>

fun frame_lock :: "frame \<Rightarrow> lptr option" where
  "frame_lock (F_lock_acquire l) = Some l"
| "frame_lock (F_lock_try_acquire l) = Some l"
| "frame_lock (F_try_hold l) = Some l"
| "frame_lock (F_try_push l) = Some l"
| "frame_lock (F_lock_wait l) = Some l"
| "frame_lock (F_lock_acquired l) = Some l"
| "frame_lock (F_lock_release l) = Some l"
| "frame_lock (F_sema_down (Lock_sema l)) = Some l"
| "frame_lock (F_sema_loop (Lock_sema l) _) = Some l"
| "frame_lock (F_sema_up (Lock_sema l)) = Some l"
| "frame_lock _ = None"

definition lock_unused :: "lptr \<Rightarrow> kernel \<Rightarrow> bool" where
  "lock_unused l k \<longleftrightarrow> s_waiters (semas k (Lock_sema l)) = []
     \<and> list_all (\<lambda>t. l \<notin> set (t_locks_holding (thr k t))
                  \<and> list_all (\<lambda>f. frame_lock f \<noteq> Some l) (t_stack (thr k t))) (all_list k)"

datatype init_call = Init_sema nat int | Init_lock lptr | Init_cond cptr

fun init_ok :: "init_call \<Rightarrow> kernel \<Rightarrow> bool" where
  "init_ok (Init_sema s v) k \<longleftrightarrow> s_waiters (semas k (Sema s)) = [] \<and> 0 \<le> v \<and> v < 2 ^ 32"
| "init_ok (Init_lock l) k \<longleftrightarrow> lock_unused l k"
| "init_ok (Init_cond c) k \<longleftrightarrow> conds k c = []"

fun do_init :: "init_call \<Rightarrow> kernel \<Rightarrow> kernel" where
  "do_init (Init_sema s v) k = sema_init (Sema s) v k"
| "do_init (Init_lock l) k = lock_init l k"
| "do_init (Init_cond c) k = cond_init c k"

inductive step :: "kernel \<Rightarrow> kernel \<Rightarrow> bool" where
  step_resume: "page_ok k page \<Longrightarrow> resume page k = Inr k' \<Longrightarrow> step k k'"
| step_call: "in_thread_code k \<Longrightarrow> callable f \<Longrightarrow> step k (push_frames [f] k)"
| step_init: "in_thread_code k \<Longrightarrow> init_ok i k \<Longrightarrow> step k (do_init i k)"
| step_interrupt: "intr k = INTR_ON \<Longrightarrow> 0x20 \<le> vec \<Longrightarrow> vec < 0x30 \<Longrightarrow>
    external_interrupt vec k = Inr k' \<Longrightarrow> step k k'"

inductive_cases step_cases: "step k k'"

end
