(* ===== verification/Scheduler.thy ===== *)
theory Scheduler
  imports Machine
begin

text \<open>
  The abstract scheduler: who waits where, the status of each thread, and the stacks. Each
  routine of \<^verbatim>\<open>thread.c\<close> is shown to act on this view as one of a few abstract operations,
  and the scheduling invariant is proved for those.
\<close>

section \<open>The abstract state\<close>

datatype place = P_ready | P_sleep | P_sema semaref

fun place_status :: "place \<Rightarrow> thread_status" where
  "place_status P_ready = THREAD_READY"
| "place_status _ = THREAD_BLOCKED"

record asched =
  aq :: "place \<Rightarrow> tptr multiset"
  ast :: "tptr \<Rightarrow> thread_status option"
  astk :: "tptr \<Rightarrow> frame list"
  aidle :: tptr
  arun :: tptr
  aall :: "tptr list"

fun queue :: "kernel \<Rightarrow> place \<Rightarrow> tptr multiset" where
  "queue k P_ready = heap_mset (ready_heap k)"
| "queue k P_sleep = heap_mset (sleep_thread_heap k)"
| "queue k (P_sema s) = mset (s_waiters (semas k s))"

declare queue.simps [simp del]

definition status_of :: "kernel \<Rightarrow> tptr \<Rightarrow> thread_status option" where
  "status_of k t = (if is_thread (thr k) t then Some (t_status (thr k t)) else None)"

definition stack_of :: "kernel \<Rightarrow> tptr \<Rightarrow> frame list" where
  "stack_of k t = (if is_thread (thr k) t then t_stack (thr k t) else [])"

definition view :: "kernel \<Rightarrow> asched" where
  "view k = \<lparr>aq = queue k, ast = status_of k, astk = stack_of k, aidle = idle_thread k,
             arun = running k, aall = all_list k\<rparr>"

lemma view_simps [simp]:
  "aq (view k) = queue k" "ast (view k) = status_of k" "astk (view k) = stack_of k"
  "aidle (view k) = idle_thread k" "arun (view k) = running k" "aall (view k) = all_list k"
  by (simp_all add: view_def)

section \<open>The invariant\<close>

text \<open>The thread that a suspended \<^verbatim>\<open>thread_create\<close> is about to start.\<close>

fun embryo :: "frame \<Rightarrow> tptr list" where
  "embryo (F_take_tid t _ _ _) = [t]"
| "embryo (F_create_rest t _ _ _ _) = [t]"
| "embryo (F_create_start t _ _ _) = [t]"
| "embryo _ = []"

definition embryos :: "frame list \<Rightarrow> tptr list" where
  "embryos fs = concat (map embryo fs)"

text \<open>The frames of threads other than the idle thread, once the system is started.\<close>

fun plain :: "frame \<Rightarrow> bool" where
  "plain (F_kernel_thread fn _) = (fn \<noteq> IDLE_FUNCTION)"
| "plain (F_thread_create _ _ fn _) = (fn \<noteq> IDLE_FUNCTION)"
| "plain (F_take_tid _ _ fn _) = (fn \<noteq> IDLE_FUNCTION)"
| "plain (F_create_rest _ _ _ fn _) = (fn \<noteq> IDLE_FUNCTION)"
| "plain (F_create_start _ _ fn _) = (fn \<noteq> IDLE_FUNCTION)"
| "plain (F_idle_start _) = False"
| "plain F_idle_loop = False"
| "plain F_idle_wake = False"
| "plain F_take_init_tid = False"
| "plain (F_init_rest _) = False"
| "plain _ = True"

fun idle_aux :: "frame \<Rightarrow> bool" where
  "idle_aux (F_set_level _) = True"
| "idle_aux (F_iret _) = True"
| "idle_aux F_yield = True"
| "idle_aux (F_sema_up _) = True"
| "idle_aux _ = False"

fun idle_stack :: "frame list \<Rightarrow> bool" where
  "idle_stack [] = False"
| "idle_stack (f # fs) = (if idle_aux f then idle_stack fs else (f = F_idle_loop \<or> f = F_idle_wake) \<and> fs = [F_exit])"

definition queues_ok :: "asched \<Rightarrow> bool" where
  "queues_ok a \<longleftrightarrow>
     (\<forall>p t. t \<in># aq a p \<longrightarrow> ast a t = Some (place_status p) \<and> t \<noteq> aidle a \<and> count (aq a p) t = 1
                         \<and> (\<forall>q. t \<in># aq a q \<longrightarrow> q = p))
   \<and> (\<forall>t. ast a t = Some THREAD_READY \<longrightarrow> t \<noteq> aidle a \<longrightarrow> t \<in># aq a P_ready)"

definition all_ok :: "asched \<Rightarrow> bool" where
  "all_ok a \<longleftrightarrow> distinct (aall a) \<and> set (aall a) = {t. \<exists>s. ast a t = Some s \<and> s \<noteq> THREAD_DYING}"

definition embryos_ok :: "asched \<Rightarrow> bool" where
  "embryos_ok a \<longleftrightarrow>
     (\<forall>t. distinct (embryos (astk a t)))
   \<and> (\<forall>t e. e \<in> set (embryos (astk a t)) \<longrightarrow>
        ast a e = Some THREAD_BLOCKED \<and> e \<noteq> aidle a \<and> (\<forall>p. e \<notin># aq a p)
      \<and> (\<forall>u. e \<in> set (embryos (astk a u)) \<longrightarrow> u = t))"

definition stacks_ok :: "asched \<Rightarrow> bool" where
  "stacks_ok a \<longleftrightarrow>
     idle_stack (astk a (aidle a)) \<and> (\<forall>t. t \<noteq> aidle a \<longrightarrow> list_all plain (astk a t))
   \<and> (\<forall>t. ast a t = None \<longrightarrow> astk a t = [])
   \<and> (\<exists>s. ast a (aidle a) = Some s \<and> s \<noteq> THREAD_DYING)"

text \<open>The part that also holds on the way into \<^verbatim>\<open>schedule\<close>, and the whole.\<close>

definition base_ok :: "asched \<Rightarrow> bool" where
  "base_ok a \<longleftrightarrow> queues_ok a \<and> all_ok a \<and> embryos_ok a \<and> stacks_ok a
     \<and> (\<forall>t. ast a t = Some THREAD_RUNNING \<longrightarrow> t = arun a)"

definition asched_ok :: "asched \<Rightarrow> bool" where
  "asched_ok a \<longleftrightarrow> base_ok a \<and> ast a (arun a) = Some THREAD_RUNNING"

section \<open>Abstract operations\<close>

definition a_push :: "frame list \<Rightarrow> asched \<Rightarrow> asched" where
  "a_push fs a = a\<lparr>astk := (astk a)(arun a := fs @ astk a (arun a))\<rparr>"

definition a_enter :: "place \<Rightarrow> tptr \<Rightarrow> asched \<Rightarrow> asched" where
  "a_enter p t a = a\<lparr>aq := (aq a)(p := add_mset t (aq a p)), ast := (ast a)(t \<mapsto> place_status p)\<rparr>"

definition a_leave :: "place \<Rightarrow> tptr \<Rightarrow> asched \<Rightarrow> asched" where
  "a_leave p t a = a\<lparr>aq := (aq a)(p := aq a p - {#t#})\<rparr>"

definition a_status :: "tptr \<Rightarrow> thread_status \<Rightarrow> asched \<Rightarrow> asched" where
  "a_status t s a = a\<lparr>ast := (ast a)(t \<mapsto> s)\<rparr>"

definition a_free :: "tptr \<Rightarrow> asched \<Rightarrow> asched" where
  "a_free t a = a\<lparr>ast := (ast a)(t := None), astk := (astk a)(t := [])\<rparr>"

lemmas a_defs = a_push_def a_enter_def a_leave_def a_status_def a_free_def


section \<open>The abstract operations keep the invariant\<close>

lemma embryos_simps [simp]:
  "embryos [] = []" "embryos (f # fs) = embryo f @ embryos fs" "embryos (fs @ gs) = embryos fs @ embryos gs"
  by (simp_all add: embryos_def)

lemma queues_ok_D:
  assumes "queues_ok a" "t \<in># aq a p"
  shows "ast a t = Some (place_status p)" "t \<noteq> aidle a" "count (aq a p) t = 1" "\<And>q. t \<in># aq a q \<Longrightarrow> q = p"
  using assms by (auto simp: queues_ok_def)

lemma in_diff_single: "u \<in># M - {#t#} \<longleftrightarrow> (if u = t then 2 \<le> count M t else u \<in># M)"
  by (auto simp: in_diff_count)

lemma queues_ok_leave:
  assumes "queues_ok a" "t \<in># aq a p"
  shows "t \<notin># aq (a_leave p t a) q"
  using queues_ok_D [OF assms] by (auto simp: a_leave_def in_diff_single)

text \<open>A thread that is in no queue enters one; a thread in a queue leaves it for good or for the
  ready queue.\<close>

lemma queues_ok_enter:
  assumes "queues_ok a" "\<And>p. t \<notin># aq a p" "t \<noteq> aidle a"
  shows "queues_ok (a_enter p t a)"
proof -
  have [simp]: "count (aq a q) t = 0" for q using assms(2) by (simp add: not_in_iff)
  have [simp]: "place_status p = THREAD_READY \<longleftrightarrow> p = P_ready" by (cases p) auto
  show ?thesis
    using assms unfolding queues_ok_def a_enter_def by auto
qed

lemma queues_ok_status:
  assumes "queues_ok a" "\<And>p. t \<notin># aq a p" "s = THREAD_READY \<Longrightarrow> t = aidle a"
  shows "queues_ok (a_status t s a)"
  using assms unfolding queues_ok_def a_status_def by (auto split: if_splits)

lemma queues_ok_take:
  assumes "queues_ok a" "t \<in># aq a p" "s \<noteq> THREAD_READY"
  shows "queues_ok (a_status t s (a_leave p t a))"
proof -
  have "t \<notin># aq (a_leave p t a) q" for q by (rule queues_ok_leave [OF assms(1,2)])
  with assms show ?thesis
    unfolding queues_ok_def a_status_def a_leave_def
    by (auto simp: in_diff_single split: if_splits)
qed

lemma queues_ok_move:
  assumes "queues_ok a" "t \<in># aq a p"
  shows "queues_ok (a_enter P_ready t (a_leave p t a))"
proof -
  note D = queues_ok_D [OF assms]
  have out: "t \<notin># aq (a_leave p t a) q" for q by (rule queues_ok_leave [OF assms])
  have "queues_ok (a_enter P_ready t (a_status t THREAD_RUNNING (a_leave p t a)))"
    using out D(2) by (intro queues_ok_enter queues_ok_take assms) (auto simp: a_defs)
  then show ?thesis by (simp add: a_defs)
qed

lemma place_status_simps [simp]:
  "place_status p \<noteq> THREAD_RUNNING" "THREAD_RUNNING \<noteq> place_status p" "place_status p \<noteq> THREAD_DYING"
  "place_status p = THREAD_READY \<longleftrightarrow> p = P_ready" "place_status p = THREAD_BLOCKED \<longleftrightarrow> p \<noteq> P_ready"
  by (cases p; simp)+

lemma arun_update_ok [simp]:
  "queues_ok (a\<lparr>arun := t\<rparr>) = queues_ok a" "all_ok (a\<lparr>arun := t\<rparr>) = all_ok a"
  "embryos_ok (a\<lparr>arun := t\<rparr>) = embryos_ok a" "stacks_ok (a\<lparr>arun := t\<rparr>) = stacks_ok a"
  by (simp_all add: queues_ok_def all_ok_def embryos_ok_def stacks_ok_def)

text \<open>The cases of \<open>asched_ok\<close> and how to show it.\<close>

lemma asched_okE:
  assumes "asched_ok a"
  obtains "queues_ok a" "all_ok a" "embryos_ok a" "stacks_ok a" "\<And>t. ast a t = Some THREAD_RUNNING \<longleftrightarrow> t = arun a"
    "ast a (arun a) = Some THREAD_RUNNING"
  using assms by (auto simp: asched_ok_def base_ok_def)

lemma asched_okI:
  assumes "queues_ok a" "all_ok a" "embryos_ok a" "stacks_ok a"
    "\<And>t. ast a t = Some THREAD_RUNNING \<longleftrightarrow> t = arun a"
  shows "asched_ok a"
  using assms by (simp add: asched_ok_def base_ok_def)

lemma asched_run:
  assumes "asched_ok a"
  shows "arun a \<notin># aq a p" "arun a \<notin> set (embryos (astk a t))" "arun a \<in> set (aall a)"
  using assms
  by (auto simp: queues_ok_def embryos_ok_def all_ok_def elim!: asched_okE)

text \<open>Switching to the next thread.\<close>

lemma switch_ok:
  assumes "base_ok a" "\<And>t. ast a t \<noteq> Some THREAD_RUNNING" "nxt \<in># aq a P_ready \<or> nxt = aidle a"
  shows "asched_ok ((a_status nxt THREAD_RUNNING (a_leave P_ready nxt a))\<lparr>arun := nxt\<rparr>)"
proof -
  let ?b = "a_status nxt THREAD_RUNNING (a_leave P_ready nxt a)"
  have ok: "queues_ok a" "all_ok a" "embryos_ok a" "stacks_ok a" using assms(1) by (simp_all add: base_ok_def)
  have idle: "aidle a \<notin># aq a p" for p using ok(1) by (auto simp: queues_ok_def)
  have live: "\<exists>s. ast a nxt = Some s \<and> s \<noteq> THREAD_DYING"
    using assms(3) ok by (auto simp: stacks_ok_def dest: queues_ok_D)
  have notembryo: "nxt \<notin> set (embryos (astk a t))" for t
    using assms(3) ok(3) idle by (auto simp: embryos_ok_def)
  have "queues_ok ?b"
  proof (cases "nxt \<in># aq a P_ready")
    case True
    then show ?thesis by (simp add: queues_ok_take ok(1))
  next
    case False
    then have "a_leave P_ready nxt a = a" by (simp add: a_leave_def diff_single_trivial)
    with False assms(3) idle show ?thesis by (auto intro!: queues_ok_status ok(1))
  qed
  moreover have "all_ok ?b" using ok(2) live by (auto simp: all_ok_def a_defs)
  moreover have "embryos_ok ?b" using ok(3) notembryo by (auto simp: embryos_ok_def a_defs dest: in_diffD)
  moreover have "stacks_ok ?b" using ok(4) live by (auto simp: stacks_ok_def a_defs)
  moreover have "ast ?b t = Some THREAD_RUNNING \<longleftrightarrow> t = nxt" for t
    using assms(2) by (auto simp: a_defs)
  ultimately show ?thesis by (intro asched_okI) simp_all
qed

lemma free_ok:
  assumes "asched_ok a" "ast a c = Some THREAD_DYING"
  shows "asched_ok (a_free c a)"
proof -
  have ok: "queues_ok a" "all_ok a" "embryos_ok a" "stacks_ok a" "\<And>t. ast a t = Some THREAD_RUNNING \<longleftrightarrow> t = arun a"
    "ast a (arun a) = Some THREAD_RUNNING"
    using assms(1) by (auto simp: asched_ok_def base_ok_def)
  have "c \<noteq> arun a" using ok(6) assms(2) by auto
  have "c \<noteq> aidle a" using ok(4) assms(2) by (auto simp: stacks_ok_def)
  have "queues_ok (a_free c a)" using ok(1) assms(2) by (auto simp: queues_ok_def a_defs)
  moreover have "all_ok (a_free c a)" using ok(2) assms(2) by (auto simp: all_ok_def a_defs)
  moreover have "embryos_ok (a_free c a)" using ok(3) assms(2) by (auto simp: embryos_ok_def a_defs)
  moreover have "stacks_ok (a_free c a)" using ok(4) \<open>c \<noteq> aidle a\<close> by (auto simp: stacks_ok_def a_defs)
  moreover have "ast (a_free c a) t = Some THREAD_RUNNING \<longleftrightarrow> t = arun (a_free c a)" for t
    using ok(5) \<open>c \<noteq> arun a\<close> by (auto simp: a_defs)
  ultimately show ?thesis by (rule asched_okI)
qed

text \<open>The running thread gives up the processor: it enters a queue, or it is the idle thread, or
  it dies.\<close>

lemma enter_current_ok:
  assumes "asched_ok a" "arun a \<noteq> aidle a"
  shows "base_ok (a_enter p (arun a) a)" "ast (a_enter p (arun a) a) t \<noteq> Some THREAD_RUNNING"
proof -
  have ok: "queues_ok a" "all_ok a" "embryos_ok a" "stacks_ok a" "\<And>t. ast a t = Some THREAD_RUNNING \<longleftrightarrow> t = arun a"
    "ast a (arun a) = Some THREAD_RUNNING"
    using assms(1) by (auto simp: asched_ok_def base_ok_def)
  let ?a = "a_enter p (arun a) a"
  have "queues_ok ?a" using asched_run [OF assms(1)] assms(2) by (auto intro!: queues_ok_enter ok(1))
  moreover have "all_ok ?a" using ok(2,6) by (auto simp: all_ok_def a_defs)
  moreover have "embryos_ok ?a" using ok(3,6) by (auto simp: embryos_ok_def a_defs)
  moreover have "stacks_ok ?a" using ok(4,6) by (auto simp: stacks_ok_def a_defs)
  moreover have "\<forall>u. ast ?a u = Some THREAD_RUNNING \<longrightarrow> u = arun ?a"
    using ok(5) by (auto simp: a_defs)
  ultimately show "base_ok ?a" by (simp add: base_ok_def)
  show "ast ?a t \<noteq> Some THREAD_RUNNING" using ok(5) by (auto simp: a_defs)
qed

lemma idle_current_ok:
  assumes "asched_ok a" "arun a = aidle a" "s = THREAD_READY \<or> s = THREAD_BLOCKED"
  shows "base_ok (a_status (arun a) s a)" "ast (a_status (arun a) s a) t \<noteq> Some THREAD_RUNNING"
proof -
  have ok: "queues_ok a" "all_ok a" "embryos_ok a" "stacks_ok a" "\<And>t. ast a t = Some THREAD_RUNNING \<longleftrightarrow> t = arun a"
    "ast a (arun a) = Some THREAD_RUNNING"
    using assms(1) by (auto simp: asched_ok_def base_ok_def)
  let ?a = "a_status (arun a) s a"
  have "queues_ok ?a" using asched_run [OF assms(1)] assms(2) by (auto intro!: queues_ok_status ok(1))
  moreover have "all_ok ?a" using ok(2,6) assms(3) by (auto simp: all_ok_def a_defs)
  moreover have "embryos_ok ?a" using ok(3,6) by (auto simp: embryos_ok_def a_defs)
  moreover have "stacks_ok ?a" using ok(4,6) assms(3) by (auto simp: stacks_ok_def a_defs)
  moreover have "\<forall>u. ast ?a u = Some THREAD_RUNNING \<longrightarrow> u = arun ?a"
    using ok(5) assms(3) by (auto simp: a_defs)
  ultimately show "base_ok ?a" by (simp add: base_ok_def)
  show "ast ?a t \<noteq> Some THREAD_RUNNING" using ok(5) assms(3) by (auto simp: a_defs)
qed

lemma exit_current_ok:
  assumes "asched_ok a" "arun a \<noteq> aidle a"
  defines "b \<equiv> a_status (arun a) THREAD_DYING (a\<lparr>aall := remove1 (arun a) (aall a)\<rparr>)"
  shows "base_ok b" "ast b t \<noteq> Some THREAD_RUNNING"
proof -
  have ok: "queues_ok a" "all_ok a" "embryos_ok a" "stacks_ok a" "\<And>t. ast a t = Some THREAD_RUNNING \<longleftrightarrow> t = arun a"
    "ast a (arun a) = Some THREAD_RUNNING"
    using assms(1) by (auto simp: asched_ok_def base_ok_def)
  have "queues_ok b" using ok(1) asched_run(1) [OF assms(1)] by (auto simp: queues_ok_def a_defs b_def)
  moreover have "all_ok b" using ok(2,6) by (auto simp: all_ok_def a_defs b_def)
  moreover have "embryos_ok b" using ok(3,6) by (auto simp: embryos_ok_def a_defs b_def)
  moreover have "stacks_ok b" using ok(4,6) assms(2) by (auto simp: stacks_ok_def a_defs b_def)
  moreover have "\<forall>u. ast b u = Some THREAD_RUNNING \<longrightarrow> u = arun b"
    using ok(5) by (auto simp: a_defs b_def)
  ultimately show "base_ok b" by (simp add: base_ok_def)
  show "ast b t \<noteq> Some THREAD_RUNNING" using ok(5) by (auto simp: a_defs b_def)
qed

text \<open>A waiting thread becomes ready.\<close>

lemma move_ok:
  assumes "asched_ok a" "t \<in># aq a p"
  shows "asched_ok (a_enter P_ready t (a_leave p t a))"
proof -
  have ok: "queues_ok a" "all_ok a" "embryos_ok a" "stacks_ok a" "\<And>t. ast a t = Some THREAD_RUNNING \<longleftrightarrow> t = arun a"
    "ast a (arun a) = Some THREAD_RUNNING"
    using assms(1) by (auto simp: asched_ok_def base_ok_def)
  note D = queues_ok_D [OF ok(1) assms(2)]
  let ?a = "a_enter P_ready t (a_leave p t a)"
  have "t \<noteq> arun a" using D(1) ok(6) by auto
  have "queues_ok ?a" by (rule queues_ok_move [OF ok(1) assms(2)])
  moreover have "all_ok ?a" using ok(2) D(1) by (auto simp: all_ok_def a_defs)
  moreover have "embryos_ok ?a"
    using ok(3) assms(2) by (auto simp: embryos_ok_def a_defs dest: in_diffD)
  moreover have "stacks_ok ?a" using ok(4) D(2) by (auto simp: stacks_ok_def a_defs)
  moreover have "ast ?a u = Some THREAD_RUNNING \<longleftrightarrow> u = arun ?a" for u
    using D(1) ok(5) \<open>t \<noteq> arun a\<close> by (auto simp: a_defs)
  ultimately show ?thesis by (rule asched_okI)
qed

text \<open>Frames of the running thread.\<close>

definition frames_ok :: "asched \<Rightarrow> frame list \<Rightarrow> bool" where
  "frames_ok a fs \<longleftrightarrow> (if arun a = aidle a then idle_stack fs else list_all plain fs)"

lemma set_stack_ok:
  assumes "asched_ok a" "frames_ok a fs" "distinct (embryos fs)"
    "set (embryos fs) \<subseteq> set (embryos (astk a (arun a)))"
  shows "asched_ok (a\<lparr>astk := (astk a)(arun a := fs)\<rparr>)"
proof -
  have ok: "queues_ok a" "all_ok a" "embryos_ok a" "stacks_ok a" "\<And>t. ast a t = Some THREAD_RUNNING \<longleftrightarrow> t = arun a"
    "ast a (arun a) = Some THREAD_RUNNING"
    using assms(1) by (auto simp: asched_ok_def base_ok_def)
  let ?a = "a\<lparr>astk := (astk a)(arun a := fs)\<rparr>"
  have "embryos_ok ?a"
    using ok(3) assms(3,4) unfolding embryos_ok_def by (simp split: if_splits) blast
  moreover have "stacks_ok ?a"
    using ok(4,6) assms(2) by (auto simp: stacks_ok_def frames_ok_def)
  moreover have "queues_ok ?a" "all_ok ?a" using ok(1,2) by (simp_all add: queues_ok_def all_ok_def)
  moreover have "ast ?a u = Some THREAD_RUNNING \<longleftrightarrow> u = arun ?a" for u
    using ok(5) by auto
  ultimately show ?thesis by (intro asched_okI)
qed

text \<open>A new thread is on the list of all threads, on no queue, and named by one frame of its
  creator until it is started.\<close>

lemma new_thread_ok:
  assumes "asched_ok a" "ast a e = None"
  shows "asched_ok (a\<lparr>ast := (ast a)(e \<mapsto> THREAD_BLOCKED), aall := aall a @ [e]\<rparr>)"
proof -
  have ok: "queues_ok a" "all_ok a" "embryos_ok a" "stacks_ok a"
    "\<And>t. ast a t = Some THREAD_RUNNING \<longleftrightarrow> t = arun a"
    "ast a (arun a) = Some THREAD_RUNNING"
    using assms(1) by (auto simp: asched_ok_def base_ok_def)
  let ?a = "a\<lparr>ast := (ast a)(e \<mapsto> THREAD_BLOCKED), aall := aall a @ [e]\<rparr>"
  have "e \<noteq> arun a" using ok(6) assms(2) by auto
  have "queues_ok ?a" using ok(1) assms(2) by (auto simp: queues_ok_def)
  moreover have "all_ok ?a" using ok(2) assms(2) by (auto simp: all_ok_def)
  moreover have "embryos_ok ?a" using ok(3) assms(2) by (auto simp: embryos_ok_def)
  moreover have "stacks_ok ?a" using ok(4) assms(2) by (auto simp: stacks_ok_def)
  moreover have "ast ?a u = Some THREAD_RUNNING \<longleftrightarrow> u = arun ?a" for u
    using ok(5) \<open>e \<noteq> arun a\<close> by auto
  ultimately show ?thesis by (rule asched_okI)
qed

definition fresh :: "asched \<Rightarrow> tptr \<Rightarrow> bool" where
  "fresh a e \<longleftrightarrow> ast a e = Some THREAD_BLOCKED \<and> e \<noteq> aidle a \<and> (\<forall>p. e \<notin># aq a p)
     \<and> (\<forall>t. e \<notin> set (embryos (astk a t)))"

lemma push_embryo_ok:
  assumes "asched_ok a" "fresh a e" "arun a \<noteq> aidle a" "list_all plain fs" "embryos fs = [e]"
  shows "asched_ok (a_push fs a)"
proof -
  have ok: "queues_ok a" "all_ok a" "embryos_ok a" "stacks_ok a"
    "\<And>t. ast a t = Some THREAD_RUNNING \<longleftrightarrow> t = arun a"
    "ast a (arun a) = Some THREAD_RUNNING"
    using assms(1) by (auto simp: asched_ok_def base_ok_def)
  have "queues_ok (a_push fs a)" "all_ok (a_push fs a)"
    using ok(1,2) by (simp_all add: queues_ok_def all_ok_def a_defs)
  moreover have "embryos_ok (a_push fs a)"
    using ok(3) assms(2,5) by (auto simp: embryos_ok_def fresh_def a_defs)
  moreover have "stacks_ok (a_push fs a)" using ok(4,6) assms(3,4) by (auto simp: stacks_ok_def a_defs)
  moreover have "ast (a_push fs a) u = Some THREAD_RUNNING \<longleftrightarrow> u = arun (a_push fs a)" for u
    using ok(5) by (auto simp: a_defs)
  ultimately show ?thesis by (rule asched_okI)
qed

lemma start_ok:
  assumes "asched_ok a" "fresh a e" "list_all plain fs" "embryos fs = []"
  shows "asched_ok (a_enter P_ready e (a\<lparr>astk := (astk a)(e := fs)\<rparr>))" (is "asched_ok ?a")
proof -
  have ok: "queues_ok a" "all_ok a" "embryos_ok a" "stacks_ok a"
    "\<And>t. ast a t = Some THREAD_RUNNING \<longleftrightarrow> t = arun a"
    "ast a (arun a) = Some THREAD_RUNNING"
    using assms(1) by (auto simp: asched_ok_def base_ok_def)
  have e: "ast a e = Some THREAD_BLOCKED" "e \<noteq> aidle a" "\<And>p. e \<notin># aq a p"
    using assms(2) by (simp_all add: fresh_def)
  have "e \<noteq> arun a" using ok(6) e by auto
  have "queues_ok (a\<lparr>astk := (astk a)(e := fs)\<rparr>)" using ok(1) by (simp add: queues_ok_def)
  then have "queues_ok ?a" using e by (intro queues_ok_enter) auto
  moreover have "all_ok ?a" using ok(2) e by (auto simp: all_ok_def a_defs)
  moreover have "embryos_ok ?a" using ok(3) assms(2,4) by (auto simp: embryos_ok_def fresh_def a_defs)
  moreover have "stacks_ok ?a" using ok(4) e assms(3) by (auto simp: stacks_ok_def a_defs)
  moreover have "ast ?a u = Some THREAD_RUNNING \<longleftrightarrow> u = arun ?a" for u
    using ok(5) \<open>e \<noteq> arun a\<close> by (auto simp: a_defs)
  ultimately show ?thesis by (rule asched_okI)
qed


section \<open>The view of the kernel's updates\<close>

lemma queue_same:
  "ready_heap k' = ready_heap k \<Longrightarrow> sleep_thread_heap k' = sleep_thread_heap k \<Longrightarrow> semas k' = semas k \<Longrightarrow>
   queue k' = queue k"
proof
  fix p
  assume "ready_heap k' = ready_heap k" "sleep_thread_heap k' = sleep_thread_heap k" "semas k' = semas k"
  then show "queue k' p = queue k p" by (cases p) (simp_all add: queue.simps)
qed

lemma view_same:
  assumes "thr k' = thr k" "ready_heap k' = ready_heap k" "sleep_thread_heap k' = sleep_thread_heap k"
    "semas k' = semas k" "idle_thread k' = idle_thread k" "running k' = running k" "all_list k' = all_list k"
  shows "view k' = view k"
proof -
  have "status_of k' = status_of k" "stack_of k' = stack_of k"
    by (rule ext, simp add: status_of_def stack_of_def assms(1))+
  with assms queue_same [of k' k] show ?thesis by (simp add: view_def)
qed

lemma view_fields [simp]:
  "view (k\<lparr>intr := i\<rparr>) = view k" "view (k\<lparr>next_tid := n\<rparr>) = view k" "view (k\<lparr>idle_ticks := n\<rparr>) = view k"
  "view (k\<lparr>kernel_ticks := n\<rparr>) = view k" "view (k\<lparr>thread_ticks := n\<rparr>) = view k"
  "view (k\<lparr>load_avg := la\<rparr>) = view k" "view (k\<lparr>locks := ls\<rparr>) = view k" "view (k\<lparr>conds := cs\<rparr>) = view k"
  "view (k\<lparr>ticks := n\<rparr>) = view k" "view (k\<lparr>in_external_intr := b\<rparr>) = view k"
  "view (k\<lparr>yield_on_return := b\<rparr>) = view k" "view (k\<lparr>unexpected_cnt := u\<rparr>) = view k"
  "view (upd_lock l f k) = view k" "view (intr_disable k) = view k"
  by (rule view_same; simp add: upd_lock_def intr_disable_def)+

lemma upd_thread_simps [simp]:
  "ready_heap (upd_thread t f k) = ready_heap k" "sleep_thread_heap (upd_thread t f k) = sleep_thread_heap k"
  "semas (upd_thread t f k) = semas k" "locks (upd_thread t f k) = locks k" "conds (upd_thread t f k) = conds k"
  "idle_thread (upd_thread t f k) = idle_thread k" "running (upd_thread t f k) = running k"
  "all_list (upd_thread t f k) = all_list k" "initial_thread (upd_thread t f k) = initial_thread k"
  "intr (upd_thread t f k) = intr k" "in_external_intr (upd_thread t f k) = in_external_intr k"
  "thread_mlfqs (upd_thread t f k) = thread_mlfqs k" "tid_lock (upd_thread t f k) = tid_lock k"
  "next_tid (upd_thread t f k) = next_tid k" "ticks (upd_thread t f k) = ticks k"
  "load_avg (upd_thread t f k) = load_avg k" "yield_on_return (upd_thread t f k) = yield_on_return k"
  "thr (upd_thread t f k) = (thr k)(t := f (thr k t))"
  by (simp_all add: upd_thread_def)

lemma queue_upd_thread [simp]: "queue (upd_thread t f k) = queue k"
  by (rule queue_same) simp_all

lemma is_thread_upd: "t_magic th = t_magic (m t) \<Longrightarrow> is_thread (m(t := th)) u = is_thread m u"
  by (simp add: is_thread_def)

lemma view_upd_thread_same:
  assumes "\<And>th. t_magic (f th) = t_magic th \<and> t_status (f th) = t_status th \<and> t_stack (f th) = t_stack th"
  shows "view (upd_thread t f k) = view k"
  using assms
  by (simp add: view_def status_of_def [abs_def] stack_of_def [abs_def] is_thread_upd fun_eq_iff)

lemma view_set_status [simp]:
  "is_thread (thr k) t \<Longrightarrow> view (set_status t s k) = a_status t s (view k)"
  by (auto simp: view_def status_of_def stack_of_def is_thread_upd fun_eq_iff set_status_def a_defs)

lemma view_set_stack:
  "is_thread (thr k) t \<Longrightarrow>
   view (upd_thread t (\<lambda>th. th\<lparr>t_stack := g (t_stack th)\<rparr>) k) = (view k)\<lparr>astk := (stack_of k)(t := g (stack_of k t))\<rparr>"
  by (auto simp: view_def status_of_def stack_of_def is_thread_upd fun_eq_iff)

lemma view_push_frames [simp]:
  "is_thread (thr k) (running k) \<Longrightarrow> view (push_frames fs k) = a_push fs (view k)"
  by (simp add: push_frames_def view_set_stack a_defs)

lemma view_pop_frame [simp]:
  "is_thread (thr k) (running k) \<Longrightarrow>
   view (pop_frame k) = (view k)\<lparr>astk := (stack_of k)(running k := tl (stack_of k (running k)))\<rparr>"
  by (simp add: pop_frame_def view_set_stack)

lemma view_free [simp]: "view (free_thread_page t k) = a_free t (view k)"
  by (simp add: view_def status_of_def stack_of_def is_thread_def fun_eq_iff free_thread_page_def
      a_defs THREAD_MAGIC_def)

lemma view_ready_heap:
  "view (k\<lparr>ready_heap := h\<rparr>) = (view k)\<lparr>aq := (queue k)(P_ready := heap_mset h)\<rparr>"
proof -
  have "queue (k\<lparr>ready_heap := h\<rparr>) p = ((queue k)(P_ready := heap_mset h)) p" for p by (cases p) (simp_all add: queue.simps)
  then have "queue (k\<lparr>ready_heap := h\<rparr>) = (queue k)(P_ready := heap_mset h)" by (rule ext)
  moreover have "status_of (k\<lparr>ready_heap := h\<rparr>) = status_of k" "stack_of (k\<lparr>ready_heap := h\<rparr>) = stack_of k"
    by (simp_all add: fun_eq_iff status_of_def stack_of_def)
  ultimately show ?thesis by (simp add: view_def)
qed

lemma view_sleep_heap:
  "view (k\<lparr>sleep_thread_heap := h\<rparr>) = (view k)\<lparr>aq := (queue k)(P_sleep := heap_mset h)\<rparr>"
proof -
  have "queue (k\<lparr>sleep_thread_heap := h\<rparr>) p = ((queue k)(P_sleep := heap_mset h)) p" for p by (cases p) (simp_all add: queue.simps)
  then have "queue (k\<lparr>sleep_thread_heap := h\<rparr>) = (queue k)(P_sleep := heap_mset h)" by (rule ext)
  moreover have "status_of (k\<lparr>sleep_thread_heap := h\<rparr>) = status_of k" "stack_of (k\<lparr>sleep_thread_heap := h\<rparr>) = stack_of k"
    by (simp_all add: fun_eq_iff status_of_def stack_of_def)
  ultimately show ?thesis by (simp add: view_def)
qed

lemma view_upd_sema:
  "view (upd_sema s f k) = (view k)\<lparr>aq := (queue k)(P_sema s := mset (s_waiters (f (semas k s))))\<rparr>"
proof -
  have "queue (upd_sema s f k) p = ((queue k)(P_sema s := mset (s_waiters (f (semas k s))))) p" for p
    by (cases p) (simp_all add: upd_sema_def queue.simps)
  then have "queue (upd_sema s f k) = (queue k)(P_sema s := mset (s_waiters (f (semas k s))))" by (rule ext)
  moreover have "status_of (upd_sema s f k) = status_of k" "stack_of (upd_sema s f k) = stack_of k"
    by (simp_all add: fun_eq_iff status_of_def stack_of_def upd_sema_def)
  ultimately show ?thesis by (simp add: view_def upd_sema_def)
qed

lemma view_upd_sema_same [simp]:
  "(\<And>x. s_waiters (f x) = s_waiters x) \<Longrightarrow> view (upd_sema s f k) = view k"
  by (subst view_upd_sema) (simp add: view_def fun_upd_idem queue.simps)

section \<open>The scheduler refines the abstract operations\<close>

lemma status_of_Some: "is_thread (thr k) t \<Longrightarrow> status_of k t = Some (t_status (thr k t))"
  by (simp add: status_of_def)

lemma status_of_SomeD: "status_of k t = Some s \<Longrightarrow> is_thread (thr k) t \<and> t_status (thr k t) = s"
  by (simp add: status_of_def split: if_splits)

lemma next_thread_cases:
  assumes "next_thread_to_run k = Inr (nxt, k')"
  obtains (idle) "nxt = idle_thread k" "k' = k" "heap_empty (ready_heap k)"
    | (pop) h where "heap_pop (thr k) (ready_heap k) = Inr (nxt, h)" "k' = k\<lparr>ready_heap := h\<rparr>"
        "\<not> heap_empty (ready_heap k)"
proof (cases "heap_empty (ready_heap k)")
  case True
  with assms show ?thesis by (auto simp: next_thread_to_run_def intro: idle)
next
  case False
  with assms obtain x where "heap_pop (thr k) (ready_heap k) = Inr x"
    "(case x of (t, h) \<Rightarrow> Inr (t, k\<lparr>ready_heap := h\<rparr>)) = (Inr (nxt, k') :: (tptr \<times> kernel) res)"
    by (auto simp: next_thread_to_run_def)
  with False show ?thesis by (cases x) (auto intro: pop)
qed

lemma next_thread_view:
  assumes "next_thread_to_run k = Inr (nxt, k')" "base_ok (view k)"
  shows "view k' = a_leave P_ready nxt (view k) \<and> (nxt \<in># queue k P_ready \<or> nxt = idle_thread k)"
proof -
  have "idle_thread k \<notin># queue k P_ready" using assms(2) by (auto simp: base_ok_def queues_ok_def)
  then have *: "a_leave P_ready (idle_thread k) (view k) = view k"
    by (simp add: a_leave_def diff_single_trivial view_def)
  from assms(1) show ?thesis
  proof (cases rule: next_thread_cases)
    case idle
    with * show ?thesis by simp
  next
    case (pop h)
    then show ?thesis
      using heap_pop_contents(1) [OF pop(1)] by (simp add: view_ready_heap a_leave_def queue.simps)
  qed
qed

lemma view_running [simp]: "view (k\<lparr>running := t\<rparr>) = (view k)\<lparr>arun := t\<rparr>"
  by (simp add: view_def status_of_def stack_of_def fun_eq_iff queue_same [of "k\<lparr>running := t\<rparr>" k])

text \<open>The state after \<^verbatim>\<open>schedule\<close>, up to the page of a dead thread.\<close>

definition switched :: "kernel \<Rightarrow> tptr \<Rightarrow> (tmem, tptr) heap \<Rightarrow> kernel" where
  "switched k nxt h = (set_status nxt THREAD_RUNNING (k\<lparr>ready_heap := h, running := nxt\<rparr>))\<lparr>thread_ticks := 0\<rparr>"

lemma schedule_form:
  assumes "schedule k = Inr k'"
  obtains nxt h where "next_thread_to_run k = Inr (nxt, k\<lparr>ready_heap := h\<rparr>)" "is_thread (thr k) nxt"
    "intr k = INTR_OFF"
    "k' = switched k nxt h \<or>
     k' = free_thread_page (running k) (switched k nxt h) \<and> running k \<noteq> nxt
       \<and> t_status (thr k (running k)) = THREAD_DYING"
proof -
  obtain nxt k1 where n: "next_thread_to_run k = Inr (nxt, k1)"
    using assms by (auto simp: schedule_def Let_def)
  then obtain h where h: "k1 = k\<lparr>ready_heap := h\<rparr>"
    by (cases rule: next_thread_cases) (auto intro: that [of "ready_heap k"])
  show ?thesis
  proof (rule that)
    show "next_thread_to_run k = Inr (nxt, k\<lparr>ready_heap := h\<rparr>)" using n h by simp
    show "is_thread (thr k) nxt" "intr k = INTR_OFF"
      using assms n h by (auto simp: schedule_def Let_def running_thread_def intr_get_level_def)
    show "k' = switched k nxt h \<or>
       k' = free_thread_page (running k) (switched k nxt h) \<and> running k \<noteq> nxt
         \<and> t_status (thr k (running k)) = THREAD_DYING"
      using assms n h
      by (auto simp: schedule_def Let_def running_thread_def thread_schedule_tail_def switched_def
          set_status_def upd_thread_def split: if_splits)
  qed
qed

lemma schedule_ok:
  assumes "schedule k = Inr k'" "base_ok (view k)" "\<And>t. status_of k t \<noteq> Some THREAD_RUNNING"
  shows "asched_ok (view k')"
proof -
  from assms(1) obtain nxt h where n: "next_thread_to_run k = Inr (nxt, k\<lparr>ready_heap := h\<rparr>)"
    and t: "is_thread (thr k) nxt"
    and k': "k' = switched k nxt h \<or>
     k' = free_thread_page (running k) (switched k nxt h) \<and> running k \<noteq> nxt
       \<and> t_status (thr k (running k)) = THREAD_DYING"
    by (rule schedule_form)
  note v = next_thread_view [OF n assms(2)]
  have "view (switched k nxt h) = (a_status nxt THREAD_RUNNING (a_leave P_ready nxt (view k)))\<lparr>arun := nxt\<rparr>"
    using t v by (simp add: switched_def a_status_def)
  moreover have "asched_ok \<dots>"
    using v assms(3) by (intro switch_ok [OF assms(2)]) auto
  ultimately have ok: "asched_ok (view (switched k nxt h))" by simp
  from k' show ?thesis
  proof
    assume k': "k' = free_thread_page (running k) (switched k nxt h) \<and> running k \<noteq> nxt
       \<and> t_status (thr k (running k)) = THREAD_DYING"
    have "asched_ok (view (free_thread_page (running k) (switched k nxt h)))"
    proof (cases "is_thread (thr k) (running k)")
      case True
      with k' have "status_of (switched k nxt h) (running k) = Some THREAD_DYING"
        by (simp add: switched_def status_of_def set_status_def is_thread_def)
      then show ?thesis using free_ok [OF ok] by simp
    next
      case False
      with k' have "status_of (switched k nxt h) (running k) = None" "stack_of (switched k nxt h) (running k) = []"
        by (auto simp: switched_def status_of_def stack_of_def set_status_def is_thread_def)
      then have "a_free (running k) (view (switched k nxt h)) = view (switched k nxt h)"
        by (simp add: a_free_def view_def fun_upd_idem)
      then show ?thesis using ok by simp
    qed
    with k' show ?thesis by simp
  qed (use ok in simp)
qed

end
