(* ===== verification/Scheduler_Invariant.thy ===== *)
theory Scheduler_Invariant
  imports Scheduler
begin

text \<open>
  The scheduling invariant of the running kernel. \<open>sched_inv\<close> says of a state that exactly one
  thread is running, that the ready queue holds exactly the ready threads other than the idle
  thread, that every queue holds blocked threads only, that no thread is on two queues or
  twice on one, and that a thread under construction is on none. Each routine of
  \<^verbatim>\<open>thread.c\<close>, \<^verbatim>\<open>synch.c\<close> and \<^verbatim>\<open>timer.c\<close> keeps it, hence so does every step.
\<close>

definition sched_inv :: "kernel \<Rightarrow> bool" where
  "sched_inv k \<longleftrightarrow> asched_ok (view k)"

lemma sched_inv_running:
  assumes "sched_inv k"
  shows "is_thread (thr k) (running k)" "t_status (thr k (running k)) = THREAD_RUNNING"
    "status_of k (running k) = Some THREAD_RUNNING"
proof -
  show st: "status_of k (running k) = Some THREAD_RUNNING" using assms by (simp add: sched_inv_def asched_ok_def)
  show "is_thread (thr k) (running k)" "t_status (thr k (running k)) = THREAD_RUNNING"
    using status_of_SomeD [OF st] by simp_all
qed

lemma thread_current_inv [simp]: "sched_inv k \<Longrightarrow> thread_current k = Inr (running k)"
  using sched_inv_running [of k] by (simp add: thread_current_def running_thread_def)

lemma upd_thread_ticks [simp]: "thread_ticks (upd_thread t f k) = thread_ticks k"
  by (simp add: upd_thread_def)

lemma push_frames_simps [simp]:
  "ready_heap (push_frames fs k) = ready_heap k"
  "sleep_thread_heap (push_frames fs k) = sleep_thread_heap k" "semas (push_frames fs k) = semas k"
  "locks (push_frames fs k) = locks k" "conds (push_frames fs k) = conds k"
  "idle_thread (push_frames fs k) = idle_thread k" "running (push_frames fs k) = running k"
  "all_list (push_frames fs k) = all_list k" "initial_thread (push_frames fs k) = initial_thread k"
  "intr (push_frames fs k) = intr k" "in_external_intr (push_frames fs k) = in_external_intr k"
  "thread_mlfqs (push_frames fs k) = thread_mlfqs k" "tid_lock (push_frames fs k) = tid_lock k"
  "next_tid (push_frames fs k) = next_tid k" "ticks (push_frames fs k) = ticks k"
  "load_avg (push_frames fs k) = load_avg k"
  "yield_on_return (push_frames fs k) = yield_on_return k"
  "thread_ticks (push_frames fs k) = thread_ticks k"
  "is_thread (thr (push_frames fs k)) t = is_thread (thr k) t"
  "t_status (thr (push_frames fs k) t) = t_status (thr k t)"
  by (simp_all add: push_frames_def is_thread_upd)

lemma pop_frame_simps [simp]:
  "ready_heap (pop_frame k) = ready_heap k" "sleep_thread_heap (pop_frame k) = sleep_thread_heap k"
  "semas (pop_frame k) = semas k" "locks (pop_frame k) = locks k" "conds (pop_frame k) = conds k"
  "idle_thread (pop_frame k) = idle_thread k" "running (pop_frame k) = running k"
  "all_list (pop_frame k) = all_list k" "initial_thread (pop_frame k) = initial_thread k"
  "intr (pop_frame k) = intr k" "in_external_intr (pop_frame k) = in_external_intr k"
  "thread_mlfqs (pop_frame k) = thread_mlfqs k" "tid_lock (pop_frame k) = tid_lock k"
  "next_tid (pop_frame k) = next_tid k" "ticks (pop_frame k) = ticks k"
  "load_avg (pop_frame k) = load_avg k" "yield_on_return (pop_frame k) = yield_on_return k"
  "thread_ticks (pop_frame k) = thread_ticks k"
  "is_thread (thr (pop_frame k)) t = is_thread (thr k) t"
  "t_status (thr (pop_frame k) t) = t_status (thr k t)"
  by (simp_all add: pop_frame_def is_thread_upd)

lemma intr_disable_simps [simp]:
  "ready_heap (intr_disable k) = ready_heap k"
  "sleep_thread_heap (intr_disable k) = sleep_thread_heap k" "semas (intr_disable k) = semas k"
  "locks (intr_disable k) = locks k" "conds (intr_disable k) = conds k"
  "idle_thread (intr_disable k) = idle_thread k" "running (intr_disable k) = running k"
  "all_list (intr_disable k) = all_list k" "initial_thread (intr_disable k) = initial_thread k"
  "in_external_intr (intr_disable k) = in_external_intr k"
  "thread_mlfqs (intr_disable k) = thread_mlfqs k" "tid_lock (intr_disable k) = tid_lock k"
  "next_tid (intr_disable k) = next_tid k" "ticks (intr_disable k) = ticks k"
  "load_avg (intr_disable k) = load_avg k" "yield_on_return (intr_disable k) = yield_on_return k"
  "thr (intr_disable k) = thr k" "thread_ticks (intr_disable k) = thread_ticks k"
  "intr (intr_disable k) = INTR_OFF"
  by (simp_all add: intr_disable_def)

lemma upd_sema_simps [simp]:
  "ready_heap (upd_sema s f k) = ready_heap k"
  "sleep_thread_heap (upd_sema s f k) = sleep_thread_heap k" "locks (upd_sema s f k) = locks k"
  "conds (upd_sema s f k) = conds k" "idle_thread (upd_sema s f k) = idle_thread k"
  "running (upd_sema s f k) = running k" "all_list (upd_sema s f k) = all_list k"
  "initial_thread (upd_sema s f k) = initial_thread k" "intr (upd_sema s f k) = intr k"
  "in_external_intr (upd_sema s f k) = in_external_intr k"
  "thread_mlfqs (upd_sema s f k) = thread_mlfqs k" "tid_lock (upd_sema s f k) = tid_lock k"
  "next_tid (upd_sema s f k) = next_tid k" "ticks (upd_sema s f k) = ticks k"
  "load_avg (upd_sema s f k) = load_avg k" "yield_on_return (upd_sema s f k) = yield_on_return k"
  "thr (upd_sema s f k) = thr k" "thread_ticks (upd_sema s f k) = thread_ticks k"
  "semas (upd_sema s f k) = (semas k)(s := f (semas k s))"
  by (simp_all add: upd_sema_def)

lemma upd_lock_simps [simp]:
  "ready_heap (upd_lock l f k) = ready_heap k"
  "sleep_thread_heap (upd_lock l f k) = sleep_thread_heap k" "semas (upd_lock l f k) = semas k"
  "conds (upd_lock l f k) = conds k" "idle_thread (upd_lock l f k) = idle_thread k"
  "running (upd_lock l f k) = running k" "all_list (upd_lock l f k) = all_list k"
  "initial_thread (upd_lock l f k) = initial_thread k" "intr (upd_lock l f k) = intr k"
  "in_external_intr (upd_lock l f k) = in_external_intr k"
  "thread_mlfqs (upd_lock l f k) = thread_mlfqs k" "tid_lock (upd_lock l f k) = tid_lock k"
  "next_tid (upd_lock l f k) = next_tid k" "ticks (upd_lock l f k) = ticks k"
  "load_avg (upd_lock l f k) = load_avg k" "yield_on_return (upd_lock l f k) = yield_on_return k"
  "thr (upd_lock l f k) = thr k" "thread_ticks (upd_lock l f k) = thread_ticks k"
  "locks (upd_lock l f k) = (locks k)(l := f (locks k l))"
  by (simp_all add: upd_lock_def)

lemma a_push_simps [simp]:
  "aq (a_push fs a) = aq a" "ast (a_push fs a) = ast a" "aidle (a_push fs a) = aidle a"
  "arun (a_push fs a) = arun a" "aall (a_push fs a) = aall a"
  by (simp_all add: a_push_def)

lemma queue_intr_disable [simp]: "queue (intr_disable k) = queue k"
  by (rule queue_same) simp_all

lemma enqueue_ready_form:
  assumes "enqueue_ready t k = Inr k'"
  obtains n h where "k' = (upd_thread t (\<lambda>th. th\<lparr>t_entry_ord := n\<rparr>) k)\<lparr>ready_heap := h\<rparr>"
    "heap_mset h = add_mset t (heap_mset (ready_heap k))" "hp_less h = hp_less (ready_heap k)"
    "hp_size h = Suc (hp_size (ready_heap k))"
proof -
  let ?n = "s32 (hp_push_cnt (ready_heap k))"
  let ?h0 = "(ready_heap k)\<lparr>hp_push_cnt := s64 (hp_push_cnt (ready_heap k) + 1)\<rparr>"
  let ?k = "upd_thread t (\<lambda>th. th\<lparr>t_entry_ord := ?n\<rparr>) (k\<lparr>ready_heap := ?h0\<rparr>)"
  from assms obtain h where h: "heap_push (thr ?k) ?h0 t = Inr h" and k': "k' = ?k\<lparr>ready_heap := h\<rparr>"
    by (auto simp: enqueue_ready_def heap_entry_count_def Let_def)
  have "heap_mset ?h0 = heap_mset (ready_heap k)" by (simp add: heap_mset_def heap_list_def)
  with heap_push_contents [OF h] show ?thesis
    by (intro that [where n = ?n and h = h]) (simp_all add: k' upd_thread_def)
qed

lemma thread_unblock_form:
  assumes "thread_unblock t k = Inr k'"
  obtains n h where "is_thread (thr k) t" "t_status (thr k t) = THREAD_BLOCKED"
    "k' = (upd_thread t (\<lambda>th. th\<lparr>t_entry_ord := n, t_status := THREAD_READY\<rparr>) k)\<lparr>ready_heap := h\<rparr>"
    "heap_mset h = add_mset t (heap_mset (ready_heap k))" "hp_less h = hp_less (ready_heap k)"
    "hp_size h = Suc (hp_size (ready_heap k))"
proof -
  from assms obtain k1 where *: "is_thread (thr k) t" "t_status (thr k t) = THREAD_BLOCKED"
    "enqueue_ready t (intr_disable k) = Inr k1"
    "intr_set_level (intr k) (set_status t THREAD_READY k1) = Inr k'"
    by (auto simp: thread_unblock_def Let_def intr_get_level_def intr_disable_def)
  from *(3) obtain n h where k1: "k1 = (upd_thread t (\<lambda>th. th\<lparr>t_entry_ord := n\<rparr>) (intr_disable k))\<lparr>ready_heap := h\<rparr>"
    "heap_mset h = add_mset t (heap_mset (ready_heap k))" "hp_less h = hp_less (ready_heap k)"
    "hp_size h = Suc (hp_size (ready_heap k))"
    by (rule enqueue_ready_form) (auto simp: intr_disable_def)
  have "k' = (set_status t THREAD_READY k1)\<lparr>intr := intr k\<rparr>"
    using *(4) by (cases "intr k") (auto simp: intr_set_level_def intr_enable_def intr_disable_def)
  also have "\<dots> = (upd_thread t (\<lambda>th. th\<lparr>t_entry_ord := n, t_status := THREAD_READY\<rparr>) k)\<lparr>ready_heap := h\<rparr>"
    unfolding k1(1) by (simp add: set_status_def upd_thread_def intr_disable_def)
  finally show ?thesis using * k1 by (intro that)
qed

lemma thread_unblock_view:
  "thread_unblock t k = Inr k' \<Longrightarrow> view k' = a_enter P_ready t (view k)"
proof (erule thread_unblock_form)
  fix n h
  assume "is_thread (thr k) t"
    "k' = (upd_thread t (\<lambda>th. th\<lparr>t_entry_ord := n, t_status := THREAD_READY\<rparr>) k)\<lparr>ready_heap := h\<rparr>"
    "heap_mset h = add_mset t (heap_mset (ready_heap k))"
  then show "view k' = a_enter P_ready t (view k)"
    by (auto simp: view_ready_heap) (auto simp: view_def a_enter_def queue.simps status_of_def stack_of_def is_thread_upd fun_eq_iff)
qed

lemma thread_block_ok:
  assumes "thread_block k = Inr k'" "base_ok (a_status (running k) THREAD_BLOCKED (view k))"
    "\<And>t. ast (a_status (running k) THREAD_BLOCKED (view k)) t \<noteq> Some THREAD_RUNNING"
  shows "sched_inv k'"
proof -
  from assms(1) have "is_thread (thr k) (running k)" "schedule (set_status (running k) THREAD_BLOCKED k) = Inr k'"
    by (auto simp: thread_block_def thread_current_def Let_def running_thread_def)
  with assms(2,3) show ?thesis
    unfolding sched_inv_def by (intro schedule_ok) (auto simp flip: view_simps(2))
qed

lemma thread_yield_ok:
  assumes "thread_yield k = Inr k'" "sched_inv k"
  shows "sched_inv k'"
proof -
  note run = sched_inv_running [OF assms(2)]
  define c k1 where "c = running k" and "k1 = push_frames [F_set_level (intr k)] (intr_disable k)"
  from assms obtain k2 where k2: "(if c \<noteq> idle_thread k1 then enqueue_ready c k1 else Inr k1) = Inr k2"
    "schedule (set_status c THREAD_READY k2) = Inr k'"
    unfolding c_def k1_def by (auto simp: thread_yield_def Let_def intr_get_level_def)
  have "asched_ok (a_push [F_set_level (intr k)] (view k))"
    using assms(2) unfolding a_push_def sched_inv_def
    by (intro set_stack_ok) (auto simp: frames_ok_def asched_ok_def base_ok_def stacks_ok_def embryos_ok_def)
  then have k1: "asched_ok (view k1)" "is_thread (thr k1) c" "arun (view k1) = c"
    using run by (simp_all add: k1_def c_def)
  have "asched_ok (view k')"
  proof (cases "c = idle_thread k1")
    case True
    then show ?thesis
      using k2 k1 idle_current_ok [OF k1(1), of THREAD_READY]
      by (auto intro!: schedule_ok [OF k2(2)] simp flip: view_simps(2))
  next
    case False
    with k2(1) have "enqueue_ready c k1 = Inr k2" by simp
    then obtain n h where "k2 = (upd_thread c (\<lambda>th. th\<lparr>t_entry_ord := n\<rparr>) k1)\<lparr>ready_heap := h\<rparr>"
      "heap_mset h = add_mset c (heap_mset (ready_heap k1))"
      by (rule enqueue_ready_form)
    then have "view (set_status c THREAD_READY k2) = a_enter P_ready (arun (view k1)) (view k1)"
      using k1 by (auto simp: view_ready_heap is_thread_upd view_upd_thread_same a_enter_def a_status_def queue.simps)
    then show ?thesis
      using k2(2) False k1 enter_current_ok [OF k1(1)]
      by (auto intro!: schedule_ok [OF k2(2)] simp flip: view_simps(2))
  qed
  then show ?thesis by (simp add: sched_inv_def)
qed

section \<open>The kernel routines keep the invariant\<close>

lemma sched_inv_view: "view k' = view k \<Longrightarrow> sched_inv k' = sched_inv k"
  by (simp add: sched_inv_def)

definition good_frames :: "kernel \<Rightarrow> frame list \<Rightarrow> bool" where
  "good_frames k fs \<longleftrightarrow>
     embryos fs = [] \<and> (if running k = idle_thread k then list_all idle_aux fs else list_all plain fs)"

lemma idle_stack_append: "list_all idle_aux fs \<Longrightarrow> idle_stack gs \<Longrightarrow> idle_stack (fs @ gs)"
  by (induction fs) auto

lemma push_frames_inv:
  assumes "sched_inv k" "good_frames k fs"
  shows "sched_inv (push_frames fs k)"
proof -
  have ok: "stacks_ok (view k)" "embryos_ok (view k)" "asched_ok (view k)"
    using assms(1) by (simp_all add: sched_inv_def asched_ok_def base_ok_def)
  have "frames_ok (view k) (fs @ stack_of k (running k))"
    using ok(1) assms(2) by (auto simp: frames_ok_def stacks_ok_def good_frames_def idle_stack_append)
  moreover have "distinct (embryos (stack_of k (running k)))"
    using ok(2) by (simp add: embryos_ok_def)
  ultimately have "asched_ok (a_push fs (view k))"
    using assms(2) unfolding a_push_def by (intro set_stack_ok ok(3)) (auto simp: good_frames_def)
  then show ?thesis using sched_inv_running [OF assms(1)] by (simp add: sched_inv_def)
qed

lemma pop_frame_inv:
  assumes "sched_inv k" "top_frames k = f # fs" "running k = idle_thread k \<Longrightarrow> idle_aux f"
  shows "sched_inv (pop_frame k)"
proof -
  note run = sched_inv_running [OF assms(1)]
  have st: "stack_of k (running k) = f # fs" using assms(2) run by (simp add: stack_of_def top_frames_def)
  have ok: "stacks_ok (view k)" "embryos_ok (view k)" "asched_ok (view k)"
    using assms(1) by (simp_all add: sched_inv_def asched_ok_def base_ok_def)
  have "frames_ok (view k) fs"
  proof (cases "running k = idle_thread k")
    case True
    with ok(1) st assms(3) show ?thesis by (auto simp: frames_ok_def stacks_ok_def)
  next
    case False
    then have "list_all plain (f # fs)" using ok(1) st by (auto simp: stacks_ok_def)
    with False show ?thesis by (simp add: frames_ok_def)
  qed
  moreover have "distinct (embryos (f # fs))"
    using ok(2) st by (metis embryos_ok_def view_simps(3))
  ultimately show ?thesis
    using ok(3) run st set_stack_ok [of "view k" fs] by (auto simp: sched_inv_def)
qed

lemma kernel_thread_inv:
  assumes "kernel_thread fn aux k = Inr k'" "sched_inv k" "running k \<noteq> idle_thread k" "fn \<noteq> IDLE_FUNCTION"
  shows "sched_inv k'"
  using assms
  by (auto simp: kernel_thread_def intr_enable_def good_frames_def sched_inv_view [OF view_fields(1)]
      intro!: push_frames_inv)

lemma intr_set_level_view: "intr_set_level l k = Inr k' \<Longrightarrow> view k' = view k"
  by (auto simp: intr_set_level_def intr_enable_def split: if_splits)

lemma thread_exit_inv:
  assumes "thread_exit k = Inr k'" "sched_inv k" "running k \<noteq> idle_thread k"
  shows "sched_inv k'"
proof -
  let ?k = "set_status (running k) THREAD_DYING ((intr_disable k)\<lparr>all_list := remove1 (running k) (all_list k)\<rparr>)"
  note run = sched_inv_running [OF assms(2)]
  have "sched_inv (intr_disable k)" using assms(2) by (simp add: sched_inv_def)
  then have s: "schedule ?k = Inr k'" using assms(1) by (auto simp: thread_exit_def Let_def)
  have "view (k\<lparr>all_list := al\<rparr>) = (view k)\<lparr>aall := al\<rparr>" for k al
    by (simp add: view_def status_of_def stack_of_def fun_eq_iff queue_same [of "k\<lparr>all_list := al\<rparr>" k])
  then have v: "view ?k = a_status (running k) THREAD_DYING ((view k)\<lparr>aall := remove1 (running k) (all_list k)\<rparr>)"
    using run by simp
  have ok: "asched_ok (view k)" "arun (view k) \<noteq> aidle (view k)" using assms by (simp_all add: sched_inv_def)
  show ?thesis
    unfolding sched_inv_def
    using exit_current_ok [OF ok] by (intro schedule_ok [OF s]) (simp_all add: v flip: view_simps(2))
qed

lemma thread_update_priority_view:
  "thread_update_priority t k = Inr k' \<Longrightarrow> view k' = view k"
  by (auto simp: thread_update_priority_def view_upd_thread_same split: if_splits)

lemma thread_set_priority_inv:
  "thread_set_priority p k = Inr k' \<Longrightarrow> sched_inv k \<Longrightarrow> running k \<noteq> idle_thread k \<Longrightarrow> sched_inv k'"
  by (auto simp: thread_set_priority_def Let_def good_frames_def sched_inv_view [OF view_upd_thread_same]
      split: if_splits intro!: push_frames_inv)

lemma set_new_priority_inv: "set_new_priority p k = Inr k' \<Longrightarrow> sched_inv k \<Longrightarrow> sched_inv k'"
  by (auto simp: set_new_priority_def sched_inv_view [OF view_upd_thread_same])

lemma yield_below_inv: "yield_below p k = Inr k' \<Longrightarrow> sched_inv k \<Longrightarrow> sched_inv k'"
  by (auto simp: yield_below_def split: if_splits elim!: thread_yield_ok)

lemma thread_set_nice_inv:
  "thread_set_nice n k = Inr k' \<Longrightarrow> sched_inv k \<Longrightarrow> running k \<noteq> idle_thread k \<Longrightarrow> sched_inv k'"
  by (auto simp: thread_set_nice_def good_frames_def sched_inv_view [OF view_upd_thread_same] intro!: push_frames_inv)

text \<open>The running thread starts to wait.\<close>

lemma block_inv:
  assumes "thread_block (push_frames fs k1) = Inr k'" "sched_inv k" "running k \<noteq> idle_thread k"
    "view k1 = (view k)\<lparr>aq := (queue k)(p := add_mset (running k) (queue k p))\<rparr>" "p \<noteq> P_ready"
    "good_frames k fs" "running k1 = running k" "is_thread (thr k1) (running k)"
  shows "sched_inv k'"
proof -
  let ?a = "a_push fs (view k)"
  have "sched_inv (push_frames fs k)" by (rule push_frames_inv) fact+
  then have a: "asched_ok ?a" using sched_inv_running [OF assms(2)] by (simp add: sched_inv_def)
  have ps: "place_status p = THREAD_BLOCKED" using assms(5) by simp
  have "view (push_frames fs k1) = a_push fs (view k1)" using assms(7,8) by simp
  then have v: "a_status (running k) THREAD_BLOCKED (view (push_frames fs k1)) = a_enter p (running k) ?a"
    using assms(4) by (intro asched.equality) (simp_all add: a_defs ps)
  show ?thesis
    using enter_current_ok [OF a, of p] assms(3,7) v
    by (intro thread_block_ok [OF assms(1)]) (simp_all add: a_push_def)
qed

lemma timer_sleep_inv:
  assumes "timer_sleep n k = Inr k'" "sched_inv k" "running k \<noteq> idle_thread k"
  shows "sched_inv k'"
proof (cases "n < 0")
  case True
  with assms show ?thesis by (simp add: timer_sleep_def)
next
  case False
  have inv: "sched_inv (intr_disable k)" using assms(2) by (simp add: sched_inv_def)
  let ?k = "upd_thread (running k) (\<lambda>th. th\<lparr>t_wake_time := s64 (ticks k + n)\<rparr>) (intr_disable k)"
  from False assms(1) inv obtain h where h: "heap_push (thr ?k) (sleep_thread_heap k) (running k) = Inr h"
    and b: "thread_block (push_frames [F_set_level (intr k)] (?k\<lparr>sleep_thread_heap := h\<rparr>)) = Inr k'"
    by (auto simp: timer_sleep_def Let_def timer_ticks_def intr_get_level_def)
  show ?thesis
    using heap_push_contents(1) [OF h] sched_inv_running [OF assms(2)] assms(3)
    by (intro block_inv [OF b assms(2,3), where p = P_sleep])
      (auto simp: view_sleep_heap view_upd_thread_same queue.simps good_frames_def is_thread_upd)
qed

lemma sema_down_loop_inv:
  assumes "sema_down_loop s l k = Inr k'" "sched_inv k" "running k \<noteq> idle_thread k"
  shows "sched_inv k'"
proof (cases "s_value (semas k s) = 0")
  case True
  with assms(1,2) have b: "thread_block (push_frames [F_sema_loop s l]
      (upd_sema s (\<lambda>x. x\<lparr>s_waiters := s_waiters x @ [running k]\<rparr>) k)) = Inr k'"
    by (simp add: sema_down_loop_def)
  show ?thesis
    using sched_inv_running [OF assms(2)] assms(3)
    by (intro block_inv [OF b assms(2,3), where p = "P_sema s"])
      (auto simp: view_upd_sema queue.simps good_frames_def)
next
  case False
  with assms show ?thesis
    by (auto simp: sema_down_loop_def sched_inv_def dest!: intr_set_level_view)
qed

lemma sema_down_inv:
  "sema_down s k = Inr k' \<Longrightarrow> sched_inv k \<Longrightarrow> running k \<noteq> idle_thread k \<Longrightarrow> sched_inv k'"
  by (auto simp: sema_down_def sched_inv_def intro: sema_down_loop_inv [unfolded sched_inv_def])

text \<open>A waiting thread is made ready.\<close>

lemma unblock_inv:
  assumes "thread_unblock t k1 = Inr k'" "sched_inv k" "t \<in># queue k p" "view k1 = a_leave p t (view k)"
  shows "sched_inv k'"
  using move_ok [of "view k" t p] assms thread_unblock_view [OF assms(1)] by (simp add: sched_inv_def)

lemma sema_wake_inv:
  assumes "sema_wake s k = Inr k'" "sched_inv k"
  shows "sched_inv k' \<and> running k' = running k \<and> idle_thread k' = idle_thread k
    \<and> in_external_intr k' = in_external_intr k"
proof (cases "s_waiters (semas k s) = []")
  case True
  with assms show ?thesis
    by (auto simp: sema_wake_def Let_def sched_inv_def intr_set_level_def intr_enable_def split: if_splits)
next
  case False
  define t where "t = scan_max (cmp_thread_priority (thr k)) (s_waiters (semas k s))"
  have t: "t \<in> set (s_waiters (semas k s))" unfolding t_def by (rule scan_max_in [OF False])
  from assms(1) False obtain k1 where k1: "thread_unblock t (intr_disable k) = Inr k1"
    and k': "intr_set_level (intr k) (upd_sema s (\<lambda>x. x\<lparr>s_value := u32 (s_value x + 1)\<rparr>)
      (upd_sema s (\<lambda>x. x\<lparr>s_waiters := remove1 t (s_waiters x)\<rparr>) k1)) = Inr k'"
    by (auto simp: sema_wake_def Let_def t_def intr_get_level_def)
  from k1 obtain n h where f: "k1 = (upd_thread t (\<lambda>th. th\<lparr>t_entry_ord := n, t_status := THREAD_READY\<rparr>) (intr_disable k))\<lparr>ready_heap := h\<rparr>"
    by (rule thread_unblock_form)
  then have frame: "semas k1 = semas k" "running k1 = running k" "idle_thread k1 = idle_thread k"
    "in_external_intr k1 = in_external_intr k" by simp_all
  have "view k1 = a_enter P_ready t (view k)" using thread_unblock_view [OF k1] by simp
  then have q: "queue k1 = (queue k)(P_ready := add_mset t (queue k P_ready))"
    and v: "view k1 = a_enter P_ready t (view k)"
    by (metis a_enter_def asched.select_convs(1) asched.surjective asched.update_convs(1,2) view_simps(1)) fact
  have "view k' = view (upd_sema s (\<lambda>x. x\<lparr>s_waiters := remove1 t (s_waiters x)\<rparr>) k1)"
    using intr_set_level_view [OF k'] by simp
  also have "\<dots> = a_enter P_ready t (a_leave (P_sema s) t (view k))"
    using frame(1) q v t by (simp add: view_upd_sema a_enter_def a_leave_def queue.simps fun_upd_twist)
  finally have "sched_inv k'"
    using move_ok [of "view k" t "P_sema s"] assms(2) t by (simp add: sched_inv_def queue.simps)
  moreover have "running k' = running k" "idle_thread k' = idle_thread k" "in_external_intr k' = in_external_intr k"
    using k' frame by (auto simp: intr_set_level_def intr_enable_def split: if_splits)
  ultimately show ?thesis by simp
qed

lemma sema_up_inv:
  assumes "sema_up s k = Inr k'" "sched_inv k"
  shows "sched_inv k'"
proof -
  from assms(1) obtain k1 where k1: "sema_wake s k = Inr k1"
    and k': "(if intr_context k1 then intr_yield_on_return k1 else Inr (push_frames [F_yield] k1)) = Inr k'"
    by (auto simp: sema_up_def)
  from sema_wake_inv [OF k1 assms(2)] have "sched_inv k1" by simp
  with k' show ?thesis
    by (auto simp: intr_yield_on_return_def sched_inv_view [OF view_fields(11)] good_frames_def
        intro!: push_frames_inv split: if_splits)
qed

lemma thread_create_begin_inv:
  assumes "thread_create_begin name p fn aux page k = Inr k'" "sched_inv k" "running k \<noteq> idle_thread k"
    "fn \<noteq> IDLE_FUNCTION" "page_ok k page"
  shows "sched_inv k'"
proof (cases page)
  case None
  with assms show ?thesis by (simp add: thread_create_begin_def)
next
  case (Some e)
  note run = sched_inv_running [OF assms(2)]
  have e: "\<not> is_thread (thr k) e" "e \<noteq> 0" using assms(5) Some by (simp_all add: page_ok_def)
  then have ne: "e \<noteq> running k" using run by auto
  from assms(1) Some obtain k1 where k1: "init_thread e name p (upd_thread e (\<lambda>th. th\<lparr>t_stack := []\<rparr>) k) = Inr k1"
    and k': "k' = push_frames [F_lock_acquire (tid_lock k1), F_take_tid e p fn aux] k1"
    by (auto simp: thread_create_begin_def)
  let ?a = "(view k)\<lparr>ast := (status_of k)(e \<mapsto> THREAD_BLOCKED), aall := all_list k @ [e]\<rparr>"
  have v: "view k1 = ?a"
    using k1 e by (auto simp: init_thread_def Let_def view_def queue_same [of "k\<lparr>thr := t, all_list := al\<rparr>" k for t al]
        status_of_def stack_of_def fun_eq_iff is_thread_def upd_thread_def split: if_splits)
  have a: "asched_ok ?a" using new_thread_ok [of "view k" e] assms(2) e by (simp add: sched_inv_def status_of_def)
  have none: "status_of k e = None" using e by (simp add: status_of_def)
  have ok: "queues_ok (view k)" "embryos_ok (view k)" "stacks_ok (view k)"
    using assms(2) by (simp_all add: sched_inv_def asched_ok_def base_ok_def)
  have "e \<notin># queue k q" for q using ok(1) none by (auto dest: queues_ok_D(1))
  moreover have "e \<notin> set (embryos (stack_of k t))" for t
    using ok(2) none unfolding embryos_ok_def by auto
  moreover have "e \<noteq> idle_thread k" using ok(3) none by (auto simp: stacks_ok_def)
  ultimately have "fresh ?a e" by (simp add: fresh_def)
  then have "asched_ok (a_push [F_lock_acquire (tid_lock k1), F_take_tid e p fn aux] ?a)"
    using assms(3,4) by (intro push_embryo_ok a) auto
  moreover have "is_thread (thr k1) (running k1)"
    using k1 ne run by (auto simp: init_thread_def Let_def is_thread_def)
  ultimately show ?thesis by (simp add: k' v sched_inv_def)
qed

lemma pop_embryo:
  assumes "sched_inv k" "top_frames k = f # fs" "embryo f = [e]"
  shows "fresh (view (pop_frame k)) e"
proof -
  note run = sched_inv_running [OF assms(1)]
  have st: "stack_of k (running k) = f # fs" using assms(2) run by (simp add: stack_of_def top_frames_def)
  have ok: "embryos_ok (view k)" using assms(1) by (simp add: sched_inv_def asched_ok_def base_ok_def)
  have e: "e \<in> set (embryos (stack_of k (running k)))" using st assms(3) by simp
  then have *: "status_of k e = Some THREAD_BLOCKED" "e \<noteq> idle_thread k" "\<And>p. e \<notin># queue k p"
    and u: "\<And>t. e \<in> set (embryos (stack_of k t)) \<Longrightarrow> t = running k"
    using ok unfolding embryos_ok_def by auto
  have "distinct (embryos (f # fs))" using ok st by (metis embryos_ok_def view_simps(3))
  then have "e \<notin> set (embryos fs)" using assms(3) by simp
  with * u st run show ?thesis by (auto simp: fresh_def)
qed

lemma take_tid_inv:
  assumes "sched_inv k" "fresh (view k) e" "running k \<noteq> idle_thread k" "fn \<noteq> IDLE_FUNCTION"
  shows "sched_inv (take_tid e p fn aux k)"
proof -
  have "asched_ok (a_push [F_lock_release (tid_lock k), F_create_rest e (next_tid k) p fn aux] (view k))"
    using assms by (intro push_embryo_ok) (auto simp: sched_inv_def)
  then show ?thesis
    using sched_inv_running [OF assms(1)] by (simp add: take_tid_def sched_inv_def)
qed

lemma thread_create_rest_inv:
  assumes "thread_create_rest e tid p fn aux k = Inr k'" "sched_inv k" "fresh (view k) e" "running k \<noteq> idle_thread k"
    "fn \<noteq> IDLE_FUNCTION"
  shows "sched_inv k'"
proof -
  let ?k0 = "upd_thread e (\<lambda>th. th\<lparr>t_tid := tid\<rparr>) k"
  have v0: "view ?k0 = view k" by (simp add: view_upd_thread_same)
  with assms(2) have "sched_inv ?k0" by (simp add: sched_inv_def)
  note cur = thread_current_inv [OF this]
  from assms(1) obtain k1 where
    k1: "(if thread_mlfqs ?k0 then
            let k = (if running ?k0 \<noteq> initial_thread ?k0
                     then upd_thread e (\<lambda>th. th\<lparr>t_nice := t_nice (thr ?k0 (running ?k0)),
                                             t_recent_cpu := t_recent_cpu (thr ?k0 (running ?k0))\<rparr>) ?k0
                     else upd_thread e (\<lambda>th. th\<lparr>t_nice := 0, t_recent_cpu := 0\<rparr>) ?k0)
            in thread_update_priority (running ?k0) k
          else Inr ?k0) = Inr k1"
    and k': "k' = push_frames [F_create_start e p fn aux] k1"
    unfolding thread_create_rest_def Let_def cur bindR_Inr by (auto simp: Let_def)
  have v1: "view k1 = view k"
    using k1 v0 by (auto simp: Let_def view_upd_thread_same dest!: thread_update_priority_view split: if_splits)
  then have "sched_inv k1" using assms(2) by (simp add: sched_inv_def)
  moreover have "asched_ok (a_push [F_create_start e p fn aux] (view k))"
    using assms(2-) by (intro push_embryo_ok) (auto simp: sched_inv_def)
  ultimately show ?thesis using sched_inv_running v1 by (simp add: k' sched_inv_def)
qed

lemma create_start_inv:
  assumes "create_start e p fn aux k = Inr k'" "sched_inv k" "fresh (view k) e" "running k \<noteq> idle_thread k"
    "fn \<noteq> IDLE_FUNCTION"
  shows "sched_inv k'"
proof -
  from assms(1) obtain k2 where e: "is_thread (thr k) e"
    and k2: "thread_unblock e (upd_thread e (\<lambda>th. th\<lparr>t_stack := [F_kernel_thread fn aux]\<rparr>) k) = Inr k2"
    and k': "k' = push_frames [F_create_yield p] k2"
    unfolding create_start_def Let_def by auto
  have v: "view k2 = a_enter P_ready e ((view k)\<lparr>astk := (stack_of k)(e := [F_kernel_thread fn aux])\<rparr>)"
    using thread_unblock_view [OF k2] view_set_stack [OF e, of "\<lambda>_. [F_kernel_thread fn aux]"]
    by (simp flip: view_simps(3))
  then have "sched_inv k2"
    using start_ok [of "view k" e "[F_kernel_thread fn aux]"] assms by (simp add: sched_inv_def)
  moreover have "running k2 \<noteq> idle_thread k2"
    using arg_cong [OF v, of arun] arg_cong [OF v, of aidle] assms(4) by (simp add: a_defs)
  ultimately show ?thesis unfolding k' by (intro push_frames_inv) (simp_all add: good_frames_def)
qed

lemma create_yield_inv: "create_yield p k = Inr k' \<Longrightarrow> sched_inv k \<Longrightarrow> sched_inv k'"
  by (auto simp: create_yield_def split: if_splits elim!: thread_yield_ok)

lemma sema_init_inv:
  assumes "sched_inv k"
  shows "sched_inv (upd_sema s (\<lambda>_. \<lparr>s_value = v, s_waiters = []\<rparr>) k)"
proof -
  let ?a = "(view k)\<lparr>aq := (queue k)(P_sema s := {#})\<rparr>"
  have ok: "queues_ok (view k)" "all_ok (view k)" "embryos_ok (view k)" "stacks_ok (view k)"
    "\<And>t. status_of k t = Some THREAD_RUNNING \<longleftrightarrow> t = running k"
    using assms by (auto simp: sched_inv_def asched_ok_def base_ok_def)
  have "queues_ok ?a" using ok(1) by (auto simp: queues_ok_def split: if_splits)
  moreover have "all_ok ?a" "stacks_ok ?a" using ok(2,4) by (simp_all add: all_ok_def stacks_ok_def)
  moreover have "embryos_ok ?a" using ok(3) by (auto simp: embryos_ok_def split: if_splits)
  ultimately have "asched_ok ?a" using ok(5) by (intro asched_okI) simp_all
  then show ?thesis by (simp add: sched_inv_def view_upd_sema)
qed

lemma lock_held_inv: "sched_inv k \<Longrightarrow> lock_held_by_current_thread l k = Inr (l_holder (locks k l) = running k)"
  by (simp add: lock_held_by_current_thread_def)

lemma lock_try_acquire_inv:
  assumes "lock_try_acquire l k = Inr (b, k')" "sched_inv k" "running k \<noteq> idle_thread k"
  shows "sched_inv k' \<and> running k' = running k \<and> idle_thread k' = idle_thread k"
proof -
  let ?k = "upd_sema (Lock_sema l) (\<lambda>x. x\<lparr>s_value := u32 (s_value x - 1)\<rparr>) k"
  have "sched_inv ?k" using assms(2) by (simp add: sched_inv_def)
  then have "sched_inv (push_frames [F_try_hold l] ?k)"
    using assms(3) by (intro push_frames_inv) (simp_all add: good_frames_def)
  with assms show ?thesis
    by (auto simp: lock_try_acquire_def lock_held_inv sema_try_down_def split: if_splits)
qed

lemma lock_acquire_inv:
  assumes "lock_acquire l k = Inr k'" "sched_inv k" "running k \<noteq> idle_thread k"
  shows "sched_inv k'"
proof -
  from assms(1,2) obtain b k1 where k1: "lock_try_acquire l k = Inr (b, k1)"
    and k': "k' = (if b then k1 else push_frames [F_lock_wait l] k1)"
    by (auto simp: lock_acquire_def lock_held_inv)
  from lock_try_acquire_inv [OF k1 assms(2,3)] assms(3) show ?thesis
    unfolding k' by (auto intro!: push_frames_inv simp: good_frames_def)
qed

lemmas sched_view_simps =
  sched_inv_view [OF view_fields(1)] sched_inv_view [OF view_fields(7)] sched_inv_view [OF view_fields(8)]
  sched_inv_view [OF view_fields(13)] sched_inv_view [OF view_upd_thread_same]

lemma lock_wait_inv:
  "lock_wait l k = Inr k' \<Longrightarrow> sched_inv k \<Longrightarrow> running k \<noteq> idle_thread k \<Longrightarrow> sched_inv k'"
  by (auto simp: lock_wait_def sched_view_simps good_frames_def intro!: push_frames_inv)

lemma try_hold_inv:
  "try_hold l k = Inr k' \<Longrightarrow> sched_inv k \<Longrightarrow> running k \<noteq> idle_thread k \<Longrightarrow> sched_inv k'"
  by (auto simp: try_hold_def sched_view_simps good_frames_def intro!: push_frames_inv)

lemma try_push_inv: "try_push l k = Inr k' \<Longrightarrow> sched_inv k \<Longrightarrow> sched_inv k'"
  by (auto simp: try_push_def sched_view_simps hold_lock_def)

lemma lock_acquired_inv: "lock_acquired l k = Inr k' \<Longrightarrow> sched_inv k \<Longrightarrow> sched_inv k'"
  by (auto simp: lock_acquired_def sched_view_simps hold_lock_def)

lemma donate_priority_inv:
  "donate_priority t d k = Inr k' \<Longrightarrow> sched_inv k \<Longrightarrow> running k \<noteq> idle_thread k \<Longrightarrow> sched_inv k'"
  by (auto simp: donate_priority_def Let_def good_frames_def intro!: push_frames_inv split: if_splits option.splits)

lemma donate_lock_inv: "donate_lock t k = Inr k' \<Longrightarrow> sched_inv k \<Longrightarrow> sched_inv k'"
  by (auto simp: donate_lock_def sched_view_simps)

lemma donate_holder_inv: "donate_holder t k = Inr k' \<Longrightarrow> sched_inv k \<Longrightarrow> sched_inv k'"
  by (auto simp: donate_holder_def Let_def sched_view_simps split: if_splits)

lemma donate_next_inv:
  "donate_next t d k = Inr k' \<Longrightarrow> sched_inv k \<Longrightarrow> running k \<noteq> idle_thread k \<Longrightarrow> sched_inv k'"
  by (auto simp: donate_next_def good_frames_def intro!: push_frames_inv)

lemma lock_release_inv:
  "lock_release l k = Inr k' \<Longrightarrow> sched_inv k \<Longrightarrow> running k \<noteq> idle_thread k \<Longrightarrow> sched_inv k'"
  by (auto simp: lock_release_def lock_held_inv sched_view_simps good_frames_def intro!: push_frames_inv)

lemma cond_wait_inv:
  "cond_wait c l k = Inr k' \<Longrightarrow> sched_inv k \<Longrightarrow> running k \<noteq> idle_thread k \<Longrightarrow> sched_inv k'"
  by (auto simp: cond_wait_def lock_held_inv sched_view_simps good_frames_def Let_def sema_init_def
      intro!: push_frames_inv sema_init_inv)

lemma cond_signal_inv:
  "cond_signal c l k = Inr k' \<Longrightarrow> sched_inv k \<Longrightarrow> running k \<noteq> idle_thread k \<Longrightarrow> sched_inv k'"
  by (auto simp: cond_signal_def lock_held_inv sched_view_simps good_frames_def Let_def
      intro!: push_frames_inv split: if_splits)

lemma cond_broadcast_inv:
  "cond_broadcast c l k = Inr k' \<Longrightarrow> sched_inv k \<Longrightarrow> running k \<noteq> idle_thread k \<Longrightarrow> sched_inv k'"
  by (auto simp: cond_broadcast_def good_frames_def intro!: push_frames_inv split: if_splits)

lemma sort_ready_inv: "sched_inv k \<Longrightarrow> sched_inv (sort_ready_heap k)"
  by (simp add: sort_ready_heap_def sched_inv_def view_ready_heap) (simp add: view_def queue.simps fun_upd_idem)

section \<open>The idle thread and the timer interrupt\<close>

lemma idle_top:
  assumes "sched_inv k" "running k = idle_thread k" "top_frames k = f # fs" "\<not> idle_aux f"
  shows "f = F_idle_loop \<or> f = F_idle_wake" "fs = [F_exit]"
proof -
  have "idle_stack (stack_of k (idle_thread k))"
    using assms(1) by (simp add: sched_inv_def asched_ok_def base_ok_def stacks_ok_def)
  then have "idle_stack (f # fs)"
    using sched_inv_running(1) [OF assms(1)] assms(2,3) by (simp add: stack_of_def top_frames_def)
  with assms(4) show "f = F_idle_loop \<or> f = F_idle_wake" "fs = [F_exit]" by simp_all
qed

lemma replace_idle_inv:
  assumes "sched_inv k" "running k = idle_thread k" "top_frames k = f # [F_exit]" "g = F_idle_loop \<or> g = F_idle_wake"
  shows "sched_inv (push_frames [g] (pop_frame k))"
proof -
  note run = sched_inv_running [OF assms(1)]
  have st: "stack_of k (running k) = [f, F_exit]" using assms(3) run by (simp add: stack_of_def top_frames_def)
  have "asched_ok ((view k)\<lparr>astk := (astk (view k))(arun (view k) := [g, F_exit])\<rparr>)"
    using assms(1,2,4) by (intro set_stack_ok) (auto simp: sched_inv_def frames_ok_def)
  then show ?thesis using run st by (simp add: sched_inv_def a_push_def)
qed

lemma idle_loop_inv:
  assumes "idle_loop (pop_frame k) = Inr k'" "sched_inv k" "running k = idle_thread k" "top_frames k = F_idle_loop # fs"
  shows "sched_inv k'"
proof -
  let ?k = "push_frames [F_idle_wake] (pop_frame k)"
  have "fs = [F_exit]" using idle_top(2) [OF assms(2-4)] by simp
  then have inv: "sched_inv ?k" using assms(2-4) by (intro replace_idle_inv) simp_all
  have eq: "push_frames [F_idle_wake] (intr_disable (pop_frame k)) = intr_disable ?k"
    by (simp add: push_frames_def intr_disable_def upd_thread_def)
  have b: "thread_block (intr_disable ?k) = Inr k'" using assms(1) by (simp add: idle_loop_def eq)
  show ?thesis
    using idle_current_ok [of "view ?k" THREAD_BLOCKED] inv assms(3)
    by (intro thread_block_ok [OF b]) (simp_all add: sched_inv_def del: view_push_frames)
qed

lemma idle_wake_inv:
  assumes "idle_wake (pop_frame k) = Inr k'" "sched_inv k" "running k = idle_thread k" "top_frames k = F_idle_wake # fs"
  shows "sched_inv k'"
proof -
  have "fs = [F_exit]" using idle_top(2) [OF assms(2-4)] by simp
  then have "sched_inv (push_frames [F_idle_loop] (pop_frame k))" using assms(2-4) by (intro replace_idle_inv) simp_all
  moreover have "k' = (push_frames [F_idle_loop] (pop_frame k))\<lparr>intr := INTR_ON\<rparr>"
    using assms(1) by (auto simp: idle_wake_def push_frames_def upd_thread_def)
  ultimately show ?thesis by (simp add: sched_view_simps)
qed

lemma foreach_view:
  "(\<And>t k k'. f t k = Inr k' \<Longrightarrow> view k' = view k) \<Longrightarrow> foreach f ts k = Inr k' \<Longrightarrow> view k' = view k"
  by (induction ts arbitrary: k) auto

lemma thread_update_recent_cpu_view:
  "thread_update_recent_cpu t k = Inr k' \<Longrightarrow> view k' = view k"
  by (auto simp: thread_update_recent_cpu_def view_upd_thread_same split: if_splits)

lemma update_load_avg_view: "update_load_avg k = Inr k' \<Longrightarrow> view k' = view k"
  by (auto simp: update_load_avg_def Let_def)

lemma thread_foreach_view:
  "(\<And>t k k'. f t k = Inr k' \<Longrightarrow> view k' = view k) \<Longrightarrow> thread_foreach f k = Inr k' \<Longrightarrow> view k' = view k"
  by (auto simp: thread_foreach_def intro: foreach_view)

lemma foreach_views:
  "thread_foreach thread_update_priority k = Inr k' \<Longrightarrow> view k' = view k"
  "thread_foreach thread_update_recent_cpu k = Inr k' \<Longrightarrow> view k' = view k"
  by (erule thread_foreach_view [rotated], erule thread_update_priority_view thread_update_recent_cpu_view)+

lemma thread_tick_view:
  assumes "thread_tick k = Inr k'"
  shows "view k' = view k"
proof -
  from assms obtain t k1 k2 where
    k1: "k1 = (if t = idle_thread k then k\<lparr>idle_ticks := s64 (idle_ticks k + 1)\<rparr>
               else k\<lparr>kernel_ticks := s64 (kernel_ticks k + 1)\<rparr>)"
    and k2: "(if thread_mlfqs k1 then
            let k = (if t \<noteq> idle_thread k1
                     then upd_thread t (\<lambda>th. th\<lparr>t_recent_cpu := fp_int_add (t_recent_cpu th) 1\<rparr>) k1
                     else k1)
            in bindR (if ticks k smod 4 = 0 then thread_foreach thread_update_priority k else Inr k) (\<lambda>k.
                 if ticks k smod TIMER_FREQ = 0
                 then bindR (update_load_avg k) (thread_foreach thread_update_recent_cpu)
                 else Inr k)
          else Inr k1) = Inr k2"
    and k': "(let k = k2\<lparr>thread_ticks := u32 (thread_ticks k2 + 1)\<rparr>
         in if thread_ticks k \<ge> TIME_SLICE then intr_yield_on_return k else Inr k) = Inr k'"
    unfolding thread_tick_def Let_def by (auto simp del: kernel.simps split del: if_split)
  have "view k1 = view k" by (simp add: k1)
  moreover have "view k2 = view k1"
    using k2
    by (auto simp: Let_def view_upd_thread_same split: if_splits
        dest!: update_load_avg_view foreach_views)
  moreover have "view k' = view k2"
    using k' by (auto simp: Let_def intr_yield_on_return_def split: if_splits)
  ultimately show ?thesis by simp
qed

lemma wake_top_inv:
  assumes "wake_top k = Inr k'" "sched_inv k"
  shows "sched_inv k'"
proof -
  from assms(1) obtain t h where h: "heap_pop (thr k) (sleep_thread_heap k) = Inr (t, h)"
    and r: "bindR (thread_unblock t (k\<lparr>sleep_thread_heap := h\<rparr>)) (\<lambda>k.
         bindR (thread_current k) (\<lambda>c.
           if t_priority (thr k t) > t_priority (thr k c) then intr_yield_on_return k else Inr k)) = Inr k'"
    by (auto simp: wake_top_def)
  from r obtain k1 where k1: "thread_unblock t (k\<lparr>sleep_thread_heap := h\<rparr>) = Inr k1"
    and r: "bindR (thread_current k1) (\<lambda>c.
           if t_priority (thr k1 t) > t_priority (thr k1 c) then intr_yield_on_return k1 else Inr k1) = Inr k'"
    by auto
  have "sched_inv k1"
    using heap_pop_contents(1) [OF h]
    by (intro unblock_inv [OF k1 assms(2), where p = P_sleep]) (simp_all add: queue.simps view_sleep_heap a_leave_def)
  moreover have "view k' = view k1" using r by (auto simp: intr_yield_on_return_def split: if_splits)
  ultimately show ?thesis by (simp add: sched_inv_def)
qed

lemma wake_loop_inv: "wake_loop n c k = Inr k' \<Longrightarrow> sched_inv k \<Longrightarrow> sched_inv k'"
  by (induction n arbitrary: k) (auto split: if_splits dest: wake_top_inv)

lemma timer_interrupt_inv:
  assumes "timer_interrupt k = Inr k'" "sched_inv k"
  shows "sched_inv k'"
proof -
  from assms(1) obtain k1 where "timer_wake (s64 (ticks k + 1)) (k\<lparr>ticks := s64 (ticks k + 1)\<rparr>) = Inr k1"
    and k': "thread_tick k1 = Inr k'"
    by (auto simp: timer_interrupt_def Let_def)
  then have "sched_inv k1"
    using assms(2) unfolding timer_wake_def
    by (elim wake_loop_inv) (simp add: sched_inv_def)
  with thread_tick_view [OF k'] show ?thesis by (simp add: sched_inv_def)
qed

lemma invoke_handler_inv:
  "invoke_handler handlers vec k = Inr k' \<Longrightarrow> sched_inv k \<Longrightarrow> sched_inv k'"
  by (auto simp: invoke_handler_def handlers_def unexpected_interrupt_def sched_inv_view [OF view_fields(12)]
      split: if_splits option.splits elim: timer_interrupt_inv)

lemma external_interrupt_inv:
  assumes "external_interrupt vec k = Inr k'" "sched_inv k"
  shows "sched_inv k'"
proof -
  let ?k = "intr_disable (push_frames [F_iret (intr k)] k)"
  have "sched_inv (push_frames [F_iret (intr k)] k)"
    using assms(2) by (intro push_frames_inv) (simp_all add: good_frames_def)
  then have inv: "sched_inv ?k" by (simp add: sched_inv_def)
  show ?thesis
  proof (cases "vec \<ge> 0x20 \<and> vec < 0x30")
    case True
    let ?k1 = "?k\<lparr>in_external_intr := True, yield_on_return := False\<rparr>"
    from True assms(1) obtain k2 where k2: "invoke_handler handlers vec ?k1 = Inr k2"
      and k': "(let k = k2\<lparr>in_external_intr := False\<rparr> in if yield_on_return k then thread_yield k else Inr k) = Inr k'"
      by (auto simp: external_interrupt_def intr_handler_def)
    have "sched_inv ?k1" using inv by (simp add: sched_inv_def)
    then have "sched_inv (k2\<lparr>in_external_intr := False\<rparr>)"
      using invoke_handler_inv [OF k2] by (simp add: sched_inv_def)
    with k' show ?thesis by (auto simp: Let_def split: if_splits dest: thread_yield_ok)
  next
    case False
    then have "invoke_handler handlers vec ?k = Inr k'"
      using assms(1) by (auto simp: external_interrupt_def intr_handler_def)
    then show ?thesis using inv by (rule invoke_handler_inv)
  qed
qed

section \<open>Every step keeps the invariant\<close>

lemma exec_plain_inv:
  assumes "exec_frame page f k = Inr k'" "sched_inv k" "running k \<noteq> idle_thread k" "plain f" "page_ok k page"
    "\<And>e. embryo f = [e] \<Longrightarrow> fresh (view k) e"
  shows "sched_inv k'"
  using assms
  by (cases f)
    (auto simp: sched_view_simps intr_enable_def sort_ready_inv take_tid_inv
      elim: kernel_thread_inv thread_exit_inv thread_yield_ok thread_set_priority_inv thread_set_nice_inv
        timer_sleep_inv thread_create_begin_inv thread_create_rest_inv create_start_inv create_yield_inv set_new_priority_inv yield_below_inv
        donate_lock_inv donate_holder_inv donate_next_inv sema_down_inv sema_down_loop_inv sema_up_inv
        lock_acquire_inv try_hold_inv try_push_inv lock_wait_inv donate_priority_inv lock_acquired_inv
        lock_release_inv cond_wait_inv cond_signal_inv cond_broadcast_inv
      dest: lock_try_acquire_inv thread_update_priority_view intr_set_level_view sched_inv_view)

lemma resume_inv:
  assumes "resume page k = Inr k'" "sched_inv k" "page_ok k page"
  shows "sched_inv k'"
proof -
  note run = sched_inv_running [OF assms(2)]
  from assms(1) obtain f fs where top: "top_frames k = f # fs" and x: "exec_frame page f (pop_frame k) = Inr k'"
    by (auto simp: resume_def split: list.splits)
  show ?thesis
  proof (cases "running k = idle_thread k")
    case False
    have "list_all plain (stack_of k (running k))"
      using assms(2) False by (simp add: sched_inv_def asched_ok_def base_ok_def stacks_ok_def)
    then have "plain f" using top run by (simp add: top_frames_def stack_of_def)
    moreover have "sched_inv (pop_frame k)" using pop_frame_inv [OF assms(2) top] False by simp
    moreover have "page_ok (pop_frame k) page" using assms(3) by (simp add: page_ok_def split: option.splits)
    ultimately show ?thesis
      using False pop_embryo [OF assms(2) top] by (intro exec_plain_inv [OF x]) simp_all
  next
    case True
    show ?thesis
    proof (cases "idle_aux f")
      case aux: True
      have "sched_inv (pop_frame k)" using pop_frame_inv [OF assms(2) top] aux by simp
      with aux x show ?thesis
        by (cases f) (auto simp: sched_view_simps elim: thread_yield_ok sema_up_inv dest: intr_set_level_view sched_inv_view)
    next
      case False
      with idle_top [OF assms(2) True top] x top True assms(2) show ?thesis
        by (auto elim: idle_loop_inv idle_wake_inv)
    qed
  qed
qed

lemma callable_plain: "callable f \<Longrightarrow> plain f \<and> embryo f = []"
  by (cases f rule: callable.cases) auto

lemma do_init_inv: "sched_inv k \<Longrightarrow> sched_inv (do_init i k)"
  by (cases i) (simp_all add: sema_init_def lock_init_def cond_init_def sema_init_inv sched_view_simps)

lemma step_inv: "step k k' \<Longrightarrow> sched_inv k \<Longrightarrow> sched_inv k'"
proof (erule step_cases)
  fix f
  assume k: "sched_inv k" "in_thread_code k" "callable f" "k' = push_frames [f] k"
  have "running k \<noteq> idle_thread k"
  proof
    assume idle: "running k = idle_thread k"
    from k(2) obtain g gs where g: "top_frames k = g # gs" "is_function g"
      by (auto simp: in_thread_code_def split: list.splits)
    then have "\<not> idle_aux g" by (cases g) auto
    with idle_top(1) [OF k(1) idle g(1)] g(2) show False by auto
  qed
  with k callable_plain [of f] show "sched_inv k'" by (auto intro!: push_frames_inv simp: good_frames_def)
qed (auto elim: resume_inv external_interrupt_inv intro: do_init_inv)

end
