(* ===== verification/Lock_Invariant.thy ===== *)
theory Lock_Invariant
  imports Scheduler_Invariant
begin

text \<open>
  Mutual exclusion. A lock is free, or one thread owns it: it holds the lock, or it is inside
  \<^verbatim>\<open>lock_acquire\<close>, \<^verbatim>\<open>lock_try_acquire\<close> or \<^verbatim>\<open>lock_release\<close> between the change of the semaphore
  and the change of its list of held locks. The sum of the semaphore's value and the number of
  owners is kept at one by every step of the kernel.
\<close>

section \<open>Who owns a lock\<close>

text \<open>What a frame says about the ownership of lock \<open>l\<close>: the thread has taken the semaphore and
  has yet to record it, has given the lock up and has yet to release the semaphore, or still
  has to take the semaphore that the frame below it counts on.\<close>

fun credit :: "lptr \<Rightarrow> frame \<Rightarrow> int" where
  "credit l (F_try_hold l') = of_bool (l = l')"
| "credit l (F_try_push l') = of_bool (l = l')"
| "credit l (F_lock_acquired l') = of_bool (l = l')"
| "credit l (F_sema_up (Lock_sema l')) = of_bool (l = l')"
| "credit l (F_sema_down (Lock_sema l')) = - of_bool (l = l')"
| "credit l (F_sema_loop (Lock_sema l') _) = - of_bool (l = l')"
| "credit l _ = 0"

definition credits :: "lptr \<Rightarrow> frame list \<Rightarrow> int" where
  "credits l fs = sum_list (map (credit l) fs)"

fun waits_for :: "frame \<Rightarrow> lptr option" where
  "waits_for (F_sema_down (Lock_sema l)) = Some l"
| "waits_for (F_sema_loop (Lock_sema l) _) = Some l"
| "waits_for _ = None"

fun waits_ok :: "frame list \<Rightarrow> bool" where
  "waits_ok [] = True"
| "waits_ok (f # fs) =
     ((case waits_for f of None \<Rightarrow> True | Some l \<Rightarrow> fs \<noteq> [] \<and> hd fs = F_lock_acquired l) \<and> waits_ok fs)"

text \<open>What matters of the state: the values of the locks' semaphores, the locks each thread
  holds, the stacks and the list of threads.\<close>

record lstate =
  lval :: "lptr \<Rightarrow> int"
  lhold :: "tptr \<Rightarrow> lptr list"
  lstk :: "tptr \<Rightarrow> frame list"
  lall :: "tptr list"

definition lview :: "kernel \<Rightarrow> lstate" where
  "lview k = \<lparr>lval = (\<lambda>l. s_value (semas k (Lock_sema l))), lhold = (\<lambda>t. t_locks_holding (thr k t)),
              lstk = (\<lambda>t. t_stack (thr k t)), lall = all_list k\<rparr>"

definition owned :: "lstate \<Rightarrow> lptr \<Rightarrow> tptr \<Rightarrow> int" where
  "owned a l t = int (count_list (lhold a t) l) + credits l (lstk a t)"

definition total :: "lstate \<Rightarrow> lptr \<Rightarrow> int" where
  "total a l = lval a l + (\<Sum>t \<in> set (lall a). owned a l t)"

definition lock_ok :: "lstate \<Rightarrow> bool" where
  "lock_ok a \<longleftrightarrow> (\<forall>l. 0 \<le> lval a l) \<and> (\<forall>t \<in> set (lall a). waits_ok (lstk a t))"

definition lpush :: "tptr \<Rightarrow> frame list \<Rightarrow> lstate \<Rightarrow> lstate" where
  "lpush t fs a = a\<lparr>lstk := (lstk a)(t := fs @ lstk a t)\<rparr>"

definition lset :: "lptr \<Rightarrow> int \<Rightarrow> lstate \<Rightarrow> lstate" where
  "lset l v a = a\<lparr>lval := (lval a)(l := v)\<rparr>"

definition ladd :: "tptr \<Rightarrow> lptr \<Rightarrow> lstate \<Rightarrow> lstate" where
  "ladd t l a = a\<lparr>lhold := (lhold a)(t := lhold a t @ [l])\<rparr>"

definition ldel :: "tptr \<Rightarrow> lptr \<Rightarrow> lstate \<Rightarrow> lstate" where
  "ldel t l a = a\<lparr>lhold := (lhold a)(t := remove1 l (lhold a t))\<rparr>"

lemmas l_defs = lpush_def lset_def ladd_def ldel_def

lemma credits_simps [simp]:
  "credits l [] = 0" "credits l (f # fs) = credit l f + credits l fs"
  "credits l (fs @ gs) = credits l fs + credits l gs"
  by (simp_all add: credits_def)

lemma credit_nonneg: "waits_for f = None \<Longrightarrow> 0 \<le> credit l f"
  by (cases "(l, f)" rule: credit.cases) auto

lemma credit_wait: "waits_for f = Some l' \<Longrightarrow> credit l f = - of_bool (l = l')"
  by (cases f rule: waits_for.cases) auto

lemma credits_nonneg: "waits_ok fs \<Longrightarrow> 0 \<le> credits l fs"
proof (induction fs rule: length_induct)
  case (1 fs)
  show ?case
  proof (cases fs)
    case (Cons f gs)
    show ?thesis
    proof (cases "waits_for f")
      case None
      with 1 Cons credit_nonneg [of f l] show ?thesis by simp
    next
      case (Some l')
      with 1(2) Cons obtain hs where "gs = F_lock_acquired l' # hs" "waits_ok hs" by (cases gs) auto
      with 1(1) Cons credit_wait [OF Some, of l] show ?thesis by simp
    qed
  qed simp
qed

lemma owned_nonneg: "lock_ok a \<Longrightarrow> t \<in> set (lall a) \<Longrightarrow> 0 \<le> owned a l t"
  by (simp add: owned_def lock_ok_def credits_nonneg)

lemma total_diff:
  assumes "lall b = lall a" "c \<in> set (lall a)" "\<And>t. t \<noteq> c \<Longrightarrow> owned b l t = owned a l t"
  shows "total b l = total a l + (lval b l - lval a l) + (owned b l c - owned a l c)"
proof -
  have "(\<Sum>t \<in> set (lall a). owned x l t) = owned x l c + (\<Sum>t \<in> set (lall a) - {c}. owned x l t)" for x
    using assms(2) by (simp add: sum.remove)
  moreover have "(\<Sum>t \<in> set (lall a) - {c}. owned b l t) = (\<Sum>t \<in> set (lall a) - {c}. owned a l t)"
    by (rule sum.cong) (auto simp: assms(3))
  ultimately show ?thesis by (simp add: total_def assms(1))
qed

lemma l_simps [simp]:
  "lval (lpush t fs a) = lval a" "lhold (lpush t fs a) = lhold a" "lall (lpush t fs a) = lall a"
  "lstk (lpush t fs a) = (lstk a)(t := fs @ lstk a t)"
  "lval (lset l v a) = (lval a)(l := v)" "lhold (lset l v a) = lhold a" "lall (lset l v a) = lall a"
  "lstk (lset l v a) = lstk a"
  "lval (ladd t l a) = lval a" "lstk (ladd t l a) = lstk a" "lall (ladd t l a) = lall a"
  "lhold (ladd t l a) = (lhold a)(t := lhold a t @ [l])"
  "lval (ldel t l a) = lval a" "lstk (ldel t l a) = lstk a" "lall (ldel t l a) = lall a"
  "lhold (ldel t l a) = (lhold a)(t := remove1 l (lhold a t))"
  by (simp_all add: l_defs)

lemma count_list_remove1: "x \<in> set xs \<Longrightarrow> count_list (remove1 x xs) y = count_list xs y - of_bool (y = x)"
  by (induction xs) auto

lemma total_push [simp]: "t \<in> set (lall a) \<Longrightarrow> total (lpush t fs a) l = total a l + credits l fs"
  by (subst total_diff [of "lpush t fs a" a t]) (auto simp: owned_def)

lemma total_set [simp]: "total (lset l' v a) l = total a l + (if l = l' then v - lval a l else 0)"
proof -
  have "owned (lset l' v a) l t = owned a l t" for t by (simp add: owned_def)
  then show ?thesis by (simp add: total_def)
qed

lemma total_add [simp]: "t \<in> set (lall a) \<Longrightarrow> total (ladd t l' a) l = total a l + of_bool (l = l')"
  by (subst total_diff [of "ladd t l' a" a t]) (auto simp: owned_def)

lemma total_del [simp]:
  assumes "t \<in> set (lall a)" "l' \<in> set (lhold a t)"
  shows "total (ldel t l' a) l = total a l - of_bool (l = l')"
proof -
  have "0 < count_list (lhold a t) l'" using assms(2) by (simp add: count_list_0_iff zero_less_iff_neq_zero)
  then show ?thesis
    using assms by (subst total_diff [of "ldel t l' a" a t]) (auto simp: owned_def count_list_remove1)
qed

lemma waits_ok_append: "list_all (\<lambda>f. waits_for f = None) fs \<Longrightarrow> waits_ok (fs @ gs) = waits_ok gs"
  by (induction fs) simp_all

lemma lock_ok_push:
  "lock_ok a \<Longrightarrow> (t \<in> set (lall a) \<Longrightarrow> waits_ok (lstk a t) \<Longrightarrow> waits_ok (fs @ lstk a t)) \<Longrightarrow> lock_ok (lpush t fs a)"
  by (auto simp: lock_ok_def)

lemma lock_ok_set: "lock_ok a \<Longrightarrow> 0 \<le> v \<Longrightarrow> lock_ok (lset l v a)"
  by (auto simp: lock_ok_def)

lemma lock_ok_hold [simp]: "lock_ok (ladd t l a) = lock_ok a" "lock_ok (ldel t l a) = lock_ok a"
  by (auto simp: lock_ok_def)

section \<open>The view of the kernel's updates\<close>

lemma lview_simps [simp]:
  "lall (lview k) = all_list k" "lstk (lview k) t = t_stack (thr k t)" "lhold (lview k) t = t_locks_holding (thr k t)"
  "lval (lview k) l = s_value (semas k (Lock_sema l))"
  by (simp_all add: lview_def)

lemma lview_fields [simp]:
  "lview (k\<lparr>intr := i\<rparr>) = lview k" "lview (k\<lparr>next_tid := n\<rparr>) = lview k" "lview (k\<lparr>idle_ticks := n\<rparr>) = lview k"
  "lview (k\<lparr>kernel_ticks := n\<rparr>) = lview k" "lview (k\<lparr>thread_ticks := n\<rparr>) = lview k"
  "lview (k\<lparr>load_avg := la\<rparr>) = lview k" "lview (k\<lparr>locks := ls\<rparr>) = lview k" "lview (k\<lparr>conds := cs\<rparr>) = lview k"
  "lview (k\<lparr>ticks := n\<rparr>) = lview k" "lview (k\<lparr>in_external_intr := b\<rparr>) = lview k"
  "lview (k\<lparr>yield_on_return := b\<rparr>) = lview k" "lview (k\<lparr>unexpected_cnt := u\<rparr>) = lview k"
  "lview (k\<lparr>ready_heap := h\<rparr>) = lview k" "lview (k\<lparr>sleep_thread_heap := h\<rparr>) = lview k"
  "lview (k\<lparr>running := t\<rparr>) = lview k" "lview (upd_lock l f k) = lview k" "lview (intr_disable k) = lview k"
  by (simp_all add: lview_def upd_lock_def intr_disable_def)

lemma lview_upd_thread:
  assumes "\<And>th. t_locks_holding (f th) = t_locks_holding th \<and> t_stack (f th) = t_stack th"
  shows "lview (upd_thread t f k) = lview k"
  using assms by (auto simp: lview_def upd_thread_def)

lemma lview_push_frames [simp]: "lview (push_frames fs k) = lpush (running k) fs (lview k)"
  by (auto simp: lview_def push_frames_def upd_thread_def lpush_def)

lemma lview_set_stack:
  "lview (upd_thread e (\<lambda>th. th\<lparr>t_stack := fs\<rparr>) k) = (lview k)\<lparr>lstk := (lstk (lview k))(e := fs)\<rparr>"
  by (auto simp: lview_def upd_thread_def)

lemma lview_status [simp]: "lview (set_status t s k) = lview k"
  by (simp add: set_status_def lview_upd_thread)

lemma lview_free [simp]: "lview (free_thread_page t k) = lview k"
  by (simp add: free_thread_page_def lview_upd_thread)

lemma lview_upd_sema:
  "lview (upd_sema s f k) =
     (case s of Lock_sema l \<Rightarrow> lset l (s_value (f (semas k s))) (lview k) | _ \<Rightarrow> lview k)"
  by (auto simp: lview_def upd_sema_def lset_def fun_eq_iff split: semaref.splits)

lemma lview_upd_sema_same:
  "(\<And>x. s_value (f x) = s_value x) \<Longrightarrow> lview (upd_sema s f k) = lview k"
  by (auto simp: lview_def upd_sema_def)

lemma lview_schedule: "schedule k = Inr k' \<Longrightarrow> lview k' = lview k"
  by (erule schedule_form) (auto simp: switched_def)

lemma lview_block: "thread_block k = Inr k' \<Longrightarrow> lview k' = lview k"
  by (auto simp: thread_block_def dest!: lview_schedule)

lemma lview_enqueue: "enqueue_ready t k = Inr k' \<Longrightarrow> lview k' = lview k"
  by (erule enqueue_ready_form) (simp add: lview_upd_thread)

lemma lview_unblock: "thread_unblock t k = Inr k' \<Longrightarrow> lview k' = lview k"
  by (erule thread_unblock_form) (simp add: lview_upd_thread)

lemma lview_set_level: "intr_set_level l k = Inr k' \<Longrightarrow> lview k' = lview k"
  by (auto simp: intr_set_level_def intr_enable_def split: if_splits)

lemma lview_yield: "thread_yield k = Inr k' \<Longrightarrow> lview k' = lpush (running k) [F_set_level (intr k)] (lview k)"
  by (auto simp: thread_yield_def Let_def intr_get_level_def split: if_splits dest!: lview_schedule lview_enqueue)

lemma thread_current_running: "thread_current k = Inr t \<Longrightarrow> t = running k"
  by (simp add: thread_current_def Let_def running_thread_def)

lemma lview_update_priority: "thread_update_priority t k = Inr k' \<Longrightarrow> lview k' = lview k"
  by (auto simp: thread_update_priority_def lview_upd_thread split: if_splits)

lemma lview_set_priority:
  "thread_set_priority p k = Inr k' \<Longrightarrow>
   lview k' = lview k \<or> (\<exists>q. lview k' = lpush (running k) [F_new_priority p, F_yield_below q] (lview k))"
  by (auto simp: thread_set_priority_def Let_def lview_upd_thread split: if_splits)

lemma lview_maybe_yield:
  "bindR (thread_current k) (\<lambda>c. if P c then thread_yield k else Inr k) = Inr k' \<Longrightarrow>
   lview k' = lview k \<or> lview k' = lpush (running k) [F_set_level (intr k)] (lview k)"
  by (auto split: if_splits dest!: lview_yield)

lemma lview_yields:
  "yield_below p k = Inr k' \<Longrightarrow> lview k' = lview k \<or> lview k' = lpush (running k) [F_set_level (intr k)] (lview k)"
  "create_yield p k = Inr k' \<Longrightarrow> lview k' = lview k \<or> lview k' = lpush (running k) [F_set_level (intr k)] (lview k)"
  unfolding yield_below_def create_yield_def by (erule lview_maybe_yield)+

lemma running_update_priority: "thread_update_priority t k = Inr k' \<Longrightarrow> running k' = running k"
  by (auto simp: thread_update_priority_def split: if_splits)

lemma lview_timer_sleep:
  "timer_sleep n k = Inr k' \<Longrightarrow> lview k' = lview k \<or> (\<exists>l. lview k' = lpush (running k) [F_set_level l] (lview k))"
  by (auto simp: timer_sleep_def Let_def lview_upd_thread split: if_splits dest!: lview_block thread_current_running)

lemma lview_sema_down_loop:
  "sema_down_loop s old k = Inr k' \<Longrightarrow>
   lview k' = (if s_value (semas k s) = 0 then lpush (running k) [F_sema_loop s old] (lview k)
               else (case s of Lock_sema l \<Rightarrow> lset l (u32 (s_value (semas k s) - 1)) (lview k) | _ \<Rightarrow> lview k))"
  by (auto simp: sema_down_loop_def lview_upd_sema split: if_splits semaref.splits
      dest!: lview_block thread_current_running lview_set_level simp: lset_def fun_upd_idem)

lemma lview_sema_wake:
  assumes "sema_wake s k = Inr k'"
  shows "lview k' = (case s of Lock_sema l \<Rightarrow> lset l (u32 (s_value (semas k s) + 1)) (lview k) | _ \<Rightarrow> lview k)"
    "running k' = running k"
proof -
  have unblock: "semas k1 s = semas k s \<and> running k1 = running k \<and> lview k1 = lview k"
    if "thread_unblock t (intr_disable k) = Inr k1" for t k1
    using that lview_unblock [OF that] by (auto elim!: thread_unblock_form)
  have level: "running k2 = running k1" if "intr_set_level l k1 = Inr k2" for l k1 k2
    using that by (auto simp: intr_set_level_def intr_enable_def split: if_splits)
  have "\<exists>k1. s_value (semas k1 s) = s_value (semas k s) \<and> running k1 = running k \<and> lview k1 = lview k
    \<and> intr_set_level (intr k) (upd_sema s (\<lambda>x. x\<lparr>s_value := u32 (s_value x + 1)\<rparr>) k1) = Inr k'"
  proof (cases "s_waiters (semas k s) = []")
    case True
    with assms show ?thesis
      by (intro exI [of _ "intr_disable k"]) (simp add: sema_wake_def Let_def intr_get_level_def)
  next
    case False
    let ?t = "scan_max (cmp_thread_priority (thr k)) (s_waiters (semas k s))"
    from False assms obtain k1 where "thread_unblock ?t (intr_disable k) = Inr k1"
      and "intr_set_level (intr k) (upd_sema s (\<lambda>x. x\<lparr>s_value := u32 (s_value x + 1)\<rparr>)
        (upd_sema s (\<lambda>x. x\<lparr>s_waiters := remove1 ?t (s_waiters x)\<rparr>) k1)) = Inr k'"
      by (auto simp: sema_wake_def Let_def intr_get_level_def)
    with unblock [of ?t k1] show ?thesis
      by (intro exI [of _ "upd_sema s (\<lambda>x. x\<lparr>s_waiters := remove1 ?t (s_waiters x)\<rparr>) k1"])
        (simp add: lview_upd_sema_same)
  qed
  then obtain k1 where k1: "s_value (semas k1 s) = s_value (semas k s)" "running k1 = running k" "lview k1 = lview k"
    and k': "intr_set_level (intr k) (upd_sema s (\<lambda>x. x\<lparr>s_value := u32 (s_value x + 1)\<rparr>) k1) = Inr k'"
    by blast
  show "running k' = running k" using level [OF k'] k1 by simp
  show "lview k' = (case s of Lock_sema l \<Rightarrow> lset l (u32 (s_value (semas k s) + 1)) (lview k) | _ \<Rightarrow> lview k)"
    using lview_set_level [OF k'] k1 by (auto simp: lview_upd_sema split: semaref.splits)
qed

section \<open>Every step keeps the sum\<close>

text \<open>The free units of a lock's semaphore and the threads that own it add up to at most one.\<close>

definition lock_step :: "frame \<Rightarrow> kernel \<Rightarrow> kernel \<Rightarrow> bool" where
  "lock_step f k k' \<longleftrightarrow>
     lock_ok (lview k') \<and> (\<forall>l. total (lview k') l \<le> total (lview k) l + credit l f)"

lemma lock_step_push:
  assumes "lview k' = lpush (running k) fs (lview k)" "lock_ok (lview k)" "running k \<in> set (all_list k)"
    "list_all (\<lambda>f. waits_for f = None) fs" "\<And>l. credits l fs \<le> credit l f"
  shows "lock_step f k k'"
proof -
  have "lock_ok (lpush (running k) fs (lview k))"
    using assms(2,4) by (intro lock_ok_push) (simp_all add: waits_ok_append)
  with assms show ?thesis by (simp add: lock_step_def)
qed

lemma lock_step_same: "lview k' = lview k \<Longrightarrow> lock_ok (lview k) \<Longrightarrow> (\<And>l. 0 \<le> credit l f) \<Longrightarrow> lock_step f k k'"
  by (simp add: lock_step_def)

lemma lock_step_then:
  assumes "lock_step f k k1" "lock_step F_yield k1 k'"
  shows "lock_step f k k'"
proof -
  have "total (lview k') l \<le> total (lview k) l + credit l f" for l
    using assms order_trans [of "total (lview k') l" "total (lview k1) l"] by (simp add: lock_step_def)
  with assms show ?thesis by (simp add: lock_step_def)
qed

lemma u32_le: "0 \<le> x \<Longrightarrow> u32 x \<le> x \<and> 0 \<le> u32 x"
  by (simp add: u32_def zmod_le_nonneg_dividend)

lemma sema_down_loop_lock:
  assumes "sema_down_loop s old k = Inr k'" "lock_ok (lview k)" "running k \<in> set (all_list k)"
    "waits_ok (F_sema_loop s old # t_stack (thr k (running k)))"
  shows "lock_step (F_sema_loop s old) k k'"
proof (cases "s_value (semas k s) = 0")
  case True
  then have v: "lview k' = lpush (running k) [F_sema_loop s old] (lview k)"
    using lview_sema_down_loop [OF assms(1)] by simp
  have "lock_ok (lview k')" unfolding v using assms(2,4) by (intro lock_ok_push) simp_all
  then show ?thesis using assms(3) by (simp add: lock_step_def v)
next
  case False
  then have v: "lview k' = (case s of Lock_sema l \<Rightarrow> lset l (u32 (s_value (semas k s) - 1)) (lview k) | _ \<Rightarrow> lview k)"
    using lview_sema_down_loop [OF assms(1)] by simp
  show ?thesis
  proof (cases s)
    case (Lock_sema l)
    have "0 \<le> s_value (semas k s) - 1"
      using assms(2) False Lock_sema by (auto simp: lock_ok_def dest: spec [of _ l])
    with u32_le [OF this] assms(2) Lock_sema v show ?thesis
      by (auto simp: lock_step_def intro: lock_ok_set)
  qed (use v assms(2) in \<open>simp_all add: lock_step_def\<close>)
qed

lemma sema_down_lock:
  assumes "sema_down s k = Inr k'" "lock_ok (lview k)" "running k \<in> set (all_list k)"
    "waits_ok (F_sema_down s # t_stack (thr k (running k)))"
  shows "lock_step (F_sema_down s) k k'"
proof -
  have "sema_down_loop s (intr k) (intr_disable k) = Inr k'" using assms(1) by (simp add: sema_down_def intr_get_level_def)
  moreover have "waits_ok (F_sema_loop s (intr k) # t_stack (thr k (running k)))"
    using assms(4) by (cases s) auto
  ultimately have "lock_step (F_sema_loop s (intr k)) (intr_disable k) k'"
    using assms(2,3) by (intro sema_down_loop_lock) simp_all
  moreover have "credit l (F_sema_loop s (intr k)) = credit l (F_sema_down s)" for l by (cases s) simp_all
  ultimately show ?thesis by (simp add: lock_step_def)
qed

lemma sema_up_lock:
  assumes "sema_up s k = Inr k'" "lock_ok (lview k)" "running k \<in> set (all_list k)"
  shows "lock_step (F_sema_up s) k k'"
proof -
  from assms(1) obtain k1 where k1: "sema_wake s k = Inr k1"
    and k': "(if intr_context k1 then intr_yield_on_return k1 else Inr (push_frames [F_yield] k1)) = Inr k'"
    by (auto simp: sema_up_def)
  note v = lview_sema_wake [OF k1]
  have all: "all_list k1 = all_list k"
    using arg_cong [OF v(1), of lall] by (simp split: semaref.splits)
  have s: "lock_step (F_sema_up s) k k1"
  proof (cases s)
    case (Lock_sema l)
    have "0 \<le> s_value (semas k s) + 1"
      using assms(2) Lock_sema by (auto simp: lock_ok_def add_nonneg_nonneg)
    with u32_le [OF this] assms(2) Lock_sema v(1) show ?thesis
      by (auto simp: lock_step_def intro: lock_ok_set)
  qed (use v(1) assms(2) in \<open>simp_all add: lock_step_def\<close>)
  show ?thesis
  proof (cases "intr_context k1")
    case True
    with k' have "lview k' = lview k1" by (auto simp: intr_yield_on_return_def)
    with s show ?thesis by (simp add: lock_step_def)
  next
    case False
    with k' have "lview k' = lpush (running k1) [F_yield] (lview k1)" by auto
    then have "lock_step F_yield k1 k'"
      using s assms(3) all v(2) by (intro lock_step_push [where fs = "[F_yield]"]) (simp_all add: lock_step_def)
    with s show ?thesis by (rule lock_step_then)
  qed
qed

lemma lock_try_acquire_lock:
  assumes "lock_try_acquire l k = Inr (b, k')" "lock_ok (lview k)" "running k \<in> set (all_list k)"
  shows "lock_step F_yield k k'" "running k' = running k" "all_list k' = all_list k"
proof -
  let ?v = "u32 (s_value (semas k (Lock_sema l)) - 1)"
  from assms(1) consider "k' = k" | "s_value (semas k (Lock_sema l)) > 0"
    "k' = push_frames [F_try_hold l] (upd_sema (Lock_sema l) (\<lambda>x. x\<lparr>s_value := u32 (s_value x - 1)\<rparr>) k)"
    by (auto simp: lock_try_acquire_def sema_try_down_def split: if_splits)
  then have "lock_step F_yield k k' \<and> running k' = running k \<and> all_list k' = all_list k"
  proof cases
    case 2
    have "0 \<le> ?v" "?v \<le> s_value (semas k (Lock_sema l)) - 1" using 2(1) u32_le [of "s_value (semas k (Lock_sema l)) - 1"] by simp_all
    with 2(2) assms(2,3) show ?thesis
      by (auto simp: lock_step_def lview_upd_sema intro!: lock_ok_push lock_ok_set)
  qed (use assms(2) in \<open>simp add: lock_step_def\<close>)
  then show "lock_step F_yield k k'" "running k' = running k" "all_list k' = all_list k" by blast+
qed

lemma lock_acquire_lock:
  assumes "lock_acquire l k = Inr k'" "lock_ok (lview k)" "running k \<in> set (all_list k)"
  shows "lock_step (F_lock_acquire l) k k'"
proof -
  from assms(1) obtain b k1 where k1: "lock_try_acquire l k = Inr (b, k1)"
    and k': "k' = (if b then k1 else push_frames [F_lock_wait l] k1)"
    by (auto simp: lock_acquire_def)
  note s = lock_try_acquire_lock [OF k1 assms(2,3)]
  have "lock_step F_yield k1 (push_frames [F_lock_wait l] k1)"
    using s assms(3) by (intro lock_step_push [where fs = "[F_lock_wait l]"]) (simp_all add: lock_step_def)
  with s(1) have "lock_step F_yield k (push_frames [F_lock_wait l] k1)" by (rule lock_step_then)
  with s(1) k' show ?thesis by (simp add: lock_step_def)
qed

lemma lock_wait_lock:
  assumes "lock_wait l k = Inr k'" "lock_ok (lview k)" "running k \<in> set (all_list k)"
  shows "lock_step (F_lock_wait l) k k'"
proof -
  let ?fs = "[F_donate (running k) 0, F_sort_ready, F_sema_down (Lock_sema l), F_lock_acquired l]"
  have v: "lview k' = lpush (running k) ?fs (lview k)"
    using assms(1) by (auto simp: lock_wait_def lview_upd_thread dest!: thread_current_running)
  have "lock_ok (lview k')" unfolding v using assms(2) by (intro lock_ok_push) simp_all
  with assms(3) show ?thesis by (simp add: lock_step_def v)
qed

lemma lview_hold: "lview (upd_thread t (hold_lock l) k) = ladd t l (lview k)"
  "lview (upd_thread t (\<lambda>th. hold_lock l (th\<lparr>t_lock_waiting := w\<rparr>)) k) = ladd t l (lview k)"
  by (auto simp: lview_def upd_thread_def hold_lock_def ladd_def)

lemma try_push_lock:
  "try_push l k = Inr k' \<Longrightarrow> lock_ok (lview k) \<Longrightarrow> running k \<in> set (all_list k) \<Longrightarrow> lock_step (F_try_push l) k k'"
  by (auto simp: try_push_def lview_hold lock_step_def dest!: thread_current_running)

lemma lock_acquired_lock:
  "lock_acquired l k = Inr k' \<Longrightarrow> lock_ok (lview k) \<Longrightarrow> running k \<in> set (all_list k) \<Longrightarrow>
   lock_step (F_lock_acquired l) k k'"
  by (auto simp: lock_acquired_def lview_hold lock_step_def dest!: thread_current_running)

lemma try_hold_lock:
  "try_hold l k = Inr k' \<Longrightarrow> lock_ok (lview k) \<Longrightarrow> running k \<in> set (all_list k) \<Longrightarrow> lock_step (F_try_hold l) k k'"
  by (rule lock_step_push [where fs = "[F_try_push l]"]) (auto simp: try_hold_def)

lemma lock_release_lock:
  assumes "lock_release l k = Inr k'" "lock_ok (lview k)" "running k \<in> set (all_list k)"
  shows "lock_step (F_lock_release l) k k'"
proof -
  from assms(1) have l: "l \<in> set (t_locks_holding (thr k (running k)))"
    and v: "lview k' = lpush (running k) [F_update_priority, F_sema_up (Lock_sema l)] (ldel (running k) l (lview k))"
    by (auto simp: lock_release_def lview_def upd_thread_def upd_lock_def lpush_def ldel_def push_frames_def
        dest!: thread_current_running)
  have "lock_ok (lview k')" unfolding v using assms(2) by (intro lock_ok_push) simp_all
  with assms(3) l show ?thesis by (simp add: lock_step_def v)
qed

lemma lview_all: "lview (k\<lparr>all_list := al\<rparr>) = (lview k)\<lparr>lall := al\<rparr>"
  by (simp add: lview_def)

lemma thread_exit_lock:
  assumes "thread_exit k = Inr k'" "lock_ok (lview k)" "distinct (all_list k)"
  shows "lock_step F_exit k k'"
proof -
  from assms(1) have c: "running k \<in> set (all_list k)"
    and v: "lview k' = (lview k)\<lparr>lall := remove1 (running k) (all_list k)\<rparr>" (is "_ = ?b")
    by (auto simp: thread_exit_def Let_def lview_all dest!: lview_schedule thread_current_running)
  have "total ?b l \<le> total (lview k) l" for l
  proof -
    have "(\<Sum>t \<in> set (all_list k). owned (lview k) l t)
        = owned (lview k) l (running k) + (\<Sum>t \<in> set (all_list k) - {running k}. owned (lview k) l t)"
      using c by (simp add: sum.remove)
    moreover have "0 \<le> owned (lview k) l (running k)" using assms(2) c by (simp add: owned_nonneg)
    moreover have "owned ?b l t = owned (lview k) l t" for t by (simp add: owned_def)
    ultimately show ?thesis using assms(3) by (simp add: total_def)
  qed
  moreover have "lock_ok ?b" using assms(2) by (auto simp: lock_ok_def dest: notin_set_remove1)
  ultimately show ?thesis by (simp add: lock_step_def v)
qed

lemma lview_new:
  assumes "init_thread e name p (upd_thread e (\<lambda>th. th\<lparr>t_stack := []\<rparr>) k) = Inr k'"
  shows "lview k' = (lview k)\<lparr>lhold := (lhold (lview k))(e := []), lstk := (lstk (lview k))(e := []),
                              lall := all_list k @ [e]\<rparr>" "running k' = running k" "all_list k' = all_list k @ [e]"
  using assms by (auto simp: init_thread_def Let_def lview_def upd_thread_def)

lemma thread_create_begin_lock:
  assumes "thread_create_begin name p fn aux page k = Inr k'" "lock_ok (lview k)" "running k \<in> set (all_list k)"
    "\<And>e. page = Some e \<Longrightarrow> e \<notin> set (all_list k)"
  shows "lock_step (F_thread_create name p fn aux) k k'"
proof (cases page)
  case None
  with assms(1,2) show ?thesis by (simp add: thread_create_begin_def lock_step_def)
next
  case (Some e)
  with assms(1) obtain k1 where k1: "init_thread e name p (upd_thread e (\<lambda>th. th\<lparr>t_stack := []\<rparr>) k) = Inr k1"
    and k': "k' = push_frames [F_lock_acquire (tid_lock k1), F_take_tid e p fn aux] k1"
    by (auto simp: thread_create_begin_def)
  note v = lview_new [OF k1]
  have e: "e \<notin> set (all_list k)" using assms(4) Some by simp
  have "total (lview k1) l = total (lview k) l" for l
  proof -
    have "(\<Sum>t \<in> set (all_list k). owned (lview k1) l t) = (\<Sum>t \<in> set (all_list k). owned (lview k) l t)"
      using e by (intro sum.cong) (auto simp: v(1) owned_def)
    moreover have "owned (lview k1) l e = 0" by (simp add: v(1) owned_def)
    moreover have "s_value (semas k1 (Lock_sema l)) = s_value (semas k (Lock_sema l))"
      using arg_cong [OF v(1), of "\<lambda>a. lval a l"] by simp
    ultimately show ?thesis using e by (simp add: total_def v(3))
  qed
  moreover have "lock_ok (lview k1)" using assms(2) by (auto simp: lock_ok_def v(1))
  moreover from this have "lock_step F_yield k1 k'"
    using assms(3) v(2,3) k' by (intro lock_step_push [where fs = "[F_lock_acquire (tid_lock k1), F_take_tid e p fn aux]"]) simp_all
  ultimately show ?thesis by (simp add: lock_step_def)
qed

lemma lset_stack_lock:
  assumes "lock_ok a" "credits l fs = 0" "waits_ok fs"
  shows "lock_ok (a\<lparr>lstk := (lstk a)(e := fs)\<rparr>)" "total (a\<lparr>lstk := (lstk a)(e := fs)\<rparr>) l \<le> total a l"
proof -
  let ?b = "a\<lparr>lstk := (lstk a)(e := fs)\<rparr>"
  show "lock_ok ?b" using assms by (auto simp: lock_ok_def)
  have "owned ?b l t \<le> owned a l t" if "t \<in> set (lall a)" for t
    using that assms credits_nonneg [of "lstk a t" l] by (auto simp: owned_def lock_ok_def)
  then show "total ?b l \<le> total a l" by (simp add: total_def sum_mono)
qed

lemma thread_create_rest_lock:
  assumes "thread_create_rest e tid p fn aux k = Inr k'" "lock_ok (lview k)" "running k \<in> set (all_list k)"
  shows "lock_step (F_create_rest e tid p fn aux) k k'"
proof -
  let ?k0 = "upd_thread e (\<lambda>th. th\<lparr>t_tid := tid\<rparr>) k"
  from assms(1) obtain k1 where
    k1: "(if thread_mlfqs ?k0 then
            bindR (thread_current ?k0) (\<lambda>c.
            let k = (if c \<noteq> initial_thread ?k0
                     then upd_thread e (\<lambda>th. th\<lparr>t_nice := t_nice (thr ?k0 c), t_recent_cpu := t_recent_cpu (thr ?k0 c)\<rparr>) ?k0
                     else upd_thread e (\<lambda>th. th\<lparr>t_nice := 0, t_recent_cpu := 0\<rparr>) ?k0)
            in thread_update_priority c k)
          else Inr ?k0) = Inr k1"
    and k': "k' = push_frames [F_create_start e p fn aux] k1"
    unfolding thread_create_rest_def Let_def by (auto simp: Let_def)
  have "lview k1 = lview k \<and> running k1 = running k"
    using k1 by (auto simp: Let_def lview_upd_thread split: if_splits dest: lview_update_priority running_update_priority)
  then have "lview k' = lpush (running k) [F_create_start e p fn aux] (lview k)" by (simp add: k')
  then show ?thesis by (rule lock_step_push) (use assms(2,3) in simp_all)
qed

lemma create_start_lock:
  assumes "create_start e p fn aux k = Inr k'" "lock_ok (lview k)" "running k \<in> set (all_list k)"
  shows "lock_step (F_create_start e p fn aux) k k'"
proof -
  from assms(1) obtain k2 where
    k2: "thread_unblock e (upd_thread e (\<lambda>th. th\<lparr>t_stack := [F_kernel_thread fn aux]\<rparr>) k) = Inr k2"
    and k': "k' = push_frames [F_create_yield p] k2"
    unfolding create_start_def Let_def by auto
  have v2: "lview k2 = (lview k)\<lparr>lstk := (lstk (lview k))(e := [F_kernel_thread fn aux])\<rparr>"
    using lview_unblock [OF k2] by (simp add: lview_set_stack)
  have r2: "running k2 = running k" "all_list k2 = all_list k"
    using k2 by (auto elim!: thread_unblock_form)
  have s: "lock_step F_yield k k2"
    unfolding lock_step_def v2 using lset_stack_lock [OF assms(2)] by simp
  have "lock_step F_yield k2 k'"
    using s r2 assms(3) by (intro lock_step_push [where fs = "[F_create_yield p]"]) (simp_all add: k' lock_step_def)
  with s have "lock_step F_yield k k'" by (rule lock_step_then)
  then show ?thesis by (simp add: lock_step_def)
qed

lemma lview_foreach:
  "(\<And>t k k'. f t k = Inr k' \<Longrightarrow> lview k' = lview k \<and> running k' = running k) \<Longrightarrow> foreach f ts k = Inr k' \<Longrightarrow>
   lview k' = lview k \<and> running k' = running k"
  by (induction ts arbitrary: k) auto

lemma lview_recent_cpu: "thread_update_recent_cpu t k = Inr k' \<Longrightarrow> lview k' = lview k \<and> running k' = running k"
  by (auto simp: thread_update_recent_cpu_def lview_upd_thread split: if_splits)

lemma lview_foreachs:
  "thread_foreach thread_update_priority k = Inr k' \<Longrightarrow> lview k' = lview k \<and> running k' = running k"
  "thread_foreach thread_update_recent_cpu k = Inr k' \<Longrightarrow> lview k' = lview k \<and> running k' = running k"
  unfolding thread_foreach_def assertR_eq_Inr
  using lview_foreach [of thread_update_priority] lview_update_priority running_update_priority
    lview_foreach [of thread_update_recent_cpu] lview_recent_cpu
  by blast+

lemma lview_load_avg: "update_load_avg k = Inr k' \<Longrightarrow> lview k' = lview k \<and> running k' = running k"
  by (auto simp: update_load_avg_def Let_def)

lemma lview_tick:
  assumes "thread_tick k = Inr k'"
  shows "lview k' = lview k \<and> running k' = running k"
proof -
  from assms obtain t k1 k2 where
    k1: "k1 = (if t = idle_thread k then k\<lparr>idle_ticks := s64 (idle_ticks k + 1)\<rparr>
               else k\<lparr>kernel_ticks := s64 (kernel_ticks k + 1)\<rparr>)"
    and k2: "(if thread_mlfqs k1 then
            let k = (if t \<noteq> idle_thread k1
                     then upd_thread t (\<lambda>th. th\<lparr>t_recent_cpu := fp_int_add (t_recent_cpu th) 1\<rparr>) k1
                     else k1)
            in bindR (if ticks k smod 4 = 0 then thread_foreach thread_update_priority k else Inr k) (\<lambda>k.
                 if ticks k smod TIMER_FREQ = 0
                 then bindR (update_load_avg k) (thread_foreach thread_update_recent_cpu)
                 else Inr k)
          else Inr k1) = Inr k2"
    and k': "(let k = k2\<lparr>thread_ticks := u32 (thread_ticks k2 + 1)\<rparr>
         in if thread_ticks k \<ge> TIME_SLICE then intr_yield_on_return k else Inr k) = Inr k'"
    unfolding thread_tick_def Let_def by (auto simp del: kernel.simps split del: if_split)
  have "lview k1 = lview k \<and> running k1 = running k" by (simp add: k1)
  moreover have "lview k2 = lview k1 \<and> running k2 = running k1"
    using k2 by (auto simp: Let_def lview_upd_thread split: if_splits dest!: lview_load_avg lview_foreachs)
  moreover have "lview k' = lview k2 \<and> running k' = running k2"
    using k' by (auto simp: Let_def intr_yield_on_return_def split: if_splits)
  ultimately show ?thesis by simp
qed

lemma running_unblock: "thread_unblock t k = Inr k' \<Longrightarrow> running k' = running k"
  by (erule thread_unblock_form) simp

lemma lview_wake_top:
  assumes "wake_top k = Inr k'"
  shows "lview k' = lview k \<and> running k' = running k"
proof -
  from assms obtain t h k1 where k1: "thread_unblock t (k\<lparr>sleep_thread_heap := h\<rparr>) = Inr k1"
    and k': "bindR (thread_current k1) (\<lambda>c.
           if t_priority (thr k1 t) > t_priority (thr k1 c) then intr_yield_on_return k1 else Inr k1) = Inr k'"
    by (auto simp: wake_top_def)
  have "lview k' = lview k1 \<and> running k' = running k1"
    using k' by (auto simp: intr_yield_on_return_def split: if_splits)
  with lview_unblock [OF k1] running_unblock [OF k1] show ?thesis by simp
qed

lemma lview_wake_loop: "wake_loop n c k = Inr k' \<Longrightarrow> lview k' = lview k \<and> running k' = running k"
  by (induction n arbitrary: k) (auto split: if_splits dest!: lview_wake_top)

lemma lview_handler:
  "invoke_handler handlers vec k = Inr k' \<Longrightarrow> lview k' = lview k \<and> running k' = running k"
  by (auto simp: invoke_handler_def handlers_def unexpected_interrupt_def timer_interrupt_def timer_wake_def Let_def
      split: if_splits option.splits dest!: lview_wake_loop lview_tick)

lemma lock_step_level:
  "lview k' = lpush (running k) [F_set_level i] (lview k) \<Longrightarrow> lock_ok (lview k) \<Longrightarrow> running k \<in> set (all_list k) \<Longrightarrow>
   (\<And>l. 0 \<le> credit l f) \<Longrightarrow> lock_step f k k'"
  by (rule lock_step_push [where fs = "[F_set_level i]"]) simp_all

lemma exec_lock:
  assumes x: "exec_frame page f k = Inr k'" and ok: "lock_ok (lview k)" and run: "running k \<in> set (all_list k)"
    and "distinct (all_list k)" "waits_ok (f # t_stack (thr k (running k)))" "\<And>e. page = Some e \<Longrightarrow> e \<notin> set (all_list k)"
  shows "lock_step f k k'"
proof -
  note same = lock_step_same [OF _ ok] and push = lock_step_push [OF _ ok run] and level = lock_step_level [OF _ ok run]
  show ?thesis
  proof (cases f)
    case (F_kernel_thread fn aux)
    with x have "lview k' = lpush (running k) [if fn = IDLE_FUNCTION then F_idle_start aux else F_function fn aux, F_exit] (lview k)"
      by (auto simp: kernel_thread_def intr_enable_def)
    then show ?thesis using F_kernel_thread by (elim push) simp_all
  next
    case F_intr_enable
    with x show ?thesis by (intro same) (auto simp: intr_enable_def)
  next
    case (F_set_level l)
    with x show ?thesis by (intro same) (auto dest: lview_set_level)
  next
    case (F_set_priority p)
    with x lview_set_priority [of p k k'] show ?thesis by (auto intro: same elim!: push)
  next
    case (F_new_priority p)
    with x show ?thesis by (intro same) (auto simp: set_new_priority_def lview_upd_thread)
  next
    case (F_yield_below p)
    with x show ?thesis by (auto dest!: lview_yields intro: same level)
  next
    case (F_set_nice n)
    with x have "lview k' = lpush (running k) [F_update_priority, F_yield] (lview k)"
      by (auto simp: thread_set_nice_def lview_upd_thread)
    then show ?thesis using F_set_nice by (elim push) simp_all
  next
    case (F_create_yield p)
    with x show ?thesis by (auto dest!: lview_yields intro: same level)
  next
    case (F_timer_sleep n)
    with x lview_timer_sleep [of n k k'] show ?thesis by (auto intro: same level)
  next
    case (F_thread_create name p fn aux)
    with x show ?thesis using thread_create_begin_lock [OF _ ok run assms(6)] by simp
  next
    case F_take_init_tid
    with x have "lview k' = lpush (running k) [F_lock_release (tid_lock k), F_init_rest (next_tid k)] (lview k)"
      by (auto simp: take_init_tid_def)
    then show ?thesis using F_take_init_tid by (elim push) simp_all
  next
    case (F_take_tid e p fn aux)
    with x have "lview k' = lpush (running k) [F_lock_release (tid_lock k), F_create_rest e (next_tid k) p fn aux] (lview k)"
      by (auto simp: take_tid_def)
    then show ?thesis using F_take_tid by (elim push) simp_all
  next
    case (F_idle_start s)
    with x have "lview k' = lpush (running k) [F_sema_up (Sema s), F_idle_loop] (lview k)"
      by (auto simp: idle_start_def lview_def push_frames_def upd_thread_def lpush_def)
    then show ?thesis using F_idle_start by (elim push) simp_all
  next
    case F_idle_loop
    with x have "lview k' = lpush (running k) [F_idle_wake] (lview k)"
      by (auto simp: idle_loop_def dest!: lview_block)
    then show ?thesis using F_idle_loop by (elim push) simp_all
  next
    case F_idle_wake
    with x have "lview k' = lpush (running k) [F_idle_loop] (lview k)"
      by (auto simp: idle_wake_def)
    then show ?thesis using F_idle_wake by (elim push) simp_all
  next
    case (F_donate t d)
    with x have "lview k' = lview k \<or>
        lview k' = lpush (running k) [F_donate_lock t d, F_donate_holder t d, F_donate_next t d] (lview k)"
      by (auto simp: donate_priority_def Let_def split: if_splits option.splits)
    then show ?thesis using F_donate by (auto intro: same elim!: push)
  next
    case (F_donate_lock t d)
    with x show ?thesis by (intro same) (auto simp: donate_lock_def)
  next
    case (F_donate_holder t d)
    with x show ?thesis by (intro same) (auto simp: donate_holder_def Let_def lview_upd_thread split: if_splits)
  next
    case (F_donate_next t d)
    with x have "\<exists>h. lview k' = lpush (running k) [F_donate h (d + 1)] (lview k)" by (auto simp: donate_next_def)
    then show ?thesis using F_donate_next by (auto elim!: push)
  next
    case (F_cond_wait c l)
    with x have "lview k' = lpush (running k) [F_lock_release l, F_sema_down (Cond_sema (running k)), F_lock_acquire l] (lview k)"
      by (auto simp: cond_wait_def sema_init_def lview_upd_sema Let_def dest!: thread_current_running)
    then show ?thesis using F_cond_wait by (elim push) simp_all
  next
    case (F_cond_signal c l)
    with x have "lview k' = lview k \<or> (\<exists>m. lview k' = lpush (running k) [F_sema_up (Cond_sema m)] (lview k))"
      by (auto simp: cond_signal_def Let_def split: if_splits)
    then show ?thesis using F_cond_signal by (auto intro: same elim!: push)
  next
    case (F_cond_broadcast c l)
    with x have "lview k' = lview k \<or> lview k' = lpush (running k) [F_cond_signal c l, F_cond_broadcast c l] (lview k)"
      by (auto simp: cond_broadcast_def split: if_splits)
    then show ?thesis using F_cond_broadcast by (auto intro: same elim!: push)
  next
    case F_update_priority
    with x show ?thesis by (intro same) (auto dest: lview_update_priority)
  next
    case (F_lock_try_acquire l)
    with x obtain b where "lock_try_acquire l k = Inr (b, k')" by auto
    from lock_try_acquire_lock(1) [OF this ok run] F_lock_try_acquire show ?thesis by (simp add: lock_step_def)
  next
    case (F_function fn aux)
    with x show ?thesis by (intro same) auto
  next
    case (F_iret l)
    with x show ?thesis by (intro same) auto
  next
    case (F_init_rest tid)
    with x show ?thesis by (intro same) (auto simp: thread_init_rest_def lview_upd_thread)
  next
    case F_sort_ready
    with x show ?thesis by (intro same) (auto simp: sort_ready_heap_def)
  next
    case F_yield
    with x lview_yield [of k k'] show ?thesis by (auto intro: level)
  next
    case (F_sema_down s)
    with x assms(5) sema_down_lock [OF _ ok run] show ?thesis by simp
  next
    case (F_sema_loop s l)
    with x assms(5) sema_down_loop_lock [OF _ ok run] show ?thesis by simp
  next
    case (F_exit)
    with x assms(4) thread_exit_lock [OF _ ok] show ?thesis by simp
  qed (use x in \<open>simp_all add: thread_create_rest_lock [OF _ ok run] create_start_lock [OF _ ok run] sema_up_lock [OF _ ok run] lock_acquire_lock [OF _ ok run]
        try_hold_lock [OF _ ok run] try_push_lock [OF _ ok run] lock_wait_lock [OF _ ok run]
        lock_acquired_lock [OF _ ok run] lock_release_lock [OF _ ok run]\<close>)
qed

definition lock_inv :: "kernel \<Rightarrow> bool" where
  "lock_inv k \<longleftrightarrow> sched_inv k \<and> lock_ok (lview k) \<and> (\<forall>l. total (lview k) l \<le> 1)"

lemma all_list_inv:
  assumes "sched_inv k"
  shows "running k \<in> set (all_list k)" "distinct (all_list k)" "t \<in> set (all_list k) \<Longrightarrow> is_thread (thr k) t"
proof -
  have "asched_ok (view k)" "all_ok (view k)" using assms by (simp_all add: sched_inv_def asched_ok_def base_ok_def)
  then show "running k \<in> set (all_list k)" "distinct (all_list k)" "t \<in> set (all_list k) \<Longrightarrow> is_thread (thr k) t"
    using asched_run(3) [of "view k"] by (auto simp: all_ok_def dest: status_of_SomeD)
qed

lemma lview_pop: "top_frames k = f # fs \<Longrightarrow> lview k = lpush (running k) [f] (lview (pop_frame k))"
  by (auto simp: lview_def pop_frame_def upd_thread_def lpush_def top_frames_def fun_eq_iff)

lemma resume_lock_inv:
  assumes "resume page k = Inr k'" "lock_inv k" "page_ok k page"
  shows "lock_inv k'"
proof -
  have inv: "sched_inv k" "lock_ok (lview k)" "\<And>l. total (lview k) l \<le> 1"
    using assms(2) by (simp_all add: lock_inv_def)
  from assms(1) obtain f fs where top: "top_frames k = f # fs" and x: "exec_frame page f (pop_frame k) = Inr k'"
    by (auto simp: resume_def split: list.splits)
  note all = all_list_inv [OF inv(1)] and v = lview_pop [OF top]
  have "lock_ok (lview (pop_frame k))"
    using inv(2) top all(1) by (auto simp: lock_ok_def pop_frame_def top_frames_def)
  moreover have "waits_ok (f # t_stack (thr (pop_frame k) (running k)))"
    using inv(2) top all(1) by (auto simp: lock_ok_def pop_frame_def top_frames_def)
  moreover have "e \<notin> set (all_list k)" if "page = Some e" for e
    using that assms(3) all(3) by (auto simp: page_ok_def)
  ultimately have s: "lock_step f (pop_frame k) k'"
    using all by (intro exec_lock [OF x]) simp_all
  have "total (lview k) l = total (lview (pop_frame k)) l + credit l f" for l
    using all(1) by (simp add: v)
  with s inv(3) have "total (lview k') l \<le> 1" for l
    unfolding lock_step_def by (metis order_trans)
  with s show ?thesis
    using resume_inv [OF assms(1) inv(1) assms(3)] by (simp add: lock_inv_def lock_step_def)
qed

lemma external_interrupt_lview:
  assumes "external_interrupt vec k = Inr k'"
  shows "\<exists>fs. lview k' = lpush (running k) fs (lview k) \<and> list_all (\<lambda>f. waits_for f = None) fs \<and> (\<forall>l. credits l fs = 0)"
proof -
  let ?k = "intr_disable (push_frames [F_iret (intr k)] k)"
  have v: "lview ?k = lpush (running k) [F_iret (intr k)] (lview k)" by simp
  show ?thesis
  proof (cases "vec \<ge> 0x20 \<and> vec < 0x30")
    case True
    with assms obtain k2 where k2: "invoke_handler handlers vec (?k\<lparr>in_external_intr := True, yield_on_return := False\<rparr>) = Inr k2"
      and k': "(let k = k2\<lparr>in_external_intr := False\<rparr> in if yield_on_return k then thread_yield k else Inr k) = Inr k'"
      by (auto simp: external_interrupt_def intr_handler_def)
    have v2: "lview k2 = lpush (running k) [F_iret (intr k)] (lview k)" "running k2 = running k"
      using lview_handler [OF k2] by simp_all
    show ?thesis
    proof (cases "yield_on_return k2")
      case True
      with k' have "thread_yield (k2\<lparr>in_external_intr := False\<rparr>) = Inr k'" by simp
      from lview_yield [OF this] v2 show ?thesis
        by (intro exI [of _ "[F_set_level (intr k2), F_iret (intr k)]"]) (simp add: lpush_def)
    next
      case False
      with k' v2 show ?thesis by (intro exI [of _ "[F_iret (intr k)]"]) auto
    qed
  next
    case False
    then have "invoke_handler handlers vec ?k = Inr k'" using assms by (auto simp: external_interrupt_def intr_handler_def)
    from lview_handler [OF this] v show ?thesis by (intro exI [of _ "[F_iret (intr k)]"]) simp
  qed
qed

lemma push_lock_inv:
  assumes "lview k' = lpush (running k) fs (lview k)" "list_all (\<lambda>f. waits_for f = None) fs" "\<And>l. credits l fs \<le> 0"
    "lock_inv k" "sched_inv k'"
  shows "lock_inv k'"
proof -
  have "lock_step F_yield k k'"
    using assms all_list_inv [of k] by (intro lock_step_push [OF assms(1)]) (simp_all add: lock_inv_def)
  then show ?thesis using assms(4,5) by (auto simp: lock_inv_def lock_step_def intro: order_trans)
qed

lemma frame_lock_credit: "frame_lock f \<noteq> Some l \<Longrightarrow> credit l f = 0"
  by (cases f rule: frame_lock.cases) auto

lemma do_init_lock_inv:
  assumes "init_ok i k" "lock_inv k" "sched_inv (do_init i k)"
  shows "lock_inv (do_init i k)"
proof (cases i)
  case (Init_lock l)
  have "owned (lview k) l t = 0" if "t \<in> set (all_list k)" for t
  proof -
    have "l \<notin> set (t_locks_holding (thr k t))" "\<forall>f \<in> set (t_stack (thr k t)). frame_lock f \<noteq> Some l"
      using that assms(1) Init_lock by (auto simp: lock_unused_def list_all_iff)
    moreover have "credits l fs = 0" if "\<forall>f \<in> set fs. frame_lock f \<noteq> Some l" for fs
      using that by (induction fs) (simp_all add: frame_lock_credit)
    ultimately show ?thesis by (simp add: owned_def)
  qed
  then have "total (lview k) l = lval (lview k) l" by (simp add: total_def)
  moreover have v: "lview (do_init i k) = lset l 1 (lview k)"
    by (simp add: Init_lock lock_init_def sema_init_def lview_upd_sema)
  ultimately show ?thesis
    using assms(2,3) by (auto simp: lock_inv_def v intro: lock_ok_set)
qed (use assms in \<open>auto simp: lock_inv_def sema_init_def cond_init_def lview_upd_sema\<close>)

lemma step_lock_inv:
  assumes "step k k'" "lock_inv k"
  shows "lock_inv k'"
proof -
  have k': "sched_inv k'" using step_inv assms by (simp add: lock_inv_def)
  from assms(1) show ?thesis
  proof cases
    case (step_resume page)
    then show ?thesis using resume_lock_inv assms(2) by blast
  next
    case (step_call f)
    then have "waits_for f = None \<and> credit l f \<le> 0" for l by (cases f rule: callable.cases) auto
    then show ?thesis using step_call by (intro push_lock_inv [OF _ _ _ assms(2) k', of "[f]"]) simp_all
  next
    case (step_init i)
    then show ?thesis using do_init_lock_inv assms(2) k' by simp
  next
    case (step_interrupt vec)
    from external_interrupt_lview [OF this(4)] show ?thesis
      using push_lock_inv [OF _ _ _ assms(2) k'] by auto
  qed
qed

end
