(* ===== verification/Boot.thy ===== *)
theory Boot
  imports Lock_Invariant
begin

text \<open>
  Starting the system, and runs of the machine. \<open>act\<close> executes one step of the step relation, so
  that a schedule can be run on a concrete state; \<open>boot\<close> is what \<^verbatim>\<open>main\<close> in \<^verbatim>\<open>threads/init.c\<close> does
  to the scheduler. The properties that hold along every run are stated from the booted system.
\<close>

section \<open>Executing a schedule\<close>

datatype action = A_resume "tptr option" | A_call frame | A_init init_call | A_interrupt nat

fun act :: "action \<Rightarrow> kernel \<Rightarrow> kernel option" where
  "act (A_resume page) k =
     (if page_ok k page then (case resume page k of Inr k' \<Rightarrow> Some k' | Inl _ \<Rightarrow> None) else None)"
| "act (A_call f) k = (if in_thread_code k \<and> callable f then Some (push_frames [f] k) else None)"
| "act (A_init i) k = (if in_thread_code k \<and> init_ok i k then Some (do_init i k) else None)"
| "act (A_interrupt vec) k =
     (if intr k = INTR_ON \<and> 0x20 \<le> vec \<and> vec < 0x30
      then (case external_interrupt vec k of Inr k' \<Rightarrow> Some k' | Inl _ \<Rightarrow> None) else None)"

fun acts :: "action list \<Rightarrow> kernel \<Rightarrow> kernel option" where
  "acts [] k = Some k"
| "acts (a # as) k = (case act a k of None \<Rightarrow> None | Some k' \<Rightarrow> acts as k')"

lemma act_step: "act a k = Some k' \<Longrightarrow> step k k'"
  by (cases a) (auto split: if_splits sum.splits intro: step.intros)

lemma acts_steps: "acts as k = Some k' \<Longrightarrow> step\<^sup>*\<^sup>* k k'"
proof (induction as arbitrary: k)
  case (Cons a as)
  then show ?case by (auto split: option.splits intro: converse_rtranclp_into_rtranclp act_step)
qed simp

definition no_thread :: thread where
  "no_thread = \<lparr>t_tid = 0, t_status = THREAD_RUNNING, t_name = [], t_stack = [], t_priority = 0,
     t_priority_origin = 0, t_wake_time = 0, t_entry_ord = 0, t_nice = 0, t_recent_cpu = 0,
     t_locks_holding = [], t_lock_waiting = None, t_magic = 0\<rparr>"

lemmas state_defs = upd_thread_def set_status_def upd_sema_def upd_lock_def push_frames_def pop_frame_def
  intr_context_def intr_get_level_def intr_disable_def intr_enable_def intr_set_level_def intr_yield_on_return_def
  PRI_MIN_def PRI_DEFAULT_def PRI_MAX_def THREAD_MAGIC_def DONATE_MAX_DEPTH_def TIME_SLICE_def TIMER_FREQ_def

lemmas heap_defs = swap_elems_def heap_init_def heap_size_def heap_empty_def heap_top_def heap_entry_count_def
  larger_child_eq heap_rebuild_def heap_push_def heap_pop_def MAX_HEAP_SIZE_def up_heap.simps down_heap.simps

lemmas thread_defs = cmp_thread_priority_heap_def cmp_thread_priority_def cmp_lock_priority_def sort_ready_heap_def
  mlfqs_priority_def
  is_thread_def running_thread_def thread_current_def next_thread_to_run_def free_thread_page_def
  thread_schedule_tail_def schedule_def thread_block_def enqueue_ready_def thread_unblock_def thread_yield_def
  thread_exit_def thread_update_priority_def donated_priority_def thread_tick_def kernel_thread_def idle_start_def
  idle_loop_def idle_wake_def thread_create_begin_def init_thread_def take_tid_def thread_create_rest_def create_start_def create_yield_def
  take_init_tid_def thread_init_rest_def thread_init_def thread_start_def IDLE_FUNCTION_def scan_max_def

lemmas synch_defs = sema_init_def sema_down_loop_def sema_down_def sema_try_down_def sema_wake_def sema_up_def
  lock_init_def lock_held_by_current_thread_def lock_try_acquire_def try_hold_def hold_lock_def try_push_def
  lock_acquire_def lock_wait_def lock_acquired_def donate_priority_def waited_lock_def donate_lock_def
  donate_holder_def donate_next_def lock_release_def lock_unused_def

lemmas machine_defs = cmp_awake_time_def timer_init_def timer_sleep_def timer_ticks_def wake_top_def timer_wake_def
  timer_interrupt_def invoke_handler_def intr_handler_def handlers_def external_interrupt_def top_frames_def resume_def
  page_ok_def in_thread_code_def s32_def s64_def u32_def

text \<open>The definitions that running a concrete system unfolds.\<close>

lemmas run_defs = state_defs heap_defs thread_defs synch_defs machine_defs Let_def

section \<open>Booting\<close>

text \<open>The frames of \<^verbatim>\<open>main\<close> below its calls: its own code, and \<^verbatim>\<open>thread_exit\<close> at its end.\<close>

definition main_frames :: "frame list" where
  "main_frames = [F_function 2 0, F_exit]"

text \<open>The machine once the loader and \<^verbatim>\<open>bss_init\<close> are done: \<^verbatim>\<open>main\<close> runs on some page with interrupts off,
  nothing in memory looks like a thread, and the static variables have their initial values. Everything
  else (the pages, the locks, the scheduler option, the statistics) is arbitrary.\<close>

definition loaded :: "kernel \<Rightarrow> bool" where
  "loaded k \<longleftrightarrow> running k \<noteq> 0 \<and> t_stack (thr k (running k)) = main_frames
     \<and> (\<forall>t. t_magic (thr k t) \<noteq> THREAD_MAGIC) \<and> idle_thread k = 0 \<and> next_tid k = 1
     \<and> (\<forall>s. semas k s = \<lparr>s_value = 0, s_waiters = []\<rparr>) \<and> (\<forall>c. conds k c = [])
     \<and> intr k = INTR_OFF \<and> \<not> in_external_intr k"

text \<open>\<^verbatim>\<open>main\<close> on page 1 of zeroed memory.\<close>

definition power_on :: "bool \<Rightarrow> kernel" where
  "power_on mlfqs =
     \<lparr>thr = (\<lambda>_. no_thread)(1 := no_thread\<lparr>t_stack := main_frames\<rparr>),
      ready_heap = \<lparr>hp_size = 0, hp_elems = (\<lambda>_. 0), hp_less = (\<lambda>_ _ _. False), hp_push_cnt = 0\<rparr>,
      all_list = [], idle_thread = 0, initial_thread = 0, tid_lock = 7, running = 1, next_tid = 1,
      idle_ticks = 0, kernel_ticks = 0, thread_ticks = 0, thread_mlfqs = mlfqs, load_avg = 0,
      semas = (\<lambda>_. \<lparr>s_value = 0, s_waiters = []\<rparr>), locks = (\<lambda>_. \<lparr>l_holder = 0, l_priority_donate = 0\<rparr>),
      conds = (\<lambda>_. []), ticks = 0,
      sleep_thread_heap = \<lparr>hp_size = 0, hp_elems = (\<lambda>_. 0), hp_less = (\<lambda>_ _ _. False), hp_push_cnt = 0\<rparr>,
      unexpected_cnt = (\<lambda>_. 0), intr = INTR_OFF, in_external_intr = False, yield_on_return = False\<rparr>"

lemma loaded_power_on: "loaded (power_on mlfqs)"
  by (simp add: loaded_def power_on_def no_thread_def main_frames_def THREAD_MAGIC_def)

text \<open>Runs the machine, with no interrupt arriving, until thread \<open>t\<close> is back at the frames \<open>fs\<close>; \<open>page\<close> is
  the page that the allocator hands out. Not to get there in \<open>fuel\<close> frames is the result \<^const>\<open>None\<close>.\<close>

fun finish :: "nat \<Rightarrow> tptr option \<Rightarrow> tptr \<Rightarrow> frame list \<Rightarrow> kernel \<Rightarrow> kernel res option" where
  "finish 0 page t fs k = None"
| "finish (Suc fuel) page t fs k =
     (if running k = t \<and> t_stack (thr k t) = fs then Some (Inr k)
      else bindO (Some (resume page k)) (finish fuel page t fs))"

text \<open>The calls of \<^verbatim>\<open>main\<close> that set up the threads and the timer. What \<^verbatim>\<open>main\<close> does between them (the
  console, the allocators, the page tables, the keyboard) does not touch the scheduler.\<close>

definition boot_thread_init :: "nat \<Rightarrow> kernel \<Rightarrow> kernel res option" where
  "boot_thread_init fuel k =
     bindO (Some (thread_init k)) (finish fuel None (running k) (t_stack (thr k (running k))))"

definition boot_thread_start :: "nat \<Rightarrow> tptr \<Rightarrow> kernel \<Rightarrow> kernel res option" where
  "boot_thread_start fuel page k =
     finish fuel (Some page) (running k) (t_stack (thr k (running k))) (thread_start 5 k)"

definition boot :: "nat \<Rightarrow> tptr \<Rightarrow> kernel \<Rightarrow> kernel res option" where
  "boot fuel page k =
     bindO (boot_thread_init fuel k) (\<lambda>k. boot_thread_start fuel page (timer_init k))"

text \<open>The state in which \<^verbatim>\<open>main\<close> goes on after \<^verbatim>\<open>thread_start\<close>: the idle thread has yielded. The priority
  of \<^verbatim>\<open>main\<close> is that of the scheduler in use.\<close>

definition booted :: "kernel \<Rightarrow> tptr \<Rightarrow> kernel" where
  "booted k page =
     (let main = running k; pri = (if thread_mlfqs k then PRI_MAX else PRI_DEFAULT)
      in k\<lparr>thr := (thr k)
             (page := no_thread\<lparr>t_tid := 2, t_status := THREAD_READY, t_name := ''idle'',
                        t_stack := [F_set_level INTR_ON, F_idle_loop, F_exit], t_entry_ord := 2,
                        t_magic := THREAD_MAGIC\<rparr>,
              main := no_thread\<lparr>t_tid := 1, t_name := ''main'', t_stack := main_frames,
                        t_priority := pri, t_priority_origin := PRI_DEFAULT, t_entry_ord := 3,
                        t_magic := THREAD_MAGIC\<rparr>),
           ready_heap := \<lparr>hp_size = 0, hp_elems = (hp_elems (ready_heap k))(1 := main),
                          hp_less = cmp_thread_priority_heap, hp_push_cnt = 4\<rparr>,
           all_list := [main, page], idle_thread := page, initial_thread := main, next_tid := 3,
           thread_ticks := 0, load_avg := 0,
           semas := (semas k)(Lock_sema (tid_lock k) := \<lparr>s_value = 1, s_waiters = []\<rparr>,
                              Sema 5 := \<lparr>s_value = 0, s_waiters = []\<rparr>),
           locks := (locks k)(tid_lock k := \<lparr>l_holder = 0, l_priority_donate = 0\<rparr>),
           sleep_thread_heap := heap_init (sleep_thread_heap k) cmp_awake_time, intr := INTR_ON\<rparr>)"

section \<open>The booted system satisfies the invariants\<close>

lemma booted_sched:
  assumes "loaded k" "page \<noteq> 0" "page \<noteq> running k"
  shows "sched_inv (booted k page)"
proof -
  let ?k = "booted k page" and ?m = "running k"
  note l = assms [unfolded loaded_def]
  have st: "status_of ?k t =
      (if t = ?m then Some THREAD_RUNNING else if t = page then Some THREAD_READY else None)" for t
    using l by (simp add: status_of_def booted_def Let_def is_thread_def no_thread_def)
  have sk: "stack_of ?k t =
      (if t = ?m then main_frames else if t = page then [F_set_level INTR_ON, F_idle_loop, F_exit] else [])" for t
    using l by (simp add: stack_of_def booted_def Let_def is_thread_def no_thread_def)
  have q: "queue ?k p = {#}" for p
    using l by (cases p) (simp_all add: queue.simps booted_def Let_def heap_mset_def heap_list_def heap_init_def)
  have r: "running ?k = ?m" "idle_thread ?k = page" "all_list ?k = [?m, page]"
    by (simp_all add: booted_def Let_def)
  show ?thesis
    unfolding sched_inv_def
  proof (rule asched_okI)
    show "queues_ok (view ?k)" using l by (auto simp: queues_ok_def st q r split: if_splits)
    show "all_ok (view ?k)" using l by (auto simp: all_ok_def st r split: if_splits)
    show "embryos_ok (view ?k)" by (auto simp: embryos_ok_def sk main_frames_def split: if_splits)
    show "stacks_ok (view ?k)" using l by (auto simp: stacks_ok_def sk st r main_frames_def split: if_splits)
  qed (use l in \<open>auto simp: st r split: if_splits\<close>)
qed

lemma booted_lock:
  assumes "loaded k" "page \<noteq> 0" "page \<noteq> running k"
  shows "lock_inv (booted k page)"
proof -
  have "lock_ok (lview (booted k page))"
    using assms by (auto simp: loaded_def lock_ok_def lview_def booted_def Let_def no_thread_def main_frames_def)
  moreover have "total (lview (booted k page)) l \<le> 1" for l
    using assms by (auto simp: loaded_def total_def owned_def lview_def booted_def Let_def no_thread_def main_frames_def)
  ultimately show ?thesis by (simp add: lock_inv_def booted_sched [OF assms])
qed

text \<open>Each of the two calls returns to \<^verbatim>\<open>main\<close>.\<close>

definition initialised :: "kernel \<Rightarrow> kernel" where
  "initialised k =
     k\<lparr>thr := (thr k)(running k := no_thread\<lparr>t_tid := 1, t_name := ''main'', t_stack := main_frames,
                t_priority := (if thread_mlfqs k then PRI_MAX else PRI_DEFAULT), t_priority_origin := PRI_DEFAULT,
                t_magic := THREAD_MAGIC\<rparr>),
       ready_heap := \<lparr>hp_size = 0, hp_elems = (hp_elems (ready_heap k))(1 := running k),
                      hp_less = cmp_thread_priority_heap, hp_push_cnt = 1\<rparr>,
       all_list := [running k], initial_thread := running k, next_tid := 2, thread_ticks := 0, load_avg := 0,
       semas := (semas k)(Lock_sema (tid_lock k) := \<lparr>s_value = 1, s_waiters = []\<rparr>),
       locks := (locks k)(tid_lock k := \<lparr>l_holder = 0, l_priority_donate = 0\<rparr>)\<rparr>"

lemma zero_cpu: "fptoi_round 0 = 0" "fp_int_div 0 4 = Inr 0"
  by (simp_all add: fp_defs s32_def signed_divide_int_def)

lemma finish_mono: "finish n page t fs k = Some r \<Longrightarrow> n \<le> m \<Longrightarrow> finish m page t fs k = Some r"
proof (induction n arbitrary: k m)
  case (Suc n)
  from Suc.prems(2) obtain m' where m: "m = Suc m'" "n \<le> m'" by (cases m) auto
  show ?case
    using Suc.prems(1) Suc.IH [OF _ m(2)] by (cases "resume page k") (auto simp: m(1) split: if_splits)
qed simp

lemma finish_25: "finish 25 = finish (Suc (Suc (Suc (Suc (Suc (Suc (Suc (Suc (Suc (Suc (Suc (Suc (Suc (Suc (Suc (Suc (Suc (Suc
    (Suc (Suc (Suc (Suc (Suc (Suc (Suc 0)))))))))))))))))))))))))"
  by (simp add: numeral_eq_Suc)

lemma boot_thread_init_runs:
  assumes "loaded k" "25 \<le> fuel"
  shows "boot_thread_init fuel k = Some (Inr (initialised k))"
proof -
  have "boot_thread_init 25 k = Some (Inr (initialised k))"
    using assms(1)
    by (cases k, cases "ready_heap k")
      (simp add: finish_25 loaded_def boot_thread_init_def initialised_def main_frames_def no_thread_def
        del: bindR_eq_Inr assertR_eq_Inr, simp add: run_defs zero_cpu del: bindR_eq_Inr assertR_eq_Inr)
  then show ?thesis
    using assms(2) by (cases "thread_init k") (auto simp: boot_thread_init_def intro: finish_mono)
qed

lemma boot_thread_start_runs:
  assumes "loaded k" "page \<noteq> 0" "page \<noteq> running k" "25 \<le> fuel"
  shows "boot_thread_start fuel page (timer_init (initialised k)) = Some (Inr (booted k page))"
proof -
  have "boot_thread_start 25 page (timer_init (initialised k)) = Some (Inr (booted k page))"
    using assms(1-3)
    by (cases k, cases "ready_heap k", cases "sleep_thread_heap k")
      (simp add: finish_25 loaded_def boot_thread_start_def initialised_def booted_def main_frames_def no_thread_def Let_def
        del: bindR_eq_Inr assertR_eq_Inr, simp add: run_defs zero_cpu fun_upd_twist del: bindR_eq_Inr assertR_eq_Inr)
  then show ?thesis using assms(4) by (auto simp: boot_thread_start_def intro: finish_mono)
qed

text \<open>C3. Whatever the free memory holds, whichever page \<^verbatim>\<open>main\<close> runs on and the allocator hands out for the
  idle thread, and under either scheduler, the boot sequence of \<^verbatim>\<open>main\<close> (\<^verbatim>\<open>thread_init\<close>, \<^verbatim>\<open>timer_init\<close>,
  \<^verbatim>\<open>thread_start\<close>), run with no interrupt arriving before it is over, never fails an assertion and returns
  to \<^verbatim>\<open>main\<close>: within 25 frames per call, with interrupts on, the idle thread created on that page and
  registered, \<^verbatim>\<open>main\<close> and it the only threads, and the scheduling and locking invariants established.\<close>

theorem boot_establishes_invariants:
  assumes "loaded k" "page \<noteq> 0" "page \<noteq> running k" "25 \<le> fuel"
  shows "\<exists>k'. boot fuel page k = Some (Inr k') \<and> k' = booted k page \<and> sched_inv k' \<and> lock_inv k'
     \<and> intr k' = INTR_ON \<and> running k' = running k \<and> top_frames k' = top_frames k \<and> idle_thread k' = page
     \<and> all_list k' = [running k, page] \<and> thread_mlfqs k' = thread_mlfqs k"
proof -
  have "boot fuel page k = Some (Inr (booted k page))"
    using boot_thread_init_runs boot_thread_start_runs assms by (simp add: boot_def)
  moreover have "top_frames (booted k page) = top_frames k"
    using assms(1) by (simp add: top_frames_def booted_def Let_def loaded_def)
  ultimately show ?thesis
    using booted_sched booted_lock assms by (simp add: booted_def Let_def)
qed

theorem boot_establishes_invariants_witness:
  "\<exists>k'. boot 30 6 (power_on True) = Some (Inr k') \<and> sched_inv k' \<and> idle_thread k' = 6 \<and> thread_mlfqs k'"
  using boot_establishes_invariants [OF loaded_power_on, of 6 True 30] by (auto simp: power_on_def)

section \<open>Invariants along every run\<close>

locale step_invariant =
  fixes I :: "kernel \<Rightarrow> bool"
  assumes preserved: "step k k' \<Longrightarrow> I k \<Longrightarrow> I k'"
begin

lemma along_run: "step\<^sup>*\<^sup>* k k' \<Longrightarrow> I k \<Longrightarrow> I k'"
  by (induction rule: rtranclp_induct) (auto intro: preserved)

end

interpretation sched: step_invariant sched_inv
  by unfold_locales (rule step_inv)

interpretation locking: step_invariant lock_inv
  by unfold_locales (rule step_lock_inv)

text \<open>C1. Scheduling. In every state the kernel can reach after booting, under either scheduler, by any interleaving of kernel calls of
  the threads and of external interrupts, exactly one thread is running; the ready heap holds
  every ready thread but the idle thread exactly once and nothing else; and a thread that waits
  on a semaphore or sleeps is blocked, waits in that one place, and is not the idle thread.\<close>

theorem scheduler_invariant:
  assumes "loaded k0" "page \<noteq> 0" "page \<noteq> running k0" "step\<^sup>*\<^sup>* (booted k0 page) k"
  shows "(\<forall>t. is_thread (thr k) t \<and> t_status (thr k t) = THREAD_RUNNING \<longleftrightarrow> t = running k)
    \<and> (\<forall>t. count (heap_mset (ready_heap k)) t
         = of_bool (is_thread (thr k) t \<and> t_status (thr k t) = THREAD_READY \<and> t \<noteq> idle_thread k))
    \<and> (\<forall>s. \<forall>t \<in> set (s_waiters (semas k s)).
         t_status (thr k t) = THREAD_BLOCKED \<and> t \<noteq> idle_thread k \<and> t \<notin># heap_mset (sleep_thread_heap k)
         \<and> (\<forall>s'. t \<in> set (s_waiters (semas k s')) \<longrightarrow> s' = s))
    \<and> (\<forall>t \<in># heap_mset (sleep_thread_heap k). t_status (thr k t) = THREAD_BLOCKED \<and> t \<noteq> idle_thread k)"
proof -
  have "asched_ok (view k)" using sched.along_run [OF assms(4) booted_sched] assms(1-3) by (simp add: sched_inv_def)
  then have q: "queues_ok (view k)" and r: "\<And>t. status_of k t = Some THREAD_RUNNING \<longleftrightarrow> t = running k"
    by (auto elim!: asched_okE)
  have in_queue: "status_of k t = Some (place_status p)" "t \<noteq> idle_thread k" "count (queue k p) t = 1"
    "t \<in># queue k p' \<Longrightarrow> p' = p" if "t \<in># queue k p" for t p p'
    using queues_ok_D(1-3) [OF q, of t p] queues_ok_D(4) [OF q, of t p p'] that by simp_all
  have ready: "t \<in># queue k P_ready" if "status_of k t = Some THREAD_READY" "t \<noteq> idle_thread k" for t
    using q that by (simp add: queues_ok_def)
  have "is_thread (thr k) t \<and> t_status (thr k t) = THREAD_RUNNING \<longleftrightarrow> t = running k" for t
    using r [of t] by (auto simp: status_of_def split: if_splits)
  moreover have "count (heap_mset (ready_heap k)) t
      = of_bool (is_thread (thr k) t \<and> t_status (thr k t) = THREAD_READY \<and> t \<noteq> idle_thread k)" for t
  proof (cases "t \<in># queue k P_ready")
    case True
    with in_queue(1-3) [OF True] show ?thesis by (auto simp: queue.simps dest: status_of_SomeD)
  next
    case False
    then have "\<not> (is_thread (thr k) t \<and> t_status (thr k t) = THREAD_READY \<and> t \<noteq> idle_thread k)"
      using ready [of t] by (metis status_of_Some)
    moreover have "count (heap_mset (ready_heap k)) t = 0" using False by (simp add: queue.simps not_in_iff)
    ultimately show ?thesis by simp
  qed
  moreover have "t_status (thr k t) = THREAD_BLOCKED" "t \<noteq> idle_thread k" "t \<notin># heap_mset (sleep_thread_heap k)"
    "t \<in> set (s_waiters (semas k s')) \<Longrightarrow> s' = s" if "t \<in> set (s_waiters (semas k s))" for t s s'
  proof -
    have t: "t \<in># queue k (P_sema s)" using that by (simp add: queue.simps)
    show "t_status (thr k t) = THREAD_BLOCKED" using status_of_SomeD [OF in_queue(1) [OF t]] by simp
    show "t \<noteq> idle_thread k" by (rule in_queue(2) [OF t])
    show "t \<notin># heap_mset (sleep_thread_heap k)" using in_queue(4) [OF t, where p' = P_sleep] by (auto simp: queue.simps)
    show "t \<in> set (s_waiters (semas k s')) \<Longrightarrow> s' = s" using in_queue(4) [OF t, where p' = "P_sema s'"] by (simp add: queue.simps)
  qed
  moreover have "t_status (thr k t) = THREAD_BLOCKED" "t \<noteq> idle_thread k" if "t \<in># heap_mset (sleep_thread_heap k)" for t
  proof -
    have t: "t \<in># queue k P_sleep" using that by (simp add: queue.simps)
    show "t_status (thr k t) = THREAD_BLOCKED" using status_of_SomeD [OF in_queue(1) [OF t]] by simp
    show "t \<noteq> idle_thread k" by (rule in_queue(2) [OF t])
  qed
  ultimately show ?thesis by (intro conjI allI ballI impI)
qed

text \<open>C2. Mutual exclusion. In every state reachable after booting a lock is held by at most one live thread, at
  most once, and while it is held the semaphore inside it is zero, so that no other thread can
  take it.\<close>

theorem lock_mutual_exclusion:
  assumes "loaded k0" "page \<noteq> 0" "page \<noteq> running k0" "step\<^sup>*\<^sup>* (booted k0 page) k"
    and "t \<in> set (all_list k)" "l \<in> set (t_locks_holding (thr k t))"
  shows "s_value (semas k (Lock_sema l)) = 0 \<and> count_list (t_locks_holding (thr k t)) l = 1
    \<and> (\<forall>u \<in> set (all_list k). l \<in> set (t_locks_holding (thr k u)) \<longrightarrow> u = t)"
proof -
  have inv: "lock_ok (lview k)" "total (lview k) l \<le> 1"
    using locking.along_run [OF assms(4) booted_lock] assms(1-3) by (simp_all add: lock_inv_def)
  have pos: "0 \<le> owned (lview k) l u" "l \<in> set (t_locks_holding (thr k u)) \<Longrightarrow> 1 \<le> owned (lview k) l u"
    if u: "u \<in> set (all_list k)" for u
  proof -
    have c: "0 \<le> credits l (t_stack (thr k u))" using inv(1) u by (auto simp: lock_ok_def intro: credits_nonneg)
    then show "0 \<le> owned (lview k) l u" by (simp add: owned_def)
    assume "l \<in> set (t_locks_holding (thr k u))"
    then have "count_list (t_locks_holding (thr k u)) l \<noteq> 0" by (simp add: count_list_0_iff)
    with c show "1 \<le> owned (lview k) l u" by (simp add: owned_def)
  qed
  have v: "0 \<le> s_value (semas k (Lock_sema l))" using inv(1) by (auto simp: lock_ok_def)
  have split: "(\<Sum>x \<in> set (all_list k). owned (lview k) l x)
      = owned (lview k) l t + (\<Sum>x \<in> set (all_list k) - {t}. owned (lview k) l x)"
    using assms(5) by (simp add: sum.remove)
  have rest: "0 \<le> (\<Sum>x \<in> set (all_list k) - {t}. owned (lview k) l x)" by (auto intro!: sum_nonneg pos(1))
  have 1: "owned (lview k) l t = 1" "s_value (semas k (Lock_sema l)) = 0"
    "(\<Sum>x \<in> set (all_list k) - {t}. owned (lview k) l x) = 0"
    using inv(2) split rest v pos(2) [OF assms(5,6)] by (auto simp: total_def)
  have "u = t" if "u \<in> set (all_list k)" "l \<in> set (t_locks_holding (thr k u))" for u
  proof (rule ccontr)
    assume "u \<noteq> t"
    then have "owned (lview k) l u \<le> (\<Sum>x \<in> set (all_list k) - {t}. owned (lview k) l x)"
      using that(1) by (intro member_le_sum) (auto intro: pos(1))
    with 1(3) pos(2) [OF that] show False by simp
  qed
  moreover have "count_list (t_locks_holding (thr k t)) l = 1"
  proof -
    have "0 \<le> credits l (t_stack (thr k t))" using inv(1) assms(5) by (auto simp: lock_ok_def intro: credits_nonneg)
    moreover have "count_list (t_locks_holding (thr k t)) l \<noteq> 0" using assms(6) by (simp add: count_list_0_iff)
    ultimately show ?thesis using 1(1) by (simp add: owned_def)
  qed
  ultimately show ?thesis using 1(2) by simp
qed

text \<open>A second thread is created and becomes ready; \<^verbatim>\<open>main\<close> takes a lock.\<close>

definition two_threads :: "action list" where
  "two_threads = A_init (Init_lock 9) # A_call (F_thread_create ''b'' 31 3 0) # A_resume (Some 3)
     # replicate 12 (A_resume None)
     @ [A_call (F_lock_acquire 9), A_resume None, A_resume None, A_resume None]"

lemmas booted_run_defs = booted_def power_on_def no_thread_def main_frames_def heap_init_def Let_def

lemma replicate_12: "replicate 12 x = [x, x, x, x, x, x, x, x, x, x, x, x]"
  by (simp add: numeral_eq_Suc)

lemma two_threads_run:
  "case acts two_threads (booted (power_on False) 2) of None \<Rightarrow> False
   | Some k \<Rightarrow> is_thread (thr k) 3 \<and> t_status (thr k 3) = THREAD_READY \<and> idle_thread k = 2
       \<and> all_list k = [1, 2, 3] \<and> t_locks_holding (thr k 1) = [9]"
  by (simp add: two_threads_def replicate_12 booted_run_defs) (simp add: run_defs)

theorem scheduler_invariant_witness:
  "\<exists>k. step\<^sup>*\<^sup>* (booted (power_on False) 2) k \<and> count (heap_mset (ready_heap k)) 3 = 1"
proof -
  obtain k where k: "acts two_threads (booted (power_on False) 2) = Some k" "is_thread (thr k) 3" "t_status (thr k 3) = THREAD_READY"
    "idle_thread k = 2"
    using two_threads_run by (auto split: option.splits)
  have "step\<^sup>*\<^sup>* (booted (power_on False) 2) k" by (rule acts_steps [OF k(1)])
  with scheduler_invariant [OF loaded_power_on _ _ this] k show ?thesis by (auto simp: power_on_def)
qed

theorem lock_mutual_exclusion_witness:
  "\<exists>k. step\<^sup>*\<^sup>* (booted (power_on False) 2) k \<and> 9 \<in> set (t_locks_holding (thr k 1)) \<and> s_value (semas k (Lock_sema 9)) = 0"
proof -
  obtain k where k: "acts two_threads (booted (power_on False) 2) = Some k" "all_list k = [1, 2, 3]" "t_locks_holding (thr k 1) = [9]"
    using two_threads_run by (auto split: option.splits)
  have "step\<^sup>*\<^sup>* (booted (power_on False) 2) k" by (rule acts_steps [OF k(1)])
  with lock_mutual_exclusion [OF loaded_power_on _ _ this, of 1 9] k show ?thesis by (auto simp: power_on_def)
qed

section \<open>A run that panics\<close>

text \<open>What the threads ask of the kernel in a run, without the interrupts and the switches.\<close>

definition requests :: "action list \<Rightarrow> action list" where
  "requests as = filter (\<lambda>a. case a of A_call _ \<Rightarrow> True | A_init _ \<Rightarrow> True | _ \<Rightarrow> False) as"

text \<open>\<^verbatim>\<open>main\<close> initialises lock 9, creates thread 3 and takes the lock; thread 3 finds it taken and is
  preempted inside \<^verbatim>\<open>lock_acquire\<close> before \<^verbatim>\<open>donate_priority\<close>; \<^verbatim>\<open>main\<close> releases the lock; thread 3
  goes on.\<close>

definition release_race :: "action list" where
  "release_race =
     [A_init (Init_lock 9), A_call (F_thread_create ''b'' 31 3 0), A_resume (Some 3)]
     @ replicate 12 (A_resume None)
     @ [A_call (F_lock_acquire 9), A_resume None, A_resume None, A_resume None, A_call F_yield,
        A_resume None, A_resume None, A_call (F_lock_acquire 9), A_resume None, A_resume None,
        A_interrupt 0x20, A_resume None, A_interrupt 0x20, A_resume None, A_interrupt 0x20, A_resume None,
        A_interrupt 0x20, A_resume None, A_call (F_lock_release 9), A_resume None, A_resume None,
        A_resume None, A_resume None, A_resume None, A_resume None]"

lemma release_race_runs:
  "case acts release_race (booted (power_on False) 2) of None \<Rightarrow> False
   | Some k \<Rightarrow> resume None k = Inl Assertion \<and> running k = 3 \<and> all_list k = [1, 2, 3] \<and> t_lock_waiting (thr k 3) = Some 9
       \<and> l_holder (locks k 9) = 0 \<and> s_value (semas k (Lock_sema 9)) = 1
       \<and> take 4 (top_frames k) = [F_donate 3 0, F_sort_ready, F_sema_down (Lock_sema 9), F_lock_acquired 9]"
  by (simp add: release_race_def replicate_12 booted_run_defs) (simp add: run_defs)

text \<open>C13. The race in \<^verbatim>\<open>lock_acquire\<close>. From the booted system, two threads that share one lock can panic the
  kernel by correct use of it. \<^verbatim>\<open>main\<close> initialises the lock, once and before anything else, and creates a
  second thread; all the two ask for after that is: acquire (by \<^verbatim>\<open>main\<close>), yield, acquire (by the second thread),
  release (by \<^verbatim>\<open>main\<close>). There is an order of these calls and of timer interrupts after which the lock is
  initialised and free, the second thread runs inside its \<^verbatim>\<open>lock_acquire\<close>, about to enter
  \<^verbatim>\<open>donate_priority\<close> before it waits for the lock, and the next thing it does is to fail the assertion
  \<^verbatim>\<open>t->lock_waiting->holder != NULL\<close>.\<close>

theorem lock_acquire_can_panic:
  "\<exists>as k. acts as (booted (power_on False) 2) = Some k
     \<and> requests as = [A_init (Init_lock 9), A_call (F_thread_create ''b'' 31 3 0), A_call (F_lock_acquire 9),
          A_call F_yield, A_call (F_lock_acquire 9), A_call (F_lock_release 9)]
     \<and> running k = 3 \<and> all_list k = [1, 2, 3] \<and> l_holder (locks k 9) = 0 \<and> s_value (semas k (Lock_sema 9)) = 1
     \<and> t_lock_waiting (thr k 3) = Some 9
     \<and> take 4 (top_frames k) = [F_donate 3 0, F_sort_ready, F_sema_down (Lock_sema 9), F_lock_acquired 9]
     \<and> (\<forall>page. resume page k = Inl Assertion)"
proof -
  obtain k where k: "acts release_race (booted (power_on False) 2) = Some k" "resume None k = Inl Assertion"
    "running k = 3" "all_list k = [1, 2, 3]" "t_lock_waiting (thr k 3) = Some 9"
    "l_holder (locks k 9) = 0" "s_value (semas k (Lock_sema 9)) = 1"
    "take 4 (top_frames k) = [F_donate 3 0, F_sort_ready, F_sema_down (Lock_sema 9), F_lock_acquired 9]"
    using release_race_runs by (auto split: option.splits)
  have "resume page k = resume None k" for page
    using k(8) by (cases "top_frames k") (simp_all add: resume_def)
  moreover have "requests release_race = [A_init (Init_lock 9), A_call (F_thread_create ''b'' 31 3 0),
      A_call (F_lock_acquire 9), A_call F_yield, A_call (F_lock_acquire 9), A_call (F_lock_release 9)]"
    by (simp add: requests_def release_race_def replicate_12)
  ultimately show ?thesis using k by (intro exI [of _ release_race] exI [of _ k]) simp
qed

end
