(* ===== verification/Priority.thy ===== *)
theory Priority
  imports Boot
begin

text \<open>
  Which thread goes first: the comparison functions of \<^verbatim>\<open>threads/thread.c\<close> and \<^verbatim>\<open>threads/synch.c\<close> meet the
  contract of the containers they are passed to, so the scheduler takes the first queued of the
  ready threads of the highest priority, a semaphore wakes such a waiter, and \<^verbatim>\<open>thread_update_priority\<close> computes the
  greatest donation or, up to rounding, the priority of the feedback queue scheduler.
\<close>

section \<open>The comparison functions\<close>

interpretation thread_heap_order: strict_weak_order "cmp_thread_priority_heap m" for m
  by unfold_locales (auto simp: cmp_thread_priority_heap_def split: if_splits)

interpretation thread_order: strict_weak_order "cmp_thread_priority m" for m
  by unfold_locales (auto simp: cmp_thread_priority_def)

interpretation sleep_order: strict_weak_order "cmp_awake_time m" for m
  by unfold_locales (auto simp: cmp_awake_time_def)

interpretation lock_order: strict_weak_order "cmp_lock_priority ls" for ls
  by unfold_locales (auto simp: cmp_lock_priority_def)

interpretation cond_order: strict_weak_order "cmp_sema_priority k" for k
  by unfold_locales (auto simp: cmp_sema_priority_def)

section \<open>Choosing a thread\<close>

text \<open>The ready heap as a queue: \<open>qs\<close> are its threads in the order in which they entered it, which the stamps
  \<^verbatim>\<open>entry_ord\<close> tell apart. Heap order is separate, as a donation can break it until the heap is sorted.\<close>

definition queued :: "kernel \<Rightarrow> tptr list \<Rightarrow> bool" where
  "queued k qs \<longleftrightarrow> hp_less (ready_heap k) = cmp_thread_priority_heap \<and> heap_mset (ready_heap k) = mset qs
     \<and> sorted_wrt (\<lambda>t u. t_entry_ord (thr k t) < t_entry_ord (thr k u)) qs
     \<and> (\<forall>t \<in> set qs. t_entry_ord (thr k t) < hp_push_cnt (ready_heap k))"

lemma queued_size: "queued k qs \<Longrightarrow> hp_size (ready_heap k) = length qs"
  by (metis heap_mset_def length_heap_list queued_def size_mset)

lemma queued_sort: "queued k qs \<Longrightarrow> queued (sort_ready_heap k) qs"
  by (simp add: queued_def sort_ready_heap_def)

lemma heap_ordered_other:
  assumes "heap_ordered m h" "hp_less h = cmp_thread_priority_heap" "t \<notin># heap_mset h"
  shows "heap_ordered (m(t := th)) (h\<lparr>hp_push_cnt := n\<rparr>)"
proof -
  have "hp_elems h i \<noteq> t" if "1 \<le> i" "i \<le> hp_size h" for i
    using that assms(3) by (auto simp: heap_mset_def heap_list_def simp del: upt_Suc)
  moreover have "1 \<le> i div 2" "i div 2 \<le> hp_size h" if "2 \<le> i" "i \<le> hp_size h" for i
    using that by linarith+
  ultimately show ?thesis
    using assms(1,2) by (auto simp: heap_ordered_def cmp_thread_priority_heap_def)
qed

text \<open>A thread that enters the queue goes to its end.\<close>

lemma enqueue_ready_queued:
  assumes q: "queued k qs" and n: "0 \<le> hp_push_cnt (ready_heap k)" "hp_push_cnt (ready_heap k) < 2 ^ 31"
    and t: "t \<notin> set qs" "length qs + 1 < MAX_HEAP_SIZE"
  shows "\<exists>k'. enqueue_ready t k = Inr k' \<and> queued k' (qs @ [t])
    \<and> thr k' = (thr k)(t := thr k t\<lparr>t_entry_ord := hp_push_cnt (ready_heap k)\<rparr>)
    \<and> hp_push_cnt (ready_heap k') = hp_push_cnt (ready_heap k) + 1
    \<and> (heap_ordered (thr k) (ready_heap k) \<longrightarrow> heap_ordered (thr k') (ready_heap k'))"
proof -
  let ?n = "hp_push_cnt (ready_heap k)"
  let ?m = "(thr k)(t := thr k t\<lparr>t_entry_ord := ?n\<rparr>)" and ?h = "ready_heap k\<lparr>hp_push_cnt := ?n + 1\<rparr>"
  have c: "s32 ?n = ?n" "s64 (?n + 1) = ?n + 1"
    using n by (auto intro!: s32_id s64_id simp: in_s32_def in_s64_def)
  obtain h where h: "heap_push ?m ?h t = Inr h" using t(2) queued_size [OF q] by (auto simp: heap_push_def Let_def)
  have "heap_ordered ?m h" if "heap_ordered (thr k) (ready_heap k)"
  proof -
    have "heap_ordered ?m ?h" using q t(1) by (intro heap_ordered_other that) (simp_all add: queued_def)
    then show ?thesis
      using thread_heap_order.heap_push_ok [of ?h ?m ?m t] h q t(2) queued_size [OF q] by (auto simp: queued_def)
  qed
  moreover have "enqueue_ready t k = Inr (k\<lparr>thr := ?m, ready_heap := h\<rparr>)"
    using h by (simp add: enqueue_ready_def heap_entry_count_def Let_def upd_thread_def c)
  moreover have "queued (k\<lparr>thr := ?m, ready_heap := h\<rparr>) (qs @ [t])"
    using q t(1) heap_push_contents [OF h]
    by (auto simp: queued_def sorted_wrt_append heap_mset_def heap_list_def intro: sorted_wrt_mono_rel [rotated])
  ultimately show ?thesis using heap_push_contents [OF h] by auto
qed

text \<open>The thread that leaves it is the first of those with the highest priority.\<close>

lemma next_thread_queued:
  assumes q: "queued k qs" and ordered: "heap_ordered (thr k) (ready_heap k)" and ne: "qs \<noteq> []"
  shows "\<exists>us t vs h. qs = us @ t # vs \<and> next_thread_to_run k = Inr (t, k\<lparr>ready_heap := h\<rparr>)
    \<and> queued (k\<lparr>ready_heap := h\<rparr>) (us @ vs) \<and> heap_ordered (thr k) h
    \<and> (\<forall>u \<in> set us. t_priority (thr k u) < t_priority (thr k t))
    \<and> (\<forall>u \<in> set vs. t_priority (thr k u) \<le> t_priority (thr k t))"
proof -
  let ?t = "hp_elems (ready_heap k) 1"
  have less: "hp_less (ready_heap k) (thr k) = cmp_thread_priority_heap (thr k)" and ms: "heap_mset (ready_heap k) = mset qs"
    using q by (simp_all add: queued_def)
  have e: "\<not> heap_empty (ready_heap k)" using queued_size [OF q] ne by (simp add: heap_empty_def)
  obtain h where h: "heap_pop (thr k) (ready_heap k) = Inr (?t, h)" "heap_ordered (thr k) h"
      "mset qs = add_mset ?t (heap_mset h)" "\<forall>u \<in> set qs. \<not> cmp_thread_priority_heap (thr k) ?t u"
      "hp_less h = hp_less (ready_heap k)" "hp_push_cnt h = hp_push_cnt (ready_heap k)"
    using thread_heap_order.heap_pop_ok [OF less ordered e] unfolding ms by auto
  have "?t \<in> set qs" using arg_cong [OF h(3), of set_mset] by auto
  then obtain us vs where qs: "qs = us @ ?t # vs" by (meson split_list)
  have ord: "\<forall>u \<in> set us. t_entry_ord (thr k u) < t_entry_ord (thr k ?t)"
    using q unfolding queued_def by (subst (asm) qs) (simp add: sorted_wrt_append)
  have "mset us + mset vs = heap_mset h" using h(3) by (subst (asm) qs) simp
  then have rest: "queued (k\<lparr>ready_heap := h\<rparr>) (us @ vs)"
    using q h(5,6) unfolding queued_def by (subst (asm) (2 3) qs) (auto simp: sorted_wrt_append)
  have max: "\<not> cmp_thread_priority_heap (thr k) ?t u" if "u \<in> set us \<union> set vs" for u
    using h(4) that by (subst (asm) qs) auto
  have "t_priority (thr k u) < t_priority (thr k ?t)" if "u \<in> set us" for u
    using max [of u] ord that by (auto simp: cmp_thread_priority_heap_def split: if_splits)
  moreover have "t_priority (thr k u) \<le> t_priority (thr k ?t)" if "u \<in> set vs" for u
    using max [of u] that by (auto simp: cmp_thread_priority_heap_def split: if_splits)
  moreover have "next_thread_to_run k = Inr (?t, k\<lparr>ready_heap := h\<rparr>)"
    using e h(1) by (simp add: next_thread_to_run_def)
  ultimately show ?thesis using qs h(2) rest by blast
qed

text \<open>C4. The scheduler is a priority scheduler with first-come-first-served among equals. Let \<open>qs\<close> be the ready
  threads in the order they were queued, with fewer than 2 to the 31 threads queued since the kernel
  started (the 32-bit stamps wrap after that). Queueing a thread that is not in the queue, as
  \<^verbatim>\<open>thread_unblock\<close> and \<^verbatim>\<open>thread_yield\<close> do, puts it at the end of \<open>qs\<close> and keeps the heap ordered;
  \<^verbatim>\<open>sort_ready_heap\<close> orders the heap and keeps \<open>qs\<close>; and from an ordered heap \<^verbatim>\<open>next_thread_to_run\<close> takes the
  thread of \<open>qs\<close> with only lower priorities before it and none higher after it, leaving the others in
  their order, or the idle thread if \<open>qs\<close> is empty.\<close>

theorem next_thread_highest:
  assumes "queued k qs" "0 \<le> hp_push_cnt (ready_heap k)" "hp_push_cnt (ready_heap k) < 2 ^ 31"
  shows "(t \<notin> set qs \<and> length qs + 1 < MAX_HEAP_SIZE \<longrightarrow>
      (\<exists>k'. enqueue_ready t k = Inr k' \<and> queued k' (qs @ [t])
        \<and> thr k' = (thr k)(t := thr k t\<lparr>t_entry_ord := hp_push_cnt (ready_heap k)\<rparr>)
        \<and> hp_push_cnt (ready_heap k') = hp_push_cnt (ready_heap k) + 1
        \<and> (heap_ordered (thr k) (ready_heap k) \<longrightarrow> heap_ordered (thr k') (ready_heap k'))))
    \<and> queued (sort_ready_heap k) qs \<and> heap_ordered (thr k) (ready_heap (sort_ready_heap k))
    \<and> (heap_ordered (thr k) (ready_heap k) \<longrightarrow>
        (if qs = [] then next_thread_to_run k = Inr (idle_thread k, k)
         else \<exists>us t vs h. qs = us @ t # vs \<and> next_thread_to_run k = Inr (t, k\<lparr>ready_heap := h\<rparr>)
           \<and> queued (k\<lparr>ready_heap := h\<rparr>) (us @ vs) \<and> heap_ordered (thr k) h
           \<and> (\<forall>u \<in> set us. t_priority (thr k u) < t_priority (thr k t))
           \<and> (\<forall>u \<in> set vs. t_priority (thr k u) \<le> t_priority (thr k t))))"
proof (intro conjI impI)
  assume "t \<notin> set qs \<and> length qs + 1 < MAX_HEAP_SIZE"
  then show "\<exists>k'. enqueue_ready t k = Inr k' \<and> queued k' (qs @ [t])
        \<and> thr k' = (thr k)(t := thr k t\<lparr>t_entry_ord := hp_push_cnt (ready_heap k)\<rparr>)
        \<and> hp_push_cnt (ready_heap k') = hp_push_cnt (ready_heap k) + 1
        \<and> (heap_ordered (thr k) (ready_heap k) \<longrightarrow> heap_ordered (thr k') (ready_heap k'))"
    using assms by (intro enqueue_ready_queued) simp_all
next
  show "heap_ordered (thr k) (ready_heap (sort_ready_heap k))"
    using thread_heap_order.heap_rebuild_ordered [of "ready_heap k" "thr k"] assms(1)
    by (simp add: sort_ready_heap_def queued_def)
next
  assume o: "heap_ordered (thr k) (ready_heap k)"
  have "heap_empty (ready_heap k) \<longleftrightarrow> qs = []" using queued_size [OF assms(1)] by (simp add: heap_empty_def)
  then have "qs = [] \<Longrightarrow> next_thread_to_run k = Inr (idle_thread k, k)" by (simp add: next_thread_to_run_def)
  with next_thread_queued [OF assms(1) o]
  show "if qs = [] then next_thread_to_run k = Inr (idle_thread k, k)
         else \<exists>us t vs h. qs = us @ t # vs \<and> next_thread_to_run k = Inr (t, k\<lparr>ready_heap := h\<rparr>)
           \<and> queued (k\<lparr>ready_heap := h\<rparr>) (us @ vs) \<and> heap_ordered (thr k) h
           \<and> (\<forall>u \<in> set us. t_priority (thr k u) < t_priority (thr k t))
           \<and> (\<forall>u \<in> set vs. t_priority (thr k u) \<le> t_priority (thr k t))"
    by simp
qed (use assms(1) queued_sort in simp)

definition three_threads :: kernel where
  "three_threads = (booted (power_on False) 2)
     \<lparr>thr := (\<lambda>t. no_thread\<lparr>t_priority := (if t = 3 then 40 else 31), t_entry_ord := int t, t_status := THREAD_BLOCKED,
              t_magic := THREAD_MAGIC\<rparr>),
      ready_heap := \<lparr>hp_size = 3, hp_elems = (\<lambda>i. i + 1), hp_less = cmp_thread_priority_heap, hp_push_cnt = 5\<rparr>,
      semas := (\<lambda>_. \<lparr>s_value = 0, s_waiters = [2, 3, 4]\<rparr>)\<rparr>"

text \<open>After booting, pages 8 and 3 are queued in this order; with equal priorities 8 goes first.\<close>

theorem next_thread_highest_witness:
  "\<exists>k1 k2 h. enqueue_ready 8 (booted (power_on False) 2) = Inr k1 \<and> enqueue_ready 3 k1 = Inr k2
     \<and> queued k2 [8, 3] \<and> next_thread_to_run k2 = Inr (8, k2\<lparr>ready_heap := h\<rparr>)"
proof -
  let ?k = "booted (power_on False) 2"
  have q: "queued ?k []" "heap_ordered (thr ?k) (ready_heap ?k)" "hp_push_cnt (ready_heap ?k) = 4"
      "t_priority (thr ?k 8) = t_priority (thr ?k 3)"
    by (simp_all add: queued_def booted_run_defs heap_mset_def heap_list_def heap_ordered_def)
  obtain k1 where k1: "enqueue_ready 8 ?k = Inr k1" "queued k1 [8]" "hp_push_cnt (ready_heap k1) = 5"
      "heap_ordered (thr k1) (ready_heap k1)" "thr k1 = (thr ?k)(8 := thr ?k 8\<lparr>t_entry_ord := 4\<rparr>)"
    using next_thread_highest [OF q(1), of 8] q by (auto simp: MAX_HEAP_SIZE_def)
  obtain k2 where k2: "enqueue_ready 3 k1 = Inr k2" "queued k2 [8, 3]" "hp_push_cnt (ready_heap k2) = 6"
      "heap_ordered (thr k2) (ready_heap k2)" "thr k2 = (thr k1)(3 := thr k1 3\<lparr>t_entry_ord := 5\<rparr>)"
    using next_thread_highest [OF k1(2), of 3] k1 by (auto simp: MAX_HEAP_SIZE_def)
  obtain us t vs h where n: "[8, 3] = us @ t # vs" "next_thread_to_run k2 = Inr (t, k2\<lparr>ready_heap := h\<rparr>)"
      "\<forall>u \<in> set us. t_priority (thr k2 u) < t_priority (thr k2 t)"
    using next_thread_highest [OF k2(2), of 0] k2(3,4) by auto
  have "t_priority (thr k2 8) = t_priority (thr k2 3)" using k1(5) k2(5) q(4) by simp
  then have "t = 8" using n(1,3) by (auto simp: Cons_eq_append_conv)
  then show ?thesis using k1 k2 n by blast
qed

section \<open>Waking a waiter\<close>

lemma semaphore_eq: "x\<lparr>s_waiters := ws, s_value := v\<rparr> = \<lparr>s_value = v, s_waiters = ws\<rparr>"
  by (cases x) simp

text \<open>C5. \<^verbatim>\<open>sema_up\<close> serves waiters by priority: if the waiters are blocked threads and the ready heap has room, it
  makes ready the first waiter of the highest priority, only that one leaves the queue, and the
  semaphore is incremented.\<close>

theorem sema_wake_highest:
  assumes "s_waiters (semas k s) \<noteq> []"
    "\<forall>t \<in> set (s_waiters (semas k s)). is_thread (thr k) t \<and> t_status (thr k t) = THREAD_BLOCKED"
    "hp_size (ready_heap k) + 1 < MAX_HEAP_SIZE" "intr k = INTR_ON \<longrightarrow> \<not> in_external_intr k"
  shows "\<exists>us t vs k'. s_waiters (semas k s) = us @ t # vs \<and> sema_wake s k = Inr k'
    \<and> (\<forall>u \<in> set us. t_priority (thr k u) < t_priority (thr k t))
    \<and> (\<forall>u \<in> set vs. t_priority (thr k u) \<le> t_priority (thr k t))
    \<and> semas k' = (semas k)(s := \<lparr>s_value = u32 (s_value (semas k s) + 1), s_waiters = us @ vs\<rparr>)
    \<and> t_status (thr k' t) = THREAD_READY \<and> (\<forall>u. u \<noteq> t \<longrightarrow> thr k' u = thr k u)
    \<and> heap_mset (ready_heap k') = add_mset t (heap_mset (ready_heap k)) \<and> intr k' = intr k"
proof -
  let ?ws = "s_waiters (semas k s)" and ?k = "intr_disable k"
  define t where "t = scan_max (cmp_thread_priority (thr k)) ?ws"
  obtain us vs where ws: "?ws = us @ t # vs" "\<forall>u \<in> set us. cmp_thread_priority (thr k) u t"
      "\<forall>u \<in> set ?ws. \<not> cmp_thread_priority (thr k) t u"
    using thread_order.scan_max_first [OF assms(1) t_def [symmetric]] by blast
  have "t \<notin> set us" using ws(2) thread_order.lt_irrefl by blast
  then have rm: "remove1 t ?ws = us @ vs" unfolding ws(1) by (simp add: remove1_append)
  let ?th = "(thr k)(t := thr k t\<lparr>t_entry_ord := s32 (hp_push_cnt (ready_heap k))\<rparr>)"
    and ?h = "ready_heap k\<lparr>hp_push_cnt := s64 (hp_push_cnt (ready_heap k) + 1)\<rparr>"
  obtain h where h: "heap_push ?th ?h t = Inr h" using assms(3) by (auto simp: heap_push_def Let_def)
  have ms: "heap_mset h = add_mset t (heap_mset (ready_heap k))"
    using heap_push_contents(1) [OF h] by (simp add: heap_mset_def heap_list_def)
  have "is_thread (thr k) t" "t_status (thr k t) = THREAD_BLOCKED" using assms(2) ws(1) by auto
  then have "thread_unblock t ?k = Inr (k\<lparr>intr := INTR_OFF, ready_heap := h,
      thr := (thr k)(t := thr k t\<lparr>t_entry_ord := s32 (hp_push_cnt (ready_heap k)), t_status := THREAD_READY\<rparr>)\<rparr>)"
    using h by (simp add: thread_unblock_def enqueue_ready_def heap_entry_count_def state_defs)
  then have "\<exists>k'. sema_wake s k = Inr k'
    \<and> semas k' = (semas k)(s := \<lparr>s_value = u32 (s_value (semas k s) + 1), s_waiters = us @ vs\<rparr>)
    \<and> t_status (thr k' t) = THREAD_READY \<and> (\<forall>u. u \<noteq> t \<longrightarrow> thr k' u = thr k u)
    \<and> ready_heap k' = h \<and> intr k' = intr k"
    using assms(1,4) rm t_def unfolding sema_wake_def
    by (cases "intr k") (simp_all add: Let_def state_defs semaphore_eq)
  then show ?thesis using ws ms by (fastforce simp: cmp_thread_priority_def not_less)
qed

theorem sema_wake_highest_witness:
  "\<exists>k'. sema_wake (Sema 5) three_threads = Inr k' \<and> t_status (thr k' 3) = THREAD_READY \<and> s_waiters (semas k' (Sema 5)) = [2, 4]"
proof -
  have w: "s_waiters (semas three_threads (Sema 5)) = [2, 3, 4]" by (simp add: three_threads_def)
  have "\<forall>t \<in> set [2, 3, 4]. is_thread (thr three_threads) t \<and> t_status (thr three_threads t) = THREAD_BLOCKED"
      "hp_size (ready_heap three_threads) + 1 < MAX_HEAP_SIZE" "intr three_threads = INTR_ON \<longrightarrow> \<not> in_external_intr three_threads"
    by (simp_all add: three_threads_def is_thread_def MAX_HEAP_SIZE_def booted_run_defs)
  then obtain us t vs k' where k': "[2, 3, 4] = us @ t # vs" "sema_wake (Sema 5) three_threads = Inr k'"
      "\<forall>u \<in> set us. t_priority (thr three_threads u) < t_priority (thr three_threads t)"
      "\<forall>u \<in> set vs. t_priority (thr three_threads u) \<le> t_priority (thr three_threads t)"
      "semas k' (Sema 5) = \<lparr>s_value = u32 (s_value (semas three_threads (Sema 5)) + 1), s_waiters = us @ vs\<rparr>"
      "t_status (thr k' t) = THREAD_READY"
    using sema_wake_highest [of three_threads "Sema 5"] unfolding w by auto
  then have "us = [2] \<and> t = 3 \<and> vs = [4]"
    by (auto simp: three_threads_def Cons_eq_append_conv split: if_splits)
  then show ?thesis using k' by simp
qed

section \<open>Computing a priority\<close>

lemma donated_priority_Max:
  "donated_priority ls th = Max (insert (t_priority_origin th) ((\<lambda>l. l_priority_donate (ls l)) ` set (t_locks_holding th)))"
proof (cases "t_locks_holding th = []")
  case False
  define m where "m = scan_max (cmp_lock_priority ls) (t_locks_holding th)"
  have "m \<in> set (t_locks_holding th)" "\<forall>l \<in> set (t_locks_holding th). l_priority_donate (ls l) \<le> l_priority_donate (ls m)"
    using lock_order.scan_max_first [OF False m_def [symmetric]] by (force simp: cmp_lock_priority_def)+
  then have "Max ((\<lambda>l. l_priority_donate (ls l)) ` set (t_locks_holding th)) = l_priority_donate (ls m)"
    by (intro Max_eqI) auto
  then show ?thesis using False by (simp add: donated_priority_def Let_def m_def max_def)
qed (simp add: donated_priority_def)

lemma fptoi_round_quarter:
  assumes "in_s32 x"
  defines "r \<equiv> fptoi_round (x sdiv 4)"
  shows "2 * \<bar>r * F_BITS - x sdiv 4\<bar> \<le> F_BITS" "\<bar>r\<bar> \<le> 32769"
    and "r = - ((- x) div (4 * F_BITS)) \<or> r = - ((- x) div (4 * F_BITS)) - 1"
proof -
  let ?q = "x sdiv 4"
  have x4: "?q = (if 0 \<le> x then x div 4 else - ((- x) div 4))"
    by (simp add: signed_divide_int_def sgn_if)
  have q: "\<bar>?q\<bar> \<le> 2 ^ 29" using assms(1) by (auto simp: x4 in_s32_def)
  have r: "r = (if 0 \<le> ?q then (?q + 8192) div 16384 else - ((8192 - ?q) div 16384))"
    using q by (simp add: r_def fptoi_round_def F_BITS_def s32_id in_s32_def sdiv_nonneg sdiv_neg)
  then show "2 * \<bar>r * F_BITS - ?q\<bar> \<le> F_BITS" "\<bar>r\<bar> \<le> 32769" using q by (auto simp: F_BITS_def)
  show "r = - ((- x) div (4 * F_BITS)) \<or> r = - ((- x) div (4 * F_BITS)) - 1"
    unfolding r x4 F_BITS_def by (cases "0 \<le> x") (simp_all, linarith+)
qed

text \<open>The formula of the documentation, the real number rounded down, before it is adjusted to the valid range.\<close>

definition documented_priority :: "thread \<Rightarrow> int" where
  "documented_priority th = PRI_MAX + (- t_recent_cpu th) div (4 * F_BITS) - 2 * t_nice th"

text \<open>C6. \<^verbatim>\<open>thread_update_priority\<close> computes the priority. Without the feedback queue scheduler it is the greatest of
  the thread's own priority and the donations of the locks it holds. With it, it is
  \<open>63 - recent_cpu / 4 - 2 * nice\<close> with the quarter rounded to a nearest integer, kept between the least and the
  greatest priority; this is not the documented value, which rounds the result down (\<^verbatim>\<open>doc/44bsd.texi\<close>), but
  that value or one more, and one more already when \<open>recent_cpu\<close> is the least positive number. No other
  field of any thread changes.\<close>

theorem thread_update_priority_correct:
  assumes "in_s32 (t_recent_cpu (thr k t))" "\<bar>t_nice (thr k t)\<bar> \<le> 20"
  shows "\<exists>p. thread_update_priority t k = Inr (upd_thread t (\<lambda>th. th\<lparr>t_priority := p\<rparr>) k)
    \<and> (\<not> thread_mlfqs k \<longrightarrow>
         p = Max (insert (t_priority_origin (thr k t)) ((\<lambda>l. l_priority_donate (locks k l)) ` set (t_locks_holding (thr k t)))))
    \<and> (thread_mlfqs k \<longrightarrow>
         (\<exists>r. 2 * \<bar>r * F_BITS - t_recent_cpu (thr k t) sdiv 4\<bar> \<le> F_BITS
           \<and> p = max PRI_MIN (min PRI_MAX (PRI_MAX - r - 2 * t_nice (thr k t))))
         \<and> (\<exists>d \<in> {documented_priority (thr k t), documented_priority (thr k t) + 1}. p = max PRI_MIN (min PRI_MAX d))
         \<and> (t_recent_cpu (thr k t) = 1 \<and> t_nice (thr k t) = 0 \<longrightarrow> p = 63 \<and> documented_priority (thr k t) = 62))"
proof (cases "thread_mlfqs k")
  case True
  let ?x = "t_recent_cpu (thr k t)" and ?n = "t_nice (thr k t)"
  let ?r = "fptoi_round (?x sdiv 4)" and ?p = "\<lambda>d. max PRI_MIN (min PRI_MAX d)"
  note r = fptoi_round_quarter [OF assms(1)]
  have "s32 (PRI_MAX - ?r) = PRI_MAX - ?r" "s32 (2 * ?n) = 2 * ?n" "s32 (PRI_MAX - ?r - 2 * ?n) = PRI_MAX - ?r - 2 * ?n"
    using r(2) assms(2) by (auto intro!: s32_id simp: in_s32_def PRI_MAX_def)
  then have "mlfqs_priority (thr k t) = Inr (?p (PRI_MAX - ?r - 2 * ?n))"
    by (auto simp: mlfqs_priority_def fp_int_div_def Let_def max_def min_def PRI_MIN_def PRI_MAX_def)
  then have "thread_update_priority t k = Inr (upd_thread t (\<lambda>th. th\<lparr>t_priority := ?p (PRI_MAX - ?r - 2 * ?n)\<rparr>) k)"
    using True by (simp add: thread_update_priority_def)
  moreover have "PRI_MAX - ?r - 2 * ?n \<in> {documented_priority (thr k t), documented_priority (thr k t) + 1}"
    using r(3) by (auto simp: documented_priority_def)
  then have "\<exists>d \<in> {documented_priority (thr k t), documented_priority (thr k t) + 1}. ?p (PRI_MAX - ?r - 2 * ?n) = ?p d"
    by blast
  moreover have "?x = 1 \<and> ?n = 0 \<longrightarrow> ?p (PRI_MAX - ?r - 2 * ?n) = 63 \<and> documented_priority (thr k t) = 62"
    by (auto simp: documented_priority_def fp_defs s32_def signed_divide_int_def PRI_MIN_def PRI_MAX_def)
  ultimately show ?thesis using True r(1) by (intro exI [of _ "?p (PRI_MAX - ?r - 2 * ?n)"]) auto
next
  case False
  then show ?thesis
    by (auto simp: thread_update_priority_def donated_priority_Max upd_thread_def)
qed

theorem thread_update_priority_correct_witness:
  "\<exists>p. thread_update_priority 1 (booted (power_on True) 2)
       = Inr (upd_thread 1 (\<lambda>th. th\<lparr>t_priority := p\<rparr>) (booted (power_on True) 2)) \<and> p = 63"
  using thread_update_priority_correct [of "booted (power_on True) 2" 1]
  by (auto simp: booted_run_defs in_s32_def documented_priority_def PRI_MAX_def PRI_MIN_def)

end
