(* ===== verification/Bytes.thy ===== *)
theory Bytes
  imports Prelude
begin

unbundle bit_operations_syntax

text \<open>
  How the 80x86 keeps a 32-bit word in memory and on disk: four bytes, the lowest first. Bitmaps,
  inodes, directory entries and partition tables are stored this way.
\<close>

type_synonym byte = "8 word"

definition word_bytes :: "32 word \<Rightarrow> 8 word list" where
  "word_bytes w = map (\<lambda>i. ucast (drop_bit (8 * i) w)) [0..<4]"

definition bytes_word :: "8 word list \<Rightarrow> 32 word" where
  "bytes_word bs = foldr (\<lambda>b w. push_bit 8 w OR ucast b) bs 0"

fun bytes_words :: "8 word list \<Rightarrow> 32 word list" where
  "bytes_words (a # b # c # d # bs) = bytes_word [a, b, c, d] # bytes_words bs"
| "bytes_words _ = []"

lemma length_word_bytes [simp]: "length (word_bytes w) = 4"
  by (simp add: word_bytes_def)

lemma length_concat_word_bytes [simp]: "length (concat (map word_bytes ws)) = 4 * length ws"
  by (induction ws) simp_all

lemma bytes_word_word_bytes: "bytes_word (word_bytes w) = w"
proof -
  have "bit (bytes_word (word_bytes w)) n \<longleftrightarrow> bit w n" if "n < 32" for n
  proof -
    consider "n < 8" | "8 \<le> n" "n < 16" | "16 \<le> n" "n < 24" | "24 \<le> n" using that by linarith
    then show ?thesis
      using that
      by cases (auto simp: bytes_word_def word_bytes_def upt_rec bit_simps dest: bit_imp_le_length)
  qed
  then show ?thesis by (intro bit_word_eqI) simp
qed

lemma bytes_words_concat [simp]: "bytes_words (concat (map word_bytes ws)) = ws"
proof (induction ws)
  case (Cons w ws)
  obtain a b c d where "word_bytes w = [a, b, c, d]"
    by (simp add: word_bytes_def upt_rec)
  with Cons bytes_word_word_bytes [of w] show ?case by simp
qed simp

lemma push_byte:
  "ucast (push_bit 8 w OR ucast b) = b" "k \<le> 16 \<Longrightarrow> (ucast (drop_bit (8 + k) (push_bit 8 w OR ucast b)) :: 8 word) = ucast (drop_bit k w)"
  for w :: "32 word" and b :: "8 word"
  by (intro bit_word_eqI; auto simp: bit_simps dest: bit_imp_le_length)+

lemma word_bytes_bytes_word: "word_bytes (bytes_word [a, b, c, d]) = [a, b, c, d]"
proof -
  let ?w1 = "ucast d :: 32 word"
  let ?w2 = "push_bit 8 ?w1 OR ucast c"
  let ?w3 = "push_bit 8 ?w2 OR ucast b"
  have w: "bytes_word [a, b, c, d] = push_bit 8 ?w3 OR ucast a" by (simp add: bytes_word_def)
  have u: "ucast ?w1 = d" by (intro bit_word_eqI) (simp add: bit_simps)
  show ?thesis
    unfolding w word_bytes_def
    using push_byte(1) [of ?w3 a] push_byte(2) [of 0 ?w3 a] push_byte(2) [of 8 ?w3 a] push_byte(2) [of 16 ?w3 a]
      push_byte(1) [of ?w2 b] push_byte(2) [of 0 ?w2 b] push_byte(2) [of 8 ?w2 b] push_byte(1) [of ?w1 c] push_byte(2) [of 0 ?w1 c] u
    by (simp add: upt_rec)
qed

lemma bytes_as_words: "length bs = 4 * m \<Longrightarrow> \<exists>ws. length ws = m \<and> concat (map word_bytes ws) = bs"
proof (induction m arbitrary: bs)
  case (Suc m)
  then have "length bs = Suc (Suc (Suc (Suc (4 * m))))" by simp
  then obtain a b c d cs where bs: "bs = a # b # c # d # cs" by (auto simp: length_Suc_conv)
  then obtain ws where "length ws = m" "concat (map word_bytes ws) = cs" using Suc by auto
  then show ?case using bs word_bytes_bytes_word [of a b c d] by (intro exI [of _ "bytes_word [a, b, c, d] # ws"]) simp
qed simp

section \<open>Blocks of a byte array\<close>

text \<open>An array with the elements from \<open>p\<close> on replaced by \<open>xs\<close>.\<close>

definition overwrite :: "nat \<Rightarrow> 'a list \<Rightarrow> 'a list \<Rightarrow> 'a list" where
  "overwrite p xs m = take p m @ xs @ drop (p + length xs) m"

lemma length_overwrite [simp]: "p + length xs \<le> length m \<Longrightarrow> length (overwrite p xs m) = length m"
  by (simp add: overwrite_def)

lemma nth_overwrite:
  "p + length xs \<le> length m \<Longrightarrow> i < length m \<Longrightarrow>
   overwrite p xs m ! i = (if p \<le> i \<and> i < p + length xs then xs ! (i - p) else m ! i)"
  by (auto simp: overwrite_def nth_append)

lemma overwrite_Nil [simp]: "overwrite p [] m = m"
  by (simp add: overwrite_def)

lemma overwrite_eqI:
  assumes "p + length xs \<le> length m" "length m' = length m"
    and "\<And>i. i < length m \<Longrightarrow> m' ! i = (if p \<le> i \<and> i < p + length xs then xs ! (i - p) else m ! i)"
  shows "m' = overwrite p xs m"
  using assms by (intro nth_equalityI) (simp_all add: nth_overwrite)

lemma overwrite_Cons:
  "p + Suc (length xs) \<le> length m \<Longrightarrow> overwrite (p + 1) xs (m[p := x]) = overwrite p (x # xs) m"
  by (intro overwrite_eqI) (auto simp: nth_overwrite nth_list_update nth_Cons')

lemma overwrite_snoc:
  "p + Suc (length xs) \<le> length m \<Longrightarrow> overwrite p xs (m[p + length xs := x]) = overwrite p (xs @ [x]) m"
  by (intro overwrite_eqI) (auto simp: nth_overwrite nth_list_update nth_append)

lemma overwrite_update:
  "p + Suc (length xs) \<le> length m \<Longrightarrow> (overwrite p xs m)[p + length xs := x] = overwrite p (xs @ [x]) m"
  by (intro overwrite_eqI) (auto simp: nth_overwrite nth_list_update nth_append)

lemma take_overwrite [simp]: "p \<le> length m \<Longrightarrow> take p (overwrite p xs m) = take p m"
  by (simp add: overwrite_def)

lemma block_overwrite [simp]: "p \<le> length m \<Longrightarrow> take (length xs) (drop p (overwrite p xs m)) = xs"
  by (simp add: overwrite_def)

end
