(* ===== verification/Bitmap.thy ===== *)
theory Bitmap
  imports Bytes
begin

unbundle bit_operations_syntax

text \<open>
  \<^verbatim>\<open>lib/kernel/bitmap.c\<close>: a bitmap is an array of 32-bit elements. The abstraction \<open>bits_of\<close> reads
  it as a list of booleans; every operation is shown to act on that list, and the scan to find
  the first group of free bits.
\<close>

section \<open>Model\<close>

definition ELEM_BITS :: nat where "ELEM_BITS = 32"
definition BITMAP_ERROR :: nat where "BITMAP_ERROR = 2 ^ 32 - 1"

record bitmap =
  bit_cnt :: nat
  bm_bits :: "32 word list"

text \<open>Addition on \<^verbatim>\<open>size_t\<close>.\<close>

definition szadd :: "nat \<Rightarrow> nat \<Rightarrow> nat" where
  "szadd a b = (a + b) mod 2 ^ 32"

definition elem_idx :: "nat \<Rightarrow> nat" where
  "elem_idx bit_idx = bit_idx div ELEM_BITS"

definition bit_mask :: "nat \<Rightarrow> 32 word" where
  "bit_mask bit_idx = push_bit (bit_idx mod ELEM_BITS) 1"

definition elem_cnt :: "nat \<Rightarrow> nat" where
  "elem_cnt n = szadd n (ELEM_BITS - 1) div ELEM_BITS"

definition byte_cnt :: "nat \<Rightarrow> nat" where
  "byte_cnt n = 4 * elem_cnt n"

definition last_mask :: "bitmap \<Rightarrow> 32 word" where
  "last_mask b =
     (let last_bits = bit_cnt b mod ELEM_BITS
      in if last_bits \<noteq> 0 then push_bit last_bits 1 - 1 else - 1)"

definition bitmap_size :: "bitmap \<Rightarrow> nat" where
  "bitmap_size b = bit_cnt b"

text \<open>Access to one element of the array.\<close>

definition upd_elem :: "nat \<Rightarrow> (32 word \<Rightarrow> 32 word) \<Rightarrow> bitmap \<Rightarrow> bitmap res" where
  "upd_elem i f b =
     (if i < length (bm_bits b) then Inr (b\<lparr>bm_bits := (bm_bits b)[i := f (bm_bits b ! i)]\<rparr>)
      else Inl OutOfBounds)"

definition bitmap_mark :: "bitmap \<Rightarrow> nat \<Rightarrow> bitmap res" where
  "bitmap_mark b bit_idx = upd_elem (elem_idx bit_idx) (\<lambda>e. e OR bit_mask bit_idx) b"

definition bitmap_reset :: "bitmap \<Rightarrow> nat \<Rightarrow> bitmap res" where
  "bitmap_reset b bit_idx = upd_elem (elem_idx bit_idx) (\<lambda>e. e AND NOT (bit_mask bit_idx)) b"

definition bitmap_flip :: "bitmap \<Rightarrow> nat \<Rightarrow> bitmap res" where
  "bitmap_flip b bit_idx = upd_elem (elem_idx bit_idx) (\<lambda>e. e XOR bit_mask bit_idx) b"

definition bitmap_set :: "bitmap \<Rightarrow> nat \<Rightarrow> bool \<Rightarrow> bitmap res" where
  "bitmap_set b idx value =
     assertR (idx < bit_cnt b) (if value then bitmap_mark b idx else bitmap_reset b idx)"

definition bitmap_test :: "bitmap \<Rightarrow> nat \<Rightarrow> bool res" where
  "bitmap_test b idx =
     assertR (idx < bit_cnt b)
       (if elem_idx idx < length (bm_bits b)
        then Inr (bm_bits b ! elem_idx idx AND bit_mask idx \<noteq> 0) else Inl OutOfBounds)"

text \<open>The loops run over \<open>n\<close> bits from \<open>idx\<close> on.\<close>

fun set_loop :: "nat \<Rightarrow> nat \<Rightarrow> bool \<Rightarrow> bitmap \<Rightarrow> bitmap res" where
  "set_loop 0 idx value b = Inr b"
| "set_loop (Suc n) idx value b = bindR (bitmap_set b idx value) (set_loop n (szadd idx 1) value)"

definition bitmap_set_multiple :: "bitmap \<Rightarrow> nat \<Rightarrow> nat \<Rightarrow> bool \<Rightarrow> bitmap res" where
  "bitmap_set_multiple b start cnt value =
     assertR (start \<le> bit_cnt b) (assertR (szadd start cnt \<le> bit_cnt b) (set_loop cnt start value b))"

definition bitmap_set_all :: "bitmap \<Rightarrow> bool \<Rightarrow> bitmap res" where
  "bitmap_set_all b value = bitmap_set_multiple b 0 (bitmap_size b) value"

fun count_loop :: "nat \<Rightarrow> nat \<Rightarrow> bool \<Rightarrow> bitmap \<Rightarrow> nat \<Rightarrow> nat res" where
  "count_loop 0 idx value b value_cnt = Inr value_cnt"
| "count_loop (Suc n) idx value b value_cnt =
     bindR (bitmap_test b idx) (\<lambda>t.
       count_loop n (szadd idx 1) value b (if t = value then szadd value_cnt 1 else value_cnt))"

definition bitmap_count :: "bitmap \<Rightarrow> nat \<Rightarrow> nat \<Rightarrow> bool \<Rightarrow> nat res" where
  "bitmap_count b start cnt value =
     assertR (start \<le> bit_cnt b) (assertR (szadd start cnt \<le> bit_cnt b) (count_loop cnt start value b 0))"

fun contains_loop :: "nat \<Rightarrow> nat \<Rightarrow> bool \<Rightarrow> bitmap \<Rightarrow> bool res" where
  "contains_loop 0 idx value b = Inr False"
| "contains_loop (Suc n) idx value b =
     bindR (bitmap_test b idx) (\<lambda>t. if t = value then Inr True else contains_loop n (szadd idx 1) value b)"

definition bitmap_contains :: "bitmap \<Rightarrow> nat \<Rightarrow> nat \<Rightarrow> bool \<Rightarrow> bool res" where
  "bitmap_contains b start cnt value =
     assertR (start \<le> bit_cnt b) (assertR (szadd start cnt \<le> bit_cnt b) (contains_loop cnt start value b))"

definition bitmap_any :: "bitmap \<Rightarrow> nat \<Rightarrow> nat \<Rightarrow> bool res" where
  "bitmap_any b start cnt = bitmap_contains b start cnt True"

definition bitmap_none :: "bitmap \<Rightarrow> nat \<Rightarrow> nat \<Rightarrow> bool res" where
  "bitmap_none b start cnt = bindR (bitmap_contains b start cnt True) (\<lambda>c. Inr (\<not> c))"

definition bitmap_all :: "bitmap \<Rightarrow> nat \<Rightarrow> nat \<Rightarrow> bool res" where
  "bitmap_all b start cnt = bindR (bitmap_contains b start cnt False) (\<lambda>c. Inr (\<not> c))"

function scan_loop :: "nat \<Rightarrow> nat \<Rightarrow> nat \<Rightarrow> bool \<Rightarrow> bitmap \<Rightarrow> nat res" where
  "scan_loop i last_idx cnt value b =
     (if i \<le> last_idx
      then bindR (bitmap_contains b i cnt (\<not> value)) (\<lambda>c.
             if \<not> c then Inr i else scan_loop (i + 1) last_idx cnt value b)
      else Inr BITMAP_ERROR)"
  by pat_completeness auto
termination
  by (relation "measure (\<lambda>(i, l, _). Suc l - i)") auto

declare scan_loop.simps [simp del]

definition bitmap_scan :: "bitmap \<Rightarrow> nat \<Rightarrow> nat \<Rightarrow> bool \<Rightarrow> nat res" where
  "bitmap_scan b start cnt value =
     assertR (start \<le> bit_cnt b)
       (if cnt \<le> bit_cnt b then scan_loop start (bit_cnt b - cnt) cnt value b else Inr BITMAP_ERROR)"

definition bitmap_scan_and_flip :: "bitmap \<Rightarrow> nat \<Rightarrow> nat \<Rightarrow> bool \<Rightarrow> (nat \<times> bitmap) res" where
  "bitmap_scan_and_flip b start cnt value =
     bindR (bitmap_scan b start cnt value) (\<lambda>idx.
       if idx \<noteq> BITMAP_ERROR
       then bindR (bitmap_set_multiple b idx cnt (\<not> value)) (\<lambda>b. Inr (idx, b))
       else Inr (idx, b))"

text \<open>\<open>got\<close> says whether the first \<^verbatim>\<open>malloc\<close> succeeds, and \<open>block\<close> is what the second gives: the
  words of the array as they happen to be, or nothing.\<close>

definition bitmap_create :: "nat \<Rightarrow> bool \<Rightarrow> 32 word list option \<Rightarrow> bitmap option res" where
  "bitmap_create n got block =
     (if got
      then if block \<noteq> None \<or> n = 0
           then bindR (bitmap_set_all \<lparr>bit_cnt = n, bm_bits = (case block of Some ws \<Rightarrow> ws | None \<Rightarrow> [])\<rparr> False)
                  (\<lambda>b. Inr (Some b))
           else Inr None
      else Inr None)"

definition bitmap_buf_size :: "nat \<Rightarrow> nat" where
  "bitmap_buf_size n = 8 + byte_cnt n"

definition bitmap_create_in_buf :: "nat \<Rightarrow> 32 word list \<Rightarrow> nat \<Rightarrow> bitmap res" where
  "bitmap_create_in_buf n block block_size =
     assertR (block_size \<ge> bitmap_buf_size n)
       (bitmap_set_all \<lparr>bit_cnt = n, bm_bits = take (elem_cnt n) (drop 2 block)\<rparr> False)"

text \<open>A bitmap in a file: its elements, lowest byte first.\<close>

definition bitmap_file_size :: "bitmap \<Rightarrow> nat" where
  "bitmap_file_size b = byte_cnt (bit_cnt b)"

text \<open>\<open>file_write_at\<close> and \<open>file_read_at\<close> are the operations of the file the bitmap is kept in (the file
  system calls this code for its own free map): the first gives the number of bytes written, the
  second the bytes read, both the state after it.\<close>

definition bitmap_write ::
  "('f \<Rightarrow> byte list \<Rightarrow> int \<Rightarrow> (int \<times> 'f) res) \<Rightarrow> bitmap \<Rightarrow> 'f \<Rightarrow> (bool \<times> 'f) res" where
  "bitmap_write file_write_at b f =
     (let size = byte_cnt (bit_cnt b)
      in bindR (file_write_at f (take size (concat (map word_bytes (bm_bits b)))) 0) (\<lambda>(n, f).
           Inr (n = int size, f)))"

definition bitmap_read ::
  "('f \<Rightarrow> int \<Rightarrow> int \<Rightarrow> (byte list \<times> 'f) res) \<Rightarrow> bitmap \<Rightarrow> 'f \<Rightarrow> (bool \<times> bitmap \<times> 'f) res" where
  "bitmap_read file_read_at b f =
     (if bit_cnt b > 0
      then let size = byte_cnt (bit_cnt b)
           in bindR (file_read_at f (int size) 0) (\<lambda>(got, f).
              let old = concat (map word_bytes (bm_bits b));
                  b = b\<lparr>bm_bits := bytes_words (got @ drop (length got) old)\<rparr>
              in bindR (upd_elem (elem_cnt (bit_cnt b) - 1) (\<lambda>e. e AND last_mask b) b) (\<lambda>b.
                   Inr (length got = size, b, f)))
      else Inr (True, b, f))"

section \<open>The bits\<close>

definition bitmap_ok :: "bitmap \<Rightarrow> bool" where
  "bitmap_ok b \<longleftrightarrow> elem_cnt (bit_cnt b) = length (bm_bits b) \<and> bit_cnt b + ELEM_BITS \<le> 2 ^ 32"

definition nth_bit :: "bitmap \<Rightarrow> nat \<Rightarrow> bool" where
  "nth_bit b i = bit (bm_bits b ! (i div 32)) (i mod 32)"

definition bits_of :: "bitmap \<Rightarrow> bool list" where
  "bits_of b = map (nth_bit b) [0..<bit_cnt b]"

lemma length_bits_of [simp]: "length (bits_of b) = bit_cnt b"
  by (simp add: bits_of_def)

lemma nth_bits_of [simp]: "i < bit_cnt b \<Longrightarrow> bits_of b ! i = nth_bit b i"
  by (simp add: bits_of_def)

lemma szadd_small: "a + b < 2 ^ 32 \<Longrightarrow> szadd a b = a + b"
  by (simp add: szadd_def)

lemma szadd_1: "bitmap_ok b \<Longrightarrow> i < bit_cnt b \<Longrightarrow> szadd i 1 = Suc i"
  by (simp add: szadd_small bitmap_ok_def ELEM_BITS_def)

lemma szadd_in: "bitmap_ok b \<Longrightarrow> i + n \<le> bit_cnt b \<Longrightarrow> szadd i n = i + n"
  by (simp add: szadd_small bitmap_ok_def ELEM_BITS_def)

lemma bitmap_ok_small: "bitmap_ok b \<Longrightarrow> bit_cnt b < BITMAP_ERROR"
  by (simp add: bitmap_ok_def BITMAP_ERROR_def ELEM_BITS_def)

lemma bitmap_ok_length: "bitmap_ok b \<Longrightarrow> length (bm_bits b) = (bit_cnt b + 31) div 32"
proof -
  assume "bitmap_ok b"
  then have "length (bm_bits b) = elem_cnt (bit_cnt b)" "bit_cnt b + 31 < 2 ^ 32"
    by (simp_all add: bitmap_ok_def ELEM_BITS_def)
  then show ?thesis by (simp add: elem_cnt_def ELEM_BITS_def szadd_small)
qed

lemma elem_idx_in: "bitmap_ok b \<Longrightarrow> i < bit_cnt b \<Longrightarrow> i div 32 < length (bm_bits b)"
  by (simp add: bitmap_ok_length)

lemma bit_mask_bit: "bit (bit_mask i) j \<longleftrightarrow> j = i mod 32"
  by (auto simp: bit_mask_def ELEM_BITS_def bit_exp_iff)

lemma bitmap_ok_upd: "length ws = length (bm_bits b) \<Longrightarrow> bitmap_ok (b\<lparr>bm_bits := ws\<rparr>) \<longleftrightarrow> bitmap_ok b"
  by (simp add: bitmap_ok_def)

lemma upd_elem_bit:
  assumes "bitmap_ok b" "i < bit_cnt b"
    and f: "\<And>w j. j < 32 \<Longrightarrow> bit (f w) j = (if j = i mod 32 then g (bit w j) else bit w j)"
  shows "\<exists>b'. upd_elem (elem_idx i) f b = Inr b' \<and> bitmap_ok b' \<and> bit_cnt b' = bit_cnt b
           \<and> bits_of b' = (bits_of b)[i := g (nth_bit b i)]"
proof -
  let ?e = "i div 32"
  let ?b = "b\<lparr>bm_bits := (bm_bits b)[?e := f (bm_bits b ! ?e)]\<rparr>"
  have e: "?e < length (bm_bits b)" by (rule elem_idx_in [OF assms(1,2)])
  have "nth_bit ?b j = (if j = i then g (nth_bit b i) else nth_bit b j)" for j
  proof (cases "j div 32 = ?e")
    case True
    have "j = i \<longleftrightarrow> j mod 32 = i mod 32" using True by (metis div_mult_mod_eq)
    with True e f [of "j mod 32"] show ?thesis by (simp add: nth_bit_def)
  next
    case False
    with e show ?thesis by (auto simp: nth_bit_def)
  qed
  then have "bits_of ?b = (bits_of b)[i := g (nth_bit b i)]"
    by (intro nth_equalityI) (auto simp: nth_list_update)
  with e assms(1) show ?thesis by (simp add: upd_elem_def elem_idx_def ELEM_BITS_def bitmap_ok_upd)
qed

lemma bitmap_test_bit: "bitmap_ok b \<Longrightarrow> i < bit_cnt b \<Longrightarrow> bitmap_test b i = Inr (nth_bit b i)"
  using elem_idx_in [of b i]
  by (simp add: bitmap_test_def elem_idx_def ELEM_BITS_def nth_bit_def bit_mask_def and_exp_eq_0_iff_not_bit)

lemma bitmap_set_bits:
  assumes "bitmap_ok b" "i < bit_cnt b"
  shows "\<exists>b'. bitmap_set b i v = Inr b' \<and> bitmap_ok b' \<and> bit_cnt b' = bit_cnt b \<and> bits_of b' = (bits_of b)[i := v]"
proof (cases v)
  case True
  show ?thesis
    using upd_elem_bit [OF assms, of "\<lambda>e. e OR bit_mask i" "\<lambda>_. True"] assms(2) True
    by (auto simp: bitmap_set_def bitmap_mark_def bit_or_iff bit_mask_bit)
next
  case False
  show ?thesis
    using upd_elem_bit [OF assms, of "\<lambda>e. e AND NOT (bit_mask i)" "\<lambda>_. False"] assms(2) False
    by (auto simp: bitmap_set_def bitmap_reset_def bit_and_iff bit_not_iff bit_mask_bit)
qed

lemma bitmap_flip_bits:
  assumes "bitmap_ok b" "i < bit_cnt b"
  shows "\<exists>b'. bitmap_flip b i = Inr b' \<and> bitmap_ok b' \<and> bit_cnt b' = bit_cnt b
           \<and> bits_of b' = (bits_of b)[i := \<not> nth_bit b i]"
  using upd_elem_bit [OF assms, of "\<lambda>e. e XOR bit_mask i" Not]
  by (auto simp: bitmap_flip_def bit_xor_iff bit_mask_bit)

text \<open>The bits of a list with \<open>n\<close> of them from \<open>i\<close> on replaced.\<close>

definition fill :: "nat \<Rightarrow> nat \<Rightarrow> 'a \<Rightarrow> 'a list \<Rightarrow> 'a list" where
  "fill i n v xs = take i xs @ replicate n v @ drop (i + n) xs"

lemma length_fill [simp]: "i + n \<le> length xs \<Longrightarrow> length (fill i n v xs) = length xs"
  by (simp add: fill_def)

lemma nth_fill:
  "i + n \<le> length xs \<Longrightarrow> j < length xs \<Longrightarrow> fill i n v xs ! j = (if i \<le> j \<and> j < i + n then v else xs ! j)"
  by (auto simp: fill_def nth_append)

lemma fill_Suc: "i + Suc n \<le> length xs \<Longrightarrow> fill (Suc i) n v (xs[i := v]) = fill i (Suc n) v xs"
  by (intro nth_equalityI) (auto simp: nth_fill nth_list_update)

lemma fill_0 [simp]: "fill i 0 v xs = xs"
  by (simp add: fill_def)

lemma set_loop_bits:
  "bitmap_ok b \<Longrightarrow> i + n \<le> bit_cnt b \<Longrightarrow>
   \<exists>b'. set_loop n i v b = Inr b' \<and> bitmap_ok b' \<and> bit_cnt b' = bit_cnt b \<and> bits_of b' = fill i n v (bits_of b)"
proof (induction n arbitrary: i b)
  case (Suc n)
  obtain b1 where b1: "bitmap_set b i v = Inr b1" "bitmap_ok b1" "bit_cnt b1 = bit_cnt b" "bits_of b1 = (bits_of b)[i := v]"
    using bitmap_set_bits [of b i v] Suc.prems by auto
  have "szadd i 1 = Suc i" using szadd_1 [of b i] Suc.prems by simp
  with Suc.IH [of b1 "Suc i"] b1 Suc.prems show ?case by (auto simp: fill_Suc)
qed simp

lemma bitmap_set_multiple_bits:
  assumes "bitmap_ok b" "i + n \<le> bit_cnt b"
  shows "\<exists>b'. bitmap_set_multiple b i n v = Inr b' \<and> bitmap_ok b' \<and> bit_cnt b' = bit_cnt b
    \<and> bits_of b' = fill i n v (bits_of b)"
proof -
  have "szadd i n = i + n" using assms by (rule szadd_in)
  with assms set_loop_bits [OF assms, of v] show ?thesis by (auto simp: bitmap_set_multiple_def)
qed

lemma ex_from_Suc:
  "(\<exists>j. i \<le> j \<and> j < i + Suc n \<and> P j) \<longleftrightarrow> P i \<or> (\<exists>j. Suc i \<le> j \<and> j < Suc i + n \<and> P j)" (is "?l = ?r")
proof
  assume ?l
  then obtain j where j: "i \<le> j" "j < i + Suc n" "P j" by blast
  show ?r
  proof (cases "j = i")
    case False
    with j have "Suc i \<le> j" "j < Suc i + n" by simp_all
    with j(3) show ?thesis by blast
  qed (use j(3) in simp)
next
  assume ?r
  then show ?l
  proof
    assume "P i"
    moreover have "i \<le> i" "i < i + Suc n" by simp_all
    ultimately show ?l by blast
  next
    assume "\<exists>j. Suc i \<le> j \<and> j < Suc i + n \<and> P j"
    then obtain j where j: "Suc i \<le> j" "j < Suc i + n" "P j" by blast
    then have "i \<le> j" "j < i + Suc n" by simp_all
    with j(3) show ?l by blast
  qed
qed

lemma contains_loop_bits:
  "bitmap_ok b \<Longrightarrow> i + n \<le> bit_cnt b \<Longrightarrow>
   contains_loop n i v b = Inr (\<exists>j. i \<le> j \<and> j < i + n \<and> nth_bit b j = v)"
proof (induction n arbitrary: i)
  case (Suc n)
  have "szadd i 1 = Suc i" using szadd_1 [of b i] Suc.prems by simp
  then show ?case
    using Suc unfolding ex_from_Suc by (simp add: bitmap_test_bit)
qed simp

lemma bitmap_contains_bits:
  assumes "bitmap_ok b" "i + n \<le> bit_cnt b"
  shows "bitmap_contains b i n v = Inr (\<exists>j. i \<le> j \<and> j < i + n \<and> nth_bit b j = v)"
proof -
  have "szadd i n = i + n" using assms by (rule szadd_in)
  with assms contains_loop_bits [OF assms, of v] show ?thesis by (simp add: bitmap_contains_def)
qed

lemma count_loop_bits:
  "bitmap_ok b \<Longrightarrow> i + n \<le> bit_cnt b \<Longrightarrow> c + n < 2 ^ 32 \<Longrightarrow>
   count_loop n i v b c = Inr (c + count_list (take n (drop i (bits_of b))) v)"
proof (induction n arbitrary: i c)
  case (Suc n)
  have "szadd i 1 = Suc i" "szadd c 1 = Suc c" using szadd_1 [of b i] Suc.prems by (simp_all add: szadd_small)
  moreover have "take (Suc n) (drop i (bits_of b)) = nth_bit b i # take n (drop (Suc i) (bits_of b))"
    using Suc.prems by (subst Cons_nth_drop_Suc [symmetric]) simp_all
  ultimately show ?case using Suc by (auto simp: bitmap_test_bit)
qed simp

text \<open>A group of \<open>n\<close> bits from \<open>i\<close> on that all have the value \<open>v\<close>.\<close>

definition group_at :: "bitmap \<Rightarrow> nat \<Rightarrow> nat \<Rightarrow> bool \<Rightarrow> bool" where
  "group_at b i n v \<longleftrightarrow> i + n \<le> bit_cnt b \<and> (\<forall>j. i \<le> j \<and> j < i + n \<longrightarrow> nth_bit b j = v)"

lemma scan_loop_first:
  assumes "bitmap_ok b" "l + n = bit_cnt b"
  shows "(\<exists>j. i \<le> j \<and> scan_loop i l n v b = Inr j \<and> group_at b j n v \<and> (\<forall>k. i \<le> k \<and> k < j \<longrightarrow> \<not> group_at b k n v))
       \<or> scan_loop i l n v b = Inr BITMAP_ERROR \<and> (\<forall>k \<ge> i. \<not> group_at b k n v)"
  using assms
proof (induction "Suc l - i" arbitrary: i)
  case 0
  then show ?case by (subst (1 2) scan_loop.simps) (auto simp: group_at_def)
next
  case (Suc d)
  show ?case
  proof (cases "i \<le> l")
    case True
    have c: "bitmap_contains b i n (\<not> v) = Inr (\<not> group_at b i n v)"
      using True Suc.prems by (subst bitmap_contains_bits) (auto simp: group_at_def)
    show ?thesis
    proof (cases "group_at b i n v")
      case True
      then show ?thesis using c \<open>i \<le> l\<close> by (subst (1 2) scan_loop.simps) auto
    next
      case False
      then have "scan_loop i l n v b = scan_loop (Suc i) l n v b"
        using c \<open>i \<le> l\<close> by (subst scan_loop.simps) simp
      moreover have "d = Suc l - Suc i" using Suc.hyps(2) by simp
      moreover have "\<not> group_at b k n v" if "i \<le> k" "\<forall>m. Suc i \<le> m \<and> m < j \<longrightarrow> \<not> group_at b m n v" "k < j" for j k
        using that False by (cases "k = i") auto
      moreover have "\<not> group_at b k n v" if "i \<le> k" "\<forall>m \<ge> Suc i. \<not> group_at b m n v" for k
        using that False by (cases "k = i") auto
      ultimately show ?thesis using Suc.hyps(1) [of "Suc i"] Suc.prems by (metis Suc_leD)
    qed
  next
    case False
    then show ?thesis using Suc.prems by (subst (1 2) scan_loop.simps) (auto simp: group_at_def)
  qed
qed

lemma bitmap_scan_first:
  assumes "bitmap_ok b" "i \<le> bit_cnt b"
  shows "(\<exists>j \<ge> i. bitmap_scan b i n v = Inr j \<and> group_at b j n v \<and> (\<forall>k. i \<le> k \<and> k < j \<longrightarrow> \<not> group_at b k n v))
       \<or> bitmap_scan b i n v = Inr BITMAP_ERROR \<and> (\<forall>k \<ge> i. \<not> group_at b k n v)"
proof (cases "n \<le> bit_cnt b")
  case True
  then show ?thesis
    using scan_loop_first [OF assms(1), of "bit_cnt b - n" n i v] assms(2) by (auto simp: bitmap_scan_def)
next
  case False
  then show ?thesis using assms(2) by (auto simp: bitmap_scan_def group_at_def)
qed


lemma group_at_bits: "group_at b i n v \<longleftrightarrow> i + n \<le> bit_cnt b \<and> (\<forall>j. i \<le> j \<and> j < i + n \<longrightarrow> bits_of b ! j = v)"
  by (auto simp: group_at_def)

lemma scan_and_flip_found:
  assumes "bitmap_ok b" "bitmap_scan b i n v = Inr j" "group_at b j n v"
  shows "\<exists>b'. bitmap_scan_and_flip b i n v = Inr (j, b') \<and> bitmap_ok b' \<and> bit_cnt b' = bit_cnt b
    \<and> bits_of b' = fill j n (\<not> v) (bits_of b)"
proof -
  have "j + n \<le> bit_cnt b" using assms(3) by (simp add: group_at_def)
  moreover have "j \<noteq> BITMAP_ERROR" using calculation bitmap_ok_small [OF assms(1)] by simp
  ultimately show ?thesis
    using bitmap_set_multiple_bits [OF assms(1), of j n "\<not> v"] assms(2) by (auto simp: bitmap_scan_and_flip_def)
qed

lemma scan_and_flip_none:
  assumes "bitmap_ok b" "start \<le> bit_cnt b"
  shows "bitmap_scan_and_flip b start 0 v = Inr (start, b)"
proof -
  have "start \<noteq> BITMAP_ERROR" using bitmap_ok_small [OF assms(1)] assms(2) by simp
  moreover have "bitmap_scan b start 0 v = Inr start"
    using bitmap_scan_first [OF assms, of 0 v] assms(2) by (auto simp: group_at_def)
  ultimately show ?thesis
    using assms(2) bitmap_ok_small [OF assms(1)] by (simp add: bitmap_scan_and_flip_def bitmap_set_multiple_def szadd_def)
qed

text \<open>C26. \<^verbatim>\<open>bitmap_scan_and_flip\<close> returns on every well-formed bitmap and every start in it. Either it
  finds the first group of \<open>n\<close> bits with the value \<open>v\<close> at or after the start, inverts exactly those
  bits and gives its index; or there is no such group, it gives \<open>BITMAP_ERROR\<close> and leaves the bitmap
  alone. A group of no bits is found at the start itself: the call then gives the start, and not the 0 of its
  comment, and changes nothing.\<close>

theorem bitmap_scan_and_flip_first:
  assumes "bitmap_ok b" "start \<le> bit_cnt b"
  shows "((\<exists>j b'. bitmap_scan_and_flip b start n v = Inr (j, b') \<and> j \<noteq> BITMAP_ERROR
            \<and> start \<le> j \<and> group_at b j n v \<and> (\<forall>k. start \<le> k \<and> k < j \<longrightarrow> \<not> group_at b k n v)
            \<and> bitmap_ok b' \<and> bit_cnt b' = bit_cnt b \<and> bits_of b' = fill j n (\<not> v) (bits_of b))
       \<or> bitmap_scan_and_flip b start n v = Inr (BITMAP_ERROR, b) \<and> (\<forall>k \<ge> start. \<not> group_at b k n v))
     \<and> (n = 0 \<longrightarrow> bitmap_scan_and_flip b start n v = Inr (start, b))"
proof (intro conjI impI)
  assume "n = 0"
  then show "bitmap_scan_and_flip b start n v = Inr (start, b)"
    using scan_and_flip_none [OF assms] by simp
next
  show "(\<exists>j b'. bitmap_scan_and_flip b start n v = Inr (j, b') \<and> j \<noteq> BITMAP_ERROR
            \<and> start \<le> j \<and> group_at b j n v \<and> (\<forall>k. start \<le> k \<and> k < j \<longrightarrow> \<not> group_at b k n v)
            \<and> bitmap_ok b' \<and> bit_cnt b' = bit_cnt b \<and> bits_of b' = fill j n (\<not> v) (bits_of b))
       \<or> bitmap_scan_and_flip b start n v = Inr (BITMAP_ERROR, b) \<and> (\<forall>k \<ge> start. \<not> group_at b k n v)"
    using bitmap_scan_first [OF assms, of n v]
  proof (elim disjE exE conjE)
    fix j assume j: "start \<le> j" "bitmap_scan b start n v = Inr j" "group_at b j n v"
      "\<forall>k. start \<le> k \<and> k < j \<longrightarrow> \<not> group_at b k n v"
    have "j \<noteq> BITMAP_ERROR" using bitmap_ok_small [OF assms(1)] j(3) by (auto simp: group_at_def)
    with scan_and_flip_found [OF assms(1) j(2,3)] j show ?thesis by blast
  next
    assume "bitmap_scan b start n v = Inr BITMAP_ERROR" "\<forall>k \<ge> start. \<not> group_at b k n v"
    then show ?thesis by (simp add: bitmap_scan_and_flip_def)
  qed
qed

theorem bitmap_scan_and_flip_first_witness:
  "\<exists>j b'. bitmap_scan_and_flip \<lparr>bit_cnt = 40, bm_bits = [3, 0]\<rparr> 1 5 False = Inr (j, b')
     \<and> (j \<noteq> BITMAP_ERROR \<longrightarrow> bits_of b' = fill j 5 True (bits_of \<lparr>bit_cnt = 40, bm_bits = [3, 0]\<rparr>))"
proof -
  have "bitmap_ok \<lparr>bit_cnt = 40, bm_bits = [3, 0]\<rparr>"
    by (simp add: bitmap_ok_def elem_cnt_def ELEM_BITS_def szadd_def)
  from bitmap_scan_and_flip_first [OF this, of 1 5 False] show ?thesis by auto
qed

section \<open>Reading and writing\<close>

lemma bit_push_1_minus_1: "bit (push_bit m 1 - 1 :: 32 word) j \<longleftrightarrow> j < m \<and> j < 32"
proof -
  have "push_bit m 1 - 1 = (mask m :: 32 word)" by (simp add: mask_eq_exp_minus_1)
  then show ?thesis by (auto simp: bit_mask_iff)
qed

lemma last_mask_bit:
  assumes "j < 32"
  shows "bit (last_mask b) j \<longleftrightarrow> bit_cnt b mod 32 = 0 \<or> j < bit_cnt b mod 32"
  using assms by (auto simp: last_mask_def Let_def ELEM_BITS_def bit_push_1_minus_1 simp del: push_bit_of_1)

lemma last_elem:
  assumes "j div 32 = (n + 31) div 32 - 1" "j < (n::nat)"
  shows "n mod 32 = 0 \<or> j mod 32 < n mod 32"
proof (rule disjCI)
  assume "\<not> j mod 32 < n mod 32"
  show "n mod 32 = 0"
  proof (rule ccontr)
    assume "n mod 32 \<noteq> 0"
    then have "(n mod 32 + 31) div 32 = 1" by (intro div_nat_eqI) simp_all
    moreover have "n + 31 = n mod 32 + 31 + (n div 32) * 32" by simp
    ultimately have "(n + 31) div 32 = n div 32 + 1" by (simp only: div_mult_self1)
    with assms(1) have "j div 32 = n div 32" by simp
    moreover have "n = 32 * (n div 32) + n mod 32" "j = 32 * (j div 32) + j mod 32" by simp_all
    ultimately show False using \<open>\<not> j mod 32 < n mod 32\<close> assms(2) by linarith
  qed
qed

text \<open>Masking the last element keeps the bits of the map.\<close>

lemma mask_last_bits:
  assumes "bitmap_ok b" "0 < bit_cnt b"
  shows "\<exists>b'. upd_elem (elem_cnt (bit_cnt b) - 1) (\<lambda>e. e AND last_mask b) b = Inr b' \<and> bitmap_ok b'
    \<and> bit_cnt b' = bit_cnt b \<and> bits_of b' = bits_of b"
proof -
  have l: "elem_cnt (bit_cnt b) = length (bm_bits b)" using assms(1) by (simp add: bitmap_ok_def)
  let ?i = "length (bm_bits b) - 1"
  let ?b = "b\<lparr>bm_bits := (bm_bits b)[?i := bm_bits b ! ?i AND last_mask b]\<rparr>"
  have ne: "?i < length (bm_bits b)" using elem_idx_in [OF assms] by (cases "bm_bits b") auto
  have "nth_bit ?b j = nth_bit b j" if "j < bit_cnt b" for j
  proof (cases "j div 32 = ?i")
    case True
    have "bit_cnt b mod 32 = 0 \<or> j mod 32 < bit_cnt b mod 32"
      using True that unfolding bitmap_ok_length [OF assms(1)] by (rule last_elem)
    then show ?thesis using True ne by (simp add: nth_bit_def bit_and_iff last_mask_bit)
  qed (simp add: nth_bit_def)
  then have "bits_of ?b = bits_of b" by (intro nth_equalityI) simp_all
  with ne assms(1) l show ?thesis by (simp add: upd_elem_def bitmap_ok_upd)
qed

text \<open>The bytes \<^verbatim>\<open>bitmap_write\<close> hands to the file, and what \<^verbatim>\<open>bitmap_read\<close> makes of them.\<close>

definition bitmap_bytes :: "bitmap \<Rightarrow> byte list" where
  "bitmap_bytes b = concat (map word_bytes (bm_bits b))"

lemma length_bitmap_bytes: "bitmap_ok b \<Longrightarrow> length (bitmap_bytes b) = byte_cnt (bit_cnt b)"
  by (simp add: bitmap_bytes_def byte_cnt_def bitmap_ok_def)

lemma bitmap_write_bytes:
  "bitmap_ok b \<Longrightarrow> bitmap_write file_write_at b f =
     bindR (file_write_at f (bitmap_bytes b) 0) (\<lambda>(n, f). Inr (n = int (byte_cnt (bit_cnt b)), f))"
  using length_bitmap_bytes [of b] by (simp add: bitmap_write_def Let_def bitmap_bytes_def)

lemma bitmap_read_bytes:
  assumes "bitmap_ok b" "bitmap_ok c" "bit_cnt c = bit_cnt b" "0 < bit_cnt b"
    and "file_read_at f (int (byte_cnt (bit_cnt b))) 0 = Inr (bitmap_bytes b, f')"
  shows "\<exists>c'. bitmap_read file_read_at c f = Inr (True, c', f') \<and> bitmap_ok c' \<and> bit_cnt c' = bit_cnt b
    \<and> bits_of c' = bits_of b"
proof -
  have l: "length (bm_bits c) = length (bm_bits b)" using assms(1-3) by (simp add: bitmap_ok_def)
  let ?c = "c\<lparr>bm_bits := bm_bits b\<rparr>"
  have c: "bitmap_ok ?c" "bits_of ?c = bits_of b" "0 < bit_cnt ?c" "bit_cnt ?c = bit_cnt b"
    using assms(2-4) l by (simp_all add: bitmap_ok_upd bits_of_def nth_bit_def)
  have "bitmap_read file_read_at c f =
      bindR (upd_elem (elem_cnt (bit_cnt ?c) - 1) (\<lambda>e. e AND last_mask ?c) ?c) (\<lambda>b. Inr (True, b, f'))"
    using assms(3-5) l length_bitmap_bytes [OF assms(1)]
    by (simp add: bitmap_read_def Let_def bitmap_bytes_def)
  with mask_last_bits [OF c(1,3)] c show ?thesis by auto
qed

section \<open>The set of marked units\<close>

text \<open>A client that allocates units of something reads the map as the set of the units that are
  taken.\<close>

definition marked :: "bitmap \<Rightarrow> nat set" where
  "marked b = {i. i < bit_cnt b \<and> nth_bit b i}"

lemma marked_bits: "marked b = {i. i < bit_cnt b \<and> bits_of b ! i}"
  by (auto simp: marked_def)

lemma group_at_free: "group_at b i n False \<longleftrightarrow> i + n \<le> bit_cnt b \<and> marked b \<inter> {i..<i + n} = {}"
  by (auto simp: group_at_def marked_def disjoint_iff dest: less_le_trans)

lemma group_at_taken: "group_at b i n True \<longleftrightarrow> i + n \<le> bit_cnt b \<and> {i..<i + n} \<subseteq> marked b"
  by (auto simp: group_at_def marked_def)

lemma marked_fill:
  assumes "bits_of b' = fill i n v (bits_of b)" "bit_cnt b' = bit_cnt b" "i + n \<le> bit_cnt b"
  shows "marked b' = (if v then marked b \<union> {i..<i + n} else marked b - {i..<i + n})"
  using assms by (auto simp: marked_bits nth_fill split: if_splits)

lemma scan_and_flip_marked:
  assumes "bitmap_ok b"
  obtains (found) i b' where "bitmap_scan_and_flip b 0 n False = Inr (i, b')" "i \<noteq> BITMAP_ERROR"
      "i + n \<le> bit_cnt b" "marked b \<inter> {i..<i + n} = {}" "bitmap_ok b'" "bit_cnt b' = bit_cnt b"
      "marked b' = marked b \<union> {i..<i + n}"
    | (full) "bitmap_scan_and_flip b 0 n False = Inr (BITMAP_ERROR, b)" "\<And>i. \<not> group_at b i n False"
  using bitmap_scan_first [OF assms le0, of n False]
proof (elim disjE exE conjE)
  fix j assume j: "bitmap_scan b 0 n False = Inr j" "group_at b j n False"
  obtain b' where b': "bitmap_scan_and_flip b 0 n False = Inr (j, b')" "bitmap_ok b'" "bit_cnt b' = bit_cnt b"
    "bits_of b' = fill j n True (bits_of b)"
    using scan_and_flip_found [OF assms j] by auto
  have g: "j + n \<le> bit_cnt b" "marked b \<inter> {j..<j + n} = {}" using j(2) by (simp_all only: group_at_free)
  have "j \<noteq> BITMAP_ERROR" using g bitmap_ok_small [OF assms] by simp
  with b' g marked_fill [OF b'(4,3) g(1)] show thesis by (intro found) simp_all
next
  assume "bitmap_scan b 0 n False = Inr BITMAP_ERROR" "\<forall>k \<ge> 0. \<not> group_at b k n False"
  then show thesis by (intro full) (simp_all add: bitmap_scan_and_flip_def)
qed

lemma bitmap_all_taken:
  assumes "bitmap_ok b" "i + n \<le> bit_cnt b"
  shows "bitmap_all b i n = Inr ({i..<i + n} \<subseteq> marked b)"
  using assms by (auto simp: bitmap_all_def bitmap_contains_bits marked_def)

lemma bitmap_clear_marked:
  assumes "bitmap_ok b" "i + n \<le> bit_cnt b"
  obtains b' where "bitmap_set_multiple b i n False = Inr b'" "bitmap_ok b'" "bit_cnt b' = bit_cnt b"
    "marked b' = marked b - {i..<i + n}"
proof -
  obtain b' where b': "bitmap_set_multiple b i n False = Inr b'" "bitmap_ok b'" "bit_cnt b' = bit_cnt b"
      "bits_of b' = fill i n False (bits_of b)"
    using bitmap_set_multiple_bits [OF assms, of False] by blast
  show thesis using b'(1-3) marked_fill [OF b'(4,3) assms(2)] by (intro that) simp_all
qed

text \<open>A new bitmap is well formed and has no unit taken.\<close>

lemma bitmap_set_all_clear:
  assumes "bitmap_ok b"
  obtains b' where "bitmap_set_all b False = Inr b'" "bitmap_ok b'" "bit_cnt b' = bit_cnt b" "marked b' = {}"
proof -
  obtain b' where b': "bitmap_set_multiple b 0 (bit_cnt b) False = Inr b'" "bitmap_ok b'" "bit_cnt b' = bit_cnt b"
      "marked b' = marked b - {0..<0 + bit_cnt b}"
    using bitmap_clear_marked [OF assms, of 0 "bit_cnt b"] by auto
  have "marked b' = {}" unfolding b'(4) by (auto simp: marked_def)
  with b'(1-3) show thesis by (intro that) (simp_all add: bitmap_set_all_def bitmap_size_def)
qed

end
