(* ===== verification/Vaddr.thy ===== *)
theory Vaddr
  imports Prelude
begin

unbundle bit_operations_syntax

text \<open>
  \<^verbatim>\<open>threads/vaddr.h\<close>: 32-bit virtual addresses, their page numbers and offsets, and the mapping of
  physical memory at \<open>PHYS_BASE\<close>. Memory is a function from addresses to bytes.
\<close>

type_synonym addr = "32 word"
type_synonym mem = "addr \<Rightarrow> 8 word"

definition PGBITS :: nat where "PGBITS = 12"
definition PGSIZE :: nat where "PGSIZE = 2 ^ PGBITS"
definition BITMASK :: "nat \<Rightarrow> nat \<Rightarrow> addr" where
  "BITMASK SHIFT CNT = push_bit SHIFT (push_bit CNT 1 - 1)"
definition PGMASK :: addr where "PGMASK = BITMASK 0 PGBITS"
definition PHYS_BASE :: addr where "PHYS_BASE = 0xc0000000"

definition pg_ofs :: "addr \<Rightarrow> addr" where
  "pg_ofs va = va AND PGMASK"

definition pg_no :: "addr \<Rightarrow> addr" where
  "pg_no va = drop_bit PGBITS va"

definition pg_round_up :: "addr \<Rightarrow> addr" where
  "pg_round_up va = (va + of_nat PGSIZE - 1) AND NOT PGMASK"

definition pg_round_down :: "addr \<Rightarrow> addr" where
  "pg_round_down va = va AND NOT PGMASK"

definition is_user_vaddr :: "addr \<Rightarrow> bool" where
  "is_user_vaddr vaddr \<longleftrightarrow> vaddr < PHYS_BASE"

definition is_kernel_vaddr :: "addr \<Rightarrow> bool" where
  "is_kernel_vaddr vaddr \<longleftrightarrow> vaddr \<ge> PHYS_BASE"

definition ptov :: "addr \<Rightarrow> addr res" where
  "ptov paddr = assertR (paddr < PHYS_BASE) (Inr (paddr + PHYS_BASE))"

definition vtop :: "addr \<Rightarrow> addr res" where
  "vtop vaddr = assertR (is_kernel_vaddr vaddr) (Inr (vaddr - PHYS_BASE))"

text \<open>Rounding to a multiple (\<^verbatim>\<open>lib/round.h\<close>), on \<^verbatim>\<open>size_t\<close> values that do not overflow.\<close>

definition ROUND_UP :: "nat \<Rightarrow> nat \<Rightarrow> nat" where
  "ROUND_UP X STEP = (X + STEP - 1) div STEP * STEP"

definition DIV_ROUND_UP :: "nat \<Rightarrow> nat \<Rightarrow> nat" where
  "DIV_ROUND_UP X STEP = (X + STEP - 1) div STEP"

definition ROUND_DOWN :: "nat \<Rightarrow> nat \<Rightarrow> nat" where
  "ROUND_DOWN X STEP = X div STEP * STEP"

text \<open>\<^verbatim>\<open>memset\<close> on the bytes from \<open>dst\<close> on (\<^verbatim>\<open>lib/string.c\<close>).\<close>

definition mem_set :: "addr \<Rightarrow> 8 word \<Rightarrow> nat \<Rightarrow> mem \<Rightarrow> mem" where
  "mem_set dst v n m = (\<lambda>a. if unat (a - dst) < n then v else m a)"

section \<open>Pages\<close>

lemma PGMASK_mask: "PGMASK = mask 12"
  by (simp add: PGMASK_def BITMASK_def PGBITS_def mask_eq_exp_minus_1)

lemma unat_pg_ofs: "unat (pg_ofs va) = unat va mod 4096"
  by (simp add: pg_ofs_def PGMASK_mask take_bit_eq_mask [symmetric] take_bit_eq_mod unat_mod_distrib)

lemma unat_pg_no: "unat (pg_no va) = unat va div 4096"
  by (simp add: pg_no_def PGBITS_def drop_bit_eq_div unat_div_distrib)

lemma pg_round_down_eq: "pg_round_down va = va - pg_ofs va"
proof -
  have "va AND NOT (mask 12) = push_bit 12 (drop_bit 12 va)"
    by (intro bit_word_eqI) (auto simp: bit_simps)
  moreover have "push_bit 12 (drop_bit 12 va) + take_bit 12 va = va" by (rule bits_ident)
  ultimately show ?thesis
    by (simp add: pg_round_down_def pg_ofs_def PGMASK_mask take_bit_eq_mask eq_diff_eq)
qed

lemma unat_pg_round_down: "unat (pg_round_down va) = unat va - unat va mod 4096"
proof -
  have "unat (pg_ofs va) \<le> unat va" by (simp add: unat_pg_ofs)
  then have "pg_ofs va \<le> va" by (simp add: word_le_nat_alt)
  then show ?thesis by (simp add: pg_round_down_eq unat_sub unat_pg_ofs)
qed

lemma unat_addr: "n < 2 ^ 32 \<Longrightarrow> unat (of_nat n :: addr) = n"
  by (simp add: unat_of_nat)

lemma unat_page_addr: "i < 2 ^ 20 \<Longrightarrow> unat (of_nat (PGSIZE * i) :: addr) = 4096 * i"
  by (subst unat_addr) (simp_all add: PGSIZE_def PGBITS_def)

lemma pg_no_page_addr: "i < 2 ^ 20 \<Longrightarrow> unat (pg_no (of_nat (PGSIZE * i))) = i"
  by (simp add: unat_pg_no unat_page_addr del: of_nat_mult)

lemma pg_ofs_page_addr: "i < 2 ^ 20 \<Longrightarrow> pg_ofs (of_nat (PGSIZE * i)) = 0"
proof -
  assume "i < 2 ^ 20"
  then have "unat (pg_ofs (of_nat (PGSIZE * i))) = 0" by (simp only: unat_pg_ofs unat_page_addr) simp
  then show ?thesis by (simp add: unat_eq_0)
qed

lemma page_addr_0: "i < 2 ^ 20 \<Longrightarrow> of_nat (PGSIZE * i) = (0 :: addr) \<longleftrightarrow> i = 0"
  by (metis mult_eq_0_iff unat_page_addr of_nat_0 unsigned_0 zero_neq_numeral)

lemma addr_of_page: "pg_ofs a = 0 \<Longrightarrow> a = of_nat (PGSIZE * unat (pg_no a))"
proof -
  assume "pg_ofs a = 0"
  then have "unat a mod 4096 = 0" by (simp flip: unat_pg_ofs)
  then have "unat a = PGSIZE * unat (pg_no a)"
    using mult_div_mod_eq [of 4096 "unat a"] by (simp add: unat_pg_no PGSIZE_def PGBITS_def)
  then have "of_nat (PGSIZE * unat (pg_no a)) = (of_nat (unat a) :: addr)" by (simp only:)
  then show ?thesis by (simp only: of_nat_unat ucast_id)
qed

end
