(* ===== verification/Unit_Allocator.thy ===== *)
theory Unit_Allocator
  imports Prelude
begin

text \<open>
  The contract of an allocator of contiguous groups of units: the pages of a pool and of the whole
  page allocator (\<^verbatim>\<open>threads/palloc.c\<close>), the sectors of the file system (\<^verbatim>\<open>filesys/free-map.c\<close>). What a
  client may conclude is proved once: whatever it asks for and gives back, in whatever order, the
  groups it holds never overlap and every release succeeds.
\<close>

text \<open>A group is its first unit and its length.\<close>

definition span :: "nat \<times> nat \<Rightarrow> nat set" where
  "span g = {fst g..<fst g + snd g}"

definition apart :: "nat \<times> nat \<Rightarrow> nat \<times> nat \<Rightarrow> bool" where
  "apart g h \<longleftrightarrow> span g \<inter> span h = {}"

text \<open>A client asks for groups and gives back the \<open>k\<close>-th of those it holds.\<close>

datatype 'o req = Take 'o nat | Give nat

fun alloc_run ::
  "('o \<Rightarrow> 's \<Rightarrow> nat \<Rightarrow> (nat option \<times> 's) res) \<Rightarrow> ('s \<Rightarrow> nat \<Rightarrow> nat \<Rightarrow> 's res) \<Rightarrow>
   'o req list \<Rightarrow> 's \<Rightarrow> (nat \<times> nat) list \<Rightarrow> ('s \<times> (nat \<times> nat) list) res" where
  "alloc_run get put [] s gs = Inr (s, gs)"
| "alloc_run get put (Take x n # rs) s gs =
     bindR (get x s n) (\<lambda>(r, s). alloc_run get put rs s (case r of Some i \<Rightarrow> (i, n) # gs | None \<Rightarrow> gs))"
| "alloc_run get put (Give k # rs) s gs =
     (if k < length gs
      then bindR (put s (fst (gs ! k)) (snd (gs ! k))) (\<lambda>s.
             alloc_run get put rs s (take k gs @ drop (Suc k) gs))
      else alloc_run get put rs s gs)"

fun sensible :: "'o req \<Rightarrow> bool" where
  "sensible (Take x n) \<longleftrightarrow> 0 < n"
| "sensible (Give k) \<longleftrightarrow> True"

locale unit_allocator =
  fixes ok :: "'s \<Rightarrow> bool" and units :: "'s \<Rightarrow> nat" and used :: "'s \<Rightarrow> nat set"
    and get :: "'o \<Rightarrow> 's \<Rightarrow> nat \<Rightarrow> (nat option \<times> 's) res" and put :: "'s \<Rightarrow> nat \<Rightarrow> nat \<Rightarrow> 's res"
  assumes get_total: "ok s \<Longrightarrow> 0 < n \<Longrightarrow> \<exists>r s'. get x s n = Inr (r, s') \<and> ok s' \<and> units s' = units s"
    and get_Some: "ok s \<Longrightarrow> 0 < n \<Longrightarrow> get x s n = Inr (Some i, s') \<Longrightarrow>
      i + n \<le> units s \<and> used s \<inter> span (i, n) = {} \<and> used s' = used s \<union> span (i, n)"
    and get_None: "ok s \<Longrightarrow> 0 < n \<Longrightarrow> get x s n = Inr (None, s') \<Longrightarrow> used s' = used s"
    and put_used: "ok s \<Longrightarrow> 0 < n \<Longrightarrow> i + n \<le> units s \<Longrightarrow> span (i, n) \<subseteq> used s \<Longrightarrow>
      \<exists>s'. put s i n = Inr s' \<and> ok s' \<and> units s' = units s \<and> used s' = used s - span (i, n)"
begin

text \<open>The groups a client holds: each is in use, and no two overlap.\<close>

definition held :: "'s \<Rightarrow> (nat \<times> nat) list \<Rightarrow> bool" where
  "held s gs \<longleftrightarrow> ok s \<and> sorted_wrt apart gs
     \<and> (\<forall>g \<in> set gs. 0 < snd g \<and> fst g + snd g \<le> units s \<and> span g \<subseteq> used s)"

lemma held_get:
  assumes "held s gs" "0 < n" "get x s n = Inr (Some i, s')"
  shows "held s' ((i, n) # gs)"
proof -
  have s: "ok s" using assms(1) by (simp add: held_def)
  have g: "ok s'" "units s' = units s" using get_total [OF s assms(2), of x] assms(3) by auto
  note h = get_Some [OF s assms(2,3)]
  have "\<forall>h \<in> set gs. apart (i, n) h"
    using assms(1) h unfolding held_def apart_def by blast
  moreover have "\<forall>h \<in> set gs. 0 < snd h \<and> fst h + snd h \<le> units s' \<and> span h \<subseteq> used s'"
    using assms(1) g h unfolding held_def by auto
  ultimately show ?thesis using assms(1,2) g h by (simp add: held_def)
qed

lemma held_refused:
  assumes "held s gs" "0 < n" "get x s n = Inr (None, s')"
  shows "held s' gs"
proof -
  have s: "ok s" using assms(1) by (simp add: held_def)
  have "ok s'" "units s' = units s" using get_total [OF s assms(2), of x] assms(3) by auto
  with assms(1) get_None [OF s assms(2,3)] show ?thesis by (simp add: held_def)
qed

lemma held_put:
  assumes "held s (gs @ (i, n) # hs)"
  shows "\<exists>s'. put s i n = Inr s' \<and> held s' (gs @ hs)"
proof -
  have a: "ok s" "0 < n" "i + n \<le> units s" "span (i, n) \<subseteq> used s"
    using assms by (auto simp: held_def)
  have d: "\<forall>h \<in> set (gs @ hs). apart (i, n) h" and w: "sorted_wrt apart (gs @ hs)"
    using assms unfolding held_def by (auto simp: sorted_wrt_append apart_def)
  have u: "\<forall>h \<in> set (gs @ hs). 0 < snd h \<and> fst h + snd h \<le> units s \<and> span h \<subseteq> used s"
    using assms by (auto simp: held_def)
  obtain s' where p: "put s i n = Inr s'" "ok s'" "units s' = units s" "used s' = used s - span (i, n)"
    using put_used [OF a] by blast
  have "\<forall>h \<in> set (gs @ hs). 0 < snd h \<and> fst h + snd h \<le> units s' \<and> span h \<subseteq> used s'"
    unfolding p(3,4) using d u unfolding apart_def by blast
  then show ?thesis using p w unfolding held_def by blast
qed

lemma run_held:
  "held s gs \<Longrightarrow> \<forall>r \<in> set rs. sensible r \<Longrightarrow>
   \<exists>s' gs'. alloc_run get put rs s gs = Inr (s', gs') \<and> held s' gs'"
proof (induction rs arbitrary: s gs)
  case (Cons r rs)
  show ?case
  proof (cases r)
    case (Take x n)
    then obtain q s' where g: "get x s n = Inr (q, s')"
      using get_total [of s n x] Cons.prems by (auto simp: held_def)
    then have "held s' (case q of Some i \<Rightarrow> (i, n) # gs | None \<Rightarrow> gs)"
      using held_get [of s gs n x] held_refused [of s gs n x] Cons.prems Take by (auto split: option.splits)
    with Cons.IH [of s'] g Cons.prems Take show ?thesis by simp
  next
    case (Give k)
    show ?thesis
    proof (cases "k < length gs")
      case True
      with Cons.prems have "held s (take k gs @ (fst (gs ! k), snd (gs ! k)) # drop (Suc k) gs)"
        by (simp add: id_take_nth_drop [symmetric])
      then obtain s' where "put s (fst (gs ! k)) (snd (gs ! k)) = Inr s'" "held s' (take k gs @ drop (Suc k) gs)"
        using held_put by blast
      with Cons.IH [of s'] True Give Cons.prems show ?thesis by simp
    qed (use Cons Give in simp)
  qed
qed simp

lemma run_apart:
  assumes "ok s" "\<forall>r \<in> set rs. sensible r"
  shows "\<exists>s' gs. alloc_run get put rs s [] = Inr (s', gs) \<and> ok s' \<and> sorted_wrt apart gs
    \<and> (\<forall>g \<in> set gs. 0 < snd g \<and> fst g + snd g \<le> units s' \<and> span g \<subseteq> used s')"
  using run_held [of s "[]" rs] assms by (auto simp: held_def)

end

end
