(* ===== verification/Palloc.thy ===== *)
theory Palloc
  imports Bitmap Vaddr Unit_Allocator
begin

unbundle bit_operations_syntax

text \<open>
  \<^verbatim>\<open>threads/palloc.c\<close>: the page allocator. A pool is a bitmap of its pages and the address of the
  first one; the allocator has two of them and hands out groups of contiguous pages. The pools
  and the allocator as a whole are interpretations of \<open>unit_allocator\<close>, over page numbers.

  The pool's lock is held between the two calls that take and release it, so that a critical
  section runs alone; here the lock is a flag that those calls set and clear.
\<close>

section \<open>Model\<close>

record pool =
  pool_locked :: bool
  used_map :: bitmap
  pool_base :: addr

record palloc =
  kernel_pool :: pool
  user_pool :: pool
  pmem :: mem

type_synonym palloc_flags = "32 word"

definition PAL_ASSERT :: palloc_flags where "PAL_ASSERT = 1"
definition PAL_ZERO :: palloc_flags where "PAL_ZERO = 2"
definition PAL_USER :: palloc_flags where "PAL_USER = 4"

definition pool_acquire :: "pool \<Rightarrow> pool res" where
  "pool_acquire p = assertR (\<not> pool_locked p) (Inr (p\<lparr>pool_locked := True\<rparr>))"

definition pool_release :: "pool \<Rightarrow> pool res" where
  "pool_release p = assertR (pool_locked p) (Inr (p\<lparr>pool_locked := False\<rparr>))"

text \<open>The words of memory from \<open>a\<close> on.\<close>

definition mem_word :: "mem \<Rightarrow> addr \<Rightarrow> 32 word" where
  "mem_word m a = bytes_word (map (\<lambda>i. m (a + of_nat i)) [0..<4])"

definition mem_words :: "mem \<Rightarrow> addr \<Rightarrow> nat \<Rightarrow> 32 word list" where
  "mem_words m a n = map (\<lambda>i. mem_word m (a + of_nat (4 * i))) [0..<n]"

definition init_pool :: "mem \<Rightarrow> addr \<Rightarrow> nat \<Rightarrow> pool res" where
  "init_pool m base page_cnt =
     (let bm_pages = DIV_ROUND_UP (bitmap_buf_size page_cnt) PGSIZE
      in if bm_pages > page_cnt then Inl Panic
         else let page_cnt = page_cnt - bm_pages
              in bindR (bitmap_create_in_buf page_cnt (mem_words m base (bm_pages * PGSIZE div 4)) (bm_pages * PGSIZE))
                   (\<lambda>b. Inr \<lparr>pool_locked = False, used_map = b, pool_base = base + of_nat (bm_pages * PGSIZE)\<rparr>))"

definition palloc_init :: "nat \<Rightarrow> nat \<Rightarrow> mem \<Rightarrow> palloc res" where
  "palloc_init init_ram_pages user_page_limit m =
     bindR (ptov (1024 * 1024)) (\<lambda>free_start.
     bindR (ptov (of_nat (init_ram_pages * PGSIZE))) (\<lambda>free_end.
       let free_pages = unat (word_of_int (sint (free_end - free_start) sdiv int PGSIZE) :: 32 word);
           user_pages = free_pages div 2;
           user_pages = (if user_pages > user_page_limit then user_page_limit else user_pages);
           kernel_pages = free_pages - user_pages
       in bindR (init_pool m free_start kernel_pages) (\<lambda>kp.
          bindR (init_pool m (free_start + of_nat (kernel_pages * PGSIZE)) user_pages) (\<lambda>up.
            Inr \<lparr>kernel_pool = kp, user_pool = up, pmem = m\<rparr>))))"

definition page_from_pool :: "pool \<Rightarrow> addr \<Rightarrow> bool" where
  "page_from_pool pool page =
     (let page_no = pg_no page;
          start_page = pg_no (pool_base pool);
          end_page = start_page + of_nat (bitmap_size (used_map pool))
      in page_no \<ge> start_page \<and> page_no < end_page)"

text \<open>The part of \<^verbatim>\<open>palloc_get_multiple\<close> that runs under the pool's lock.\<close>

definition pool_get :: "pool \<Rightarrow> nat \<Rightarrow> (nat \<times> pool) res" where
  "pool_get pool page_cnt =
     bindR (pool_acquire pool) (\<lambda>pool.
     bindR (bitmap_scan_and_flip (used_map pool) 0 page_cnt False) (\<lambda>(page_idx, b).
     bindR (pool_release (pool\<lparr>used_map := b\<rparr>)) (\<lambda>pool. Inr (page_idx, pool))))"

definition palloc_get_multiple :: "palloc_flags \<Rightarrow> nat \<Rightarrow> palloc \<Rightarrow> (addr \<times> palloc) res" where
  "palloc_get_multiple flags page_cnt s =
     (let user = flags AND PAL_USER \<noteq> 0;
          pool = (if user then user_pool s else kernel_pool s)
      in if page_cnt = 0 then Inr (0, s)
         else bindR (pool_get pool page_cnt) (\<lambda>(page_idx, pool).
           let s = (if user then s\<lparr>user_pool := pool\<rparr> else s\<lparr>kernel_pool := pool\<rparr>);
               pages = (if page_idx \<noteq> BITMAP_ERROR then pool_base pool + of_nat (PGSIZE * page_idx) else 0)
           in if pages \<noteq> 0
              then if flags AND PAL_ZERO \<noteq> 0
                   then Inr (pages, s\<lparr>pmem := mem_set pages 0 (PGSIZE * page_cnt) (pmem s)\<rparr>)
                   else Inr (pages, s)
              else if flags AND PAL_ASSERT \<noteq> 0 then Inl Panic else Inr (pages, s)))"

definition palloc_get_page :: "palloc_flags \<Rightarrow> palloc \<Rightarrow> (addr \<times> palloc) res" where
  "palloc_get_page flags s = palloc_get_multiple flags 1 s"

definition pool_put :: "pool \<Rightarrow> nat \<Rightarrow> nat \<Rightarrow> pool res" where
  "pool_put pool page_idx page_cnt =
     bindR (bitmap_all (used_map pool) page_idx page_cnt) (\<lambda>all.
       assertR all (bindR (bitmap_set_multiple (used_map pool) page_idx page_cnt False) (\<lambda>b.
         Inr (pool\<lparr>used_map := b\<rparr>))))"

definition palloc_free_multiple :: "addr \<Rightarrow> nat \<Rightarrow> palloc \<Rightarrow> palloc res" where
  "palloc_free_multiple pages page_cnt s =
     assertR (pg_ofs pages = 0)
       (if pages = 0 \<or> page_cnt = 0 then Inr s
        else let s' = s\<lparr>pmem := mem_set pages 0xcc (PGSIZE * page_cnt) (pmem s)\<rparr>;
                 page_idx = (\<lambda>pool. unat (pg_no pages - pg_no (pool_base pool)))
             in if page_from_pool (kernel_pool s) pages
                then bindR (pool_put (kernel_pool s) (page_idx (kernel_pool s)) page_cnt) (\<lambda>p.
                       Inr (s'\<lparr>kernel_pool := p\<rparr>))
                else if page_from_pool (user_pool s) pages
                then bindR (pool_put (user_pool s) (page_idx (user_pool s)) page_cnt) (\<lambda>p.
                       Inr (s'\<lparr>user_pool := p\<rparr>))
                else Inl Panic)"

definition palloc_free_page :: "addr \<Rightarrow> palloc \<Rightarrow> palloc res" where
  "palloc_free_page page s = palloc_free_multiple page 1 s"

section \<open>A pool\<close>

text \<open>The pages of a pool, by number in the address space: they start at \<open>first_page\<close>, and none of
  them is page 0.\<close>

definition first_page :: "pool \<Rightarrow> nat" where
  "first_page p = unat (pg_no (pool_base p))"

definition pool_ok :: "pool \<Rightarrow> bool" where
  "pool_ok p \<longleftrightarrow> \<not> pool_locked p \<and> bitmap_ok (used_map p) \<and> pg_ofs (pool_base p) = 0
     \<and> 0 < first_page p \<and> first_page p + bit_cnt (used_map p) < 2 ^ 20"

definition pool_take :: "unit \<Rightarrow> pool \<Rightarrow> nat \<Rightarrow> (nat option \<times> pool) res" where
  "pool_take _ p n = bindR (pool_get p n) (\<lambda>(i, p). Inr (if i \<noteq> BITMAP_ERROR then Some i else None, p))"

lemma pool_get_cases:
  assumes "pool_ok p"
  obtains (found) i p' where "pool_get p n = Inr (i, p')" "i \<noteq> BITMAP_ERROR" "i + n \<le> bit_cnt (used_map p)"
      "marked (used_map p) \<inter> span (i, n) = {}" "marked (used_map p') = marked (used_map p) \<union> span (i, n)"
      "pool_ok p'" "pool_base p' = pool_base p" "bit_cnt (used_map p') = bit_cnt (used_map p)"
    | (full) "pool_get p n = Inr (BITMAP_ERROR, p)"
proof -
  have u: "\<not> pool_locked p" "bitmap_ok (used_map p)" using assms by (simp_all add: pool_ok_def)
  from u(2) show thesis
  proof (cases rule: scan_and_flip_marked [of _ n])
    case (found i b')
    let ?p = "p\<lparr>used_map := b'\<rparr>"
    have "pool_get p n = Inr (i, ?p)"
      using u found(1) by (simp add: pool_get_def pool_acquire_def pool_release_def)
    with found assms u show thesis
      by (intro that(1) [of i ?p]) (simp_all add: span_def pool_ok_def first_page_def)
  next
    case full
    then show thesis using u by (intro that(2)) (simp add: pool_get_def pool_acquire_def pool_release_def)
  qed
qed

lemma pool_put_marked:
  assumes "pool_ok p" "i + n \<le> bit_cnt (used_map p)" "span (i, n) \<subseteq> marked (used_map p)"
  obtains p' where "pool_put p i n = Inr p'" "pool_ok p'" "pool_base p' = pool_base p"
    "bit_cnt (used_map p') = bit_cnt (used_map p)" "marked (used_map p') = marked (used_map p) - span (i, n)"
proof -
  have ok: "bitmap_ok (used_map p)" using assms(1) by (simp add: pool_ok_def)
  from bitmap_clear_marked [OF ok assms(2)] obtain b' where
    b': "bitmap_set_multiple (used_map p) i n False = Inr b'" "bitmap_ok b'" "bit_cnt b' = bit_cnt (used_map p)"
      "marked b' = marked (used_map p) - {i..<i + n}" .
  show thesis
    using b' assms bitmap_all_taken [OF ok assms(2)]
    by (intro that [of "p\<lparr>used_map := b'\<rparr>"]) (simp_all add: pool_put_def span_def pool_ok_def first_page_def)
qed

interpretation pages: unit_allocator pool_ok "\<lambda>p. bit_cnt (used_map p)" "\<lambda>p. marked (used_map p)" pool_take pool_put
proof
  fix p n x assume p: "pool_ok p" "0 < (n::nat)"
  show "\<exists>r p'. pool_take x p n = Inr (r, p') \<and> pool_ok p' \<and> bit_cnt (used_map p') = bit_cnt (used_map p)"
    using p(1) by (cases rule: pool_get_cases [of _ n]) (use p(1) in \<open>simp_all add: pool_take_def\<close>)
  show "i + n \<le> bit_cnt (used_map p) \<and> marked (used_map p) \<inter> span (i, n) = {}
      \<and> marked (used_map p') = marked (used_map p) \<union> span (i, n)"
    if "pool_take x p n = Inr (Some i, p')" for i p'
    using p(1) that by (cases rule: pool_get_cases [of _ n]) (auto simp: pool_take_def)
  show "marked (used_map p') = marked (used_map p)" if "pool_take x p n = Inr (None, p')" for p'
    using p(1) that by (cases rule: pool_get_cases [of _ n]) (auto simp: pool_take_def)
  show "\<exists>p'. pool_put p i n = Inr p' \<and> pool_ok p' \<and> bit_cnt (used_map p') = bit_cnt (used_map p)
      \<and> marked (used_map p') = marked (used_map p) - span (i, n)"
    if "i + n \<le> bit_cnt (used_map p)" "span (i, n) \<subseteq> marked (used_map p)" for i
    using p(1) that by (rule pool_put_marked) blast
qed

section \<open>The whole allocator\<close>

text \<open>The two pools do not overlap: the pages of the user pool's bitmap lie between them.\<close>

definition palloc_ok :: "palloc \<Rightarrow> bool" where
  "palloc_ok s \<longleftrightarrow> pool_ok (kernel_pool s) \<and> pool_ok (user_pool s)
     \<and> first_page (kernel_pool s) + bit_cnt (used_map (kernel_pool s)) < first_page (user_pool s)"

definition pool_pages :: "pool \<Rightarrow> nat set" where
  "pool_pages p = (\<lambda>i. first_page p + i) ` marked (used_map p)"

definition pages_used :: "palloc \<Rightarrow> nat set" where
  "pages_used s = pool_pages (kernel_pool s) \<union> pool_pages (user_pool s)"

text \<open>The allocator as its clients see it: a request says whether it wants user pages and whether
  they are to be zeroed.\<close>

definition pflags :: "bool \<times> bool \<Rightarrow> palloc_flags" where
  "pflags x = (if fst x then PAL_USER else 0) OR (if snd x then PAL_ZERO else 0)"

definition palloc_take :: "bool \<times> bool \<Rightarrow> palloc \<Rightarrow> nat \<Rightarrow> (nat option \<times> palloc) res" where
  "palloc_take x s n =
     bindR (palloc_get_multiple (pflags x) n s) (\<lambda>(a, s).
       Inr (if a \<noteq> 0 then Some (unat (pg_no a)) else None, s))"

definition palloc_give :: "palloc \<Rightarrow> nat \<Rightarrow> nat \<Rightarrow> palloc res" where
  "palloc_give s i n = palloc_free_multiple (of_nat (PGSIZE * i)) n s"

lemma pflags_simps [simp]:
  "pflags x AND PAL_USER = 0 \<longleftrightarrow> \<not> fst x" "pflags x AND PAL_ZERO = 0 \<longleftrightarrow> \<not> snd x" "pflags x AND PAL_ASSERT = 0"
  by (simp_all add: pflags_def PAL_USER_def PAL_ZERO_def PAL_ASSERT_def)

lemma pool_page_addr:
  "pool_ok p \<Longrightarrow> pool_base p + of_nat (PGSIZE * i) = of_nat (PGSIZE * (first_page p + i))"
  using addr_of_page [of "pool_base p"] by (simp add: pool_ok_def first_page_def distrib_left)

lemma page_from_pool_iff:
  assumes "pool_ok p" "i < 2 ^ 20"
  shows "page_from_pool p (of_nat (PGSIZE * i)) \<longleftrightarrow> first_page p \<le> i \<and> i < first_page p + bit_cnt (used_map p)"
proof -
  have "unat (pg_no (pool_base p) + of_nat (bit_cnt (used_map p))) = first_page p + bit_cnt (used_map p)"
    using assms(1) by (subst unat_plus_if') (simp add: unat_of_nat pool_ok_def first_page_def)
  then show ?thesis
    using pg_no_page_addr [OF assms(2)]
    by (simp add: page_from_pool_def Let_def bitmap_size_def word_le_nat_alt word_less_nat_alt first_page_def)
qed

lemma page_idx_eq:
  assumes "pool_ok p" "i < 2 ^ 20" "first_page p \<le> i"
  shows "unat (pg_no (of_nat (PGSIZE * i)) - pg_no (pool_base p)) = i - first_page p"
  using assms(3) pg_no_page_addr [OF assms(2)]
  by (subst unat_sub) (simp_all add: first_page_def word_le_nat_alt)

lemma shift_span: "(\<lambda>j. f + j) ` span (i, n) = span (f + i, n)"
  by (simp add: span_def image_add_atLeastLessThan ac_simps)

lemma pool_pages_range: "pool_pages p \<subseteq> {first_page p..<first_page p + bit_cnt (used_map p)}"
  by (auto simp: pool_pages_def marked_def)

lemma pool_get_pages:
  assumes "pool_ok p" "pool_get p n = Inr (i, p')" "i \<noteq> BITMAP_ERROR"
  shows "pool_ok p'" "first_page p' = first_page p" "bit_cnt (used_map p') = bit_cnt (used_map p)"
    "pool_base p' = pool_base p" "i + n \<le> bit_cnt (used_map p)" "pool_pages p \<inter> span (first_page p + i, n) = {}"
    "pool_pages p' = pool_pages p \<union> span (first_page p + i, n)"
proof -
  have "i + n \<le> bit_cnt (used_map p) \<and> marked (used_map p) \<inter> span (i, n) = {}
      \<and> marked (used_map p') = marked (used_map p) \<union> span (i, n) \<and> pool_ok p' \<and> pool_base p' = pool_base p
      \<and> bit_cnt (used_map p') = bit_cnt (used_map p)"
    using assms(1) by (cases rule: pool_get_cases [of _ n]) (use assms in auto)
  note g = conjunct1 [OF this] conjunct2 [OF this]
  show "pool_ok p'" "bit_cnt (used_map p') = bit_cnt (used_map p)" "pool_base p' = pool_base p"
    "i + n \<le> bit_cnt (used_map p)" using g by auto
  then show f: "first_page p' = first_page p" by (simp add: first_page_def)
  show "pool_pages p \<inter> span (first_page p + i, n) = {}"
    unfolding pool_pages_def shift_span [symmetric] using g by (auto simp: image_Int [symmetric] inj_on_def)
  show "pool_pages p' = pool_pages p \<union> span (first_page p + i, n)"
    unfolding pool_pages_def shift_span [symmetric] f using g by (auto simp: image_Un)
qed

lemma pool_put_pages:
  assumes "pool_ok p" "first_page p \<le> i" "i + n \<le> first_page p + bit_cnt (used_map p)" "span (i, n) \<subseteq> pool_pages p"
  obtains p' where "pool_put p (i - first_page p) n = Inr p'" "pool_ok p'" "first_page p' = first_page p"
    "bit_cnt (used_map p') = bit_cnt (used_map p)" "pool_pages p' = pool_pages p - span (i, n)"
proof -
  let ?j = "i - first_page p"
  have i: "span (i, n) = (\<lambda>k. first_page p + k) ` span (?j, n)" using assms(2) by (simp add: shift_span)
  have "span (?j, n) \<subseteq> marked (used_map p)" using assms(4) unfolding i pool_pages_def by (auto simp: image_subset_iff)
  moreover have "?j + n \<le> bit_cnt (used_map p)" using assms(2,3) by simp
  ultimately obtain p' where p': "pool_put p ?j n = Inr p'" "pool_ok p'" "pool_base p' = pool_base p"
      "bit_cnt (used_map p') = bit_cnt (used_map p)" "marked (used_map p') = marked (used_map p) - span (?j, n)"
    using pool_put_marked [OF assms(1)] by blast
  have "pool_pages p' = pool_pages p - span (i, n)"
    unfolding i pool_pages_def using p' by (simp add: first_page_def image_set_diff inj_on_def)
  with p' show thesis by (intro that) (simp_all add: first_page_def)
qed

text \<open>The pool a request is served from, and the state with that pool replaced.\<close>

definition pool_of :: "bool \<Rightarrow> palloc \<Rightarrow> pool" where
  "pool_of u s = (if u then user_pool s else kernel_pool s)"

definition with_pool :: "bool \<Rightarrow> pool \<Rightarrow> palloc \<Rightarrow> palloc" where
  "with_pool u p s = (if u then s\<lparr>user_pool := p\<rparr> else s\<lparr>kernel_pool := p\<rparr>)"

lemma pool_of_ok: "palloc_ok s \<Longrightarrow> pool_ok (pool_of u s)"
  by (simp add: palloc_ok_def pool_of_def)

lemma palloc_ok_with_pool:
  assumes "palloc_ok s" "pool_ok p" "first_page p = first_page (pool_of u s)"
    "bit_cnt (used_map p) = bit_cnt (used_map (pool_of u s))"
  shows "palloc_ok (with_pool u p s)"
  using assms by (simp add: palloc_ok_def pool_of_def with_pool_def split: if_splits)

lemma palloc_ok_mem [simp]: "palloc_ok (s\<lparr>pmem := m\<rparr>) = palloc_ok s" "pages_used (s\<lparr>pmem := m\<rparr>) = pages_used s"
  by (simp_all add: palloc_ok_def pages_used_def)

text \<open>The pages of one pool are never those of the other.\<close>

lemma other_pool:
  assumes "palloc_ok s" "S \<subseteq> {first_page (pool_of u s)..<first_page (pool_of u s) + bit_cnt (used_map (pool_of u s))}"
  shows "pool_pages (pool_of (\<not> u) s) \<inter> S = {}"
  using assms pool_pages_range [of "pool_of (\<not> u) s"] unfolding palloc_ok_def pool_of_def
  by (cases u) fastforce+

lemma pages_used_pool: "pages_used s = pool_pages (pool_of u s) \<union> pool_pages (pool_of (\<not> u) s)"
  by (auto simp: pages_used_def pool_of_def)

lemma pool_of_with_pool [simp]: "pool_of u (with_pool u p s) = p" "pool_of (\<not> u) (with_pool u p s) = pool_of (\<not> u) s"
  by (simp_all add: pool_of_def with_pool_def)

lemma palloc_take_form:
  "0 < n \<Longrightarrow> palloc_take x s n =
    bindR (pool_get (pool_of (fst x) s) n) (\<lambda>(i, p).
      let a = (if i \<noteq> BITMAP_ERROR then pool_base p + of_nat (PGSIZE * i) else 0);
          s = with_pool (fst x) p s
      in Inr (if a \<noteq> 0 then Some (unat (pg_no a)) else None,
              if a \<noteq> 0 \<and> snd x then s\<lparr>pmem := mem_set a 0 (PGSIZE * n) (pmem s)\<rparr> else s))"
  by (cases "pool_get (pool_of (fst x) s) n")
    (auto simp: palloc_take_def palloc_get_multiple_def pool_of_def with_pool_def Let_def)

lemma palloc_take_cases:
  assumes "palloc_ok s" "0 < n"
  obtains (found) i s' where "palloc_take x s n = Inr (Some i, s')" "palloc_ok s'" "i + n \<le> 2 ^ 20"
      "pages_used s \<inter> span (i, n) = {}" "pages_used s' = pages_used s \<union> span (i, n)"
    | (full) "palloc_take x s n = Inr (None, s)"
proof -
  let ?p = "pool_of (fst x) s"
  have p: "pool_ok ?p" by (rule pool_of_ok [OF assms(1)])
  then show thesis
  proof (cases rule: pool_get_cases [of _ n])
    case (found i p')
    note g = pool_get_pages [OF p found(1,2)]
    let ?j = "first_page ?p + i" and ?s = "with_pool (fst x) p' s"
    have lt: "?j < 2 ^ 20" "0 < ?j" using p g(5) assms(2) by (simp_all add: pool_ok_def)
    have a: "pool_base p' + of_nat (PGSIZE * i) = of_nat (PGSIZE * ?j)" using pool_page_addr [OF p] g(4) by simp
    obtain m where t: "palloc_take x s n = Inr (Some ?j, ?s\<lparr>pmem := m\<rparr>)"
    proof (cases "snd x")
      case True
      show thesis
        by (rule that) (use True assms(2) found(1,2) lt in \<open>simp add: palloc_take_form a page_addr_0 pg_no_page_addr Let_def del: of_nat_mult\<close>)
    next
      case False
      have "?s = ?s\<lparr>pmem := pmem ?s\<rparr>" by simp
      moreover have "palloc_take x s n = Inr (Some ?j, ?s)"
        using False assms(2) found(1,2) lt by (simp add: palloc_take_form a page_addr_0 pg_no_page_addr Let_def del: of_nat_mult)
      ultimately show thesis by (metis that)
    qed
    have "palloc_ok ?s" by (rule palloc_ok_with_pool [OF assms(1) g(1-3)])
    moreover have "span (?j, n) \<subseteq> {first_page ?p..<first_page ?p + bit_cnt (used_map ?p)}"
      using g(5) by (auto simp: span_def)
    then have "pool_pages (pool_of (\<not> fst x) s) \<inter> span (?j, n) = {}" by (rule other_pool [OF assms(1)])
    moreover have "?j + n \<le> 2 ^ 20" using p g(5) by (simp add: pool_ok_def)
    moreover have "pages_used ?s = pages_used s \<union> span (?j, n)"
      using g(7) by (auto simp: pages_used_pool [of _ "fst x"])
    ultimately show thesis
      using t g(6) by (intro that(1) [OF t]) (auto simp: pages_used_pool [of s "fst x"])
  next
    case full
    then show thesis using assms(2) by (intro that(2)) (simp add: palloc_take_form Let_def with_pool_def pool_of_def)
  qed
qed

text \<open>A group of used pages lies in one pool, since the bitmap of the user pool separates the two.\<close>

lemma span_in_pool:
  assumes "palloc_ok s" "0 < n" "span (i, n) \<subseteq> pages_used s"
  obtains u where "span (i, n) \<subseteq> pool_pages (pool_of u s)"
proof -
  let ?k = "kernel_pool s" and ?u = "user_pool s"
  let ?e = "first_page ?k + bit_cnt (used_map ?k)"
  have lt: "?e < first_page ?u" using assms(1) by (simp add: palloc_ok_def)
  note r = pool_pages_range [of ?k] pool_pages_range [of ?u]
  have "?e \<notin> pages_used s" using r lt by (auto simp: pages_used_def)
  then have e: "?e \<notin> span (i, n)" using assms(3) by blast
  show thesis
  proof (cases "i < ?e")
    case True
    have "span (i, n) \<inter> pool_pages ?u = {}" using r(2) lt e True by (fastforce simp: span_def)
    then have "span (i, n) \<subseteq> pool_pages ?k" using assms(3) unfolding pages_used_def by blast
    then show thesis by (intro that [of False]) (simp add: pool_of_def)
  next
    case False
    have "span (i, n) \<inter> pool_pages ?k = {}" using r(1) False by (fastforce simp: span_def)
    then have "span (i, n) \<subseteq> pool_pages ?u" using assms(3) unfolding pages_used_def by blast
    then show thesis by (intro that [of True]) (simp add: pool_of_def)
  qed
qed

lemma palloc_give_form:
  assumes "palloc_ok s" "0 < n" "i < 2 ^ 20" "first_page (pool_of u s) \<le> i"
    "i < first_page (pool_of u s) + bit_cnt (used_map (pool_of u s))"
  shows "\<exists>m. palloc_give s i n = bindR (pool_put (pool_of u s) (i - first_page (pool_of u s)) n)
    (\<lambda>p. Inr (with_pool u p (s\<lparr>pmem := m\<rparr>)))"
proof -
  have k: "pool_ok (kernel_pool s)" "pool_ok (user_pool s)"
    and lt: "first_page (kernel_pool s) + bit_cnt (used_map (kernel_pool s)) < first_page (user_pool s)"
    using assms(1) by (simp_all add: palloc_ok_def)
  have "0 < i" using assms(4) pool_of_ok [OF assms(1), of u] by (simp add: pool_ok_def)
  then show ?thesis
    using assms(2-5) k lt
    by (cases u)
      (auto simp: palloc_give_def palloc_free_multiple_def pg_ofs_page_addr page_addr_0 page_from_pool_iff page_idx_eq
         pool_of_def with_pool_def simp del: of_nat_mult)
qed

lemma palloc_give_used:
  assumes "palloc_ok s" "0 < n" "i + n \<le> 2 ^ 20" "span (i, n) \<subseteq> pages_used s"
  shows "\<exists>s'. palloc_give s i n = Inr s' \<and> palloc_ok s' \<and> pages_used s' = pages_used s - span (i, n)"
proof -
  obtain u where u: "span (i, n) \<subseteq> pool_pages (pool_of u s)" using span_in_pool [OF assms(1,2,4)] .
  let ?p = "pool_of u s"
  have in_range: "span (i, n) \<subseteq> {first_page ?p..<first_page ?p + bit_cnt (used_map ?p)}"
    using u pool_pages_range by blast
  have ends: "i \<in> span (i, n)" "i + n - 1 \<in> span (i, n)" using assms(2) by (auto simp: span_def)
  have i: "first_page ?p \<le> i" "i < first_page ?p + bit_cnt (used_map ?p)"
    "i + n \<le> first_page ?p + bit_cnt (used_map ?p)" "i < 2 ^ 20"
    using subsetD [OF in_range ends(1)] subsetD [OF in_range ends(2)] assms(2,3) by auto
  obtain p' where p': "pool_put ?p (i - first_page ?p) n = Inr p'" "pool_ok p'" "first_page p' = first_page ?p"
      "bit_cnt (used_map p') = bit_cnt (used_map ?p)" "pool_pages p' = pool_pages ?p - span (i, n)"
    using pool_put_pages [OF pool_of_ok [OF assms(1)] i(1,3) u] .
  obtain m where m: "palloc_give s i n = Inr (with_pool u p' (s\<lparr>pmem := m\<rparr>))"
    using palloc_give_form [OF assms(1,2) i(4,1,2)] p'(1) by auto
  have "palloc_ok (with_pool u p' (s\<lparr>pmem := m\<rparr>))"
    using p' assms(1) by (intro palloc_ok_with_pool) (simp_all add: pool_of_def)
  moreover have "pool_of (\<not> u) (s\<lparr>pmem := m\<rparr>) = pool_of (\<not> u) s" by (simp add: pool_of_def)
  then have "pages_used (with_pool u p' (s\<lparr>pmem := m\<rparr>)) = pages_used s - span (i, n)"
    using p'(5) other_pool [OF assms(1) in_range] unfolding pages_used_pool [of _ u] by (auto simp del: palloc_ok_mem)
  ultimately show ?thesis using m by blast
qed

interpretation palloc_units: unit_allocator palloc_ok "\<lambda>_. 2 ^ 20" pages_used palloc_take palloc_give
proof
  fix s n x assume s: "palloc_ok s" "0 < (n::nat)"
  show "\<exists>r s'. palloc_take x s n = Inr (r, s') \<and> palloc_ok s' \<and> (2::nat) ^ 20 = 2 ^ 20"
    using s by (cases rule: palloc_take_cases [of _ _ x]) (use s in auto)
  show "i + n \<le> 2 ^ 20 \<and> pages_used s \<inter> span (i, n) = {} \<and> pages_used s' = pages_used s \<union> span (i, n)"
    if "palloc_take x s n = Inr (Some i, s')" for i s'
    using s by (cases rule: palloc_take_cases [of _ _ x]) (use that in auto)
  show "pages_used s' = pages_used s" if "palloc_take x s n = Inr (None, s')" for s'
    using s by (cases rule: palloc_take_cases [of _ _ x]) (use that in auto)
  show "\<exists>s'. palloc_give s i n = Inr s' \<and> palloc_ok s' \<and> (2::nat) ^ 20 = 2 ^ 20 \<and> pages_used s' = pages_used s - span (i, n)"
    if "i + n \<le> 2 ^ 20" "span (i, n) \<subseteq> pages_used s" for i
    using palloc_give_used [OF s that] by simp
qed

section \<open>Initialization\<close>

lemma bm_pages_bounds:
  assumes "1 \<le> c" "c < 2 ^ 20"
  shows "1 \<le> DIV_ROUND_UP (bitmap_buf_size c) PGSIZE" "DIV_ROUND_UP (bitmap_buf_size c) PGSIZE \<le> c"
    "bitmap_buf_size c \<le> DIV_ROUND_UP (bitmap_buf_size c) PGSIZE * PGSIZE"
proof -
  have b: "bitmap_buf_size c = 8 + 4 * ((c + 31) div 32)"
    using assms by (simp add: bitmap_buf_size_def byte_cnt_def elem_cnt_def ELEM_BITS_def szadd_small)
  have "32 * ((c + 31) div 32) \<le> c + 31" by simp
  then have le: "8 + 4 * ((c + 31) div 32) \<le> c + 11" using assms(1) by linarith
  have s: "DIV_ROUND_UP x PGSIZE = (x + 4095) div 4096" for x by (simp add: DIV_ROUND_UP_def PGSIZE_def PGBITS_def)
  have "4096 \<le> bitmap_buf_size c + 4095" using b by simp
  then show "1 \<le> DIV_ROUND_UP (bitmap_buf_size c) PGSIZE" unfolding s
    by (metis One_nat_def Suc_leI div_greater_zero_iff zero_less_numeral)
  have "bitmap_buf_size c + 4095 < 4096 * Suc c" using b le assms(1) by simp
  then show "DIV_ROUND_UP (bitmap_buf_size c) PGSIZE \<le> c"
    unfolding s by (metis less_Suc_eq_le less_mult_imp_div_less mult.commute)
  have "x \<le> (x + 4095) div 4096 * 4096" for x :: nat by linarith
  then show "bitmap_buf_size c \<le> DIV_ROUND_UP (bitmap_buf_size c) PGSIZE * PGSIZE"
    unfolding s by (simp add: PGSIZE_def PGBITS_def)
qed

lemma elem_cnt_mono: "a \<le> c \<Longrightarrow> c < 2 ^ 20 \<Longrightarrow> elem_cnt a \<le> elem_cnt c"
  by (simp add: elem_cnt_def ELEM_BITS_def szadd_small div_le_mono)

lemma init_pool_ok:
  assumes "0 < f" "1 \<le> c" "f + c < 2 ^ 20"
  shows "\<exists>p. init_pool m (of_nat (PGSIZE * f)) c = Inr p \<and> pool_ok p \<and> f < first_page p
    \<and> first_page p + bit_cnt (used_map p) = f + c \<and> marked (used_map p) = {}"
proof -
  define d where "d = DIV_ROUND_UP (bitmap_buf_size c) PGSIZE"
  have c: "c < 2 ^ 20" using assms by simp
  have d: "1 \<le> d" "d \<le> c" "bitmap_buf_size c \<le> d * PGSIZE"
    using bm_pages_bounds [OF assms(2) c] by (simp_all only: d_def)
  define block where "block = mem_words m (of_nat (PGSIZE * f)) (d * PGSIZE div 4)"
  have bs: "bitmap_buf_size (c - d) \<le> d * PGSIZE"
    using elem_cnt_mono [of "c - d" c] c d(3) by (simp add: bitmap_buf_size_def byte_cnt_def)
  have "8 + 4 * elem_cnt (c - d) \<le> d * PGSIZE" using bs by (simp add: bitmap_buf_size_def byte_cnt_def)
  then have len: "elem_cnt (c - d) + 2 \<le> length block"
    by (simp add: block_def mem_words_def PGSIZE_def PGBITS_def)
  have "bitmap_ok \<lparr>bit_cnt = c - d, bm_bits = take (elem_cnt (c - d)) (drop 2 block)\<rparr>"
    using len c by (simp add: bitmap_ok_def ELEM_BITS_def)
  from bitmap_set_all_clear [OF this]
  obtain b where b: "bitmap_create_in_buf (c - d) block (d * PGSIZE) = Inr b" "bitmap_ok b" "bit_cnt b = c - d" "marked b = {}"
    using bs by (auto simp: bitmap_create_in_buf_def)
  let ?a = "of_nat (PGSIZE * f) + of_nat (d * PGSIZE) :: addr"
  have a: "?a = of_nat (PGSIZE * (f + d))" by (simp add: algebra_simps)
  have fd: "f + d < 2 ^ 20" using assms d by simp
  have i: "init_pool m (of_nat (PGSIZE * f)) c = Inr \<lparr>pool_locked = False, used_map = b, pool_base = ?a\<rparr>"
    using b(1) d(2) unfolding init_pool_def Let_def d_def [symmetric] block_def [symmetric] by (simp del: of_nat_mult)
  show ?thesis
    using b d(1,2) fd assms(1,3) pg_no_page_addr [OF fd] pg_ofs_page_addr [OF fd]
    unfolding i a by (simp add: pool_ok_def first_page_def del: of_nat_mult of_nat_add)
qed

text \<open>Physical memory of \<open>r\<close> pages: the first megabyte (256 pages) is not handed out.\<close>

lemma palloc_init_ok:
  assumes "258 \<le> r" "r < 2 ^ 18" "1 \<le> l"
  shows "\<exists>s. palloc_init r l m = Inr s \<and> palloc_ok s \<and> pages_used s = {}"
proof -
  define c where "c = r - 256"
  define u where "u = min (c div 2) l"
  have c: "2 \<le> c" "c < 2 ^ 18 - 256" "r = 256 + c" using assms by (simp_all add: c_def)
  have u: "1 \<le> u" "u \<le> c div 2" using c assms(3) by (auto simp: u_def)
  let ?f = "0xc0100 :: nat"
  have start: "ptov (1024 * 1024) = Inr (of_nat (PGSIZE * ?f))"
    by (simp add: ptov_def PHYS_BASE_def PGSIZE_def PGBITS_def)
  have "unat (of_nat (PGSIZE * r) :: addr) = 4096 * r" using assms(2) by (intro unat_page_addr) simp
  then have "of_nat (PGSIZE * r) < PHYS_BASE"
    using assms(2) by (simp add: word_less_nat_alt PHYS_BASE_def del: of_nat_mult)
  moreover have "of_nat (PGSIZE * r) + PHYS_BASE = of_nat (PGSIZE * (?f + c))"
    using c(3) by (simp add: PHYS_BASE_def PGSIZE_def PGBITS_def algebra_simps)
  ultimately have fin: "ptov (of_nat (r * PGSIZE)) = Inr (of_nat (PGSIZE * (?f + c)))"
    by (simp add: ptov_def mult.commute [of r] del: of_nat_mult)
  have "(of_nat (PGSIZE * (?f + c)) - of_nat (PGSIZE * ?f) :: addr) = of_nat (PGSIZE * c)"
    by (simp add: algebra_simps)
  moreover have "sint (of_nat (PGSIZE * c) :: addr) = int (4096 * c)"
    using s32_sint [of "int (PGSIZE * c)"] s32_id [of "int (PGSIZE * c)"] c(2)
    by (simp add: in_s32_def PGSIZE_def PGBITS_def)
  moreover have "int (4096 * c) sdiv int PGSIZE = int c"
    using sdiv_mult_self [of 4096 "int c"] by (simp add: PGSIZE_def PGBITS_def mult.commute)
  ultimately have pages: "unat (word_of_int (sint (of_nat (PGSIZE * (?f + c)) - of_nat (PGSIZE * ?f) :: addr) sdiv int PGSIZE) :: addr) = c"
    using c(2) by (simp add: unat_addr)
  have ku: "c - u + u = c" "1 \<le> c - u" using u c by simp_all
  then have lt: "?f + (c - u) < 2 ^ 20" "?f + (c - u) + u < 2 ^ 20" using c(2) by simp_all
  obtain kp where kp: "init_pool m (of_nat (PGSIZE * ?f)) (c - u) = Inr kp" "pool_ok kp"
      "first_page kp + bit_cnt (used_map kp) = ?f + (c - u)" "marked (used_map kp) = {}"
    using init_pool_ok [of ?f "c - u" m, OF _ ku(2) lt(1)] by auto
  have b: "(of_nat (PGSIZE * ?f) + of_nat ((c - u) * PGSIZE) :: addr) = of_nat (PGSIZE * (?f + (c - u)))"
    by (simp add: algebra_simps)
  obtain up where up: "init_pool m (of_nat (PGSIZE * (?f + (c - u)))) u = Inr up" "pool_ok up"
      "?f + (c - u) < first_page up" "marked (used_map up) = {}"
    using init_pool_ok [of "?f + (c - u)" u m, OF _ u(1) lt(2)] by auto
  have "(if c div 2 > l then l else c div 2) = u" by (simp add: u_def)
  then have "palloc_init r l m = Inr \<lparr>kernel_pool = kp, user_pool = up, pmem = m\<rparr>"
    unfolding palloc_init_def start fin bindR_Inr pages Let_def by (simp only: kp(1) b up(1) bindR_Inr)
  then show ?thesis using kp up by (simp add: palloc_ok_def pages_used_def pool_pages_def)
qed

section \<open>Properties\<close>

lemma palloc_get_found:
  assumes "palloc_ok s" "palloc_get_multiple flags n s = Inr (a, s')" "a \<noteq> 0"
  obtains j where "a = of_nat (PGSIZE * j)" "j + n < 2 ^ 20" "pages_used s \<inter> span (j, n) = {}"
    "pmem s' = (if flags AND PAL_ZERO \<noteq> 0 then mem_set a 0 (PGSIZE * n) (pmem s) else pmem s)"
proof -
  define u where "u \<longleftrightarrow> flags AND PAL_USER \<noteq> 0"
  let ?p = "pool_of u s"
  have ok: "pool_ok ?p" by (rule pool_of_ok [OF assms(1)])
  obtain i p' where g: "pool_get ?p n = Inr (i, p')" "i \<noteq> BITMAP_ERROR"
    and a: "a = pool_base p' + of_nat (PGSIZE * i)"
    and m: "pmem s' = (if flags AND PAL_ZERO \<noteq> 0 then mem_set a 0 (PGSIZE * n) (pmem s) else pmem s)"
    using assms(2,3) unfolding palloc_get_multiple_def pool_of_def u_def [symmetric] Let_def
    by (auto split: if_splits)
  note h = pool_get_pages [OF ok g]
  have "span (first_page ?p + i, n) \<subseteq> {first_page ?p..<first_page ?p + bit_cnt (used_map ?p)}"
    using h(5) by (auto simp: span_def)
  then have "pages_used s \<inter> span (first_page ?p + i, n) = {}"
    using other_pool [OF assms(1)] h(6) unfolding pages_used_pool [of s u] by blast
  moreover have "first_page ?p + i + n < 2 ^ 20" using ok h(5) by (simp add: pool_ok_def)
  moreover have "a = of_nat (PGSIZE * (first_page ?p + i))" using a h(4) pool_page_addr [OF ok] by simp
  ultimately show thesis using m by (intro that) simp_all
qed

lemma mem_set_page:
  assumes "j + n < 2 ^ 20" "unat (pg_no x) \<notin> span (j, n)"
  shows "mem_set (of_nat (PGSIZE * j)) v (PGSIZE * n) m x = m x"
proof -
  let ?a = "of_nat (PGSIZE * j) :: addr"
  have a: "unat ?a = 4096 * j" using assms(1) by (intro unat_page_addr) simp
  have "\<not> unat (x - ?a) < 4096 * n"
  proof
    assume lt: "unat (x - ?a) < 4096 * n"
    have "unat (?a + (x - ?a)) = unat ?a + unat (x - ?a)"
      using lt a assms(1) by (subst unat_plus_if') simp
    then have "unat x = 4096 * j + unat (x - ?a)" using a by (simp del: of_nat_mult)
    then have "j \<le> unat x div 4096" "unat x div 4096 < j + n" using lt by linarith+
    then show False using assms(2) by (simp add: span_def unat_pg_no)
  qed
  then show ?thesis by (simp add: mem_set_def PGSIZE_def PGBITS_def)
qed

text \<open>\<^verbatim>\<open>PAL_ASSERT\<close> turns a refusal into a panic and changes nothing else.\<close>

lemma palloc_get_asserting:
  assumes "0 < n"
  shows "palloc_get_multiple (pflags x OR PAL_ASSERT) n s =
    bindR (palloc_get_multiple (pflags x) n s) (\<lambda>(a, s'). if a = 0 then Inl Panic else Inr (a, s'))"
proof -
  have bits: "(pflags x OR PAL_ASSERT) AND PAL_USER = pflags x AND PAL_USER"
      "(pflags x OR PAL_ASSERT) AND PAL_ZERO = pflags x AND PAL_ZERO"
      "(pflags x OR PAL_ASSERT) AND PAL_ASSERT \<noteq> 0"
    by (simp_all add: bit.conj_disj_distrib2 del: pflags_simps) (simp_all add: PAL_USER_def PAL_ZERO_def PAL_ASSERT_def)
  show ?thesis
    unfolding palloc_get_multiple_def bits(1,2) Let_def using assms bits(3)
    by (cases "pool_get (if fst x then user_pool s else kernel_pool s) n") auto
qed

text \<open>C27. The page allocator never hands out a page twice: after \<^verbatim>\<open>palloc_init\<close> (with at least two free
  pages, less than 1 GB of memory and a user pool), every sequence of requests and releases of
  non-empty groups, from either pool, in which no request sets \<^verbatim>\<open>PAL_ASSERT\<close>, runs without a panic, the
  groups held at its end do not overlap, and all of their pages are marked as used. At its end, a request
  that sets \<^verbatim>\<open>PAL_ASSERT\<close> does what the same request without that flag does, except that it panics where
  the other gets the null pointer.\<close>

theorem palloc_groups_disjoint:
  assumes "258 \<le> init_ram_pages" "init_ram_pages < 2 ^ 18" "1 \<le> user_page_limit"
    and "\<forall>r \<in> set rs. sensible r"
  shows "\<exists>s s' gs. palloc_init init_ram_pages user_page_limit m = Inr s
    \<and> alloc_run palloc_take palloc_give rs s [] = Inr (s', gs)
    \<and> sorted_wrt apart gs \<and> (\<forall>g \<in> set gs. span g \<subseteq> pages_used s')
    \<and> (\<forall>x n. 0 < n \<longrightarrow> palloc_get_multiple (pflags x OR PAL_ASSERT) n s' =
         bindR (palloc_get_multiple (pflags x) n s') (\<lambda>(a, s''). if a = 0 then Inl Panic else Inr (a, s'')))"
proof -
  obtain s s' gs where "palloc_init init_ram_pages user_page_limit m = Inr s"
      "alloc_run palloc_take palloc_give rs s [] = Inr (s', gs)"
      "sorted_wrt apart gs \<and> (\<forall>g \<in> set gs. span g \<subseteq> pages_used s')"
    using palloc_init_ok [OF assms(1-3)] palloc_units.run_apart [OF _ assms(4)] by blast
  then show ?thesis
    by (intro exI [of _ s] exI [of _ s'] exI [of _ gs]) (simp add: palloc_get_asserting)
qed

theorem palloc_groups_disjoint_witness:
  "\<exists>s s' gs. palloc_init 1024 64 (\<lambda>_. 0) = Inr s
    \<and> alloc_run palloc_take palloc_give [Take (True, True) 3, Take (False, False) 2, Give 1, Take (True, False) 1] s [] = Inr (s', gs)
    \<and> sorted_wrt apart gs \<and> (\<forall>g \<in> set gs. span g \<subseteq> pages_used s')"
proof -
  let ?rs = "[Take (True, True) 3, Take (False, False) 2, Give 1, Take (True, False) 1]"
  have rs: "\<forall>r \<in> set ?rs. sensible r" and c: "258 \<le> (1024 :: nat)" "1024 < (2 :: nat) ^ 18" "1 \<le> (64 :: nat)" by simp_all
  obtain s s' gs where "palloc_init 1024 64 (\<lambda>_. 0) = Inr s" "alloc_run palloc_take palloc_give ?rs s [] = Inr (s', gs)"
      "sorted_wrt apart gs" "\<forall>g \<in> set gs. span g \<subseteq> pages_used s'"
    using palloc_groups_disjoint [OF c rs, of "\<lambda>_. 0"] by (elim exE conjE)
  then show ?thesis by (intro exI conjI)
qed

text \<open>C28. An allocation leaves the contents of every page in use alone, whichever flags it is given; with
  \<^verbatim>\<open>PAL_ZERO\<close> every byte of the new pages is zero.\<close>

theorem palloc_get_multiple_memory:
  assumes "palloc_ok s" "palloc_get_multiple flags n s = Inr (a, s')" "a \<noteq> 0"
  shows "(\<forall>x. unat (pg_no x) \<in> pages_used s \<longrightarrow> pmem s' x = pmem s x)
    \<and> (flags AND PAL_ZERO \<noteq> 0 \<longrightarrow> (\<forall>k < PGSIZE * n. pmem s' (a + of_nat k) = 0))"
proof -
  obtain j where j: "a = of_nat (PGSIZE * j)" "j + n < 2 ^ 20" "pages_used s \<inter> span (j, n) = {}"
    "pmem s' = (if flags AND PAL_ZERO \<noteq> 0 then mem_set a 0 (PGSIZE * n) (pmem s) else pmem s)"
    using palloc_get_found [OF assms] .
  have "pmem s' x = pmem s x" if "unat (pg_no x) \<in> pages_used s" for x
    using mem_set_page [OF j(2)] that j(1,3,4) by auto
  moreover have "pmem s' (a + of_nat k) = 0" if "flags AND PAL_ZERO \<noteq> 0" "k < PGSIZE * n" for k
  proof -
    have "k < 2 ^ 32" using that(2) j(2) by (simp add: PGSIZE_def PGBITS_def)
    then show ?thesis using that j(4) by (simp add: mem_set_def unat_addr)
  qed
  ultimately show ?thesis by blast
qed

theorem palloc_get_multiple_memory_witness:
  "\<exists>s a s'. palloc_ok s \<and> palloc_get_multiple (PAL_ZERO OR PAL_USER) 1 s = Inr (a, s') \<and> a \<noteq> 0
    \<and> (\<forall>k < PGSIZE. pmem s' (a + of_nat k) = 0)"
proof -
  let ?b = "\<lparr>bit_cnt = 2, bm_bits = [0]\<rparr> :: bitmap"
  let ?s = "\<lparr>kernel_pool = \<lparr>pool_locked = False, used_map = ?b, pool_base = 0x1000\<rparr>,
             user_pool = \<lparr>pool_locked = False, used_map = ?b, pool_base = 0x8000\<rparr>, pmem = \<lambda>_. 7\<rparr>"
  have b: "bitmap_ok ?b" by (simp add: bitmap_ok_def elem_cnt_def ELEM_BITS_def szadd_def)
  have s: "palloc_ok ?s"
    using b by (simp add: palloc_ok_def pool_ok_def first_page_def unat_pg_no pg_ofs_def PGMASK_mask take_bit_eq_mask [symmetric] take_bit_eq_mod)
  have "bitmap_scan_and_flip ?b 0 1 False = Inr (0, \<lparr>bit_cnt = 2, bm_bits = [1]\<rparr>)"
    by (simp add: bitmap_scan_and_flip_def bitmap_scan_def scan_loop.simps bitmap_contains_def bitmap_test_def
        bitmap_set_multiple_def bitmap_set_def bitmap_mark_def upd_elem_def elem_idx_def ELEM_BITS_def bit_mask_def
        szadd_def BITMAP_ERROR_def)
  then obtain s' where g: "palloc_get_multiple (PAL_ZERO OR PAL_USER) 1 ?s = Inr (0x8000, s')"
    by (simp add: palloc_get_multiple_def PAL_ZERO_def PAL_USER_def pool_get_def pool_acquire_def pool_release_def BITMAP_ERROR_def)
  have z: "PAL_ZERO OR PAL_USER AND PAL_ZERO \<noteq> 0" by (simp add: PAL_ZERO_def PAL_USER_def)
  have nz: "(0x8000 :: addr) \<noteq> 0" by (rule notI, drule arg_cong [where f = unat]) simp
  have "\<forall>k < PGSIZE. pmem s' (0x8000 + of_nat k) = 0"
    using palloc_get_multiple_memory [OF s g nz] z by simp
  with s g nz show ?thesis by blast
qed

end
