(* ===== verification/Block.thy ===== *)
theory Block
  imports Bytes
begin

text \<open>
  \<^verbatim>\<open>devices/block.c\<close> and \<^verbatim>\<open>devices/partition.c\<close>: the registered block devices and the partitions on
  them. A device is named by its position in the list of all devices, which only grows. The
  contents of the disks are \<open>media\<close>: what the IDE controller (\<^verbatim>\<open>devices/ide.c\<close>) reads and writes.
\<close>

section \<open>Block devices\<close>

definition BLOCK_SECTOR_SIZE :: nat where "BLOCK_SECTOR_SIZE = 512"

datatype block_type = BLOCK_KERNEL | BLOCK_FILESYS | BLOCK_SCRATCH | BLOCK_SWAP | BLOCK_RAW | BLOCK_FOREIGN

text \<open>Who serves a device: an IDE disk, or a partition of the device \<open>block\<close> from a sector on.\<close>

datatype block_ops = Ide nat | Partition nat nat

record block =
  blk_name :: string
  blk_type :: block_type
  blk_size :: nat
  blk_ops :: block_ops
  read_cnt :: nat
  write_cnt :: nat

record blocks =
  all_blocks :: "block list"
  block_by_role :: "block_type \<Rightarrow> nat option"
  media :: "nat \<Rightarrow> nat \<Rightarrow> byte list"
  mallocs :: "bool list"

text \<open>\<open>mallocs\<close> says of each of the coming calls of \<^verbatim>\<open>malloc\<close> whether it succeeds; the calls after those
  succeed.\<close>

definition try_malloc :: "blocks \<Rightarrow> bool \<times> blocks" where
  "try_malloc s = (case mallocs s of [] \<Rightarrow> (True, s) | got # rest \<Rightarrow> (got, s\<lparr>mallocs := rest\<rparr>))"

fun block_type_name :: "block_type \<Rightarrow> string" where
  "block_type_name BLOCK_KERNEL = ''kernel''"
| "block_type_name BLOCK_FILESYS = ''filesys''"
| "block_type_name BLOCK_SCRATCH = ''scratch''"
| "block_type_name BLOCK_SWAP = ''swap''"
| "block_type_name BLOCK_RAW = ''raw''"
| "block_type_name BLOCK_FOREIGN = ''foreign''"

definition is_role :: "block_type \<Rightarrow> bool" where
  "is_role t \<longleftrightarrow> t \<noteq> BLOCK_RAW \<and> t \<noteq> BLOCK_FOREIGN"

definition block_get_role :: "block_type \<Rightarrow> blocks \<Rightarrow> nat option res" where
  "block_get_role role s = assertR (is_role role) (Inr (block_by_role s role))"

definition block_set_role :: "block_type \<Rightarrow> nat option \<Rightarrow> blocks \<Rightarrow> blocks res" where
  "block_set_role role b s =
     assertR (is_role role) (Inr (s\<lparr>block_by_role := (block_by_role s)(role := b)\<rparr>))"

definition list_elem_to_block :: "nat \<Rightarrow> blocks \<Rightarrow> nat option" where
  "list_elem_to_block e s = (if e \<noteq> length (all_blocks s) then Some e else None)"

definition block_first :: "blocks \<Rightarrow> nat option" where
  "block_first s = list_elem_to_block 0 s"

definition block_next :: "nat \<Rightarrow> blocks \<Rightarrow> nat option" where
  "block_next b s = list_elem_to_block (b + 1) s"

fun find_name :: "string \<Rightarrow> nat \<Rightarrow> block list \<Rightarrow> nat option" where
  "find_name name e [] = None"
| "find_name name e (b # bs) = (if name = blk_name b then Some e else find_name name (e + 1) bs)"

definition block_get_by_name :: "string \<Rightarrow> blocks \<Rightarrow> nat option" where
  "block_get_by_name name s = find_name name 0 (all_blocks s)"

definition get_block :: "nat \<Rightarrow> blocks \<Rightarrow> block res" where
  "get_block b s = (if b < length (all_blocks s) then Inr (all_blocks s ! b) else Inl NullDeref)"

definition check_sector :: "block \<Rightarrow> nat \<Rightarrow> 'a res \<Rightarrow> 'a res" where
  "check_sector blk sector k = (if sector \<ge> blk_size blk then Inl Panic else k)"

definition upd_block :: "nat \<Rightarrow> (block \<Rightarrow> block) \<Rightarrow> blocks \<Rightarrow> blocks" where
  "upd_block b f s = s\<lparr>all_blocks := (all_blocks s)[b := f (all_blocks s ! b)]\<rparr>"

text \<open>A partition's operations call \<^verbatim>\<open>block_read\<close> and \<^verbatim>\<open>block_write\<close> on the device it lies on, which was
  registered before it.\<close>

function block_read :: "nat \<Rightarrow> nat \<Rightarrow> blocks \<Rightarrow> (byte list \<times> blocks) res" where
  "block_read b sector s =
     bindR (get_block b s) (\<lambda>blk.
     check_sector blk sector (
     bindR (case blk_ops blk of
              Ide d \<Rightarrow> Inr (media s d sector, s)
            | Partition p start \<Rightarrow>
                if p < b then block_read p ((start + sector) mod 2 ^ 32) s else Inl NullDeref)
       (\<lambda>(buffer, s). Inr (buffer, upd_block b (read_cnt_update (\<lambda>n. (n + 1) mod 2 ^ 64)) s))))"
  by pat_completeness auto
termination
  by (relation "measure (\<lambda>(b, _). b)") auto

function block_write :: "nat \<Rightarrow> nat \<Rightarrow> byte list \<Rightarrow> blocks \<Rightarrow> blocks res" where
  "block_write b sector buffer s =
     bindR (get_block b s) (\<lambda>blk.
     check_sector blk sector (
     assertR (blk_type blk \<noteq> BLOCK_FOREIGN) (
     bindR (case blk_ops blk of
              Ide d \<Rightarrow> Inr (s\<lparr>media := (media s)(d := (media s d)(sector := buffer))\<rparr>)
            | Partition p start \<Rightarrow>
                if p < b then block_write p ((start + sector) mod 2 ^ 32) buffer s else Inl NullDeref)
       (\<lambda>s. Inr (upd_block b (write_cnt_update (\<lambda>n. (n + 1) mod 2 ^ 64)) s)))))"
  by pat_completeness auto
termination
  by (relation "measure (\<lambda>(b, _). b)") auto

declare block_read.simps [simp del] block_write.simps [simp del]

definition block_size :: "nat \<Rightarrow> blocks \<Rightarrow> nat res" where
  "block_size b s = bindR (get_block b s) (\<lambda>blk. Inr (blk_size blk))"

definition block_register :: "string \<Rightarrow> block_type \<Rightarrow> nat \<Rightarrow> block_ops \<Rightarrow> blocks \<Rightarrow> (nat \<times> blocks) res" where
  "block_register name type sz ops s =
     (let (got, s) = try_malloc s
      in if \<not> got then Inl Panic
      else Inr (length (all_blocks s),
        s\<lparr>all_blocks := all_blocks s @ [\<lparr>blk_name = take 15 name, blk_type = type, blk_size = sz,
             blk_ops = ops, read_cnt = 0, write_cnt = 0\<rparr>]\<rparr>))"

section \<open>Partitions\<close>

definition part_type_of :: "nat \<Rightarrow> block_type" where
  "part_type_of t =
     (if t = 0x20 then BLOCK_KERNEL else if t = 0x21 then BLOCK_FILESYS
      else if t = 0x22 then BLOCK_SCRATCH else if t = 0x23 then BLOCK_SWAP else BLOCK_FOREIGN)"

text \<open>A decimal number as \<^verbatim>\<open>%d\<close> prints it.\<close>

fun decimal :: "nat \<Rightarrow> string" where
  "decimal n = (if n < 10 then [char_of (48 + n)] else decimal (n div 10) @ [char_of (48 + n mod 10)])"

declare decimal.simps [simp del]

text \<open>A bad partition is only reported.\<close>

definition found_partition :: "nat \<Rightarrow> nat \<Rightarrow> nat \<Rightarrow> nat \<Rightarrow> nat \<Rightarrow> blocks \<Rightarrow> blocks res" where
  "found_partition b part_type start sz part_nr s =
     bindR (get_block b s) (\<lambda>blk.
       if start \<ge> blk_size blk then Inr s
       else if (start + sz) mod 2 ^ 32 < start \<or> (start + sz) mod 2 ^ 32 > blk_size blk then Inr s
       else let (got, s) = try_malloc s
            in if \<not> got then Inl Panic
               else bindR (block_register (take 15 (blk_name blk @ decimal part_nr)) (part_type_of part_type) sz
                             (Partition b start) s) (\<lambda>(_, s). Inr s))"

text \<open>The fields of the \<open>i\<close>-th entry of a partition table.\<close>

definition pt_type :: "byte list \<Rightarrow> nat \<Rightarrow> nat" where
  "pt_type pt i = unat (pt ! (446 + 16 * i + 4))"

definition pt_offset :: "byte list \<Rightarrow> nat \<Rightarrow> nat" where
  "pt_offset pt i = unat (bytes_word (take 4 (drop (446 + 16 * i + 8) pt)))"

definition pt_size :: "byte list \<Rightarrow> nat \<Rightarrow> nat" where
  "pt_size pt i = unat (bytes_word (take 4 (drop (446 + 16 * i + 12) pt)))"

definition pt_signature :: "byte list \<Rightarrow> nat" where
  "pt_signature pt = unat (pt ! 510) + 256 * unat (pt ! 511)"

definition is_extended :: "nat \<Rightarrow> bool" where
  "is_extended t \<longleftrightarrow> t = 0x05 \<or> t = 0x0f \<or> t = 0x85 \<or> t = 0xc5"

text \<open>The recursion into extended partitions has no bound in the code. \<open>fuel\<close> bounds its depth here: a scan is
  over, with a result or a fault, or it has to go deeper, with the devices registered so far.\<close>

datatype 'a scan = Over 'a | Deeper blocks

text \<open>The loop over the four entries of a table; \<open>recurse\<close> is the recursive call, of which the code
  makes one for each extended partition.\<close>

fun parse_partitions ::
  "(nat \<Rightarrow> nat \<Rightarrow> nat \<Rightarrow> blocks \<Rightarrow> (nat \<times> blocks) res scan) \<Rightarrow>
   nat \<Rightarrow> nat \<Rightarrow> nat \<Rightarrow> byte list \<Rightarrow> nat list \<Rightarrow> nat \<Rightarrow> blocks \<Rightarrow> (nat \<times> blocks) res scan" where
  "parse_partitions recurse b sector primary_extended_sector pt [] part_nr s = Over (Inr (part_nr, s))"
| "parse_partitions recurse b sector primary_extended_sector pt (i # is) part_nr s =
     (case
       (if pt_size pt i = 0 \<or> pt_type pt i = 0 then Over (Inr (part_nr, s))
        else if is_extended (pt_type pt i)
        then if sector = 0 then recurse (pt_offset pt i) (pt_offset pt i) part_nr s
             else recurse ((pt_offset pt i + primary_extended_sector) mod 2 ^ 32) primary_extended_sector part_nr s
        else Over (bindR (found_partition b (pt_type pt i) ((pt_offset pt i + sector) mod 2 ^ 32) (pt_size pt i)
                            (part_nr + 1) s) (\<lambda>s. Inr (part_nr + 1, s))))
      of Deeper s \<Rightarrow> Deeper s
       | Over (Inl e) \<Rightarrow> Over (Inl e)
       | Over (Inr (part_nr, s)) \<Rightarrow> parse_partitions recurse b sector primary_extended_sector pt is part_nr s)"

fun read_partition_table :: "nat \<Rightarrow> nat \<Rightarrow> nat \<Rightarrow> nat \<Rightarrow> nat \<Rightarrow> blocks \<Rightarrow> (nat \<times> blocks) res scan" where
  "read_partition_table 0 b sector primary_extended_sector part_nr s = Deeper s"
| "read_partition_table (Suc fuel) b sector primary_extended_sector part_nr s =
     (case block_size b s of
        Inl e \<Rightarrow> Over (Inl e)
      | Inr sz \<Rightarrow>
          if sector \<ge> sz then Over (Inr (part_nr, s))
          else case (let (got, s) = try_malloc s in if \<not> got then Inl Panic else block_read b 0 s) of
                 Inl e \<Rightarrow> Over (Inl e)
               | Inr (pt, s) \<Rightarrow>
                   if pt_signature pt \<noteq> 0xaa55 then Over (Inr (part_nr, s))
                   else parse_partitions (read_partition_table fuel b) b sector primary_extended_sector pt
                          [0..<4] part_nr s)"

definition partition_scan :: "nat \<Rightarrow> nat \<Rightarrow> blocks \<Rightarrow> blocks res scan" where
  "partition_scan fuel b s = map_scan (\<lambda>r. bindR r (\<lambda>(_, s). Inr s)) (read_partition_table fuel b 0 0 0 s)"

section \<open>What a device holds\<close>

text \<open>Reading and writing only change the counters of the devices: the rest of a descriptor stays.\<close>

definition fixed_part :: "block \<Rightarrow> string \<times> block_type \<times> nat \<times> block_ops" where
  "fixed_part b = (blk_name b, blk_type b, blk_size b, blk_ops b)"

definition same_devices :: "blocks \<Rightarrow> blocks \<Rightarrow> bool" where
  "same_devices s s' \<longleftrightarrow> map fixed_part (all_blocks s') = map fixed_part (all_blocks s)
     \<and> block_by_role s' = block_by_role s \<and> mallocs s' = mallocs s"

text \<open>Every partition lies within a device that was registered before it and may be written.\<close>

definition block_in :: "block list \<Rightarrow> nat \<Rightarrow> bool" where
  "block_in bs b \<longleftrightarrow> blk_size (bs ! b) < 2 ^ 32 \<and>
     (case blk_ops (bs ! b) of Ide d \<Rightarrow> True
      | Partition p start \<Rightarrow> p < b \<and> start + blk_size (bs ! b) \<le> blk_size (bs ! p) \<and> blk_type (bs ! p) \<noteq> BLOCK_FOREIGN)"

definition blocks_ok :: "blocks \<Rightarrow> bool" where
  "blocks_ok s \<longleftrightarrow> (\<forall>b < length (all_blocks s). block_in (all_blocks s) b)"

text \<open>The disk and the sector on it behind a sector of a device.\<close>

function resolve :: "block list \<Rightarrow> nat \<Rightarrow> nat \<Rightarrow> nat \<times> nat" where
  "resolve bs b sector =
     (case blk_ops (bs ! b) of Ide d \<Rightarrow> (d, sector)
      | Partition p start \<Rightarrow> if p < b then resolve bs p (start + sector) else (0, sector))"
  by pat_completeness auto
termination
  by (relation "measure (\<lambda>(_, b, _). b)") auto

declare resolve.simps [simp del]

definition sector_at :: "blocks \<Rightarrow> nat \<Rightarrow> nat \<Rightarrow> byte list" where
  "sector_at s b sector = (case resolve (all_blocks s) b sector of (d, a) \<Rightarrow> media s d a)"

lemma fixed_part_nth:
  assumes "map fixed_part bs' = map fixed_part bs" "b < length bs"
  shows "blk_name (bs' ! b) = blk_name (bs ! b)" "blk_type (bs' ! b) = blk_type (bs ! b)"
    "blk_size (bs' ! b) = blk_size (bs ! b)" "blk_ops (bs' ! b) = blk_ops (bs ! b)" "length bs' = length bs"
proof -
  show l: "length bs' = length bs" using arg_cong [OF assms(1), of length] by simp
  have "fixed_part (bs' ! b) = fixed_part (bs ! b)" using assms l by (metis nth_map)
  then show "blk_name (bs' ! b) = blk_name (bs ! b)" "blk_type (bs' ! b) = blk_type (bs ! b)"
    "blk_size (bs' ! b) = blk_size (bs ! b)" "blk_ops (bs' ! b) = blk_ops (bs ! b)"
    by (simp_all add: fixed_part_def)
qed

lemma resolve_same:
  "map fixed_part bs' = map fixed_part bs \<Longrightarrow> b < length bs \<Longrightarrow> resolve bs' b sector = resolve bs b sector"
proof (induction bs b sector rule: resolve.induct)
  case (1 bs b sector)
  have o: "blk_ops (bs' ! b) = blk_ops (bs ! b)" using fixed_part_nth(4) [OF "1.prems"] .
  show ?case
    using "1.IH" "1.prems" by (subst (1 2) resolve.simps) (auto simp: o split: block_ops.splits)
qed

lemma upd_block_same:
  assumes "\<And>x. fixed_part (f x) = fixed_part x"
  shows "same_devices s (upd_block b f s)" "media (upd_block b f s) = media s"
proof -
  have "map fixed_part ((all_blocks s)[b := f (all_blocks s ! b)]) = map fixed_part (all_blocks s)"
    by (cases "b < length (all_blocks s)") (simp_all add: map_update assms list_update_same_conv list_update_beyond)
  then show "same_devices s (upd_block b f s)" "media (upd_block b f s) = media s"
    by (simp_all add: same_devices_def upd_block_def)
qed

lemma same_devices_refl [simp]: "same_devices s s"
  by (simp add: same_devices_def)

lemma same_devices_trans: "same_devices s t \<Longrightarrow> same_devices t u \<Longrightarrow> same_devices s u"
  by (simp add: same_devices_def)

lemma same_devices_ok:
  assumes "same_devices s s'" "blocks_ok s"
  shows "blocks_ok s'"
proof -
  have m: "map fixed_part (all_blocks s') = map fixed_part (all_blocks s)" using assms(1) by (simp add: same_devices_def)
  have "block_in (all_blocks s') b" if b: "b < length (all_blocks s)" for b
  proof -
    have i: "block_in (all_blocks s) b" using assms(2) b by (simp add: blocks_ok_def)
    show ?thesis
    proof (cases "blk_ops (all_blocks s ! b)")
      case (Partition p start)
      with i b have "p < length (all_blocks s)" by (simp add: block_in_def)
      then show ?thesis
        using i Partition fixed_part_nth [OF m b] fixed_part_nth [OF m, of p] by (simp add: block_in_def)
    qed (use i fixed_part_nth [OF m b] in \<open>simp add: block_in_def\<close>)
  qed
  moreover have "length (all_blocks s') = length (all_blocks s)" using arg_cong [OF m, of length] by simp
  ultimately show ?thesis by (simp add: blocks_ok_def)
qed

lemma sector_at_same:
  "same_devices s s' \<Longrightarrow> media s' = media s \<Longrightarrow> b < length (all_blocks s) \<Longrightarrow> sector_at s' b sector = sector_at s b sector"
  using resolve_same [of "all_blocks s'" "all_blocks s" b sector]
  by (simp add: sector_at_def same_devices_def del: map_eq_conv)

lemma partition_in:
  assumes "blocks_ok s" "b < length (all_blocks s)" "sector < blk_size (all_blocks s ! b)"
    "blk_ops (all_blocks s ! b) = Partition p start"
  shows "p < b" "p < length (all_blocks s)" "start + sector < blk_size (all_blocks s ! p)"
    "(start + sector) mod 2 ^ 32 = start + sector" "blk_type (all_blocks s ! p) \<noteq> BLOCK_FOREIGN"
proof -
  have i: "block_in (all_blocks s) b" using assms(1,2) by (simp add: blocks_ok_def)
  show p: "p < b" "start + sector < blk_size (all_blocks s ! p)" "blk_type (all_blocks s ! p) \<noteq> BLOCK_FOREIGN"
    using i assms(3,4) by (auto simp: block_in_def)
  then show q: "p < length (all_blocks s)" using assms(2) by simp
  then have "blk_size (all_blocks s ! p) < 2 ^ 32" using assms(1) by (simp add: blocks_ok_def block_in_def)
  then show "(start + sector) mod 2 ^ 32 = start + sector" using p(2) by simp
qed

lemma counted_same:
  "fixed_part (read_cnt_update g x) = fixed_part x" "fixed_part (write_cnt_update g x) = fixed_part x"
  by (simp_all add: fixed_part_def)

lemma block_read_ok:
  assumes "blocks_ok s" "b < length (all_blocks s)" "sector < blk_size (all_blocks s ! b)"
  shows "\<exists>s'. block_read b sector s = Inr (sector_at s b sector, s') \<and> same_devices s s' \<and> media s' = media s"
  using assms
proof (induction b arbitrary: sector rule: less_induct)
  case (less b)
  let ?blk = "all_blocks s ! b" and ?f = "read_cnt_update (\<lambda>n. (n + 1) mod 2 ^ 64)"
  note u = upd_block_same [of ?f, OF counted_same(1)]
  have g: "get_block b s = Inr ?blk" using less.prems by (simp add: get_block_def)
  show ?case
  proof (cases "blk_ops ?blk")
    case (Ide d)
    then have "block_read b sector s = Inr (media s d sector, upd_block b ?f s)"
      using g less.prems by (subst block_read.simps) (simp add: check_sector_def)
    moreover have "sector_at s b sector = media s d sector"
      using Ide by (simp add: sector_at_def resolve.simps)
    ultimately show ?thesis using u [where s = "s" and b = b] by (intro exI [of _ "upd_block b ?f s"]) simp
  next
    case (Partition p start)
    note p = partition_in [OF less.prems Partition]
    obtain s1 where s1: "block_read p (start + sector) s = Inr (sector_at s p (start + sector), s1)"
        "same_devices s s1" "media s1 = media s"
      using less.IH [OF p(1) less.prems(1) p(2,3)] by blast
    have "block_read b sector s = Inr (sector_at s p (start + sector), upd_block b ?f s1)"
      using g less.prems Partition p(1,4) s1(1) by (subst block_read.simps) (simp add: check_sector_def)
    moreover have "sector_at s b sector = sector_at s p (start + sector)"
      using Partition p(1) by (simp add: sector_at_def resolve.simps [of _ b])
    moreover have "same_devices s (upd_block b ?f s1)" using s1(2) by (rule same_devices_trans) (rule u(1))
    ultimately show ?thesis using s1(3) by (intro exI [of _ "upd_block b ?f s1"] conjI) (simp_all only: u(2))
  qed
qed

lemma block_write_ok:
  assumes "blocks_ok s" "b < length (all_blocks s)" "sector < blk_size (all_blocks s ! b)"
    "blk_type (all_blocks s ! b) \<noteq> BLOCK_FOREIGN"
  shows "\<exists>s'. block_write b sector buffer s = Inr s' \<and> same_devices s s'
    \<and> media s' = (case resolve (all_blocks s) b sector of (d, a) \<Rightarrow> (media s)(d := (media s d)(a := buffer)))"
  using assms
proof (induction b arbitrary: sector rule: less_induct)
  case (less b)
  let ?blk = "all_blocks s ! b" and ?f = "write_cnt_update (\<lambda>n. (n + 1) mod 2 ^ 64)"
  note u = upd_block_same [of ?f, OF counted_same(2)]
  have g: "get_block b s = Inr ?blk" using less.prems by (simp add: get_block_def)
  show ?case
  proof (cases "blk_ops ?blk")
    case (Ide d)
    let ?s = "s\<lparr>media := (media s)(d := (media s d)(sector := buffer))\<rparr>"
    let ?t = "upd_block b ?f ?s"
    have "block_write b sector buffer s = Inr ?t"
      using Ide g less.prems by (subst block_write.simps) (simp add: check_sector_def)
    moreover have "same_devices s ?s" by (simp add: same_devices_def)
    then have "same_devices s ?t" by (rule same_devices_trans) (rule u(1))
    moreover have "resolve (all_blocks s) b sector = (d, sector)" using Ide by (simp add: resolve.simps)
    moreover have "media ?t = (media s)(d := (media s d)(sector := buffer))" by (simp only: u(2)) simp
    ultimately show ?thesis by (intro exI [of _ ?t] conjI) (simp_all only: prod.case)
  next
    case (Partition p start)
    note p = partition_in [OF less.prems(1-3) Partition]
    obtain s1 where s1: "block_write p (start + sector) buffer s = Inr s1" "same_devices s s1"
        "media s1 = (case resolve (all_blocks s) p (start + sector) of (d, a) \<Rightarrow> (media s)(d := (media s d)(a := buffer)))"
      using less.IH [OF p(1) less.prems(1) p(2,3,5)] by blast
    let ?t = "upd_block b ?f s1"
    have "block_write b sector buffer s = Inr ?t"
      using g less.prems Partition p(1,4) s1(1) by (subst block_write.simps) (simp add: check_sector_def)
    moreover have "resolve (all_blocks s) b sector = resolve (all_blocks s) p (start + sector)"
      using Partition p(1) by (simp add: resolve.simps [of _ b])
    moreover have "same_devices s ?t" using s1(2) by (rule same_devices_trans) (rule u(1))
    ultimately show ?thesis by (intro exI [of _ ?t] conjI) (simp_all only: u(2) s1(3))
  qed
qed

lemma resolve_inj: "snd (resolve bs b i) = snd (resolve bs b j) \<longleftrightarrow> i = j"
proof (induction bs b i arbitrary: j rule: resolve.induct)
  case (1 bs b i)
  show ?case
    by (subst (1 2) resolve.simps) (use "1.IH" in \<open>auto split: block_ops.splits\<close>)
qed

lemma block_write_sector_at:
  assumes "blocks_ok s" "b < length (all_blocks s)" "sector < blk_size (all_blocks s ! b)"
    "blk_type (all_blocks s ! b) \<noteq> BLOCK_FOREIGN"
  obtains s' where "block_write b sector buffer s = Inr s'" "same_devices s s'"
    "\<And>i. sector_at s' b i = (if i = sector then buffer else sector_at s b i)"
proof -
  obtain s' where s': "block_write b sector buffer s = Inr s'" "same_devices s s'"
    "media s' = (case resolve (all_blocks s) b sector of (d, a) \<Rightarrow> (media s)(d := (media s d)(a := buffer)))"
    using block_write_ok [OF assms] by blast
  have "sector_at s' b i = (if i = sector then buffer else sector_at s b i)" for i
    using resolve_same [of "all_blocks s'" "all_blocks s" b i] s'(2,3) assms(2)
      resolve_inj [of "all_blocks s" b i sector]
    by (auto simp: sector_at_def same_devices_def split: prod.splits)
  with s' show thesis by (intro that)
qed

section \<open>Scanning for partitions\<close>

text \<open>A device whose partitions may be registered.\<close>

definition scannable :: "nat \<Rightarrow> blocks \<Rightarrow> bool" where
  "scannable b s \<longleftrightarrow> blocks_ok s \<and> b < length (all_blocks s) \<and> blk_type (all_blocks s ! b) \<noteq> BLOCK_FOREIGN"

lemma scannable_same: "same_devices s s' \<Longrightarrow> scannable b s \<Longrightarrow> scannable b s'"
  using same_devices_ok [of s s'] fixed_part_nth [of "all_blocks s'" "all_blocks s" b]
  by (simp add: scannable_def same_devices_def del: map_eq_conv)

lemma try_malloc_fields:
  "try_malloc s = (got, s') \<Longrightarrow> all_blocks s' = all_blocks s \<and> media s' = media s \<and> block_by_role s' = block_by_role s"
  by (auto simp: try_malloc_def split: list.splits)

lemma scannable_malloc: "try_malloc s = (got, s') \<Longrightarrow> scannable b s' = scannable b s"
  by (drule try_malloc_fields) (simp add: scannable_def blocks_ok_def)

lemma block_read_scannable:
  assumes "scannable b s" "block_read b sector s = Inr (pt, s')"
  shows "scannable b s'"
proof -
  have "sector < blk_size (all_blocks s ! b)"
    using assms by (subst (asm) block_read.simps) (auto simp: scannable_def get_block_def check_sector_def split: if_splits)
  then have "same_devices s s'"
    using block_read_ok [of s b sector] assms by (auto simp: scannable_def)
  then show ?thesis using assms(1) by (rule scannable_same)
qed

lemma block_in_append: "b < length bs \<Longrightarrow> block_in bs b \<Longrightarrow> block_in (bs @ [x]) b"
  by (auto simp: block_in_def nth_append split: block_ops.splits)

lemma block_register_ok:
  assumes "scannable b s" "start + sz \<le> blk_size (all_blocks s ! b)"
    "block_register name type sz (Partition b start) s = Inr (n, s')"
  shows "scannable b s'"
proof -
  obtain s1 where s1: "try_malloc s = (True, s1)" using assms(3) by (auto simp: block_register_def split: prod.splits if_splits)
  let ?new = "\<lparr>blk_name = take 15 name, blk_type = type, blk_size = sz, blk_ops = Partition b start, read_cnt = 0, write_cnt = 0\<rparr>"
  have bs: "all_blocks s' = all_blocks s @ [?new]"
    using assms(3) s1 try_malloc_fields [OF s1] by (auto simp: block_register_def)
  have ok: "b < length (all_blocks s)" "\<And>i. i < length (all_blocks s) \<Longrightarrow> block_in (all_blocks s) i"
    using assms(1) by (simp_all add: scannable_def blocks_ok_def)
  have "block_in (all_blocks s') i" if "i < length (all_blocks s')" for i
  proof (cases "i < length (all_blocks s)")
    case True
    then show ?thesis unfolding bs by (rule block_in_append) (rule ok(2) [OF True])
  next
    case False
    with that have "i = length (all_blocks s)" by (simp add: bs)
    moreover have "blk_size (all_blocks s ! b) < 2 ^ 32" using ok(2) [OF ok(1)] by (simp add: block_in_def)
    ultimately show ?thesis
      using ok(1) assms(1,2) by (simp add: block_in_def bs nth_append scannable_def)
  qed
  then show ?thesis using assms(1) bs by (simp add: scannable_def blocks_ok_def nth_append)
qed

lemma found_partition_ok:
  assumes "scannable b s" "start < 2 ^ 32" "sz < 2 ^ 32" "found_partition b t start sz n s = Inr s'"
  shows "scannable b s'"
proof -
  let ?blk = "all_blocks s ! b"
  have g: "get_block b s = Inr ?blk" using assms(1) by (simp add: get_block_def scannable_def)
  obtain got s1 where s1: "try_malloc s = (got, s1)" by (cases "try_malloc s")
  show ?thesis
  proof (cases "start \<ge> blk_size ?blk \<or> (start + sz) mod 2 ^ 32 < start \<or> (start + sz) mod 2 ^ 32 > blk_size ?blk")
    case True
    then show ?thesis using assms(1,4) g by (auto simp: found_partition_def split: if_splits)
  next
    case False
    have "start + sz < 2 ^ 32"
    proof (rule ccontr)
      assume "\<not> start + sz < 2 ^ 32"
      then have "(start + sz) mod 2 ^ 32 = start + sz - 2 ^ 32" using assms(2,3) by (simp add: mod_if)
      moreover have "start + sz - 2 ^ 32 < start" using \<open>\<not> start + sz < 2 ^ 32\<close> assms(3) by linarith
      ultimately show False using False by simp
    qed
    then have w: "start + sz \<le> blk_size (all_blocks s1 ! b)"
      using False try_malloc_fields [OF s1] by simp
    obtain m where "block_register (take 15 (blk_name ?blk @ decimal n)) (part_type_of t) sz (Partition b start) s1 = Inr (m, s')"
      using assms(4) g False s1 by (auto simp: found_partition_def split: if_splits)
    moreover have "scannable b s1" using assms(1) scannable_malloc [OF s1] by simp
    ultimately show ?thesis using block_register_ok [OF _ w] by blast
  qed
qed

lemma pt_field_bounds: "pt_offset pt i < 2 ^ 32" "pt_size pt i < 2 ^ 32"
  using unsigned_less [of "bytes_word (take 4 (drop (446 + 16 * i + 8) pt))" ]
    unsigned_less [of "bytes_word (take 4 (drop (446 + 16 * i + 12) pt))"]
  by (simp_all add: pt_offset_def pt_size_def)

text \<open>The devices are well formed, whether the scan is over or has to go deeper.\<close>

definition scan_ok :: "nat \<Rightarrow> (nat \<times> blocks) res scan \<Rightarrow> bool" where
  "scan_ok b r \<longleftrightarrow>
     (case r of Over (Inl _) \<Rightarrow> True | Over (Inr (_, s)) \<Rightarrow> scannable b s | Deeper s \<Rightarrow> scannable b s)"

lemma scan_ok_simps [simp]:
  "scan_ok b (Over (Inl e))" "scan_ok b (Over (Inr (n, s))) = scannable b s" "scan_ok b (Deeper s) = scannable b s"
  by (simp_all add: scan_ok_def)

lemma found_partition_scan_ok:
  assumes "scannable b s" "start < 2 ^ 32" "sz < 2 ^ 32"
  shows "scan_ok b (Over (bindR (found_partition b t start sz n s) (\<lambda>s. Inr (m, s))))"
  using found_partition_ok [OF assms, of t n] by (cases "found_partition b t start sz n s") simp_all

lemma scan_ok_next:
  assumes "scan_ok b r" "\<And>n s. scannable b s \<Longrightarrow> scan_ok b (f n s)"
  shows "scan_ok b (case r of Deeper s \<Rightarrow> Deeper s | Over (Inl e) \<Rightarrow> Over (Inl e) | Over (Inr (n, s)) \<Rightarrow> f n s)"
  using assms by (auto split: scan.splits sum.splits)

lemma parse_partitions_ok:
  assumes "\<And>sec pe n s. scannable b s \<Longrightarrow> scan_ok b (recurse sec pe n s)"
  shows "scannable b s \<Longrightarrow> scan_ok b (parse_partitions recurse b sector pe pt is n s)"
proof (induction "is" arbitrary: n s)
  case (Cons i "is")
  let ?r = "if pt_size pt i = 0 \<or> pt_type pt i = 0 then Over (Inr (n, s))
        else if is_extended (pt_type pt i)
        then if sector = 0 then recurse (pt_offset pt i) (pt_offset pt i) n s
             else recurse ((pt_offset pt i + pe) mod 2 ^ 32) pe n s
        else Over (bindR (found_partition b (pt_type pt i) ((pt_offset pt i + sector) mod 2 ^ 32) (pt_size pt i)
                            (n + 1) s) (\<lambda>s. Inr (n + 1, s)))"
  have "scan_ok b ?r"
    using Cons.prems assms found_partition_scan_ok [OF Cons.prems _ pt_field_bounds(2)] by simp
  then show ?case
    using Cons.IH unfolding parse_partitions.simps by (rule scan_ok_next)
qed simp

lemma read_partition_table_ok: "scannable b s \<Longrightarrow> scan_ok b (read_partition_table fuel b sector pe n s)"
proof (induction fuel arbitrary: sector pe n s)
  case (Suc fuel)
  obtain got s1 where s1: "try_malloc s = (got, s1)" by (cases "try_malloc s")
  have ok1: "scannable b s1" using Suc.prems scannable_malloc [OF s1] by simp
  have "scan_ok b (parse_partitions (read_partition_table fuel b) b sector pe pt [0..<4] n s2)"
    and "scannable b s2" if "block_read b 0 s1 = Inr (pt, s2)" for pt s2
    using block_read_scannable [OF ok1 that] parse_partitions_ok Suc.IH by blast+
  then show ?case using Suc.prems s1 by (auto split: sum.splits)
qed simp

text \<open>No entry of the partition table of the device is an extended partition.\<close>

definition flat_table :: "nat \<Rightarrow> blocks \<Rightarrow> bool" where
  "flat_table b s \<longleftrightarrow>
     (case block_read b 0 (snd (try_malloc s)) of
        Inl _ \<Rightarrow> True | Inr (pt, _) \<Rightarrow> (\<forall>i < 4. pt_size pt i \<noteq> 0 \<longrightarrow> \<not> is_extended (pt_type pt i)))"

lemma parse_partitions_over:
  "\<forall>i \<in> set is. pt_size pt i \<noteq> 0 \<longrightarrow> \<not> is_extended (pt_type pt i) \<Longrightarrow>
   \<exists>r. parse_partitions recurse b sector pe pt is n s = Over r"
proof (induction "is" arbitrary: n s)
  case (Cons i "is")
  then show ?case by (auto split: scan.splits sum.splits simp del: bindR_eq_Inr)
qed simp

lemma flat_table_over:
  assumes "flat_table b s"
  shows "\<exists>r. read_partition_table (Suc fuel) b sector pe n s = Over r"
  using assms parse_partitions_over [of "[0..<4]"]
  by (auto simp: flat_table_def Let_def split: sum.splits prod.splits)

text \<open>C29. Whatever bytes a disk holds, scanning it for partitions keeps the device table well formed: every
  partition registered lies within the device it is on, so that no access through it can wrap around
  or leave that device. This holds when the scan is over, and at every depth of a scan that is not over, so
  also for the partitions that a scan without end registers on its way. The scan of a disk whose table lists
  no extended partition is over at the first level.\<close>

theorem partition_scan_confined:
  assumes "blocks_ok s" "b < length (all_blocks s)" "blk_type (all_blocks s ! b) \<noteq> BLOCK_FOREIGN"
  shows "(case partition_scan fuel b s of
       Over (Inl _) \<Rightarrow> True | Over (Inr s') \<Rightarrow> blocks_ok s' | Deeper s' \<Rightarrow> blocks_ok s')
    \<and> (0 < fuel \<and> flat_table b s \<longrightarrow> (\<exists>r. partition_scan fuel b s = Over r))"
proof
  have "scan_ok b (read_partition_table fuel b 0 0 0 s)"
    using assms by (intro read_partition_table_ok) (simp add: scannable_def)
  then show "case partition_scan fuel b s of
       Over (Inl _) \<Rightarrow> True | Over (Inr s') \<Rightarrow> blocks_ok s' | Deeper s' \<Rightarrow> blocks_ok s'"
    by (auto simp: partition_scan_def scan_ok_def scannable_def split: scan.splits sum.splits)
  show "0 < fuel \<and> flat_table b s \<longrightarrow> (\<exists>r. partition_scan fuel b s = Over r)"
    using flat_table_over [of b s "fuel - 1" 0 0 0] by (cases fuel) (auto simp: partition_scan_def simp del: read_partition_table.simps)
qed

text \<open>A disk with one entry of the given type in its partition table.\<close>

definition table_sector :: "byte \<Rightarrow> 32 word \<Rightarrow> 32 word \<Rightarrow> byte list" where
  "table_sector type ofs sz =
     replicate 450 0 @ [type] @ replicate 3 0 @ word_bytes ofs @ word_bytes sz @ replicate 48 0 @ [0x55, 0xaa]"

definition one_disk :: "byte list \<Rightarrow> nat \<Rightarrow> blocks" where
  "one_disk pt sz = \<lparr>all_blocks = [\<lparr>blk_name = ''hda'', blk_type = BLOCK_RAW, blk_size = sz, blk_ops = Ide 0,
       read_cnt = 0, write_cnt = 0\<rparr>],
     block_by_role = (\<lambda>_. None), media = (\<lambda>d a. if a = 0 then pt else replicate 512 0), mallocs = []\<rparr>"

lemma table_sector_fields:
  "pt_signature (table_sector t ofs sz) = 0xaa55" "pt_type (table_sector t ofs sz) 0 = unat t"
  "pt_offset (table_sector t ofs sz) 0 = unat ofs" "pt_size (table_sector t ofs sz) 0 = unat sz"
  "i \<in> {1, 2, 3} \<Longrightarrow> pt_type (table_sector t ofs sz) i = 0"
  by (auto simp: pt_signature_def pt_type_def pt_offset_def pt_size_def table_sector_def nth_append bytes_word_word_bytes)

text \<open>A machine with one disk, of \<open>sz\<close> sectors, whose first sector is \<open>pt\<close>.\<close>

definition bare_disk :: "byte list \<Rightarrow> nat \<Rightarrow> blocks \<Rightarrow> bool" where
  "bare_disk pt sz s \<longleftrightarrow> (\<exists>blk. all_blocks s = [blk] \<and> blk_ops blk = Ide 0 \<and> blk_size blk = sz)
     \<and> mallocs s = [] \<and> media s 0 0 = pt"

lemma bare_one_disk: "bare_disk pt sz (one_disk pt sz)"
  by (simp add: bare_disk_def one_disk_def)

lemma bare_disk_read: "bare_disk pt sz s \<Longrightarrow> 0 < sz \<Longrightarrow> \<exists>s'. block_read 0 0 s = Inr (pt, s') \<and> bare_disk pt sz s'"
  by (subst block_read.simps) (auto simp: bare_disk_def get_block_def check_sector_def upd_block_def)

lemma bare_disk_table:
  assumes "bare_disk pt sz s" "sector < sz" "pt_signature pt = 0xaa55"
  obtains s' where "bare_disk pt sz s'" "read_partition_table (Suc fuel) 0 sector pe n s =
    parse_partitions (read_partition_table fuel 0) 0 sector pe pt [0, 1, 2, 3] n s'"
proof -
  obtain s' where s': "block_read 0 0 s = Inr (pt, s')" "bare_disk pt sz s'"
    using bare_disk_read [OF assms(1)] assms(2) by auto
  have "[0..<4] = [0, 1, 2, 3::nat]" by (simp add: upt_rec)
  then have "read_partition_table (Suc fuel) 0 sector pe n s =
      parse_partitions (read_partition_table fuel 0) 0 sector pe pt [0, 1, 2, 3] n s'"
    using assms s'(1)
    by (auto simp: bare_disk_def block_size_def get_block_def try_malloc_def simp del: parse_partitions.simps)
  with s'(2) show thesis by (rule that)
qed

theorem partition_scan_confined_witness:
  "\<exists>s'. partition_scan 1 0 (one_disk (table_sector 0x21 100 200) 1000) = Over (Inr s') \<and> length (all_blocks s') = 2 \<and> blocks_ok s'"
proof -
  let ?pt = "table_sector 0x21 100 200"
  let ?s = "one_disk ?pt 1000"
  have ok: "blocks_ok ?s" "0 < length (all_blocks ?s)" "blk_type (all_blocks ?s ! 0) \<noteq> BLOCK_FOREIGN"
    by (simp_all add: one_disk_def blocks_ok_def block_in_def)
  have "(0::nat) < 1000" by simp
  obtain s1 where r: "bare_disk ?pt 1000 s1" "read_partition_table (Suc 0) 0 0 0 0 ?s =
      parse_partitions (read_partition_table 0 0) 0 0 0 ?pt [0, 1, 2, 3] 0 s1"
    using bare_disk_table [OF bare_one_disk \<open>0 < 1000\<close> table_sector_fields(1)] .
  have "\<exists>s'. partition_scan 1 0 ?s = Over (Inr s') \<and> length (all_blocks s') = 2"
    using r by (auto simp: partition_scan_def get_block_def try_malloc_def table_sector_fields bare_disk_def
        is_extended_def found_partition_def block_register_def)
  then obtain s' where s': "partition_scan 1 0 ?s = Over (Inr s')" "length (all_blocks s') = 2" by blast
  with partition_scan_confined [OF ok, of 1] show ?thesis by simp
qed

lemma nested_table_diverges:
  assumes "pt_signature pt = 0xaa55" "is_extended (pt_type pt 0)" "pt_type pt 0 \<noteq> 0" "pt_size pt 0 \<noteq> 0"
    "0 < pe + pt_offset pt 0" "pe + pt_offset pt 0 < sz" "sz < 2 ^ 32"
  shows "bare_disk pt sz s \<Longrightarrow> 0 < sector \<Longrightarrow> sector < sz \<Longrightarrow> \<exists>s'. read_partition_table fuel 0 sector pe n s = Deeper s'"
proof (induction fuel arbitrary: sector n s)
  case (Suc fuel)
  obtain s' where s': "bare_disk pt sz s'" "read_partition_table (Suc fuel) 0 sector pe n s =
      parse_partitions (read_partition_table fuel 0) 0 sector pe pt [0, 1, 2, 3] n s'"
    using bare_disk_table [OF Suc.prems(1,3) assms(1)] .
  have "\<exists>s''. read_partition_table fuel 0 (pe + pt_offset pt 0) pe n s' = Deeper s''"
    by (rule Suc.IH [OF s'(1) assms(5,6)])
  with s'(2) assms Suc.prems(2) show ?case by (auto simp: add.commute)
qed simp

text \<open>C30. \<^verbatim>\<open>read_partition_table\<close> reads sector 0 again instead of the sector it is called for. So on a machine
  with one disk and nothing else registered, on which no allocation fails, a disk whose first table entry is
  an extended partition that starts, not at sector 0, in the first half of the disk is scanned for ever: at
  every depth of the recursion the scan has to go deeper.\<close>

theorem extended_partition_diverges:
  assumes "bare_disk pt sz s" "sz < 2 ^ 32" "pt_signature pt = 0xaa55"
    and "is_extended (pt_type pt 0)" "pt_size pt 0 \<noteq> 0" "0 < pt_offset pt 0" "2 * pt_offset pt 0 < sz"
  shows "\<exists>s'. partition_scan fuel 0 s = Deeper s'"
proof (cases fuel)
  case 0
  then show ?thesis by (simp add: partition_scan_def)
next
  case (Suc m)
  have pos: "0 < sz" using assms(7) by simp
  have t: "pt_type pt 0 \<noteq> 0" using assms(4) by (auto simp: is_extended_def)
  obtain s' where s': "bare_disk pt sz s'" "read_partition_table (Suc m) 0 0 0 0 s =
      parse_partitions (read_partition_table m 0) 0 0 0 pt [0, 1, 2, 3] 0 s'"
    using bare_disk_table [OF assms(1) pos assms(3)] .
  have "\<exists>s''. read_partition_table m 0 (pt_offset pt 0) (pt_offset pt 0) 0 s' = Deeper s''"
    using assms t by (intro nested_table_diverges [OF assms(3,4) _ _ _ _ _ s'(1)]) auto
  with s' assms t Suc show ?thesis by (auto simp: partition_scan_def)
qed

theorem extended_partition_diverges_witness:
  "\<forall>fuel. \<exists>s'. partition_scan fuel 0 (one_disk (table_sector 0x05 63 900) 1000) = Deeper s'"
  by (intro allI, rule extended_partition_diverges [OF bare_one_disk]) (simp_all add: table_sector_fields is_extended_def)

end
