(* ===== verification/Arithmetic.thy ===== *)
theory Arithmetic
  imports Prelude
begin

unbundle bit_operations_syntax

text \<open>
  64-bit division (\<^verbatim>\<open>lib/arithmetic.c\<close>): the routines the compiler calls for \<^verbatim>\<open>/\<close> and \<^verbatim>\<open>%\<close> on
  64-bit integers, from a division of 64 bits by 32.
\<close>

section \<open>The routines\<close>

text \<open>The \<^verbatim>\<open>DIVL\<close> instruction traps if the quotient does not fit.\<close>

definition divl :: "64 word \<Rightarrow> 32 word \<Rightarrow> 32 word res" where
  "divl n d =
     (if d = 0 \<or> unat n div unat d \<ge> 2 ^ 32 then Inl DivideError else Inr (of_nat (unat n div unat d)))"

definition nlz :: "32 word \<Rightarrow> nat" where
  "nlz x =
     (let n = 0;
          (n, x) = (if x \<le> 0x0000FFFF then (n + 16, push_bit 16 x) else (n, x));
          (n, x) = (if x \<le> 0x00FFFFFF then (n + 8, push_bit 8 x) else (n, x));
          (n, x) = (if x \<le> 0x0FFFFFFF then (n + 4, push_bit 4 x) else (n, x));
          (n, x) = (if x \<le> 0x3FFFFFFF then (n + 2, push_bit 2 x) else (n, x))
      in if x \<le> 0x7FFFFFFF then n + 1 else n)"

definition udiv64 :: "64 word \<Rightarrow> 64 word \<Rightarrow> 64 word res" where
  "udiv64 n d =
     (if drop_bit 32 d = 0
      then let b = push_bit 32 1 :: 64 word;
               n1 = ucast (drop_bit 32 n) :: 32 word;
               n0 = ucast n :: 32 word;
               d0 = ucast d :: 32 word
           in if d0 = 0 then Inl DivideError
              else bindR (divl (b * ucast (n1 mod d0) + ucast n0) d0) (\<lambda>q.
                   Inr (ucast q + b * ucast (n1 div d0)))
      else if n < d then Inr 0
      else let d1 = ucast (drop_bit 32 d) :: 32 word;
               s = nlz d1
           in bindR (divl (drop_bit 1 n) (ucast (drop_bit 32 (push_bit s d)))) (\<lambda>q.
              let q = ucast (drop_bit (31 - s) q) :: 64 word
              in Inr (if n - (q - 1) * d < d then q - 1 else q)))"

definition umod64 :: "64 word \<Rightarrow> 64 word \<Rightarrow> 32 word res" where
  "umod64 n d = bindR (udiv64 n d) (\<lambda>q. Inr (ucast (n - d * q)))"

definition sdiv64 :: "64 word \<Rightarrow> 64 word \<Rightarrow> 64 word res" where
  "sdiv64 n d =
     (let n_abs = (if 0 \<le> sint n then n else - n);
          d_abs = (if 0 \<le> sint d then d else - d)
      in bindR (udiv64 n_abs d_abs) (\<lambda>q_abs.
         Inr (if (sint n < 0) = (sint d < 0) then q_abs else - q_abs)))"

definition smod64 :: "64 word \<Rightarrow> 64 word \<Rightarrow> 32 word res" where
  "smod64 n d = bindR (sdiv64 n d) (\<lambda>q. Inr (ucast (n - d * q)))"

definition divdi3 :: "64 word \<Rightarrow> 64 word \<Rightarrow> 64 word res" where
  "divdi3 n d = sdiv64 n d"

definition moddi3 :: "64 word \<Rightarrow> 64 word \<Rightarrow> 64 word res" where
  "moddi3 n d = bindR (smod64 n d) (\<lambda>r. Inr (scast r))"

definition udivdi3 :: "64 word \<Rightarrow> 64 word \<Rightarrow> 64 word res" where
  "udivdi3 n d = udiv64 n d"

definition umoddi3 :: "64 word \<Rightarrow> 64 word \<Rightarrow> 64 word res" where
  "umoddi3 n d = bindR (umod64 n d) (\<lambda>r. Inr (ucast r))"

section \<open>Leading zeros\<close>

lemma unat_push_bit:
  fixes x :: "'a::len word"
  assumes "unat x * 2 ^ k < 2 ^ LENGTH('a)"
  shows "unat (push_bit k x) = unat x * 2 ^ k"
proof -
  have "unat (push_bit k x) = take_bit LENGTH('a) (push_bit k (unat x))" by (rule unsigned_push_bit_eq)
  then show ?thesis using assms by (simp add: take_bit_eq_mod push_bit_eq_mult)
qed

lemma unat_drop_bit: "unat (drop_bit k x) = unat x div 2 ^ k" for x :: "'a::len word"
proof -
  have "unat (drop_bit k x) = drop_bit k (unat x)" by (rule unat_drop_bit_eq)
  then show ?thesis by (simp add: drop_bit_eq_div)
qed

text \<open>One step: if the upper \<open>k\<close> bits are zero, they are shifted out and counted.\<close>

lemma nlz_step:
  fixes x :: "32 word"
  assumes "2 ^ j \<le> unat x" "unat lim + 1 = 2 ^ (32 - k)" "k + j = 32 - k" "k \<le> 32"
  shows "\<exists>m y. (if x \<le> lim then (n + k, push_bit k x) else (n, x)) = (n + m, y) \<and> unat y = unat x * 2 ^ m \<and> 2 ^ (32 - k) \<le> unat y"
proof (cases "x \<le> lim")
  case True
  then have "unat x < 2 ^ (32 - k)" using assms(2) by (simp add: word_le_nat_alt)
  then have "unat x * 2 ^ k < 2 ^ (32 - k) * 2 ^ k" by simp
  also have "\<dots> = 2 ^ 32" using assms(4) by (simp add: power_add [symmetric])
  finally have "unat (push_bit k x) = unat x * 2 ^ k" by (intro unat_push_bit) simp
  moreover have "2 ^ (32 - k) \<le> unat x * 2 ^ k" using assms(1,3) by (simp add: power_add flip: assms(3))
  ultimately show ?thesis using True by auto
next
  case False
  then have "2 ^ (32 - k) \<le> unat x" using assms(2) by (simp add: word_le_nat_alt)
  then show ?thesis using False by (auto intro!: exI [of _ 0])
qed

lemma nlz_normalises:
  assumes "x \<noteq> 0"
  shows "2 ^ 31 \<le> unat x * 2 ^ nlz x" "unat x * 2 ^ nlz x < 2 ^ 32"
proof -
  have x: "2 ^ 0 \<le> unat x" using assms by (simp add: unat_gt_0 Suc_le_eq)
  obtain a xa where a: "(if x \<le> 0x0000FFFF then (0 + 16, push_bit 16 x) else (0, x)) = (0 + a, xa)" "unat xa = unat x * 2 ^ a" "2 ^ 16 \<le> unat xa"
    using nlz_step [OF x, of "0x0000FFFF" 16 0] by auto
  obtain b xb where b: "(if xa \<le> 0x00FFFFFF then (0 + a + 8, push_bit 8 xa) else (0 + a, xa)) = (0 + a + b, xb)" "unat xb = unat xa * 2 ^ b" "2 ^ 24 \<le> unat xb"
    using nlz_step [OF a(3), of "0x00FFFFFF" 8 "0 + a"] by auto
  obtain c xc where c: "(if xb \<le> 0x0FFFFFFF then (0 + a + b + 4, push_bit 4 xb) else (0 + a + b, xb)) = (0 + a + b + c, xc)" "unat xc = unat xb * 2 ^ c" "2 ^ 28 \<le> unat xc"
    using nlz_step [OF b(3), of "0x0FFFFFFF" 4 "0 + a + b"] by auto
  obtain d xd where d: "(if xc \<le> 0x3FFFFFFF then (0 + a + b + c + 2, push_bit 2 xc) else (0 + a + b + c, xc)) = (0 + a + b + c + d, xd)" "unat xd = unat xc * 2 ^ d" "2 ^ 30 \<le> unat xd"
    using nlz_step [OF c(3), of "0x3FFFFFFF" 2 "0 + a + b + c"] by auto
  have n: "nlz x = (if xd \<le> 0x7FFFFFFF then 0 + a + b + c + d + 1 else 0 + a + b + c + d)"
    unfolding nlz_def Let_def a(1) prod.case b(1) c(1) d(1) ..
  have xd: "unat xd = unat x * 2 ^ (a + b + c + d)" using a(2) b(2) c(2) d(2) by (simp add: power_add)
  have "2 ^ 31 \<le> unat x * 2 ^ nlz x \<and> unat x * 2 ^ nlz x < 2 ^ 32"
  proof (cases "xd \<le> 0x7FFFFFFF")
    case True
    then have "unat xd < 2 ^ 31" by (simp add: word_le_nat_alt)
    then show ?thesis using True n xd d(3) by simp
  next
    case False
    then have "2 ^ 31 \<le> unat xd" "unat xd < 2 ^ 32" using unsigned_less [of xd] by (simp_all add: word_le_nat_alt)
    then show ?thesis using False n xd by simp
  qed
  then show "2 ^ 31 \<le> unat x * 2 ^ nlz x" "unat x * 2 ^ nlz x < 2 ^ 32" by simp_all
qed

section \<open>Division by more than 32 bits\<close>

text \<open>Dividing by a power of two of the upper half of the divisor gives the quotient or one more.\<close>

lemma top_bits:
  fixes d s :: nat
  assumes "2 ^ 31 \<le> d div 2 ^ 32 * 2 ^ s" "d div 2 ^ 32 * 2 ^ s < 2 ^ 32" "s \<le> 31"
  shows "d * 2 ^ s < 2 ^ 64" "2 ^ 31 \<le> d * 2 ^ s div 2 ^ 32" "d * 2 ^ s div 2 ^ 32 < 2 ^ 32"
proof -
  let ?d1 = "d div 2 ^ 32"
  have p: "(2 :: nat) ^ 32 = 2 ^ (32 - s) * 2 ^ s" using assms(3) by (simp add: power_add [symmetric])
  have "?d1 < 2 ^ (32 - s)" using assms(2) unfolding p by simp
  then have "(?d1 + 1) * 2 ^ s \<le> 2 ^ (32 - s) * 2 ^ s" by (intro mult_right_mono) simp_all
  then have le: "(?d1 + 1) * 2 ^ s \<le> 2 ^ 32" unfolding p [symmetric] .
  have "d < (?d1 + 1) * 2 ^ 32" using div_mult_mod_eq [of d "2 ^ 32"] mod_less_divisor [of "2 ^ 32" d] by simp
  then have "d * 2 ^ s < (?d1 + 1) * 2 ^ 32 * 2 ^ s" by simp
  also have "\<dots> = (?d1 + 1) * 2 ^ s * 2 ^ 32" by (simp add: algebra_simps)
  also have "\<dots> \<le> 2 ^ 32 * 2 ^ 32" using le by (intro mult_right_mono) simp_all
  finally show lt: "d * 2 ^ s < 2 ^ 64" by simp
  then show "d * 2 ^ s div 2 ^ 32 < 2 ^ 32" by (simp add: less_mult_imp_div_less)
  have "?d1 * 2 ^ s * 2 ^ 32 \<le> d * 2 ^ s" using div_times_less_eq_dividend [of d "2 ^ 32"] by simp
  then have "?d1 * 2 ^ s \<le> d * 2 ^ s div 2 ^ 32" by (simp add: less_eq_div_iff_mult_less_eq)
  then show "2 ^ 31 \<le> d * 2 ^ s div 2 ^ 32" using assms(1) by linarith
qed

lemma estimate:
  fixes n d e r y :: nat
  assumes "d = e + r" "n div d = y" "0 < e" "(y + 1) * r \<le> e"
  shows "n div e = y \<or> n div e = y + 1"
proof -
  have "n = y * d + n mod d" "n mod d < d" using assms(1-3) div_mult_mod_eq [of n d] by simp_all
  then have "n < (y + 1) * d" by simp
  also have "\<dots> = (y + 1) * e + (y + 1) * r" by (simp add: assms(1) algebra_simps)
  finally have "n < (y + 2) * e" using assms(4) by (simp add: algebra_simps)
  then have "n div e < y + 2" using assms(3) by (simp add: div_less_iff_less_mult)
  moreover have "y * e \<le> n" using div_times_less_eq_dividend [of n d] assms(1,2) by (simp add: algebra_simps)
  then have "y \<le> n div e" using assms(3) by (simp add: less_eq_div_iff_mult_less_eq)
  ultimately show ?thesis by linarith
qed

lemma quotient_estimate:
  fixes n d s :: nat
  assumes "n < 2 ^ 64" "2 ^ 31 \<le> d div 2 ^ 32 * 2 ^ s" "d div 2 ^ 32 * 2 ^ s < 2 ^ 32" "s \<le> 31"
  defines "v \<equiv> d * 2 ^ s div 2 ^ 32"
  shows "n div 2 div v < 2 ^ 32" "n div 2 div v div 2 ^ (31 - s) \<in> {n div d, n div d + 1}"
proof -
  note t = top_bits [OF assms(2-4), folded v_def]
  have "n div 2 < v * 2 ^ 32" using assms(1) t(2) by simp
  then show "n div 2 div v < 2 ^ 32" using t(2) by (simp add: div_less_iff_less_mult mult.commute)
  define e where "e = v * 2 ^ (32 - s)"
  define r where "r = d - e"
  have p: "(2 :: nat) ^ 32 = 2 ^ (32 - s) * 2 ^ s" "2 * (2 :: nat) ^ (31 - s) = 2 ^ (32 - s)"
    using assms(4) by (simp_all add: power_add [symmetric] Suc_diff_le flip: power_Suc)
  have "n div 2 div v div 2 ^ (31 - s) = n div (2 * v * 2 ^ (31 - s))" by (simp add: div_mult2_eq)
  also have "2 * v * 2 ^ (31 - s) = e" unfolding e_def p(2) [symmetric] by simp
  finally have q: "n div 2 div v div 2 ^ (31 - s) = n div e" .
  have "v * 2 ^ 32 \<le> d * 2 ^ s" "d * 2 ^ s < (v + 1) * 2 ^ 32"
    unfolding v_def using div_mult_mod_eq [of "d * 2 ^ s" "2 ^ 32"] mod_less_divisor [of "2 ^ 32" "d * 2 ^ s"] by simp_all
  then have "e * 2 ^ s \<le> d * 2 ^ s" "d * 2 ^ s < (e + 2 ^ (32 - s)) * 2 ^ s" unfolding p(1) e_def by (simp_all add: algebra_simps)
  then have ed: "e \<le> d" "d < e + 2 ^ (32 - s)" by simp_all
  then have r: "d = e + r" "r + 1 \<le> 2 ^ (32 - s)" by (simp_all add: r_def)
  have e: "2 ^ 31 * 2 ^ (32 - s) \<le> e" unfolding e_def using t(2) by simp
  have "n div d < 2 ^ (s + 1)"
  proof -
    have "2 ^ (s + 1) * (2 ^ 31 * 2 ^ (32 - s)) = (2 :: nat) ^ 64" using assms(4) by (simp add: power_add [symmetric])
    moreover have "2 ^ (s + 1) * (2 ^ 31 * 2 ^ (32 - s)) \<le> 2 ^ (s + 1) * d" using e ed(1) by (intro mult_left_mono) simp_all
    ultimately have "n < 2 ^ (s + 1) * d" using assms(1) by linarith
    then show ?thesis by (rule less_mult_imp_div_less)
  qed
  then have "(n div d + 1) * r \<le> 2 ^ (s + 1) * (2 ^ (32 - s) - 1)" using r(2) by (intro mult_mono) simp_all
  also have "\<dots> \<le> e"
  proof (cases "s = 31")
    case True
    then show ?thesis using e by simp
  next
    case False
    then have "s \<le> 30" using assms(4) by simp
    have "2 ^ (s + 1) * (2 ^ (32 - s) - 1) \<le> 2 ^ (s + 1) * (2 :: nat) ^ (32 - s)" by (intro mult_left_mono) simp_all
    also have "\<dots> = 2 ^ 33" using assms(4) by (simp add: power_add [symmetric])
    also have "\<dots> \<le> 2 ^ 31 * 2 ^ (32 - s)" using \<open>s \<le> 30\<close> power_increasing [of 2 "32 - s" "2 :: nat"] by simp
    finally show ?thesis using e by linarith
  qed
  finally have "(n div d + 1) * r \<le> e" .
  moreover have "0 < e" using e by (metis less_le_trans zero_less_power zero_less_numeral mult_pos_pos)
  ultimately show "n div 2 div v div 2 ^ (31 - s) \<in> {n div d, n div d + 1}"
    unfolding q using estimate [OF r(1) refl] by auto
qed

section \<open>Unsigned division\<close>

lemma unat_less_64: "unat (n :: 64 word) < 2 ^ 64"
  using unsigned_less [of n] by simp

lemma unat_less_32: "unat (n :: 32 word) < 2 ^ 32"
  using unsigned_less [of n] by simp

lemma unat_of_nat_small: "k < 2 ^ LENGTH('a) \<Longrightarrow> unat (of_nat k :: 'a::len word) = k"
  by (simp add: unat_of_nat)

lemma unat_ucast_up: "unat (ucast (x :: 32 word) :: 64 word) = unat x"
  using unat_less_32 [of x] by (simp add: unsigned_ucast_eq take_bit_nat_eq_self_iff)

lemma unat_ucast_down: "unat (ucast (x :: 64 word) :: 32 word) = unat x mod 2 ^ 32"
  by (simp add: unsigned_ucast_eq take_bit_eq_mod)

lemma unat_mult_add: "unat a * unat x + unat y < 2 ^ 64 \<Longrightarrow> unat (a * x + y) = unat a * unat x + unat y" for a x y :: "64 word"
  by (simp add: unat_word_ariths)

lemma divl_ok: "d \<noteq> 0 \<Longrightarrow> unat n div unat d < 2 ^ 32 \<Longrightarrow> \<exists>q. divl n d = Inr q \<and> unat q = unat n div unat d"
  by (simp add: divl_def unat_of_nat_small)

text \<open>A divisor of 32 bits: the upper half first, then its remainder with the lower half.\<close>

lemma two_digit_division:
  fixes n1 n0 d b :: nat
  assumes "0 < d" "n0 < b"
  shows "(b * (n1 mod d) + n0) div d < b" "(b * (n1 mod d) + n0) div d + b * (n1 div d) = (b * n1 + n0) div d"
proof -
  have "n1 mod d + 1 \<le> d" using assms(1) by (simp add: Suc_le_eq)
  then have "b * (n1 mod d + 1) \<le> b * d" by (rule mult_le_mono2)
  then have "b * (n1 mod d) + n0 < b * d" using assms(2) by (simp add: algebra_simps)
  then show "(b * (n1 mod d) + n0) div d < b" using assms(1) by (simp add: div_less_iff_less_mult)
  have "b * n1 = b * (n1 mod d) + b * (n1 div d) * d"
    using div_mult_mod_eq [of n1 d] by (metis add.commute distrib_left mult.assoc)
  then have "b * n1 + n0 = (b * (n1 mod d) + n0) + b * (n1 div d) * d" by simp
  then show "(b * (n1 mod d) + n0) div d + b * (n1 div d) = (b * n1 + n0) div d"
    using assms(1) by (simp only: div_mult_self1 [OF less_imp_neq [THEN not_sym]] add.commute)
qed

lemma udiv64_short:
  assumes "d \<noteq> 0" "drop_bit 32 d = 0"
  shows "udiv64 n d = Inr (n div d)"
proof -
  let ?n1 = "ucast (drop_bit 32 n) :: 32 word" and ?n0 = "ucast n :: 32 word" and ?d0 = "ucast d :: 32 word" and ?b = "push_bit 32 1 :: 64 word"
  have "unat (drop_bit 32 d) = 0" using assms(2) by simp
  then have dl: "unat d < 2 ^ 32" by (simp add: unat_drop_bit div_eq_0_iff)
  then have d: "unat ?d0 = unat d" using unat_ucast_down [of d] by simp
  have d0: "0 < unat d" using assms(1) by (simp add: unat_gt_0)
  then have dz: "?d0 \<noteq> 0" using d by (metis less_irrefl unat_0)
  have n1: "unat ?n1 = unat n div 2 ^ 32" using unat_less_64 [of n] by (simp add: unat_ucast_down unat_drop_bit less_mult_imp_div_less)
  have n0: "unat ?n0 = unat n mod 2 ^ 32" by (rule unat_ucast_down)
  have n: "unat n = 2 ^ 32 * unat ?n1 + unat ?n0" unfolding n1 n0 by simp
  have b: "unat ?b = 2 ^ 32" by (simp add: push_bit_eq_mult)
  note td = two_digit_division [of "unat d" "unat ?n0" "2 ^ 32" "unat ?n1", OF d0 unat_less_32, folded n]
  let ?m = "?b * ucast (?n1 mod ?d0) + ucast ?n0"
  have r: "unat (?n1 mod ?d0) = unat ?n1 mod unat d" "unat (?n1 div ?d0) = unat ?n1 div unat d" using d by (simp_all add: unat_mod unat_div)
  have lt: "2 ^ 32 * (unat ?n1 mod unat d) + unat ?n0 < 2 ^ 64"
  proof -
    have "unat ?n1 mod unat d \<le> unat ?n1" by simp
    then have "2 ^ 32 * (unat ?n1 mod unat d) + unat ?n0 \<le> unat n" unfolding n by simp
    then show ?thesis using unat_less_64 [of n] by linarith
  qed
  have m: "unat ?m = 2 ^ 32 * (unat ?n1 mod unat d) + unat ?n0"
    using unat_mult_add [of ?b "ucast (?n1 mod ?d0)" "ucast ?n0"] lt unfolding unat_ucast_up r(1) b by simp
  obtain q where q: "divl ?m ?d0 = Inr q" "unat q = (2 ^ 32 * (unat ?n1 mod unat d) + unat ?n0) div unat d"
    using divl_ok [OF dz, of ?m] td(1) unfolding m d by auto
  have "2 ^ 32 * (unat ?n1 div unat d) < 2 ^ 64" "unat q + 2 ^ 32 * (unat ?n1 div unat d) < 2 ^ 64"
    using td(2) q(2) unat_less_64 [of n] div_le_dividend [of "unat n" "unat d"] by linarith+
  then have "unat (ucast q + ?b * ucast (?n1 div ?d0)) = unat q + 2 ^ 32 * (unat ?n1 div unat d)"
    using unat_mult_add [of ?b "ucast (?n1 div ?d0)" "ucast q"] unfolding unat_ucast_up r(2) b by (simp add: add.commute)
  then have "ucast q + ?b * ucast (?n1 div ?d0) = n div d" using td(2) q(2) by (simp add: word_unat_eq_iff unat_div)
  then show ?thesis using q(1) assms(2) dz by (simp add: udiv64_def Let_def)
qed

text \<open>The last step takes back an estimate that is one too large.\<close>

lemma correct_estimate:
  fixes n d q :: "64 word"
  assumes "unat q = unat n div unat d \<or> unat q = unat n div unat d + 1" "1 \<le> unat n div unat d"
  shows "(if n - (q - 1) * d < d then q - 1 else q) = n div d"
proof -
  let ?N = "unat n" and ?D = "unat d" and ?y = "unat n div unat d"
  have q1: "unat (q - 1) = unat q - 1" using assms by (intro unat_minus_one) (auto simp: unat_eq_0)
  have le: "(unat q - 1) * ?D \<le> ?N"
  proof -
    have "(unat q - 1) * ?D \<le> ?y * ?D" using assms(1) by (intro mult_right_mono) auto
    then show ?thesis using div_times_less_eq_dividend [of ?N ?D] by linarith
  qed
  then have "unat ((q - 1) * d) = (unat q - 1) * ?D"
    using unat_less_64 [of n] q1 by (simp add: unat_word_ariths)
  then have sub: "unat (n - (q - 1) * d) = ?N - (unat q - 1) * ?D" using le by (simp add: unat_sub_if')
  have "0 < ?D" using assms(2) by (cases "?D = 0") auto
  then have n: "?N = ?y * ?D + ?N mod ?D" "?N mod ?D < ?D" using div_mult_mod_eq [of ?N ?D] by simp_all
  show ?thesis
  proof (cases "unat q = ?y + 1")
    case True
    then have "n - (q - 1) * d < d" "unat (q - 1) = ?y" using sub n q1 by (simp_all add: word_less_nat_alt minus_mult_div_eq_mod mult.commute)
    then show ?thesis by (simp add: word_unat_eq_iff unat_div)
  next
    case False
    then have q: "unat q = ?y" using assms(1) by simp
    have "?y * ?D = (?y - 1) * ?D + ?D" using assms(2) by (simp add: diff_mult_distrib)
    then have "\<not> n - (q - 1) * d < d" using sub n(1) q by (simp add: word_less_nat_alt)
    then show ?thesis using q by (simp add: word_unat_eq_iff unat_div)
  qed
qed

lemma udiv64_long:
  assumes "drop_bit 32 d \<noteq> 0" "d \<le> n"
  shows "udiv64 n d = Inr (n div d)"
proof -
  let ?d1 = "ucast (drop_bit 32 d) :: 32 word" and ?N = "unat n" and ?D = "unat d"
  have d1: "unat ?d1 = ?D div 2 ^ 32"
    using unat_less_64 [of d] by (simp add: unat_ucast_down unat_drop_bit less_mult_imp_div_less)
  have "unat (drop_bit 32 d) \<noteq> 0" using assms(1) by (simp add: unat_eq_0)
  then have D: "0 < ?D div 2 ^ 32" by (simp add: unat_drop_bit)
  then have "?d1 \<noteq> 0" using d1 by (metis less_irrefl unat_0)
  note s = nlz_normalises [OF this, unfolded d1]
  define s where "s = nlz ?d1"
  have s31: "s \<le> 31"
  proof (rule ccontr)
    assume "\<not> s \<le> 31"
    then have "(2 :: nat) ^ 32 \<le> 2 ^ s" by (intro power_increasing) simp_all
    moreover have "(2 :: nat) ^ s \<le> ?D div 2 ^ 32 * 2 ^ s" using D by simp
    ultimately show False using s(2) unfolding s_def by linarith
  qed
  note t = top_bits [OF s [folded s_def] s31] and e = quotient_estimate [OF unat_less_64 s [folded s_def] s31, of n]
  let ?v = "ucast (drop_bit 32 (push_bit s d)) :: 32 word"
  have "unat (push_bit s d) = ?D * 2 ^ s" using t(1) by (intro unat_push_bit) simp
  then have v: "unat ?v = ?D * 2 ^ s div 2 ^ 32" using t(3) by (simp add: unat_ucast_down unat_drop_bit)
  then have "?v \<noteq> 0" using t(2) by (metis unat_0 not_le zero_less_numeral zero_less_power)
  then obtain q0 where q0: "divl (drop_bit 1 n) ?v = Inr q0" "unat q0 = ?N div 2 div (?D * 2 ^ s div 2 ^ 32)"
    using divl_ok [of ?v "drop_bit 1 n"] e(1) unfolding v unat_drop_bit by auto
  define q where "q = (ucast (drop_bit (31 - s) q0) :: 64 word)"
  have "unat q \<in> {?N div ?D, ?N div ?D + 1}" using e(2) unfolding q_def unat_ucast_up unat_drop_bit q0(2) .
  moreover have "1 \<le> ?N div ?D" using assms(2) D by (simp add: word_le_nat_alt div_greater_zero_iff Suc_le_eq)
  ultimately have "(if n - (q - 1) * d < d then q - 1 else q) = n div d" by (intro correct_estimate) auto
  moreover have "\<not> n < d" using assms(2) by simp
  ultimately show ?thesis using q0(1) assms(1) unfolding udiv64_def q_def s_def by (simp add: Let_def)
qed

lemma udiv64_eq: "udiv64 n d = (if d = 0 then Inl DivideError else Inr (n div d))"
proof (cases "drop_bit 32 d = 0")
  case True
  then show ?thesis using udiv64_short [of d n] by (auto simp: udiv64_def)
next
  case False
  then have "d \<noteq> 0" by auto
  moreover have "udiv64 n d = Inr (n div d)"
  proof (cases "n < d")
    case True
    then have "n div d = 0" by (simp add: word_unat_eq_iff unat_div word_less_nat_alt)
    then show ?thesis using True False by (simp add: udiv64_def)
  next
    case False2: False
    then show ?thesis using udiv64_long [OF False] by simp
  qed
  ultimately show ?thesis by simp
qed

section \<open>Signed division and remainders\<close>

lemma uint_abs: "uint (if 0 \<le> sint n then n else - n) = \<bar>sint n\<bar>" for n :: "64 word"
proof -
  have b: "- (2 ^ 63) \<le> sint n" "sint n < 2 ^ 63" using sint_greater_eq [of n] sint_less [of n] by simp_all
  have n: "n = word_of_int (sint n)" by simp
  show ?thesis
  proof (cases "0 \<le> sint n")
    case True
    have "uint n = take_bit 64 (sint n)" using uint_sint [of n] by simp
    then show ?thesis using True b by (simp add: take_bit_int_eq_self_iff)
  next
    case False
    have "- n = word_of_int (- sint n)" by (subst n) (simp add: wi_hom_neg)
    moreover have "uint (word_of_int (- sint n) :: 64 word) = - sint n" using False b unfolding uint_word_of_int by simp
    ultimately show ?thesis using False by simp
  qed
qed

lemma sdiv64_eq: "sdiv64 n d = (if d = 0 then Inl DivideError else Inr (word_of_int (sint n sdiv sint d)))"
proof (cases "d = 0")
  case False
  let ?a = "if 0 \<le> sint n then n else - n" and ?c = "if 0 \<le> sint d then d else - d"
  have "?c \<noteq> 0" using False by simp
  then have u: "udiv64 ?a ?c = Inr (?a div ?c)" by (simp add: udiv64_eq)
  have "?a div ?c = word_of_int (uint ?a div uint ?c)" by (rule word_div_def)
  then have q: "?a div ?c = word_of_int (\<bar>sint n\<bar> div \<bar>sint d\<bar>)" unfolding uint_abs .
  have "(if (sint n < 0) = (sint d < 0) then ?a div ?c else - (?a div ?c)) = word_of_int (sint n sdiv sint d)"
    using False unfolding q signed_divide_int_def
    by (cases "sint n = 0"; cases "sint n < 0"; cases "sint d < 0") (auto simp: wi_hom_neg [symmetric] sgn_if)
  then show ?thesis using u False by (simp add: sdiv64_def Let_def)
qed (simp add: sdiv64_def udiv64_eq)

lemma umoddi3_eq: "umoddi3 n d = (if d = 0 then Inl DivideError else Inr (ucast (ucast (n mod d) :: 32 word)))"
  by (simp add: umoddi3_def umod64_def udiv64_eq minus_mult_div_eq_mod)

lemma ucast_word_of_int: "ucast (word_of_int k :: 64 word) = (word_of_int k :: 32 word)"
  by (intro bit_word_eqI) (simp add: bit_simps)

lemma moddi3_eq: "moddi3 n d = (if d = 0 then Inl DivideError else Inr (scast (word_of_int (sint n smod sint d) :: 32 word)))"
proof -
  have "n - d * word_of_int (sint n sdiv sint d) = word_of_int (sint n - sint d * (sint n sdiv sint d))"
    by (simp add: wi_hom_sub [symmetric] wi_hom_mult [symmetric])
  also have "sint n - sint d * (sint n sdiv sint d) = sint n smod sint d"
    using sdiv_mult_smod_eq [of "sint n" "sint d"] by (simp add: algebra_simps)
  finally show ?thesis by (simp add: moddi3_def smod64_def sdiv64_eq ucast_word_of_int)
qed

text \<open>C39. The division routines are correct: for every dividend and divisor, \<^verbatim>\<open>__udivdi3\<close> and \<^verbatim>\<open>__divdi3\<close> trap if the divisor
  is zero, and otherwise never do (no quotient of the divisions by 32 bits overflows) and give
  the quotient, rounded towards zero, with the wrap-around of the 64-bit result.\<close>

theorem division_correct:
  "udivdi3 n d = (if d = 0 then Inl DivideError else Inr (n div d))
   \<and> divdi3 n d = (if d = 0 then Inl DivideError else Inr (word_of_int (sint n sdiv sint d)))"
  by (simp add: udivdi3_def divdi3_def udiv64_eq sdiv64_eq)

text \<open>C40. The remainder routines are correct only if the remainder fits in 32 bits: \<^verbatim>\<open>umod64\<close> and \<^verbatim>\<open>smod64\<close>
  return a 32-bit integer, so \<^verbatim>\<open>__umoddi3\<close> and \<^verbatim>\<open>__moddi3\<close> give the remainder exactly if it is below 2^32, or
  in the range of a signed 32-bit integer.\<close>

theorem remainder_truncated:
  assumes "d \<noteq> 0"
  shows "(umoddi3 n d = Inr (n mod d) \<longleftrightarrow> unat (n mod d) < 2 ^ 32)
    \<and> (moddi3 n d = Inr (word_of_int (sint n smod sint d)) \<longleftrightarrow> in_s32 (sint n smod sint d))"
proof
  have "unat (ucast (ucast (n mod d) :: 32 word) :: 64 word) = unat (n mod d) mod 2 ^ 32"
    by (simp only: unat_ucast_up unat_ucast_down)
  then show "umoddi3 n d = Inr (n mod d) \<longleftrightarrow> unat (n mod d) < 2 ^ 32"
    using assms by (auto simp: umoddi3_eq word_unat_eq_iff)
  let ?r = "sint n smod sint d"
  have "sint d \<noteq> 0" using assms by (simp add: signed_eq_0_iff)
  then have "\<bar>?r\<bar> < \<bar>sint d\<bar>" using smod_int_range [of "sint d" "sint n"] by auto
  moreover have "\<bar>sint d\<bar> \<le> 2 ^ 63" using sint_greater_eq [of d] sint_less [of d] by simp
  ultimately have "- (2 ^ 63) \<le> ?r" "?r < 2 ^ 63" by linarith+
  then have r: "sint (word_of_int ?r :: 64 word) = ?r"
    by (simp add: sint_sbintrunc' signed_take_bit_int_eq_self_iff)
  let ?t = "signed_take_bit 31 ?r"
  have "- (2 ^ 31) \<le> ?t" "?t < 2 ^ 31" by (rule signed_take_bit_int_greater_eq_minus_exp, rule signed_take_bit_int_less_exp)
  then have t: "sint (word_of_int ?t :: 64 word) = ?t" by (simp add: sint_sbintrunc' signed_take_bit_int_eq_self_iff)
  have eq: "(word_of_int ?t :: 64 word) = word_of_int ?r \<longleftrightarrow> ?t = ?r" using r t by metis
  have "scast (word_of_int ?r :: 32 word) = (word_of_int ?t :: 64 word)" by (simp add: signed_of_int)
  then show "moddi3 n d = Inr (word_of_int ?r) \<longleftrightarrow> in_s32 ?r"
    using assms eq by (simp add: moddi3_eq in_s32_def signed_take_bit_int_eq_self_iff)
qed

theorem remainder_truncated_witness:
  "umoddi3 0x200000000 0x400000000 \<noteq> Inr 0x200000000 \<and> moddi3 0x80000000 0x100000000 \<noteq> Inr 0x80000000"
  using remainder_truncated [of "0x400000000" "0x200000000"] remainder_truncated [of "0x100000000" "0x80000000"]
  by (simp add: in_s32_def)

end
