(* ===== verification/Cstring.thy ===== *)
theory Cstring
  imports Bytes
begin

text \<open>
  \<^verbatim>\<open>lib/string.c\<close>: blocks and null-terminated strings in memory. Memory is the list of its bytes and a
  pointer is an address in it; address 0 is the null pointer. Reading or writing outside memory is
  \<open>Inl OutOfBounds\<close>, which is also what an unterminated string leads to, so every loop ends.
\<close>

type_synonym store = "byte list"

section \<open>Memory\<close>

definition rd :: "store \<Rightarrow> nat \<Rightarrow> byte res" where
  "rd m p = (if p < length m then Inr (m ! p) else Inl OutOfBounds)"

definition wr :: "store \<Rightarrow> nat \<Rightarrow> byte \<Rightarrow> store res" where
  "wr m p b = (if p < length m then Inr (m[p := b]) else Inl OutOfBounds)"

lemma rd_Inr [simp]: "rd m p = Inr b \<longleftrightarrow> p < length m \<and> b = m ! p"
  by (auto simp: rd_def)

lemma wr_Inr [simp]: "wr m p b = Inr m' \<longleftrightarrow> p < length m \<and> m' = m[p := b]"
  by (auto simp: wr_def)

section \<open>Blocks\<close>

text \<open>\<open>*dst++ = *src++\<close> and \<open>*--dst = *--src\<close>, \<open>n\<close> times; the result has the final \<open>dst\<close>.\<close>

fun copy_up :: "nat \<Rightarrow> nat \<Rightarrow> nat \<Rightarrow> store \<Rightarrow> (nat \<times> store) res" where
  "copy_up 0 dst src m = Inr (dst, m)"
| "copy_up (Suc n) dst src m = bindR (rd m src) (\<lambda>b. bindR (wr m dst b) (copy_up n (dst + 1) (src + 1)))"

fun copy_down :: "nat \<Rightarrow> nat \<Rightarrow> nat \<Rightarrow> store \<Rightarrow> (nat \<times> store) res" where
  "copy_down 0 dst src m = Inr (dst, m)"
| "copy_down (Suc n) dst src m =
     bindR (rd m (src - 1)) (\<lambda>b. bindR (wr m (dst - 1) b) (copy_down n (dst - 1) (src - 1)))"

definition memcpy :: "nat \<Rightarrow> nat \<Rightarrow> nat \<Rightarrow> store \<Rightarrow> (nat \<times> store) res" where
  "memcpy dst src n m =
     assertR (dst \<noteq> 0 \<or> n = 0) (assertR (src \<noteq> 0 \<or> n = 0)
       (bindR (copy_up n dst src m) (\<lambda>(_, m). Inr (dst, m))))"

definition memmove :: "nat \<Rightarrow> nat \<Rightarrow> nat \<Rightarrow> store \<Rightarrow> (nat \<times> store) res" where
  "memmove dst src n m =
     assertR (dst \<noteq> 0 \<or> n = 0) (assertR (src \<noteq> 0 \<or> n = 0)
       (if dst < src then copy_up n dst src m else copy_down n (dst + n) (src + n) m))"

fun memcmp_loop :: "nat \<Rightarrow> nat \<Rightarrow> nat \<Rightarrow> store \<Rightarrow> int res" where
  "memcmp_loop 0 a b m = Inr 0"
| "memcmp_loop (Suc n) a b m =
     bindR (rd m a) (\<lambda>x. bindR (rd m b) (\<lambda>y.
       if x \<noteq> y then Inr (if x > y then 1 else - 1) else memcmp_loop n (a + 1) (b + 1) m))"

definition memcmp :: "nat \<Rightarrow> nat \<Rightarrow> nat \<Rightarrow> store \<Rightarrow> int res" where
  "memcmp a b n m = assertR (a \<noteq> 0 \<or> n = 0) (assertR (b \<noteq> 0 \<or> n = 0) (memcmp_loop n a b m))"

fun memchr_loop :: "nat \<Rightarrow> nat \<Rightarrow> byte \<Rightarrow> store \<Rightarrow> nat res" where
  "memchr_loop 0 block ch m = Inr 0"
| "memchr_loop (Suc n) block ch m =
     bindR (rd m block) (\<lambda>b. if b = ch then Inr block else memchr_loop n (block + 1) ch m)"

definition memchr :: "nat \<Rightarrow> byte \<Rightarrow> nat \<Rightarrow> store \<Rightarrow> nat res" where
  "memchr block ch n m = assertR (block \<noteq> 0 \<or> n = 0) (memchr_loop n block ch m)"

fun set_up :: "nat \<Rightarrow> nat \<Rightarrow> byte \<Rightarrow> store \<Rightarrow> store res" where
  "set_up 0 dst v m = Inr m"
| "set_up (Suc n) dst v m = bindR (wr m dst v) (set_up n (dst + 1) v)"

definition memset :: "nat \<Rightarrow> byte \<Rightarrow> nat \<Rightarrow> store \<Rightarrow> (nat \<times> store) res" where
  "memset dst v n m = assertR (dst \<noteq> 0 \<or> n = 0) (bindR (set_up n dst v m) (\<lambda>m. Inr (dst, m)))"

section \<open>Strings\<close>

function str_end :: "store \<Rightarrow> nat \<Rightarrow> nat res" where
  "str_end m p = bindR (rd m p) (\<lambda>b. if b = 0 then Inr p else str_end m (p + 1))"
  by pat_completeness auto
termination by (relation "measure (\<lambda>(m, p). length m - p)") auto

definition strlen :: "nat \<Rightarrow> store \<Rightarrow> nat res" where
  "strlen string m = assertR (string \<noteq> 0) (bindR (str_end m string) (\<lambda>p. Inr (p - string)))"

text \<open>\<^verbatim>\<open>strnlen\<close> looks at a byte before it compares the length with the limit.\<close>

function strnlen_loop :: "nat \<Rightarrow> nat \<Rightarrow> nat \<Rightarrow> store \<Rightarrow> nat res" where
  "strnlen_loop string maxlen len m =
     bindR (rd m (string + len)) (\<lambda>b.
       if b \<noteq> 0 \<and> len < maxlen then strnlen_loop string maxlen (len + 1) m else Inr len)"
  by pat_completeness auto
termination by (relation "measure (\<lambda>(_, maxlen, len, _). maxlen - len)") auto

definition strnlen :: "nat \<Rightarrow> nat \<Rightarrow> store \<Rightarrow> nat res" where
  "strnlen string maxlen m = strnlen_loop string maxlen 0 m"

function strcmp_loop :: "nat \<Rightarrow> nat \<Rightarrow> store \<Rightarrow> int res" where
  "strcmp_loop a b m =
     bindR (rd m a) (\<lambda>x. bindR (rd m b) (\<lambda>y.
       if x \<noteq> 0 \<and> x = y then strcmp_loop (a + 1) (b + 1) m
       else Inr (if x < y then - 1 else if x > y then 1 else 0)))"
  by pat_completeness auto
termination by (relation "measure (\<lambda>(a, b, m). length m - a)") auto

definition strcmp :: "nat \<Rightarrow> nat \<Rightarrow> store \<Rightarrow> int res" where
  "strcmp a b m = assertR (a \<noteq> 0) (assertR (b \<noteq> 0) (strcmp_loop a b m))"

function strchr_loop :: "nat \<Rightarrow> byte \<Rightarrow> store \<Rightarrow> nat res" where
  "strchr_loop string c m =
     bindR (rd m string) (\<lambda>b.
       if b = c then Inr string else if b = 0 then Inr 0 else strchr_loop (string + 1) c m)"
  by pat_completeness auto
termination by (relation "measure (\<lambda>(p, c, m). length m - p)") auto

definition strchr :: "nat \<Rightarrow> byte \<Rightarrow> store \<Rightarrow> nat res" where
  "strchr string c m = assertR (string \<noteq> 0) (strchr_loop string c m)"

text \<open>\<^verbatim>\<open>strcspn\<close> and \<^verbatim>\<open>strspn\<close> differ in whether a character of the set ends the run (\<open>stop_if\<close>).\<close>

function span_loop :: "bool \<Rightarrow> nat \<Rightarrow> nat \<Rightarrow> nat \<Rightarrow> store \<Rightarrow> nat res" where
  "span_loop stop_if string chars len m =
     bindR (rd m (string + len)) (\<lambda>b.
       if b \<noteq> 0
       then bindR (strchr chars b m) (\<lambda>r.
              if (r \<noteq> 0) = stop_if then Inr len else span_loop stop_if string chars (len + 1) m)
       else Inr len)"
  by pat_completeness auto
termination by (relation "measure (\<lambda>(_, string, _, len, m). length m - (string + len))") auto

definition strcspn :: "nat \<Rightarrow> nat \<Rightarrow> store \<Rightarrow> nat res" where
  "strcspn string stop m = span_loop True string stop 0 m"

definition strspn :: "nat \<Rightarrow> nat \<Rightarrow> store \<Rightarrow> nat res" where
  "strspn string skip m = span_loop False string skip 0 m"

function strpbrk :: "nat \<Rightarrow> nat \<Rightarrow> store \<Rightarrow> nat res" where
  "strpbrk string stop m =
     bindR (rd m string) (\<lambda>b.
       if b \<noteq> 0
       then bindR (strchr stop b m) (\<lambda>r. if r \<noteq> 0 then Inr string else strpbrk (string + 1) stop m)
       else Inr 0)"
  by pat_completeness auto
termination by (relation "measure (\<lambda>(p, _, m). length m - p)") auto

function strrchr_loop :: "nat \<Rightarrow> byte \<Rightarrow> nat \<Rightarrow> store \<Rightarrow> nat res" where
  "strrchr_loop string c p m =
     bindR (rd m string) (\<lambda>b.
       if b \<noteq> 0 then strrchr_loop (string + 1) c (if b = c then string else p) m else Inr p)"
  by pat_completeness auto
termination by (relation "measure (\<lambda>(s, _, _, m). length m - s)") auto

definition strrchr :: "nat \<Rightarrow> byte \<Rightarrow> store \<Rightarrow> nat res" where
  "strrchr string c m = strrchr_loop string c 0 m"

fun strstr_loop :: "nat \<Rightarrow> nat \<Rightarrow> nat \<Rightarrow> nat \<Rightarrow> store \<Rightarrow> nat res" where
  "strstr_loop 0 haystack needle needle_len m = Inr 0"
| "strstr_loop (Suc n) haystack needle needle_len m =
     bindR (memcmp haystack needle needle_len m) (\<lambda>c.
       if c = 0 then Inr haystack else strstr_loop n (haystack + 1) needle needle_len m)"

definition strstr :: "nat \<Rightarrow> nat \<Rightarrow> store \<Rightarrow> nat res" where
  "strstr haystack needle m =
     bindR (strlen haystack m) (\<lambda>haystack_len.
     bindR (strlen needle m) (\<lambda>needle_len.
       if haystack_len \<ge> needle_len
       then strstr_loop (haystack_len - needle_len + 1) haystack needle needle_len m
       else Inr 0))"

text \<open>The two loops of \<^verbatim>\<open>strtok_r\<close>: over delimiters, with \<open>None\<close> at the end of the string, and over the
  characters of a token.\<close>

function skip_delimiters :: "nat \<Rightarrow> nat \<Rightarrow> store \<Rightarrow> (bool \<times> nat) res" where
  "skip_delimiters s delimiters m =
     bindR (rd m s) (\<lambda>b.
     bindR (strchr delimiters b m) (\<lambda>r.
       if r \<noteq> 0 then if b = 0 then Inr (True, s) else skip_delimiters (s + 1) delimiters m
       else Inr (False, s)))"
  by pat_completeness auto
termination by (relation "measure (\<lambda>(s, _, m). length m - s)") auto

function skip_token :: "nat \<Rightarrow> nat \<Rightarrow> store \<Rightarrow> nat res" where
  "skip_token s delimiters m =
     bindR (rd m s) (\<lambda>b.
     bindR (strchr delimiters b m) (\<lambda>r. if r = 0 then skip_token (s + 1) delimiters m else Inr s))"
  by pat_completeness auto
termination by (relation "measure (\<lambda>(s, _, m). length m - s)") auto

text \<open>The result is the token (0 at the end), the new \<open>*save_ptr\<close> and memory.\<close>

definition strtok_r :: "nat \<Rightarrow> nat \<Rightarrow> nat \<Rightarrow> store \<Rightarrow> (nat \<times> nat \<times> store) res" where
  "strtok_r s delimiters save_ptr m =
     assertR (delimiters \<noteq> 0) (
     let s = (if s = 0 then save_ptr else s)
     in assertR (s \<noteq> 0) (
        bindR (skip_delimiters s delimiters m) (\<lambda>(at_end, s).
          if at_end then Inr (0, s, m)
          else let token = s
               in bindR (skip_token s delimiters m) (\<lambda>s.
                  bindR (rd m s) (\<lambda>b.
                    if b \<noteq> 0 then bindR (wr m s 0) (\<lambda>m. Inr (token, s + 1, m))
                    else Inr (token, s, m))))))"

definition strlcpy :: "nat \<Rightarrow> nat \<Rightarrow> nat \<Rightarrow> store \<Rightarrow> (nat \<times> store) res" where
  "strlcpy dst src n m =
     assertR (dst \<noteq> 0) (assertR (src \<noteq> 0) (
     bindR (strlen src m) (\<lambda>src_len.
       if n > 0
       then let dst_len = (if src_len < n - 1 then src_len else n - 1)
            in bindR (memcpy dst src dst_len m) (\<lambda>(_, m).
               bindR (wr m (dst + dst_len) 0) (\<lambda>m. Inr (src_len, m)))
       else Inr (src_len, m))))"

definition strlcat :: "nat \<Rightarrow> nat \<Rightarrow> nat \<Rightarrow> store \<Rightarrow> (nat \<times> store) res" where
  "strlcat dst src n m =
     assertR (dst \<noteq> 0) (assertR (src \<noteq> 0) (
     bindR (strlen src m) (\<lambda>src_len.
     bindR (strlen dst m) (\<lambda>dst_len.
       if n > 0 \<and> dst_len < n
       then let copy_cnt = (if src_len < n - dst_len - 1 then src_len else n - dst_len - 1)
            in bindR (memcpy (dst + dst_len) src copy_cnt m) (\<lambda>(_, m).
               bindR (wr m (dst + dst_len + copy_cnt) 0) (\<lambda>m. Inr (src_len + dst_len, m)))
       else Inr (src_len + dst_len, m)))))"

lemmas string_loops = str_end.simps strnlen_loop.simps strcmp_loop.simps strchr_loop.simps span_loop.simps
  strpbrk.simps strrchr_loop.simps skip_delimiters.simps skip_token.simps

declare string_loops [simp del]

section \<open>Copying\<close>

definition block :: "nat \<Rightarrow> nat \<Rightarrow> store \<Rightarrow> byte list" where
  "block p n m = take n (drop p m)"

lemma length_block [simp]: "p + n \<le> length m \<Longrightarrow> length (block p n m) = n"
  by (simp add: block_def)

lemma nth_block [simp]: "i < n \<Longrightarrow> p + n \<le> length m \<Longrightarrow> block p n m ! i = m ! (p + i)"
  by (simp add: block_def)

lemma block_Suc: "p + Suc n \<le> length m \<Longrightarrow> block p (Suc n) m = m ! p # block (p + 1) n m"
  by (simp add: block_def Cons_nth_drop_Suc [symmetric])

lemma block_snoc: "p + Suc n \<le> length m \<Longrightarrow> block p (Suc n) m = block p n m @ [m ! (p + n)]"
  by (simp add: block_def take_Suc_conv_app_nth)

lemma block_update: "q < p \<or> p + n \<le> q \<Longrightarrow> block p n (m[q := x]) = block p n m"
  by (intro nth_equalityI) (auto simp: block_def nth_list_update)

lemma block_overwrite_other:
  "q + length xs \<le> length m \<Longrightarrow> p + n \<le> q \<or> q + length xs \<le> p \<Longrightarrow> block p n (overwrite q xs m) = block p n m"
  by (intro nth_equalityI) (auto simp: block_def nth_overwrite)

text \<open>Copying upwards works unless the destination starts inside the source, copying downwards
  unless it ends inside it.\<close>

lemma copy_up_block:
  "src + n \<le> length m \<Longrightarrow> dst + n \<le> length m \<Longrightarrow> dst \<le> src \<or> src + n \<le> dst \<Longrightarrow>
   copy_up n dst src m = Inr (dst + n, overwrite dst (block src n m) m)"
proof (induction n arbitrary: dst src m)
  case (Suc n)
  let ?m = "m[dst := m ! src]"
  have "copy_up n (dst + 1) (src + 1) ?m = Inr (dst + 1 + n, overwrite (dst + 1) (block (src + 1) n ?m) ?m)"
    using Suc.prems by (intro Suc.IH) auto
  moreover have "block (src + 1) n ?m = block (src + 1) n m"
    using Suc.prems(3) by (intro block_update) auto
  ultimately show ?case
    using Suc.prems overwrite_Cons [of dst "block (src + 1) n m" m "m ! src"]
    by (simp add: rd_def wr_def block_Suc)
qed (simp add: block_def)

lemma copy_down_block:
  "src + n \<le> length m \<Longrightarrow> dst + n \<le> length m \<Longrightarrow> src \<le> dst \<Longrightarrow>
   copy_down n (dst + n) (src + n) m = Inr (dst, overwrite dst (block src n m) m)"
proof (induction n arbitrary: m)
  case (Suc n)
  let ?m = "m[dst + n := m ! (src + n)]"
  have "copy_down n (dst + n) (src + n) ?m = Inr (dst, overwrite dst (block src n ?m) ?m)"
    using Suc.prems by (intro Suc.IH) auto
  moreover have "block src n ?m = block src n m"
    using Suc.prems(3) by (intro block_update) auto
  moreover have "length (block src n m) = n" using Suc.prems by simp
  ultimately show ?case
    using Suc.prems overwrite_snoc [of dst "block src n m" m "m ! (src + n)"]
    by (simp add: rd_def wr_def block_snoc)
qed (simp add: block_def)

text \<open>C33. \<^verbatim>\<open>memmove\<close> copies a block correctly however source and destination overlap, and changes nothing
  else. The pointer it returns is the destination only when the block moves up: when it moves down,
  the pointer has been advanced past the copy.\<close>

theorem memmove_correct:
  assumes "dst \<noteq> 0" "src \<noteq> 0" "src + n \<le> length m" "dst + n \<le> length m"
  shows "memmove dst src n m = Inr (if dst < src then dst + n else dst, overwrite dst (block src n m) m)"
  using assms copy_up_block [of src n m dst] copy_down_block [of src n m dst] by (simp add: memmove_def)

theorem memmove_correct_witness:
  "memmove 1 2 2 [0, 10, 11, 12] = Inr (3, [0, 11, 12, 12]) \<and> memmove 2 1 2 [0, 10, 11, 12] = Inr (2, [0, 10, 10, 11])"
  using memmove_correct [of 1 2 2 "[0, 10, 11, 12]"] memmove_correct [of 2 1 2 "[0, 10, 11, 12]"]
  by (simp add: overwrite_def block_def)

lemma memcpy_block:
  "dst \<noteq> 0 \<Longrightarrow> src \<noteq> 0 \<Longrightarrow> src + n \<le> length m \<Longrightarrow> dst + n \<le> length m \<Longrightarrow> dst \<le> src \<or> src + n \<le> dst \<Longrightarrow>
   memcpy dst src n m = Inr (dst, overwrite dst (block src n m) m)"
  by (simp add: memcpy_def copy_up_block)

lemma memset_block:
  "dst \<noteq> 0 \<Longrightarrow> dst + n \<le> length m \<Longrightarrow> memset dst v n m = Inr (dst, overwrite dst (replicate n v) m)"
proof -
  have "dst + n \<le> length m \<Longrightarrow> set_up n dst v m = Inr (overwrite dst (replicate n v) m)" for dst m
    by (induction n arbitrary: dst m) (simp_all add: wr_def flip: overwrite_Cons)
  then show "dst \<noteq> 0 \<Longrightarrow> dst + n \<le> length m \<Longrightarrow> ?thesis" by (simp add: memset_def)
qed

section \<open>Strings in memory\<close>

text \<open>The string \<open>s\<close> lies at \<open>p\<close>, followed by its terminator.\<close>

definition cstr :: "store \<Rightarrow> nat \<Rightarrow> byte list \<Rightarrow> bool" where
  "cstr m p s \<longleftrightarrow> p + length s < length m \<and> block p (length s) m = s \<and> m ! (p + length s) = 0 \<and> 0 \<notin> set s"

lemma cstr_Nil: "cstr m p [] \<longleftrightarrow> p < length m \<and> m ! p = 0"
  by (auto simp: cstr_def block_def)

lemma cstr_Cons: "cstr m p (c # s) \<longleftrightarrow> p < length m \<and> m ! p = c \<and> c \<noteq> 0 \<and> cstr m (p + 1) s"
proof -
  have "block p (Suc (length s)) m = c # s \<longleftrightarrow> m ! p = c \<and> block (p + 1) (length s) m = s"
    if "p + Suc (length s) < length m"
    using that by (simp add: block_Suc)
  then show ?thesis by (auto simp: cstr_def)
qed

lemma cstr_induct [consumes 1, case_names Nil Cons]:
  assumes "cstr m p s"
    and "\<And>p. p < length m \<Longrightarrow> m ! p = 0 \<Longrightarrow> P p []"
    and "\<And>p c s. p < length m \<Longrightarrow> m ! p = c \<Longrightarrow> c \<noteq> 0 \<Longrightarrow> cstr m (p + 1) s \<Longrightarrow> P (p + 1) s \<Longrightarrow> P p (c # s)"
  shows "P p s"
  using assms(1)
proof (induction s arbitrary: p)
  case Nil
  then show ?case using assms(2) by (simp add: cstr_Nil)
next
  case (Cons c s)
  then show ?case using assms(3) [of p c s] by (simp add: cstr_Cons)
qed

lemma cstr_unique: "cstr m p s \<Longrightarrow> cstr m p t \<Longrightarrow> s = t"
proof (induction arbitrary: t rule: cstr_induct)
  case (Nil p)
  then show ?case by (cases t) (simp_all add: cstr_Cons)
next
  case (Cons p c s)
  show ?case
  proof (cases t)
    case (Cons d u)
    with Cons.prems have "d = m ! p" "cstr m (p + 1) u" by (simp_all add: cstr_Cons)
    with Cons Cons.IH [of u] Cons.hyps(2) show ?thesis by simp
  qed (use Cons.prems Cons.hyps in \<open>simp add: cstr_Nil\<close>)
qed

lemma str_end_cstr: "cstr m p s \<Longrightarrow> str_end m p = Inr (p + length s)"
  by (induction rule: cstr_induct) (subst str_end.simps, simp add: rd_def)+

lemma strlen_cstr: "p \<noteq> 0 \<Longrightarrow> cstr m p s \<Longrightarrow> strlen p m = Inr (length s)"
  by (simp add: strlen_def str_end_cstr)

lemma strchr_loop_cstr:
  "cstr m p s \<Longrightarrow> strchr_loop p c m =
     Inr (if c = 0 then p + length s else if c \<in> set s then p + length (takeWhile (\<lambda>x. x \<noteq> c) s) else 0)"
  by (induction rule: cstr_induct) (subst strchr_loop.simps, simp add: rd_def)+

lemma strchr_cstr:
  "p \<noteq> 0 \<Longrightarrow> cstr m p s \<Longrightarrow> \<exists>r. strchr p c m = Inr r \<and> (r \<noteq> 0 \<longleftrightarrow> c = 0 \<or> c \<in> set s)"
  by (simp add: strchr_def strchr_loop_cstr)

section \<open>Comparison\<close>

text \<open>The lexicographic order of two strings, as -1, 0 or 1.\<close>

fun lex_cmp :: "byte list \<Rightarrow> byte list \<Rightarrow> int" where
  "lex_cmp [] [] = 0"
| "lex_cmp [] (y # ys) = - 1"
| "lex_cmp (x # xs) [] = 1"
| "lex_cmp (x # xs) (y # ys) = (if x < y then - 1 else if y < x then 1 else lex_cmp xs ys)"

lemma lex_cmp_0: "lex_cmp xs ys = 0 \<longleftrightarrow> xs = ys"
  by (induction xs ys rule: lex_cmp.induct) auto

lemma lex_cmp_swap: "lex_cmp ys xs = - lex_cmp xs ys"
  by (induction xs ys rule: lex_cmp.induct) auto

lemma byte_pos: "x \<noteq> 0 \<Longrightarrow> (0::byte) < x"
  by (simp add: word_neq_0_conv)

lemma strcmp_loop_cstr: "cstr m a s \<Longrightarrow> cstr m b t \<Longrightarrow> strcmp_loop a b m = Inr (lex_cmp s t)"
proof (induction arbitrary: b t rule: cstr_induct)
  case (Nil p)
  then show ?case
    by (subst strcmp_loop.simps) (cases t; simp add: rd_def cstr_Nil cstr_Cons byte_pos)
next
  case (Cons p c s)
  show ?case
  proof (cases t)
    case Nil
    with Cons.prems Cons.hyps show ?thesis
      by (subst strcmp_loop.simps) (simp add: rd_def cstr_Nil byte_pos)
  next
    case (Cons d u)
    with Cons.prems have d: "b < length m" "m ! b = d" "d \<noteq> 0" "cstr m (b + 1) u" by (simp_all add: cstr_Cons)
    with Cons Cons.IH [OF d(4)] Cons.hyps show ?thesis
      by (subst strcmp_loop.simps) (auto simp: rd_def)
  qed
qed

lemma strcmp_cstr:
  "a \<noteq> 0 \<Longrightarrow> b \<noteq> 0 \<Longrightarrow> cstr m a s \<Longrightarrow> cstr m b t \<Longrightarrow> strcmp a b m = Inr (lex_cmp s t)"
  by (simp add: strcmp_def strcmp_loop_cstr)

section \<open>Bounded copies\<close>

lemma cstr_overwrite:
  "p + Suc (length s) \<le> length m \<Longrightarrow> 0 \<notin> set s \<Longrightarrow> cstr (overwrite p (s @ [0]) m) p s"
  by (simp add: cstr_def block_def overwrite_def nth_append)

lemma cstr_block: "cstr m p s \<Longrightarrow> n \<le> length s \<Longrightarrow> block p n m = take n s"
  by (metis cstr_def block_def take_take min.absorb1)

lemma strlcpy_overwrite:
  assumes "dst \<noteq> 0" "src \<noteq> 0" "cstr m src s" "0 < n" "dst + n \<le> length m"
    and "dst + n \<le> src \<or> src + length s < dst"
  shows "strlcpy dst src n m = Inr (length s, overwrite dst (take (n - 1) s @ [0]) m)"
proof -
  let ?k = "if length s < n - 1 then length s else n - 1"
  have b: "block src ?k m = take (n - 1) s" using cstr_block [OF assms(3)] by simp
  have src: "src + length s < length m" using assms(3) by (simp add: cstr_def)
  have l: "?k = length (take (n - 1) s)" by simp
  have c: "memcpy dst src ?k m = Inr (dst, overwrite dst (take (n - 1) s) m)"
    unfolding b [symmetric] using assms src by (intro memcpy_block) auto
  have w: "(overwrite dst (take (n - 1) s) m)[dst + ?k := 0] = overwrite dst (take (n - 1) s @ [0]) m"
    unfolding l using assms(4,5) by (intro overwrite_update) simp
  have lt: "dst + ?k < length m" using assms(4,5) by auto
  show ?thesis
    using assms c w lt by (simp add: strlcpy_def strlen_cstr wr_def Let_def split del: if_split)
qed

text \<open>C34. \<^verbatim>\<open>strlcpy\<close> into a buffer of \<open>n > 0\<close> bytes stores the longest prefix of the source that fits with a
  terminator, writes no byte past it, and returns the full length of the source.\<close>

theorem strlcpy_correct:
  assumes "dst \<noteq> 0" "src \<noteq> 0" "cstr m src s" "0 < n" "dst + n \<le> length m"
    and "dst + n \<le> src \<or> src + length s < dst"
  shows "\<exists>m'. strlcpy dst src n m = Inr (length s, m') \<and> cstr m' dst (take (n - 1) s)
    \<and> m' = overwrite dst (take (n - 1) s @ [0]) m"
proof -
  have "0 \<notin> set (take (n - 1) s)" using assms(3) by (auto simp: cstr_def dest: in_set_takeD)
  then have "cstr (overwrite dst (take (n - 1) s @ [0]) m) dst (take (n - 1) s)"
    using assms(4,5) by (intro cstr_overwrite) auto
  then show ?thesis using strlcpy_overwrite [OF assms] by blast
qed

theorem strlcpy_correct_witness:
  "\<exists>m'. strlcpy 1 5 3 [9, 9, 9, 9, 9, 1, 2, 3, 0] = Inr (3, m') \<and> cstr m' 1 [1, 2]"
proof -
  have "cstr [9, 9, 9, 9, 9, 1, 2, 3, 0] 5 [1, 2, 3]" by (simp add: cstr_def block_def)
  from strlcpy_correct [of 1 5, OF _ _ this, of 3] show ?thesis by auto
qed

section \<open>Tokens\<close>

text \<open>The fields between delimiters, and the non-empty ones among them.\<close>

fun fields :: "byte list \<Rightarrow> byte list \<Rightarrow> byte list list" where
  "fields ds [] = [[]]"
| "fields ds (c # s) =
     (if c \<in> set ds then [] # fields ds s else (c # hd (fields ds s)) # tl (fields ds s))"

definition tokens :: "byte list \<Rightarrow> byte list \<Rightarrow> byte list list" where
  "tokens ds s = filter (\<lambda>w. w \<noteq> []) (fields ds s)"

lemma fields_run: "set w \<inter> set ds = {} \<Longrightarrow> fields ds (w @ s) = (w @ hd (fields ds s)) # tl (fields ds s)"
proof (induction w)
  case Nil
  show ?case by (cases s) auto
qed auto

lemma tokens_delimiters: "set w \<subseteq> set ds \<Longrightarrow> tokens ds (w @ s) = tokens ds s"
  by (induction w) (auto simp: tokens_def)

lemma tokens_word: "w \<noteq> [] \<Longrightarrow> set w \<inter> set ds = {} \<Longrightarrow> tokens ds w = [w]"
  using fields_run [of w ds "[]"] by (simp add: tokens_def)

lemma tokens_word_delimiter:
  "w \<noteq> [] \<Longrightarrow> set w \<inter> set ds = {} \<Longrightarrow> c \<in> set ds \<Longrightarrow> tokens ds (w @ c # s) = w # tokens ds s"
  using fields_run [of w ds "c # s"] by (simp add: tokens_def)

text \<open>The use of \<^verbatim>\<open>strtok_r\<close> its comment shows: call it until it returns a null pointer.\<close>

fun tokenize :: "nat \<Rightarrow> nat \<Rightarrow> nat \<Rightarrow> nat \<Rightarrow> store \<Rightarrow> (nat list \<times> store) res option" where
  "tokenize 0 s delimiters save_ptr m = None"
| "tokenize (Suc fuel) s delimiters save_ptr m =
     (case strtok_r s delimiters save_ptr m of
        Inl e \<Rightarrow> Some (Inl e)
      | Inr (token, save_ptr, m) \<Rightarrow>
          if token = 0 then Some (Inr ([], m))
          else map_option (\<lambda>r. bindR r (\<lambda>(ts, m). Inr (token # ts, m))) (tokenize fuel 0 delimiters save_ptr m))"

lemma cstr_append: "cstr m p (s @ t) \<Longrightarrow> cstr m (p + length s) t"
proof (induction s arbitrary: p)
  case (Cons c s)
  then show ?case using Cons.IH [of "p + 1"] by (simp add: cstr_Cons)
qed simp

lemma cstr_cong:
  assumes "length m' = length m" "\<And>i. p \<le> i \<Longrightarrow> i \<le> p + length s \<Longrightarrow> m' ! i = m ! i"
  shows "cstr m' p s = cstr m p s"
proof -
  have "block p (length s) m' = block p (length s) m"
    using assms by (intro nth_equalityI) (auto simp: block_def)
  with assms show ?thesis by (simp add: cstr_def)
qed

lemma cstr_cut:
  assumes "cstr m p (s @ c # t)"
  shows "cstr (m[p + length s := 0]) p s" "cstr (m[p + length s := 0]) (p + length s + 1) t"
proof -
  have c: "cstr m (p + length s) (c # t)" by (rule cstr_append [OF assms])
  have "block p (length s) m = s"
    using cstr_block [OF assms, of "length s"] by simp
  then have "block p (length s) (m[p + length s := 0]) = s" by (subst block_update) simp_all
  moreover have "0 \<notin> set s" using assms by (auto simp: cstr_def)
  ultimately show "cstr (m[p + length s := 0]) p s" using c by (simp add: cstr_def)
  show "cstr (m[p + length s := 0]) (p + length s + 1) t"
    using c by (subst cstr_cong [of _ m]) (simp_all add: cstr_Cons)
qed


lemma skip_delimiters_cstr:
  assumes "d \<noteq> 0" "cstr m d ds"
  shows "cstr m p s \<Longrightarrow> skip_delimiters p d m =
    Inr (dropWhile (\<lambda>c. c \<in> set ds) s = [], p + length (takeWhile (\<lambda>c. c \<in> set ds) s))"
proof (induction rule: cstr_induct)
  case (Nil p)
  obtain r where "strchr d 0 m = Inr r" "r \<noteq> 0" using strchr_cstr [OF assms] by blast
  with Nil show ?case by (subst skip_delimiters.simps) (simp add: rd_def)
next
  case (Cons p c s)
  obtain r where "strchr d c m = Inr r" "r \<noteq> 0 \<longleftrightarrow> c = 0 \<or> c \<in> set ds" using strchr_cstr [OF assms] by blast
  with Cons show ?case by (subst skip_delimiters.simps) (simp add: rd_def)
qed

lemma skip_token_cstr:
  assumes "d \<noteq> 0" "cstr m d ds"
  shows "cstr m p s \<Longrightarrow> skip_token p d m = Inr (p + length (takeWhile (\<lambda>c. c \<notin> set ds) s))"
proof (induction rule: cstr_induct)
  case (Nil p)
  obtain r where "strchr d 0 m = Inr r" "r \<noteq> 0" using strchr_cstr [OF assms] by blast
  with Nil show ?case by (subst skip_token.simps) (simp add: rd_def)
next
  case (Cons p c s)
  obtain r where "strchr d c m = Inr r" "r \<noteq> 0 \<longleftrightarrow> c = 0 \<or> c \<in> set ds" using strchr_cstr [OF assms] by blast
  with Cons show ?case by (subst skip_token.simps) (simp add: rd_def)
qed

text \<open>One call: the rest of the string starts with delimiters \<open>pre\<close>, then comes the token \<open>w\<close>.\<close>

lemma strtok_r_end:
  assumes "d \<noteq> 0" "cstr m d ds" "(if s0 = 0 then sp else s0) = p" "p \<noteq> 0" "cstr m p s" "set s \<subseteq> set ds"
  shows "strtok_r s0 d sp m = Inr (0, p + length s, m)"
proof -
  have "takeWhile (\<lambda>c. c \<in> set ds) s = s" "dropWhile (\<lambda>c. c \<in> set ds) s = []"
    using assms(6) by (auto simp: takeWhile_eq_all_conv)
  then have "skip_delimiters p d m = Inr (True, p + length s)"
    using skip_delimiters_cstr [OF assms(1,2,5)] by (simp only: simp_thms)
  then show ?thesis using assms(1,3,4) by (simp add: strtok_r_def Let_def)
qed

lemma strtok_r_token:
  assumes "d \<noteq> 0" "cstr m d ds" "(if s0 = 0 then sp else s0) = p" "p \<noteq> 0" "cstr m p (pre @ w @ r)"
    and "set pre \<subseteq> set ds" "w \<noteq> []" "set w \<inter> set ds = {}" "r = [] \<or> hd r \<in> set ds"
  shows "strtok_r s0 d sp m =
    (let t = p + length pre; e = t + length w
     in if r = [] then Inr (t, e, m) else Inr (t, e + 1, m[e := 0]))"
proof -
  have pre: "takeWhile (\<lambda>c. c \<in> set ds) (pre @ w @ r) = pre" "dropWhile (\<lambda>c. c \<in> set ds) (pre @ w @ r) = w @ r"
    using assms(6-8) by (cases w; auto simp: subset_iff)+
  have w: "takeWhile (\<lambda>c. c \<notin> set ds) (w @ r) = w"
    using assms(8,9) by (cases r) (auto simp: disjoint_iff)
  let ?t = "p + length pre"
  have t: "cstr m ?t (w @ r)" using cstr_append [OF assms(5)] .
  have e: "cstr m (?t + length w) r" using cstr_append [OF t] .
  have "skip_delimiters p d m = Inr (False, ?t)"
    using skip_delimiters_cstr [OF assms(1,2,5)] pre assms(7) by simp
  moreover have "skip_token ?t d m = Inr (?t + length w)"
    using skip_token_cstr [OF assms(1,2) t] w by simp
  ultimately show ?thesis
    using e assms(1,3,4)
    by (cases r) (simp_all add: strtok_r_def Let_def rd_def wr_def cstr_Nil cstr_Cons)
qed

text \<open>Whatever the calls change lies in the string.\<close>

definition agree_outside :: "nat \<Rightarrow> nat \<Rightarrow> store \<Rightarrow> store \<Rightarrow> bool" where
  "agree_outside a b m m' \<longleftrightarrow> length m' = length m \<and> (\<forall>i. i < a \<or> b \<le> i \<longrightarrow> m' ! i = m ! i)"

lemma split_token:
  obtains (none) "set s \<subseteq> set ds"
    | (token) pre w r where "s = pre @ w @ r" "set pre \<subseteq> set ds" "w \<noteq> []" "set w \<inter> set ds = {}" "r = [] \<or> hd r \<in> set ds"
proof (cases "dropWhile (\<lambda>c. c \<in> set ds) s")
  case Nil
  then show ?thesis by (intro none) (auto simp: dropWhile_eq_Nil_conv)
next
  case (Cons c t)
  let ?d = "dropWhile (\<lambda>c. c \<in> set ds) s"
  let ?w = "takeWhile (\<lambda>c. c \<notin> set ds) ?d" and ?r = "dropWhile (\<lambda>c. c \<notin> set ds) ?d"
  have "c \<notin> set ds" using Cons hd_dropWhile [of "\<lambda>c. c \<in> set ds" s] by auto
  then have "?w \<noteq> []" using Cons by simp
  moreover have "?r = [] \<or> hd ?r \<in> set ds" using hd_dropWhile [of "\<lambda>c. c \<notin> set ds" ?d] by auto
  moreover have "set ?w \<inter> set ds = {}" by (auto dest: set_takeWhileD)
  moreover have "set (takeWhile (\<lambda>c. c \<in> set ds) s) \<subseteq> set ds" by (auto dest: set_takeWhileD)
  ultimately show ?thesis by (intro token [of "takeWhile (\<lambda>c. c \<in> set ds) s" ?w ?r]) simp_all
qed

lemma tokenize_cstr:
  assumes "d \<noteq> 0"
  shows "(if s0 = 0 then sp else s0) = p \<Longrightarrow> p \<noteq> 0 \<Longrightarrow> cstr m d ds \<Longrightarrow> cstr m p s
    \<Longrightarrow> d + length ds < p \<or> p + length s < d \<Longrightarrow> length s < fuel \<Longrightarrow>
    \<exists>ts m'. tokenize fuel s0 d sp m = Some (Inr (ts, m')) \<and> list_all2 (cstr m') ts (tokens ds s)
      \<and> agree_outside p (p + length s) m m'"
proof (induction fuel arbitrary: s0 sp p s m)
  case (Suc fuel)
  show ?case
  proof (cases rule: split_token [of s ds])
    case none
    then have "tokens ds s = []" using tokens_delimiters [of s ds "[]"] by (simp add: tokens_def)
    then show ?thesis
      using strtok_r_end [OF assms Suc.prems(3,1,2,4) none] by (simp add: agree_outside_def)
  next
    case (token pre w r)
    let ?t = "p + length pre" and ?e = "p + length pre + length w"
    note call = strtok_r_token [OF assms Suc.prems(3,1,2) _ token(2-5), folded token(1), OF Suc.prems(4)]
    have t: "cstr m ?t (w @ r)" using cstr_append [of m p pre "w @ r"] Suc.prems(4) token(1) by simp
    show ?thesis
    proof (cases r)
      case Nil
      have c: "strtok_r s0 d sp m = Inr (?t, ?e, m)" using call Nil by (simp add: Let_def)
      have "cstr m ?e []" using cstr_append [OF t] Nil by simp
      moreover have "0 < fuel" using Suc.prems(6) token(1,3) by (cases w) auto
      ultimately have "\<exists>ts m'. tokenize fuel 0 d ?e m = Some (Inr (ts, m')) \<and> list_all2 (cstr m') ts (tokens ds [])
          \<and> agree_outside ?e ?e m m'"
        using Suc.IH [of 0 ?e ?e m "[]"] Suc.prems token(1) Nil by auto
      then obtain m' where m': "tokenize fuel 0 d ?e m = Some (Inr ([], m'))" "agree_outside ?e ?e m m'"
        by (auto simp: tokens_def)
      have "tokens ds s = [w]"
        using tokens_delimiters [OF token(2), of w] tokens_word [OF token(3,4)] token(1) Nil by simp
      moreover have "m' = m" using m'(2) by (intro nth_equalityI) (auto simp: agree_outside_def)
      ultimately show ?thesis
        using c m'(1) t Suc.prems(2) Nil by (simp add: agree_outside_def)
    next
      case (Cons c q)
      let ?m = "m[?e := 0]"
      have call': "strtok_r s0 d sp m = Inr (?t, ?e + 1, ?m)" using call Cons by (simp add: Let_def)
      note cut = cstr_cut [of m ?t w c q, OF t [unfolded Cons]]
      have d: "cstr ?m d ds"
        using Suc.prems(3,5) token(1) Cons by (subst cstr_cong [of _ m]) auto
      have "\<exists>ts m'. tokenize fuel 0 d (?e + 1) ?m = Some (Inr (ts, m')) \<and> list_all2 (cstr m') ts (tokens ds q)
          \<and> agree_outside (?e + 1) (?e + 1 + length q) ?m m'"
        using Suc.prems token(1) Cons cut(2) d by (intro Suc.IH) (auto simp: add.assoc)
      then obtain ts m' where m': "tokenize fuel 0 d (?e + 1) ?m = Some (Inr (ts, m'))"
          "list_all2 (cstr m') ts (tokens ds q)" "agree_outside (?e + 1) (?e + 1 + length q) ?m m'" by blast
      have "cstr m' ?t w"
        using cut(1) m'(3) by (subst cstr_cong [of _ ?m]) (auto simp: agree_outside_def)
      moreover have "tokens ds s = w # tokens ds q"
        using tokens_delimiters [OF token(2)] tokens_word_delimiter [OF token(3,4)] token(1,5) Cons by simp
      moreover have "agree_outside p (p + length s) m m'"
        using m'(3) token(1) Cons by (auto simp: agree_outside_def nth_list_update)
      ultimately show ?thesis using call' m'(1,2) Suc.prems(2) by simp
    qed
  qed
qed simp

text \<open>C35. Calling \<^verbatim>\<open>strtok_r\<close> until it returns a null pointer ends, and yields exactly the non-empty fields
  of the string between delimiters, in order, each as a string of its own in memory; nothing outside
  the string changes.\<close>

theorem strtok_r_tokens:
  assumes "s \<noteq> 0" "cstr m s str" "delimiters \<noteq> 0" "cstr m delimiters ds"
    and "delimiters + length ds < s \<or> s + length str < delimiters"
  shows "\<exists>ts m'. tokenize (length str + 1) s delimiters save_ptr m = Some (Inr (ts, m'))
    \<and> list_all2 (cstr m') ts (filter (\<lambda>w. w \<noteq> []) (fields ds str)) \<and> agree_outside s (s + length str) m m'"
  using tokenize_cstr [OF assms(3) _ assms(1) assms(4) assms(2) assms(5), of s save_ptr "length str + 1"] assms(1)
  by (simp add: tokens_def)

theorem strtok_r_tokens_witness:
  "\<exists>ts m'. tokenize 8 3 1 0 [0, 32, 0, 32, 65, 66, 32, 32, 67, 32, 0] = Some (Inr (ts, m'))
    \<and> list_all2 (cstr m') ts [[65, 66], [67]]"
proof -
  let ?m = "[0, 32, 0, 32, 65, 66, 32, 32, 67, 32, 0] :: byte list"
  have "cstr ?m 3 [32, 65, 66, 32, 32, 67, 32]" "cstr ?m 1 [32]" by (simp_all add: cstr_def block_def)
  then have "\<exists>ts m'. tokenize (length [32, 65, 66, 32, 32, 67, 32 :: byte] + 1) 3 1 0 ?m = Some (Inr (ts, m'))
      \<and> list_all2 (cstr m') ts (filter (\<lambda>w. w \<noteq> []) (fields [32] [32, 65, 66, 32, 32, 67, 32]))"
    using strtok_r_tokens [of 3 ?m "[32, 65, 66, 32, 32, 67, 32]" 1 "[32]" 0] by fastforce
  moreover have "length [32, 65, 66, 32, 32, 67, 32 :: byte] + 1 = 8" by simp
  moreover have "filter (\<lambda>w. w \<noteq> []) (fields [32] [32, 65, 66, 32, 32, 67, 32]) = [[65, 66], [67]]" by simp
  ultimately show ?thesis by (simp only:)
qed

text \<open>\<^verbatim>\<open>strnlen\<close> reads the byte at \<open>maxlen\<close> before it gives up: an unterminated buffer of exactly \<open>maxlen\<close>
  bytes is read past its end.\<close>

lemma strnlen_reads_past:
  assumes "length m = p + n" "\<forall>i < length m. m ! i \<noteq> 0"
  shows "strnlen p n m = Inl OutOfBounds"
proof -
  have "k \<le> n \<Longrightarrow> strnlen_loop p n (n - k) m = Inl OutOfBounds" for k
  proof (induction k)
    case 0
    then show ?case using assms(1) by (subst strnlen_loop.simps) (simp add: rd_def)
  next
    case (Suc k)
    then have "n - Suc k + 1 = n - k" "p + (n - Suc k) < length m" using assms(1) by simp_all
    with Suc assms(2) show ?case by (subst strnlen_loop.simps) (simp add: rd_def)
  qed
  from this [of n] show ?thesis by (simp add: strnlen_def)
qed

end
