(* ===== verification/Stdlib.thy ===== *)
theory Stdlib
  imports Cstring "HOL-Library.Multiset"
begin

text \<open>
  \<^verbatim>\<open>lib/stdlib.c\<close>: sorting and searching arrays in memory, and reading numbers. Elements are blocks of
  bytes; the caller's comparison is a function of their contents. \<^verbatim>\<open>size_t\<close> arithmetic wraps at
  32 bits, so \<^verbatim>\<open>heapify\<close> need not end on an array of more than 2^31 elements.
\<close>

section \<open>Sorting\<close>

type_synonym comparison = "byte list \<Rightarrow> byte list \<Rightarrow> int"

text \<open>\<^verbatim>\<open>array + (idx - 1) * size\<close>.\<close>

definition elem_ptr :: "nat \<Rightarrow> nat \<Rightarrow> nat \<Rightarrow> nat" where
  "elem_ptr array idx sz = (array + (idx + 2 ^ 32 - 1) * sz) mod 2 ^ 32"

fun swap_bytes :: "nat \<Rightarrow> nat \<Rightarrow> nat \<Rightarrow> store \<Rightarrow> store res" where
  "swap_bytes 0 a b m = Inr m"
| "swap_bytes (Suc n) a b m =
     bindR (rd m a) (\<lambda>t. bindR (rd m b) (\<lambda>u. bindR (wr m a u) (\<lambda>m. bindR (wr m b t) (swap_bytes n (a + 1) (b + 1)))))"

definition do_swap :: "nat \<Rightarrow> nat \<Rightarrow> nat \<Rightarrow> nat \<Rightarrow> store \<Rightarrow> store res" where
  "do_swap array a_idx b_idx sz m = swap_bytes sz (elem_ptr array a_idx sz) (elem_ptr array b_idx sz) m"

text \<open>A call of the comparison reads both elements.\<close>

definition compare_at :: "comparison \<Rightarrow> nat \<Rightarrow> nat \<Rightarrow> nat \<Rightarrow> store \<Rightarrow> int res" where
  "compare_at compare a b sz m =
     (if a + sz \<le> length m \<and> b + sz \<le> length m then Inr (compare (block a sz m) (block b sz m)) else Inl OutOfBounds)"

definition do_compare :: "nat \<Rightarrow> nat \<Rightarrow> nat \<Rightarrow> nat \<Rightarrow> comparison \<Rightarrow> store \<Rightarrow> int res" where
  "do_compare array a_idx b_idx sz compare m = compare_at compare (elem_ptr array a_idx sz) (elem_ptr array b_idx sz) sz m"

definition larger_of :: "nat \<Rightarrow> nat \<Rightarrow> nat \<Rightarrow> nat \<Rightarrow> nat \<Rightarrow> comparison \<Rightarrow> store \<Rightarrow> nat res" where
  "larger_of array c mx cnt sz compare m =
     (if c \<le> cnt then bindR (do_compare array c mx sz compare m) (\<lambda>r. Inr (if r > 0 then c else mx)) else Inr mx)"

partial_function (option) heapify :: "nat \<Rightarrow> nat \<Rightarrow> nat \<Rightarrow> nat \<Rightarrow> comparison \<Rightarrow> store \<Rightarrow> store res option" where
  "heapify array i cnt sz compare m =
     (case bindR (larger_of array (2 * i mod 2 ^ 32) i cnt sz compare m) (\<lambda>mx.
           larger_of array ((2 * i + 1) mod 2 ^ 32) mx cnt sz compare m) of
        Inl e \<Rightarrow> Some (Inl e)
      | Inr mx \<Rightarrow>
          if mx = i then Some (Inr m)
          else case do_swap array i mx sz m of
                 Inl e \<Rightarrow> Some (Inl e)
               | Inr m \<Rightarrow> heapify array mx cnt sz compare m)"

fun build_heap :: "nat \<Rightarrow> nat \<Rightarrow> nat \<Rightarrow> nat \<Rightarrow> comparison \<Rightarrow> store \<Rightarrow> store res option" where
  "build_heap array 0 cnt sz compare m = Some (Inr m)"
| "build_heap array (Suc i) cnt sz compare m =
     bindO (heapify array (Suc i) cnt sz compare m) (build_heap array i cnt sz compare)"

fun sort_heap :: "nat \<Rightarrow> nat \<Rightarrow> nat \<Rightarrow> comparison \<Rightarrow> store \<Rightarrow> store res option" where
  "sort_heap array (Suc (Suc i)) sz compare m =
     (case do_swap array 1 (Suc (Suc i)) sz m of
        Inl e \<Rightarrow> Some (Inl e)
      | Inr m \<Rightarrow> bindO (heapify array 1 (Suc i) sz compare m) (sort_heap array (Suc i) sz compare))"
| "sort_heap array i sz compare m = Some (Inr m)"

definition sort_array :: "nat \<Rightarrow> nat \<Rightarrow> nat \<Rightarrow> comparison \<Rightarrow> store \<Rightarrow> store res option" where
  "sort_array array cnt sz compare m =
     (if \<not> (array \<noteq> 0 \<or> cnt = 0) \<or> \<not> sz > 0 then Some (Inl Assertion)
      else bindO (build_heap array (cnt div 2) cnt sz compare m) (sort_heap array cnt sz compare))"

text \<open>\<^verbatim>\<open>qsort\<close> and \<^verbatim>\<open>bsearch\<close> pass the comparison they are given as the auxiliary argument of one that calls it.\<close>

definition compare_thunk :: "byte list \<Rightarrow> byte list \<Rightarrow> comparison \<Rightarrow> int" where
  "compare_thunk a b aux = aux a b"

definition qsort :: "nat \<Rightarrow> nat \<Rightarrow> nat \<Rightarrow> comparison \<Rightarrow> store \<Rightarrow> store res option" where
  "qsort array cnt sz compare m = sort_array array cnt sz (\<lambda>a b. compare_thunk a b compare) m"

section \<open>Searching\<close>

lemma middle_bound:
  fixes lo hi sz :: nat
  assumes "lo < hi"
  shows "(hi - lo) div sz div 2 * sz < hi - lo"
proof -
  have "2 * ((hi - lo) div sz div 2 * sz) \<le> (hi - lo) div sz * sz"
    using times_div_less_eq_dividend [of 2 "(hi - lo) div sz"] by (metis mult.assoc mult_le_mono1)
  also have "\<dots> \<le> hi - lo" by (rule div_times_less_eq_dividend)
  finally show ?thesis using assms by linarith
qed

function search_loop :: "nat \<Rightarrow> nat \<Rightarrow> byte list \<Rightarrow> nat \<Rightarrow> comparison \<Rightarrow> store \<Rightarrow> nat res" where
  "search_loop lo hi key sz compare m =
     (if lo < hi
      then if sz = 0 then Inl DivideError
           else let range = (hi - lo) div sz;
                    middle = lo + range div 2 * sz
                in if middle + sz \<le> length m
                   then let cmp = compare key (block middle sz m)
                        in if cmp < 0 then search_loop lo middle key sz compare m
                           else if cmp > 0 then search_loop (middle + sz) hi key sz compare m
                           else Inr middle
                   else Inl OutOfBounds
      else Inr 0)"
  by pat_completeness auto
termination
  by (relation "measure (\<lambda>(lo, hi, _). hi - lo)") (use middle_bound in \<open>fastforce+\<close>)

definition binary_search :: "byte list \<Rightarrow> nat \<Rightarrow> nat \<Rightarrow> nat \<Rightarrow> comparison \<Rightarrow> store \<Rightarrow> nat res" where
  "binary_search key array cnt sz compare m = search_loop array ((array + sz * cnt) mod 2 ^ 32) key sz compare m"

definition bsearch :: "byte list \<Rightarrow> nat \<Rightarrow> nat \<Rightarrow> nat \<Rightarrow> comparison \<Rightarrow> store \<Rightarrow> nat res" where
  "bsearch key array cnt sz compare m = binary_search key array cnt sz (\<lambda>a b. compare_thunk a b compare) m"

section \<open>Reading a number\<close>

definition isspace :: "byte \<Rightarrow> bool" where
  "isspace c \<longleftrightarrow> c = 32 \<or> c = 12 \<or> c = 10 \<or> c = 13 \<or> c = 9 \<or> c = 11"

definition isdigit :: "byte \<Rightarrow> bool" where
  "isdigit c \<longleftrightarrow> 48 \<le> c \<and> c \<le> 57"

function skip_space :: "nat \<Rightarrow> store \<Rightarrow> nat res" where
  "skip_space s m = bindR (rd m s) (\<lambda>c. if isspace c then skip_space (s + 1) m else Inr s)"
  by auto
termination by (relation "measure (\<lambda>(s, m). length m - s)") auto

function parse_digits :: "int \<Rightarrow> nat \<Rightarrow> store \<Rightarrow> int res" where
  "parse_digits value s m =
     bindR (rd m s) (\<lambda>c.
       if isdigit c then parse_digits (s32 (s32 (value * 10) - (uint c - 48))) (s + 1) m else Inr value)"
  by auto
termination by (relation "measure (\<lambda>(value, s, m). length m - s)") auto

definition atoi :: "nat \<Rightarrow> store \<Rightarrow> int res" where
  "atoi s m =
     assertR (s \<noteq> 0) (
     bindR (skip_space s m) (\<lambda>s.
     bindR (rd m s) (\<lambda>c.
     let negative = (c = 45);
         s = (if c = 43 then s + 1 else if c = 45 then s + 1 else s)
     in bindR (parse_digits 0 s m) (\<lambda>value. Inr (if \<not> negative then s32 (- value) else value)))))"

declare search_loop.simps [simp del] skip_space.simps [simp del] parse_digits.simps [simp del]

section \<open>An array in memory\<close>

text \<open>\<open>pre @ concat xs @ post\<close> is a memory with the array \<open>xs\<close> of elements of \<open>sz\<close> bytes at address
  \<open>length pre\<close>.\<close>

definition holds_array :: "store \<Rightarrow> byte list list \<Rightarrow> store \<Rightarrow> nat \<Rightarrow> bool" where
  "holds_array pre xs post sz \<longleftrightarrow> (\<forall>x\<in>set xs. length x = sz) \<and> 0 < sz \<and> length pre + length xs * sz + length post \<le> 2 ^ 32"

lemma length_concat_elems: "\<forall>x\<in>set xs. length x = sz \<Longrightarrow> length (concat xs) = length xs * sz"
  by (induction xs) auto

lemma holds_array_split:
  assumes "holds_array pre (A @ x # B) post sz"
  shows "length (concat A) = length A * sz" "length x = sz" "length (concat B) = length B * sz"
  using assms by (auto simp: holds_array_def length_concat_elems)

lemma elem_ptr_eq:
  assumes "holds_array pre xs post sz" "0 < i" "i \<le> length xs"
  shows "elem_ptr (length pre) i sz = length pre + (i - 1) * sz"
proof -
  have "(i - 1) * sz < length xs * sz" using assms by (simp add: holds_array_def)
  then have lt: "length pre + (i - 1) * sz < 2 ^ 32" using assms(1) unfolding holds_array_def by linarith
  have "length pre + (i + 2 ^ 32 - 1) * sz = length pre + (i - 1) * sz + 2 ^ 32 * sz"
    using assms(2) by (cases i) (simp_all add: algebra_simps)
  then have "elem_ptr (length pre) i sz = (length pre + (i - 1) * sz + 2 ^ 32 * sz) mod 2 ^ 32"
    unfolding elem_ptr_def by (rule arg_cong)
  then show ?thesis by (simp only: mod_mult_self2 mod_less [OF lt])
qed

lemma block_elem:
  assumes "holds_array pre xs post sz" "i < length xs"
  shows "block (length pre + i * sz) sz (pre @ concat xs @ post) = xs ! i"
    and "length pre + i * sz + sz \<le> length (pre @ concat xs @ post)"
proof -
  have xs: "xs = take i xs @ xs ! i # drop (Suc i) xs" using assms(2) by (rule id_take_nth_drop)
  have l: "length (concat (take i xs)) = i * sz" "length (xs ! i) = sz"
    using holds_array_split [of pre "take i xs" "xs ! i" "drop (Suc i) xs"] xs assms by auto
  have m: "pre @ concat xs @ post = (pre @ concat (take i xs)) @ xs ! i @ concat (drop (Suc i) xs) @ post"
    by (subst xs) simp
  show "block (length pre + i * sz) sz (pre @ concat xs @ post) = xs ! i" unfolding m using l by (simp add: block_def)
  show "length pre + i * sz + sz \<le> length (pre @ concat xs @ post)" unfolding m using l by simp
qed

lemma compare_at_elems:
  assumes "holds_array pre xs post sz" "0 < a" "a \<le> length xs" "0 < b" "b \<le> length xs"
  shows "do_compare (length pre) a b sz compare (pre @ concat xs @ post) = Inr (compare (xs ! (a - 1)) (xs ! (b - 1)))"
proof -
  have "a - 1 < length xs" "b - 1 < length xs" using assms by auto
  then show ?thesis
    using assms block_elem [OF assms(1), of "a - 1"] block_elem [OF assms(1), of "b - 1"]
    by (simp add: do_compare_def compare_at_def elem_ptr_eq [OF assms(1)])
qed

lemma swap_bytes_blocks:
  assumes "length u = n" "length v = n"
  shows "swap_bytes n (length p) (length p + n + length q) (p @ u @ q @ v @ r) = Inr (p @ v @ q @ u @ r)"
  using assms
proof (induction n arbitrary: u v p q)
  case (Suc n)
  obtain a u' b v' where uv: "u = a # u'" "v = b # v'" using Suc.prems by (metis length_Suc_conv)
  have "swap_bytes n (length (p @ [b])) (length (p @ [b]) + n + length (q @ [a])) ((p @ [b]) @ u' @ (q @ [a]) @ v' @ r)
      = Inr ((p @ [b]) @ v' @ (q @ [a]) @ u' @ r)"
    by (rule Suc.IH) (use Suc.prems uv in auto)
  moreover have "length p + Suc n + length q = length (p @ a # u' @ q)" using Suc.prems uv by simp
  then have "(p @ a # u' @ q @ b # v' @ r) ! (length p + Suc n + length q) = b"
      "(p @ b # u' @ q @ b # v' @ r)[length p + Suc n + length q := a] = p @ b # u' @ q @ a # v' @ r"
    using nth_append_length [of "p @ a # u' @ q" b] list_update_length [of "p @ b # u' @ q" b "v' @ r" a] by (simp_all add: ac_simps)
  ultimately show ?case using Suc.prems uv
    by (simp add: rd_def wr_def add.commute add.left_commute)
qed simp

lemma update_two:
  assumes "length A = i" "length A + 1 + length B = k"
  shows "(A @ a # B @ b # C)[i := c, k := d] = A @ c # B @ d # C"
proof -
  have "(A @ a # B @ b # C)[i := c] = (A @ c # B) @ b # C" using assms(1) by (simp add: list_update_append)
  moreover have "length (A @ c # B) = k" using assms(2) by simp
  then have "((A @ c # B) @ b # C)[k := d] = (A @ c # B) @ d # C" by (metis list_update_length)
  ultimately show ?thesis by simp
qed

lemma swap_split:
  assumes "i < k" "k < length xs"
  obtains A B C where "xs = A @ xs ! i # B @ xs ! k # C" "xs[i := xs ! k, k := xs ! i] = A @ xs ! k # B @ xs ! i # C"
    "length A = i" "length A + 1 + length B = k"
proof -
  let ?A = "take i xs" and ?B = "take (k - i - 1) (drop (Suc i) xs)" and ?C = "drop (Suc k) xs"
  have "drop (Suc i) xs = ?B @ drop (k - i - 1) (drop (Suc i) xs)"
    by (rule append_take_drop_id [symmetric])
  also have "drop (k - i - 1) (drop (Suc i) xs) = xs ! k # ?C" using assms by (simp add: Cons_nth_drop_Suc)
  finally have xs: "xs = ?A @ xs ! i # ?B @ xs ! k # ?C" using assms id_take_nth_drop [of i xs] by simp
  have l: "length ?A = i" "length ?A + 1 + length ?B = k" using assms by simp_all
  have "xs[i := xs ! k, k := xs ! i] = ?A @ xs ! k # ?B @ xs ! i # ?C"
    using xs update_two [OF l] by metis
  with xs l show ?thesis using that by blast
qed

definition swap_at :: "nat \<Rightarrow> nat \<Rightarrow> 'a list \<Rightarrow> 'a list" where
  "swap_at a b xs = xs[a - 1 := xs ! (b - 1), b - 1 := xs ! (a - 1)]"

lemma do_swap_elems:
  assumes h: "holds_array pre xs post sz" and ab: "0 < a" "a < b" "b \<le> length xs"
  shows "do_swap (length pre) a b sz (pre @ concat xs @ post) = Inr (pre @ concat (swap_at a b xs) @ post)"
proof -
  obtain A B C where *: "xs = A @ xs ! (a - 1) # B @ xs ! (b - 1) # C"
      "xs[a - 1 := xs ! (b - 1), b - 1 := xs ! (a - 1)] = A @ xs ! (b - 1) # B @ xs ! (a - 1) # C"
      "length A = a - 1" "length A + 1 + length B = b - 1"
    using ab by (rule_tac swap_split [of "a - 1" "b - 1" xs]) auto
  let ?u = "xs ! (a - 1)" and ?v = "xs ! (b - 1)"
  have "\<forall>x\<in>set (A @ ?u # B @ ?v # C). length x = sz" using h * unfolding holds_array_def by metis
  then have l: "length ?u = sz" "length ?v = sz" "length (concat A) = (a - 1) * sz" "length (concat B) = length B * sz"
    using length_concat_elems [of A sz] length_concat_elems [of B sz] *(3) by simp_all
  have b: "(b - 1) * sz = (a - 1) * sz + sz + length B * sz" unfolding *(4) [symmetric] *(3) by (simp add: algebra_simps)
  have "swap_bytes sz (length (pre @ concat A)) (length (pre @ concat A) + sz + length (concat B))
      ((pre @ concat A) @ ?u @ concat B @ ?v @ concat C @ post)
      = Inr ((pre @ concat A) @ ?v @ concat B @ ?u @ concat C @ post)"
    using l by (intro swap_bytes_blocks)
  moreover have "pre @ concat xs @ post = (pre @ concat A) @ ?u @ concat B @ ?v @ concat C @ post"
    by (subst *(1)) simp
  moreover have "pre @ concat (swap_at a b xs) @ post = (pre @ concat A) @ ?v @ concat B @ ?u @ concat C @ post"
    unfolding swap_at_def *(2) by simp
  moreover have "elem_ptr (length pre) a sz = length (pre @ concat A)"
      "elem_ptr (length pre) b sz = length (pre @ concat A) + sz + length (concat B)"
    using ab l b by (simp_all add: elem_ptr_eq [OF h])
  ultimately show ?thesis unfolding do_swap_def by simp
qed

section \<open>Sorting is correct\<close>

text \<open>What the callers' comparison has to be: a \<^verbatim>\<open>strcmp()\<close>-type result on the elements.\<close>

definition strcmp_type :: "comparison \<Rightarrow> byte list set \<Rightarrow> bool" where
  "strcmp_type compare S \<longleftrightarrow>
     (\<forall>a\<in>S. \<forall>b\<in>S. compare a b > 0 \<longleftrightarrow> compare b a < 0) \<and>
     (\<forall>a\<in>S. \<forall>b\<in>S. \<forall>c\<in>S. compare a b \<le> 0 \<longrightarrow> compare b c \<le> 0 \<longrightarrow> compare a c \<le> 0)"

lemma strcmp_type_swap:
  "strcmp_type compare S \<Longrightarrow> a \<in> S \<Longrightarrow> b \<in> S \<Longrightarrow> compare a b > 0 \<longleftrightarrow> compare b a < 0"
  unfolding strcmp_type_def by blast

lemma strcmp_type_total:
  assumes "strcmp_type compare S" "a \<in> S" "b \<in> S"
  shows "compare a b \<le> 0 \<or> compare b a \<le> 0"
  using strcmp_type_swap [OF assms] by linarith

lemma strcmp_type_trans:
  "strcmp_type compare S \<Longrightarrow> compare a b \<le> 0 \<Longrightarrow> compare b c \<le> 0 \<Longrightarrow> a \<in> S \<Longrightarrow> b \<in> S \<Longrightarrow> c \<in> S \<Longrightarrow> compare a c \<le> 0"
  unfolding strcmp_type_def by blast

text \<open>Heap order among the elements \<open>lo..n\<close>, numbered from one, and heap order except below \<open>j\<close>.\<close>

definition le_at :: "comparison \<Rightarrow> byte list list \<Rightarrow> nat \<Rightarrow> nat \<Rightarrow> bool" where
  "le_at compare xs a b \<longleftrightarrow> compare (xs ! (a - 1)) (xs ! (b - 1)) \<le> 0"

definition heap_from :: "comparison \<Rightarrow> byte list list \<Rightarrow> nat \<Rightarrow> nat \<Rightarrow> bool" where
  "heap_from compare xs lo n \<longleftrightarrow> (\<forall>k\<le>n. lo \<le> k div 2 \<longrightarrow> le_at compare xs k (k div 2))"

definition heap_except :: "comparison \<Rightarrow> byte list list \<Rightarrow> nat \<Rightarrow> nat \<Rightarrow> nat \<Rightarrow> bool" where
  "heap_except compare xs lo n j \<longleftrightarrow>
     (\<forall>k\<le>n. lo \<le> k div 2 \<longrightarrow> k div 2 \<noteq> j \<longrightarrow> le_at compare xs k (k div 2)) \<and>
     (\<forall>k\<le>n. k div 2 = j \<longrightarrow> lo \<le> j div 2 \<longrightarrow> le_at compare xs k (j div 2))"

definition biggest :: "comparison \<Rightarrow> byte list list \<Rightarrow> nat \<Rightarrow> nat \<Rightarrow> nat \<Rightarrow> bool" where
  "biggest compare xs n j mx \<longleftrightarrow>
     (mx = j \<or> mx div 2 = j) \<and> mx \<le> n \<and> le_at compare xs j mx \<and> (\<forall>k\<le>n. k div 2 = j \<longrightarrow> le_at compare xs k mx)"

lemma le_at_trans:
  assumes "strcmp_type compare (set xs)" "le_at compare xs a b" "le_at compare xs b c"
    "0 < a" "0 < b" "0 < c" "a \<le> length xs" "b \<le> length xs" "c \<le> length xs"
  shows "le_at compare xs a c"
proof -
  have "xs ! (a - 1) \<in> set xs" "xs ! (b - 1) \<in> set xs" "xs ! (c - 1) \<in> set xs"
    using assms(4-) by (auto intro!: nth_mem)
  then show ?thesis using assms(2,3) strcmp_type_trans [OF assms(1)] unfolding le_at_def by blast
qed

lemma le_at_total:
  assumes "strcmp_type compare (set xs)" "0 < a" "0 < b" "a \<le> length xs" "b \<le> length xs"
  shows "le_at compare xs a b \<or> le_at compare xs b a"
proof -
  have "xs ! (a - 1) \<in> set xs" "xs ! (b - 1) \<in> set xs" using assms(2-) by (auto intro!: nth_mem)
  then show ?thesis using strcmp_type_total [OF assms(1)] unfolding le_at_def by blast
qed

lemma larger_of_eq:
  assumes "holds_array pre xs post sz" "0 < c" "0 < mx" "mx \<le> n" "n \<le> length xs"
  shows "larger_of (length pre) c mx n sz compare (pre @ concat xs @ post)
      = Inr (if c \<le> n \<and> \<not> le_at compare xs c mx then c else mx)"
  using assms compare_at_elems [OF assms(1), of c mx compare] by (auto simp: larger_of_def le_at_def)

lemma children: "k div 2 = j \<longleftrightarrow> k = 2 * j \<or> k = 2 * j + (1::nat)"
  by auto

lemma biggest_found:
  assumes "holds_array pre xs post sz" "strcmp_type compare (set xs)" "0 < j" "j \<le> n" "n \<le> length xs" "n < 2 ^ 31"
  obtains mx where "bindR (larger_of (length pre) (2 * j mod 2 ^ 32) j n sz compare (pre @ concat xs @ post)) (\<lambda>mx.
        larger_of (length pre) ((2 * j + 1) mod 2 ^ 32) mx n sz compare (pre @ concat xs @ post)) = Inr mx"
    "biggest compare xs n j mx"
proof -
  let ?m = "pre @ concat xs @ post" and ?le = "le_at compare xs"
  have w: "2 * j mod 2 ^ 32 = 2 * j" "(2 * j + 1) mod 2 ^ 32 = 2 * j + 1" using assms(4,6) by simp_all
  define l where "l = (if 2 * j \<le> n \<and> \<not> ?le (2 * j) j then 2 * j else j)"
  define mx where "mx = (if 2 * j + 1 \<le> n \<and> \<not> ?le (2 * j + 1) l then 2 * j + 1 else l)"
  have l: "0 < l" "l \<le> n" "l = j \<or> l = 2 * j" using assms by (auto simp: l_def)
  have mx: "0 < mx" "mx \<le> n" "mx = l \<or> mx = 2 * j + 1" using l assms by (auto simp: mx_def)
  have tot: "?le a b \<or> ?le b a" if "0 < a" "0 < b" "a \<le> n" "b \<le> n" for a b
    using le_at_total [OF assms(2) that(1,2)] that assms(5) by simp
  have ge_l: "?le j l" "2 * j \<le> n \<Longrightarrow> ?le (2 * j) l"
    using tot [of j j] tot [of j "2 * j"] tot [of "2 * j" "2 * j"] assms(3,4) by (auto simp: l_def)
  have ge_mx: "?le l mx" "2 * j + 1 \<le> n \<Longrightarrow> ?le (2 * j + 1) mx"
    using tot [of l l] tot [of l "2 * j + 1"] tot [of "2 * j + 1" "2 * j + 1"] l by (auto simp: mx_def)
  have tr: "?le a mx" if "?le a l" "0 < a" "a \<le> n" for a
    using le_at_trans [OF assms(2) that(1) ge_mx(1)] that l mx assms by simp
  have "?le j mx" "2 * j \<le> n \<Longrightarrow> ?le (2 * j) mx" using tr ge_l assms by auto
  then have "biggest compare xs n j mx"
    unfolding biggest_def children using ge_mx(2) mx l by auto
  moreover have "larger_of (length pre) (2 * j mod 2 ^ 32) j n sz compare ?m = Inr l"
    unfolding w l_def by (rule larger_of_eq [OF assms(1)]) (use assms in auto)
  moreover have "larger_of (length pre) ((2 * j + 1) mod 2 ^ 32) l n sz compare ?m = Inr mx"
    unfolding w mx_def by (rule larger_of_eq [OF assms(1)]) (use assms l in auto)
  ultimately show ?thesis using that by simp
qed

lemma length_swap_at [simp]: "length (swap_at a b xs) = length xs"
  by (simp add: swap_at_def)

lemma mset_swap_at: "0 < a \<Longrightarrow> 0 < b \<Longrightarrow> a \<le> length xs \<Longrightarrow> b \<le> length xs \<Longrightarrow> mset (swap_at a b xs) = mset xs"
  unfolding swap_at_def by (intro mset_swap) auto

lemma drop_swap_at: "0 < a \<Longrightarrow> 0 < b \<Longrightarrow> a \<le> n \<Longrightarrow> b \<le> n \<Longrightarrow> drop n (swap_at a b xs) = drop n xs"
  by (simp add: swap_at_def)

lemma nth_swap_at:
  assumes "0 < a" "0 < b" "a \<le> length xs" "b \<le> length xs" "0 < k"
  shows "swap_at a b xs ! (k - 1) = xs ! ((if k = a then b else if k = b then a else k) - 1)"
proof -
  have "k - 1 = a - 1 \<longleftrightarrow> k = a" "k - 1 = b - 1 \<longleftrightarrow> k = b" "a - 1 < length xs" "b - 1 < length xs"
    using assms by auto
  then show ?thesis unfolding swap_at_def by (simp only: nth_list_update length_list_update) auto
qed

lemma le_at_swap:
  assumes "0 < a" "0 < b" "a \<le> length xs" "b \<le> length xs" "0 < k" "0 < l"
  shows "le_at compare (swap_at a b xs) k l \<longleftrightarrow>
    le_at compare xs (if k = a then b else if k = b then a else k) (if l = a then b else if l = b then a else l)"
  unfolding le_at_def nth_swap_at [OF assms(1-4,5)] nth_swap_at [OF assms(1-4,6)] ..

lemma holds_array_mset:
  assumes "mset ys = mset xs"
  shows "holds_array pre ys post sz \<longleftrightarrow> holds_array pre xs post sz"
  unfolding holds_array_def mset_eq_setD [OF assms] mset_eq_length [OF assms] ..

lemma heap_except_biggest:
  assumes "heap_except compare xs lo n j" "biggest compare xs n j j"
  shows "heap_from compare xs lo n"
  unfolding heap_from_def
proof (intro allI impI)
  fix k assume "k \<le> n" "lo \<le> k div 2"
  then show "le_at compare xs k (k div 2)"
    using assms by (cases "k div 2 = j") (auto simp: heap_except_def biggest_def)
qed

lemma heap_except_step:
  assumes ex: "heap_except compare xs lo n j" and big: "biggest compare xs n j mx" "mx \<noteq> j"
    and j: "0 < lo" "lo \<le> j" "j \<le> n" "n \<le> length xs"
  shows "heap_except compare (swap_at j mx xs) lo n mx"
proof -
  have mx: "mx div 2 = j" "0 < mx" "mx \<le> n" "j < mx" using big j by (auto simp: biggest_def)
  have sw: "le_at compare (swap_at j mx xs) k l \<longleftrightarrow>
      le_at compare xs (if k = j then mx else if k = mx then j else k) (if l = j then mx else if l = mx then j else l)"
    if "0 < k" "0 < l" for k l
    using that mx j by (intro le_at_swap) auto
  have max: "le_at compare xs j mx" "\<And>k. k \<le> n \<Longrightarrow> k div 2 = j \<Longrightarrow> le_at compare xs k mx"
    using big by (auto simp: biggest_def)
  have up: "\<And>k. k \<le> n \<Longrightarrow> lo \<le> k div 2 \<Longrightarrow> k div 2 \<noteq> j \<Longrightarrow> le_at compare xs k (k div 2)"
      "lo \<le> j div 2 \<Longrightarrow> le_at compare xs mx (j div 2)"
    using ex mx by (auto simp: heap_except_def)
  have "le_at compare (swap_at j mx xs) k (k div 2)" if k: "k \<le> n" "lo \<le> k div 2" "k div 2 \<noteq> mx" for k
  proof -
    have pos: "0 < k" "0 < k div 2" using k(2) j(1) by auto
    consider "k div 2 = j" | "k = j" "k div 2 \<noteq> j" | "k \<noteq> j" "k div 2 \<noteq> j" by blast
    then show ?thesis
    proof cases
      case 1
      then have "k \<noteq> j" using j by auto
      then show ?thesis using 1 max k(1) unfolding sw [OF pos] by auto
    next
      case 2
      then show ?thesis using up(2) k unfolding sw [OF pos] by auto
    next
      case 3
      then have "k \<noteq> mx" using mx by auto
      then show ?thesis using up(1) [OF k(1,2)] 3 k(3) unfolding sw [OF pos] by auto
    qed
  qed
  moreover have "le_at compare (swap_at j mx xs) k (mx div 2)" if k: "k \<le> n" "k div 2 = mx" for k
  proof -
    have pos: "0 < k" "0 < mx div 2" and ne: "k \<noteq> mx" "k \<noteq> j" using k mx j by auto
    show ?thesis using up(1) [OF k(1)] k mx j ne unfolding sw [OF pos] by auto
  qed
  ultimately show ?thesis unfolding heap_except_def by blast
qed

lemma heapify_sifts:
  assumes "holds_array pre xs post sz" "strcmp_type compare (set xs)" "0 < lo" "lo \<le> j" "j \<le> n" "n \<le> length xs" "n < 2 ^ 31"
    "heap_except compare xs lo n j"
  shows "\<exists>ys. heapify (length pre) j n sz compare (pre @ concat xs @ post) = Some (Inr (pre @ concat ys @ post))
    \<and> mset ys = mset xs \<and> drop n ys = drop n xs \<and> heap_from compare ys lo n"
  using assms
proof (induction "n - j" arbitrary: j xs rule: less_induct)
  case less
  have "0 < j" using less.prems by simp
  then obtain mx where mx: "bindR (larger_of (length pre) (2 * j mod 2 ^ 32) j n sz compare (pre @ concat xs @ post)) (\<lambda>mx.
        larger_of (length pre) ((2 * j + 1) mod 2 ^ 32) mx n sz compare (pre @ concat xs @ post)) = Inr mx"
      and big: "biggest compare xs n j mx"
    using less.prems(5-7) by (rule biggest_found [OF less.prems(1,2)])
  show ?case
  proof (cases "mx = j")
    case True
    then have "heapify (length pre) j n sz compare (pre @ concat xs @ post) = Some (Inr (pre @ concat xs @ post))"
      by (subst heapify.simps) (simp only: mx sum.case refl if_True)
    moreover have "heap_from compare xs lo n" using heap_except_biggest less.prems(8) big True by blast
    ultimately show ?thesis by blast
  next
    case False
    let ?ys = "swap_at j mx xs"
    have le: "j < mx" "mx \<le> n" using big False \<open>0 < j\<close> by (auto simp: biggest_def)
    have ms: "mset ?ys = mset xs" "drop n ?ys = drop n xs"
      using le less.prems(6) \<open>0 < j\<close> by (auto intro!: mset_swap_at drop_swap_at)
    have "do_swap (length pre) j mx sz (pre @ concat xs @ post) = Inr (pre @ concat ?ys @ post)"
      using le less.prems(6) \<open>0 < j\<close> by (intro do_swap_elems [OF less.prems(1)]) auto
    then have "heapify (length pre) j n sz compare (pre @ concat xs @ post) = heapify (length pre) mx n sz compare (pre @ concat ?ys @ post)"
      using False by (subst heapify.simps) (simp only: mx sum.case if_False)
    moreover have "\<exists>zs. heapify (length pre) mx n sz compare (pre @ concat ?ys @ post) = Some (Inr (pre @ concat zs @ post))
        \<and> mset zs = mset ?ys \<and> drop n zs = drop n ?ys \<and> heap_from compare zs lo n"
    proof (rule less.hyps)
      show "heap_except compare ?ys lo n mx"
        using heap_except_step [OF less.prems(8) big False less.prems(3-6)] .
      show "holds_array pre ?ys post sz" using holds_array_mset [OF ms(1)] less.prems(1) by simp
      show "strcmp_type compare (set ?ys)" using mset_eq_setD [OF ms(1)] less.prems(2) by simp
    qed (use le less.prems in auto)
    ultimately show ?thesis using ms by simp
  qed
qed

lemma build_heap_correct:
  assumes "holds_array pre xs post sz" "strcmp_type compare (set xs)" "i \<le> n" "n \<le> length xs" "n < 2 ^ 31"
    "heap_from compare xs (Suc i) n"
  shows "\<exists>ys. build_heap (length pre) i n sz compare (pre @ concat xs @ post) = Some (Inr (pre @ concat ys @ post))
    \<and> mset ys = mset xs \<and> heap_from compare ys 1 n"
  using assms
proof (induction i arbitrary: xs)
  case (Suc i)
  have "heap_except compare xs (Suc i) n (Suc i)" using Suc.prems(6) by (auto simp: heap_from_def heap_except_def)
  then obtain ys where ys: "heapify (length pre) (Suc i) n sz compare (pre @ concat xs @ post) = Some (Inr (pre @ concat ys @ post))"
      "mset ys = mset xs" "heap_from compare ys (Suc i) n"
    using heapify_sifts [OF Suc.prems(1,2) _ order_refl Suc.prems(3-5)] by blast
  then have "\<exists>zs. build_heap (length pre) i n sz compare (pre @ concat ys @ post) = Some (Inr (pre @ concat zs @ post))
    \<and> mset zs = mset ys \<and> heap_from compare zs 1 n"
    using Suc.prems(1-5) holds_array_mset [OF ys(2)] mset_eq_setD [OF ys(2)] mset_eq_length [OF ys(2)] by (intro Suc.IH) auto
  then show ?case using ys by (auto simp: bindO_def)
qed auto

lemma heap_top_max:
  assumes "heap_from compare xs 1 n" "strcmp_type compare (set xs)" "n \<le> length xs" "0 < k" "k \<le> n"
  shows "le_at compare xs k 1"
  using assms(4,5)
proof (induction k rule: less_induct)
  case (less k)
  show ?case
  proof (cases "k = 1")
    case True
    then show ?thesis using le_at_total [OF assms(2), of 1 1] less.prems assms(3) by simp
  next
    case False
    have "le_at compare xs k (k div 2)" using assms(1) less.prems False by (auto simp: heap_from_def)
    moreover have "le_at compare xs (k div 2) 1" using less False by (intro less.IH) auto
    ultimately show ?thesis by (rule le_at_trans [OF assms(2)]) (use less.prems False assms(3) in auto)
  qed
qed

text \<open>From index \<open>i\<close> on, every element is at least those before it.\<close>

definition sorted_above :: "comparison \<Rightarrow> byte list list \<Rightarrow> nat \<Rightarrow> bool" where
  "sorted_above compare xs i \<longleftrightarrow> (\<forall>b<length xs. i \<le> b \<longrightarrow> (\<forall>x\<in>set (take b xs). compare x (xs ! b) \<le> 0))"

lemma same_prefix:
  assumes "mset zs = mset xs" "drop n zs = drop n xs" "n \<le> b"
  shows "set (take b zs) = set (take b xs)" "n \<le> b \<Longrightarrow> b < length xs \<Longrightarrow> zs ! b = xs ! b"
proof -
  have "drop b zs = drop b xs" using assms(2,3) by (metis drop_drop le_add_diff_inverse2)
  then have "mset (take b zs) = mset (take b xs)"
    using assms(1) by (metis add_right_cancel append_take_drop_id mset_append)
  then show "set (take b zs) = set (take b xs)" by (rule mset_eq_setD)
  show "zs ! b = xs ! b" if "b < length xs"
    using \<open>drop b zs = drop b xs\<close> that mset_eq_length [OF assms(1)] by (metis hd_drop_conv_nth)
qed

lemma sort_heap_step:
  assumes xs: "heap_from compare xs 1 (Suc n)" "sorted_above compare xs (Suc n)" "strcmp_type compare (set xs)" "Suc n \<le> length xs" "0 < n"
    and zs: "mset zs = mset (swap_at 1 (Suc n) xs)" "drop n zs = drop n (swap_at 1 (Suc n) xs)"
  shows "sorted_above compare zs n"
  unfolding sorted_above_def
proof (intro allI impI ballI)
  let ?ys = "swap_at 1 (Suc n) xs"
  have ys: "mset ?ys = mset xs" "drop (Suc n) ?ys = drop (Suc n) xs" "?ys ! n = xs ! 0"
    using xs(4,5) mset_swap_at [of 1 "Suc n" xs] drop_swap_at [of 1 "Suc n" "Suc n" xs] nth_swap_at [of 1 "Suc n" xs "Suc n"] by auto
  fix b x assume b: "b < length zs" "n \<le> b" "x \<in> set (take b zs)"
  have len: "length zs = length xs" using mset_eq_length [OF zs(1)] by simp
  have zb: "zs ! b = ?ys ! b" "x \<in> set (take b ?ys)" using same_prefix [OF zs b(2)] b len by auto
  show "compare x (zs ! b) \<le> 0"
  proof (cases "b = n")
    case True
    have "x \<in> set (take (Suc n) xs)"
      using zb(2) same_prefix(1) [OF ys(1,2) order_refl] set_take_subset_set_take [of n "Suc n" ?ys] True by auto
    then obtain k where "k < Suc n" "x = xs ! k" using xs(4) by (auto simp: in_set_conv_nth)
    then show ?thesis using heap_top_max [OF xs(1,3,4), of "Suc k"] True zb(1) ys(3) by (simp add: le_at_def)
  next
    case False
    then have "Suc n \<le> b" using b(2) by simp
    then show ?thesis
      using same_prefix [OF ys(1,2), of b] zb b(1) len xs(2) by (simp add: sorted_above_def)
  qed
qed

lemma sort_heap_correct:
  assumes "holds_array pre xs post sz" "strcmp_type compare (set xs)" "i \<le> length xs" "i < 2 ^ 31"
    "heap_from compare xs 1 i" "sorted_above compare xs i"
  shows "\<exists>ys. sort_heap (length pre) i sz compare (pre @ concat xs @ post) = Some (Inr (pre @ concat ys @ post))
    \<and> mset ys = mset xs \<and> sorted_above compare ys 1"
  using assms
proof (induction i arbitrary: xs)
  case (Suc n)
  show ?case
  proof (cases n)
    case 0
    then show ?thesis using Suc.prems(6) by auto
  next
    case (Suc i)
    let ?ys = "swap_at 1 (Suc n) xs"
    have ms: "mset ?ys = mset xs" using Suc.prems(3) by (intro mset_swap_at) auto
    note ys = holds_array_mset [OF ms, THEN iffD2, OF Suc.prems(1)] mset_eq_setD [OF ms] mset_eq_length [OF ms]
    have "heap_except compare ?ys 1 n 1"
      using Suc.prems(3,5) by (auto simp: heap_except_def heap_from_def le_at_swap)
    then obtain zs where zs: "heapify (length pre) 1 n sz compare (pre @ concat ?ys @ post) = Some (Inr (pre @ concat zs @ post))"
        "mset zs = mset ?ys" "drop n zs = drop n ?ys" "heap_from compare zs 1 n"
      using heapify_sifts [OF ys(1), of compare 1 1 n] ys Suc.prems(2-4) \<open>n = Suc i\<close> by auto
    have "sorted_above compare zs n"
      using sort_heap_step [OF Suc.prems(5,6,2,3) _ zs(2,3)] \<open>n = Suc i\<close> by simp
    then have "\<exists>us. sort_heap (length pre) n sz compare (pre @ concat zs @ post) = Some (Inr (pre @ concat us @ post))
        \<and> mset us = mset zs \<and> sorted_above compare us 1"
      using Suc.prems(2-4) ys holds_array_mset [OF zs(2)] mset_eq_setD [OF zs(2)] mset_eq_length [OF zs(2)] zs(4)
      by (intro Suc.IH) auto
    moreover have "do_swap (length pre) 1 (Suc n) sz (pre @ concat xs @ post) = Inr (pre @ concat ?ys @ post)"
      using Suc.prems(3) \<open>n = Suc i\<close> by (intro do_swap_elems [OF Suc.prems(1)]) auto
    ultimately show ?thesis using zs(1,2) ms \<open>n = Suc i\<close> by (auto simp: bindO_def)
  qed
qed (auto simp: sorted_above_def)

text \<open>C15. \<^verbatim>\<open>sort\<close> and \<^verbatim>\<open>qsort\<close> are correct: on an array of fewer than 2^31 elements and a comparison that gives
  \<^verbatim>\<open>strcmp()\<close>-type results on them, both return, the array is a sorted permutation of what it was, and
  no byte outside the array changes.\<close>

theorem sort_correct:
  assumes "holds_array pre xs post sz" "strcmp_type compare (set xs)" "length xs < 2 ^ 31" "pre \<noteq> []"
  shows "\<exists>ys. sort_array (length pre) (length xs) sz compare (pre @ concat xs @ post) = Some (Inr (pre @ concat ys @ post))
    \<and> qsort (length pre) (length xs) sz compare (pre @ concat xs @ post) = Some (Inr (pre @ concat ys @ post))
    \<and> mset ys = mset xs \<and> sorted_wrt (\<lambda>a b. compare a b \<le> 0) ys"
proof -
  let ?n = "length xs"
  have "heap_from compare xs (Suc (?n div 2)) ?n" by (auto simp: heap_from_def dest: div_le_mono [where k = 2])
  then obtain ys where ys: "build_heap (length pre) (?n div 2) ?n sz compare (pre @ concat xs @ post) = Some (Inr (pre @ concat ys @ post))"
      "mset ys = mset xs" "heap_from compare ys 1 ?n"
    using build_heap_correct [OF assms(1,2) _ order_refl assms(3), of "?n div 2"] by auto
  have "sorted_above compare ys ?n" using mset_eq_length [OF ys(2)] by (auto simp: sorted_above_def)
  then obtain zs where zs: "sort_heap (length pre) ?n sz compare (pre @ concat ys @ post) = Some (Inr (pre @ concat zs @ post))"
      "mset zs = mset ys" "sorted_above compare zs 1"
    using sort_heap_correct [of pre ys post sz compare ?n] assms ys holds_array_mset [OF ys(2)] mset_eq_setD [OF ys(2)]
      mset_eq_length [OF ys(2)] by auto
  have "sorted_wrt (\<lambda>a b. compare a b \<le> 0) zs"
    unfolding sorted_wrt_iff_nth_less using zs(3) by (force simp: sorted_above_def in_set_conv_nth)
  moreover have "sort_array (length pre) ?n sz compare (pre @ concat xs @ post) = Some (Inr (pre @ concat zs @ post))"
    using assms(1,4) ys(1) zs(1) by (simp add: sort_array_def bindO_def holds_array_def)
  ultimately show ?thesis using ys(2) zs(2) by (auto simp: qsort_def compare_thunk_def)
qed

lemma strcmp_type_first_byte: "strcmp_type (\<lambda>a b. uint (hd a) - uint (hd b)) S"
  by (auto simp: strcmp_type_def)

theorem sort_correct_witness:
  "\<exists>ys. sort_array 1 3 1 (\<lambda>a b. uint (hd a) - uint (hd b)) [0, 3, 1, 2, 9] = Some (Inr ([0] @ concat ys @ [9]))
    \<and> mset ys = mset [[3], [1], [2]] \<and> sorted_wrt (\<lambda>a b. uint (hd a) - uint (hd b) \<le> 0) ys"
proof -
  have "holds_array [0] [[3], [1], [2]] [9] 1" by (simp add: holds_array_def)
  from sort_correct [OF this strcmp_type_first_byte] show ?thesis by (auto simp: numeral_3_eq_3)
qed

section \<open>Searching is correct\<close>

lemma strcmp_type_less_trans:
  assumes "strcmp_type compare S" "a \<in> S" "b \<in> S" "c \<in> S"
  shows "compare a b < 0 \<Longrightarrow> compare b c \<le> 0 \<Longrightarrow> compare a c < 0"
    and "compare a b \<le> 0 \<Longrightarrow> compare b c < 0 \<Longrightarrow> compare a c < 0"
proof -
  note sw = strcmp_type_swap [OF assms(1,3,2)] strcmp_type_swap [OF assms(1,4,2)] strcmp_type_swap [OF assms(1,4,3)]
    and tr = strcmp_type_trans [OF assms(1)]
  show "compare a c < 0" if "compare a b < 0" "compare b c \<le> 0"
    using that sw tr [of b c a] assms(2-) by linarith
  show "compare a c < 0" if "compare a b \<le> 0" "compare b c < 0"
    using that sw tr [of c a b] assms(2-) by linarith
qed

lemma search_loop_step:
  assumes "lo < hi" "0 < sz" "middle = lo + (hi - lo) div sz div 2 * sz" "middle + sz \<le> length m"
  shows "search_loop lo hi key sz compare m =
    (if compare key (block middle sz m) < 0 then search_loop lo middle key sz compare m
     else if compare key (block middle sz m) > 0 then search_loop (middle + sz) hi key sz compare m
     else Inr middle)"
  using assms by (subst search_loop.simps) (simp add: Let_def)

lemma search_loop_correct:
  assumes h: "holds_array pre xs post sz" and st: "strcmp_type compare (insert key (set xs))"
    and so: "sorted_wrt (\<lambda>a b. compare a b \<le> 0) xs" and pre: "pre \<noteq> []"
  shows "a \<le> b \<Longrightarrow> b \<le> length xs \<Longrightarrow> \<forall>i<a. compare key (xs ! i) > 0 \<Longrightarrow> \<forall>i<length xs. b \<le> i \<longrightarrow> compare key (xs ! i) < 0 \<Longrightarrow>
    \<exists>r. search_loop (length pre + a * sz) (length pre + b * sz) key sz compare (pre @ concat xs @ post) = Inr r
      \<and> (if r = 0 then \<forall>x\<in>set xs. compare key x \<noteq> 0
         else \<exists>i<length xs. r = length pre + i * sz \<and> compare key (xs ! i) = 0)"
proof (induction "b - a" arbitrary: a b rule: less_induct)
  case less
  let ?m = "pre @ concat xs @ post"
  have sz: "0 < sz" using h by (simp add: holds_array_def)
  show ?case
  proof (cases "a < b")
    case False
    then have "search_loop (length pre + a * sz) (length pre + b * sz) key sz compare ?m = Inr 0"
      using less.prems by (subst search_loop.simps) simp
    moreover have "\<forall>i<length xs. compare key (xs ! i) \<noteq> 0" 
    proof (intro allI impI)
      fix i assume "i < length xs"
      then show "compare key (xs ! i) \<noteq> 0" using less.prems(3,4) False by (cases "i < a") force+
    qed
    ultimately show ?thesis by (auto simp: in_set_conv_nth)
  next
    case True
    define k where "k = a + (b - a) div 2"
    have k: "a \<le> k" "k < b" "k < length xs" using True less.prems(2) by (auto simp: k_def)
    have "(length pre + b * sz - (length pre + a * sz)) div sz = b - a"
      using sz by (simp add: diff_mult_distrib [symmetric])
    then have mid: "length pre + k * sz = length pre + a * sz + (length pre + b * sz - (length pre + a * sz)) div sz div 2 * sz"
      by (simp add: k_def algebra_simps)
    have step: "search_loop (length pre + a * sz) (length pre + b * sz) key sz compare ?m =
        (if compare key (xs ! k) < 0 then search_loop (length pre + a * sz) (length pre + k * sz) key sz compare ?m
         else if compare key (xs ! k) > 0 then search_loop (length pre + Suc k * sz) (length pre + b * sz) key sz compare ?m
         else Inr (length pre + k * sz))"
      using search_loop_step [OF _ sz mid block_elem(2) [OF h k(3)], of key compare] True sz
      unfolding block_elem(1) [OF h k(3)] by (simp add: add.assoc add.commute [of sz])
    have nth: "\<And>i. i < length xs \<Longrightarrow> xs ! i \<in> insert key (set xs)" by simp
    have mono: "compare (xs ! i) (xs ! j) \<le> 0" if "i < j" "j < length xs" for i j
      using so that by (auto simp: sorted_wrt_iff_nth_less)
    consider (lt) "compare key (xs ! k) < 0" | (gt) "compare key (xs ! k) > 0" | (eq) "compare key (xs ! k) = 0" by linarith
    then show ?thesis
    proof cases
      case lt
      have "\<forall>i<length xs. k \<le> i \<longrightarrow> compare key (xs ! i) < 0"
        using strcmp_type_less_trans(1) [OF st insertI1 nth nth lt mono] k(3) lt by (metis le_neq_implies_less)
      then have "\<exists>r. search_loop (length pre + a * sz) (length pre + k * sz) key sz compare ?m = Inr r
          \<and> (if r = 0 then \<forall>x\<in>set xs. compare key x \<noteq> 0
             else \<exists>i<length xs. r = length pre + i * sz \<and> compare key (xs ! i) = 0)"
        using k less.prems(3) by (intro less.hyps) auto
      then show ?thesis using lt unfolding step by simp
    next
      case gt
      have "compare (xs ! i) key < 0" if "i \<le> k" for i
      proof -
        have "compare (xs ! k) key < 0" using strcmp_type_swap [OF st insertI1 nth [OF k(3)]] gt by simp
        then show ?thesis using strcmp_type_less_trans(2) [OF st nth nth insertI1 mono, of i k] that k(3) by (cases "i = k") auto
      qed
      then have "\<forall>i<Suc k. compare key (xs ! i) > 0"
        using strcmp_type_swap [OF st insertI1 nth] k(3) by (simp add: less_Suc_eq_le)
      then have "\<exists>r. search_loop (length pre + Suc k * sz) (length pre + b * sz) key sz compare ?m = Inr r
          \<and> (if r = 0 then \<forall>x\<in>set xs. compare key x \<noteq> 0
             else \<exists>i<length xs. r = length pre + i * sz \<and> compare key (xs ! i) = 0)"
        using k less.prems(2,4) by (intro less.hyps) auto
      then show ?thesis using gt unfolding step by simp
    next
      case eq
      then show ?thesis unfolding step using k pre by auto
    qed
  qed
qed

text \<open>C36. \<^verbatim>\<open>binary_search\<close> and \<^verbatim>\<open>bsearch\<close> are correct: on a sorted array below the top of the address space they
  return the address of an element equal to the key, and a null pointer exactly if there is none.\<close>

theorem binary_search_correct:
  assumes "holds_array pre xs post sz" "strcmp_type compare (insert key (set xs))" "sorted_wrt (\<lambda>a b. compare a b \<le> 0) xs"
    "pre \<noteq> []" "length pre + length xs * sz < 2 ^ 32"
  shows "\<exists>r. binary_search key (length pre) (length xs) sz compare (pre @ concat xs @ post) = Inr r
      \<and> bsearch key (length pre) (length xs) sz compare (pre @ concat xs @ post) = Inr r
      \<and> (if r = 0 then \<forall>x\<in>set xs. compare key x \<noteq> 0
         else \<exists>i<length xs. r = length pre + i * sz \<and> compare key (xs ! i) = 0)"
proof -
  have "(length pre + sz * length xs) mod 2 ^ 32 = length pre + length xs * sz"
    using assms(5) by (simp add: mult.commute)
  then show ?thesis
    using search_loop_correct [OF assms(1-4), of 0 "length xs"] by (simp add: binary_search_def bsearch_def compare_thunk_def)
qed

theorem binary_search_correct_witness:
  "\<exists>r. bsearch [5] 1 3 1 (\<lambda>a b. uint (hd a) - uint (hd b)) [0, 3, 5, 8, 9] = Inr r \<and> r \<noteq> 0"
proof -
  have "holds_array [0] [[3], [5], [8]] [9] 1" by (simp add: holds_array_def)
  moreover have "sorted_wrt (\<lambda>a b. uint (hd a) - uint (hd b) \<le> 0) [[3], [5], [8 :: byte]]" by simp
  ultimately show ?thesis
    using binary_search_correct [OF _ strcmp_type_first_byte, of "[0]" "[[3], [5], [8]]" "[9]" 1 "[5]"]
    by (auto simp: numeral_3_eq_3 [symmetric] split: if_splits)
qed

section \<open>Reading numbers is correct\<close>

definition decimal :: "byte list \<Rightarrow> int" where
  "decimal ds = foldl (\<lambda>v c. v * 10 + (uint c - 48)) 0 ds"

lemma decimal_snoc: "foldl (\<lambda>v c. v * 10 + (uint c - 48)) (a :: int) ds = a * 10 ^ length ds + decimal ds"
proof (induction ds arbitrary: a)
  case (Cons d ds)
  show ?case
    using Cons [of "a * 10 + (uint d - 48)"] Cons [of "uint d - 48"] by (simp add: decimal_def algebra_simps)
qed (simp add: decimal_def)

lemma decimal_Cons: "decimal (d # ds) = (uint d - 48) * 10 ^ length ds + decimal ds"
  using decimal_snoc [of "uint d - 48" ds] by (simp add: decimal_def)

lemma s32_eq_iff: "s32 x = s32 y \<longleftrightarrow> x mod 2 ^ 32 = y mod 2 ^ 32"
proof -
  have "s32 x = s32 y \<longleftrightarrow> (x + 2 ^ 31) mod 2 ^ 32 = (y + 2 ^ 31) mod 2 ^ 32" by (simp add: s32_def)
  also have "\<dots> \<longleftrightarrow> x mod 2 ^ 32 = y mod 2 ^ 32" by (simp add: mod_eq_dvd_iff)
  finally show ?thesis .
qed

lemma s32_mod: "s32 x mod 2 ^ 32 = x mod 2 ^ 32"
  using s32_s32 [of x] by (simp only: s32_eq_iff)

lemma skip_space_runs:
  assumes "\<forall>c\<in>set sp. isspace c" "\<not> isspace c"
  shows "skip_space (length p) (p @ sp @ c # q) = Inr (length p + length sp)"
  using assms(1)
proof (induction sp arbitrary: p)
  case Nil
  then show ?case using assms(2) by (subst skip_space.simps) (simp add: rd_def)
next
  case (Cons b sp)
  then show ?case using Cons.IH [of "p @ [b]"] by (subst skip_space.simps) (simp add: rd_def)
qed

lemma parse_digits_runs:
  assumes "\<forall>c\<in>set ds. isdigit c" "\<not> isdigit c" "s32 v = v"
  shows "parse_digits v (length p) (p @ ds @ c # q) = Inr (s32 (v * 10 ^ length ds - decimal ds))"
  using assms(1,3)
proof (induction ds arbitrary: p v)
  case Nil
  then show ?case using assms(2) by (subst parse_digits.simps) (simp add: rd_def decimal_def)
next
  case (Cons d ds)
  let ?v = "s32 (s32 (v * 10) - (uint d - 48))"
  have v: "?v mod 2 ^ 32 = (v * 10 - (uint d - 48)) mod 2 ^ 32"
    unfolding s32_mod using s32_mod [of "v * 10"] by (rule mod_diff_cong) simp
  have "(?v * 10 ^ length ds - decimal ds) mod 2 ^ 32 = ((v * 10 - (uint d - 48)) * 10 ^ length ds - decimal ds) mod 2 ^ 32"
    by (intro mod_diff_cong mod_mult_cong v refl)
  also have "(v * 10 - (uint d - 48)) * 10 ^ length ds - decimal ds = v * 10 ^ length (d # ds) - decimal (d # ds)"
    by (simp add: decimal_Cons algebra_simps)
  finally have "s32 (?v * 10 ^ length ds - decimal ds) = s32 (v * 10 ^ length (d # ds) - decimal (d # ds))"
    by (simp only: s32_eq_iff)
  then show ?case using Cons.prems Cons.IH [of ?v "p @ [d]"] by (subst parse_digits.simps) (simp add: rd_def)
qed

text \<open>C37. \<^verbatim>\<open>atoi\<close> is correct: it skips white space, takes one sign, and gives the decimal number the digits up to
  the first other character denote, wrapped around at 32 bits, hence the number itself if it is an \<^verbatim>\<open>int\<close>.\<close>

theorem atoi_correct:
  assumes "p \<noteq> []" "\<forall>c\<in>set sp. isspace c" "sign \<in> {[], [43], [45]}" "\<forall>c\<in>set ds. isdigit c" "ds \<noteq> []" "\<not> isdigit c"
  defines "v \<equiv> (if sign = [45] then - decimal ds else decimal ds)"
  shows "atoi (length p) (p @ sp @ sign @ ds @ c # q) = Inr (s32 v) \<and> (in_s32 v \<longrightarrow> s32 v = v)"
proof
  let ?m = "p @ sp @ sign @ ds @ c # q"
  obtain d ds' where ds: "ds = d # ds'" using assms(5) by (cases ds) auto
  have ch: "\<not> isspace d" "d \<noteq> 43" "d \<noteq> 45" "isdigit d" using assms(4) ds by (auto simp: isdigit_def isspace_def)
  have skip: "skip_space (length p) ?m = Inr (length p + length sp)"
    using skip_space_runs [OF assms(2), of d p "ds' @ c # q"] skip_space_runs [OF assms(2), of "hd sign" p "ds @ c # q"] assms(3) ch ds
    by (auto simp: isspace_def)
  have "parse_digits 0 (length (p @ sp @ sign)) ((p @ sp @ sign) @ ds @ c # q) = Inr (s32 (0 * 10 ^ length ds - decimal ds))"
    by (rule parse_digits_runs [OF assms(4,6)]) (simp add: s32_def)
  then have parse: "parse_digits 0 (length p + length sp + length sign) ?m = Inr (s32 (- decimal ds))" by (simp add: add.assoc)
  have neg: "s32 (- s32 (- decimal ds)) = s32 (decimal ds)"
    unfolding s32_eq_iff using mod_diff_cong [OF refl s32_mod [of "- decimal ds"], of 0] by simp
  have first: "rd ?m (length p + length sp) = Inr (hd (sign @ ds))"
    using assms(3) ds by (auto simp: rd_def nth_append)
  show "atoi (length p) ?m = Inr (s32 v)"
    using assms(1,3) ch ds skip parse first neg unfolding atoi_def v_def by (auto simp: Let_def assertR_def)
  show "in_s32 v \<longrightarrow> s32 v = v" by (simp add: s32_id)
qed

theorem atoi_correct_witness: "atoi 1 [0, 32, 45, 52, 50, 0] = Inr (- 42)"
  using atoi_correct [of "[0]" "[32]" "[45]" "[52, 50]" 0 "[]"] by (simp add: isspace_def isdigit_def decimal_def in_s32_def)

end
