(* ===== verification/Prng.thy ===== *)
theory Prng
  imports Cstring "HOL-Library.Multiset"
begin

text \<open>
  \<^verbatim>\<open>lib/random.c\<close>: the RC4 pseudo-random number generator. Its state is the table \<^verbatim>\<open>s\<close>, the two 8-bit
  indices, whose sums wrap around, and whether it was initialised.
\<close>

section \<open>The generator\<close>

record prng =
  rc4_s :: "byte list"
  rc4_i :: byte
  rc4_j :: byte
  inited :: bool

definition swap_byte :: "nat \<Rightarrow> nat \<Rightarrow> byte list \<Rightarrow> byte list" where
  "swap_byte a b s = (let t = s ! a; s = s[a := s ! b] in s[b := t])"

text \<open>The second loop of \<^verbatim>\<open>random_init\<close>, over the given indices.\<close>

fun mix_loop :: "nat list \<Rightarrow> byte list \<Rightarrow> byte \<Rightarrow> byte list \<Rightarrow> byte list" where
  "mix_loop [] seedp j s = s"
| "mix_loop (i # ix) seedp j s =
     (let j = j + (s ! i + seedp ! (i mod 4)) in mix_loop ix seedp j (swap_byte i (unat j) s))"

definition random_init :: "32 word \<Rightarrow> prng \<Rightarrow> prng" where
  "random_init seed g =
     (if inited g then g
      else \<lparr>rc4_s = mix_loop [0..<256] (word_bytes seed) 0 (map of_nat [0..<256]), rc4_i = 0, rc4_j = 0, inited = True\<rparr>)"

definition next_byte :: "prng \<Rightarrow> byte \<times> prng" where
  "next_byte g =
     (let s_i = rc4_i g + 1;
          s_j = rc4_j g + rc4_s g ! unat s_i;
          s = swap_byte (unat s_i) (unat s_j) (rc4_s g);
          s_k = s ! unat s_i + s ! unat s_j
      in (s ! unat s_k, g\<lparr>rc4_s := s, rc4_i := s_i, rc4_j := s_j\<rparr>))"

fun random_loop :: "nat \<Rightarrow> nat \<Rightarrow> store \<Rightarrow> prng \<Rightarrow> (store \<times> prng) res" where
  "random_loop buf 0 m g = Inr (m, g)"
| "random_loop buf (Suc n) m g =
     (let (b, g) = next_byte g in bindR (wr m buf b) (\<lambda>m. random_loop (buf + 1) n m g))"

definition random_bytes :: "nat \<Rightarrow> nat \<Rightarrow> store \<Rightarrow> prng \<Rightarrow> (store \<times> prng) res" where
  "random_bytes buf sz m g = random_loop buf sz m (if \<not> inited g then random_init 0 g else g)"

definition random_ulong :: "prng \<Rightarrow> (32 word \<times> prng) res" where
  "random_ulong g = bindR (random_bytes 0 4 [0, 0, 0, 0] g) (\<lambda>(ul, g). Inr (bytes_word ul, g))"

section \<open>The table stays a permutation\<close>

definition prng_ok :: "prng \<Rightarrow> bool" where
  "prng_ok g \<longleftrightarrow> (inited g \<longrightarrow> mset (rc4_s g) = mset (map of_nat [0..<256]))"

lemma mset_swap_byte: "a < length s \<Longrightarrow> b < length s \<Longrightarrow> mset (swap_byte a b s) = mset s"
  unfolding swap_byte_def Let_def by (cases "a = b") (simp_all add: mset_swap list_update_swap)

lemma unat_byte_less: "unat (b :: byte) < 256"
  using unsigned_less [of b] by simp

lemma table_length: "mset s = mset (map of_nat [0..<256] :: byte list) \<Longrightarrow> length s = 256"
  by (metis diff_zero length_map length_upt mset_eq_length)

lemma mix_loop_mset: "\<forall>i\<in>set ix. i < length s \<Longrightarrow> length s = 256 \<Longrightarrow> mset (mix_loop ix seedp j s) = mset s"
proof (induction ix arbitrary: j s)
  case (Cons i ix)
  let ?j = "j + (s ! i + seedp ! (i mod 4))"
  have "mset (swap_byte i (unat ?j) s) = mset s" using Cons.prems unat_byte_less [of ?j] by (intro mset_swap_byte) auto
  then show ?case using Cons.prems Cons.IH [of "swap_byte i (unat ?j) s" ?j] by (simp add: swap_byte_def Let_def)
qed simp

lemma random_init_ok: "prng_ok g \<Longrightarrow> prng_ok (random_init seed g)" "inited (random_init seed g)"
  using mix_loop_mset [of "[0..<256]" "map of_nat [0..<256]" "word_bytes seed" 0] by (auto simp: prng_ok_def random_init_def)

lemma next_byte_ok:
  assumes "prng_ok g" "inited g"
  shows "prng_ok (snd (next_byte g)) \<and> inited (snd (next_byte g))"
  using assms mset_swap_byte [of _ "rc4_s g"] table_length [of "rc4_s g"] unat_byte_less
  by (simp add: next_byte_def Let_def prng_ok_def)

lemma random_loop_runs:
  assumes "prng_ok g" "inited g" "buf + n \<le> length m"
  shows "\<exists>bs g'. random_loop buf n m g = Inr (overwrite buf bs m, g') \<and> length bs = n \<and> prng_ok g' \<and> inited g'"
  using assms
proof (induction n arbitrary: buf m g)
  case 0
  then show ?case by (intro exI [of _ "[]"]) simp
next
  case (Suc n)
  obtain b h where b: "next_byte g = (b, h)" by (cases "next_byte g")
  have h: "prng_ok h" "inited h" using next_byte_ok [OF Suc.prems(1,2)] b by simp_all
  obtain bs g' where "random_loop (buf + 1) n (m[buf := b]) h = Inr (overwrite (buf + 1) bs (m[buf := b]), g')"
      "length bs = n" "prng_ok g'" "inited g'"
    using Suc.IH [OF h, of "buf + 1" "m[buf := b]"] Suc.prems(3) by auto
  then show ?case
    using Suc.prems(3) b by (intro exI [of _ "b # bs"] exI [of _ g']) (auto simp: wr_def overwrite_Cons [simplified])
qed

lemma random_loop_append:
  "random_loop buf (a + b) m g = bindR (random_loop buf a m g) (\<lambda>(m, g). random_loop (buf + a) b m g)"
proof (induction a arbitrary: buf m g)
  case (Suc a)
  show ?case
    by (cases "next_byte g"; cases "wr m buf (fst (next_byte g))") (simp_all add: Suc.IH bindR_assoc)
qed simp

text \<open>C38. The random number generator: whatever calls went before, \<^verbatim>\<open>random_bytes\<close> returns, fills exactly its
  buffer, and keeps the table a permutation of the 256 bytes; filling a buffer at once or in two parts
  gives the same bytes; and \<^verbatim>\<open>random_ulong\<close> returns.\<close>

theorem random_bytes_correct:
  assumes "prng_ok g" "buf + (a + b) \<le> length m"
  shows "(\<exists>bs g'. random_bytes buf (a + b) m g = Inr (overwrite buf bs m, g') \<and> length bs = a + b \<and> prng_ok g')
    \<and> random_bytes buf (a + b) m g = bindR (random_bytes buf a m g) (\<lambda>(m, g). random_bytes (buf + a) b m g)
    \<and> (\<exists>w g'. random_ulong g = Inr (w, g') \<and> prng_ok g')"
proof -
  define h where "h = (if \<not> inited g then random_init 0 g else g)"
  have h: "prng_ok h" "inited h" using assms(1) random_init_ok by (auto simp: h_def)
  have r: "random_bytes p n m g = random_loop p n m h" for p n m by (simp add: random_bytes_def h_def)
  obtain bs g' where "random_loop buf a m h = Inr (overwrite buf bs m, g')" "inited g'"
    using random_loop_runs [OF h, of buf a m] assms(2) by auto
  then have "random_bytes buf (a + b) m g = bindR (random_bytes buf a m g) (\<lambda>(m, g). random_bytes (buf + a) b m g)"
    unfolding r random_loop_append by (simp add: random_bytes_def)
  moreover have "\<exists>bs g'. random_bytes buf (a + b) m g = Inr (overwrite buf bs m, g') \<and> length bs = a + b \<and> prng_ok g'"
    unfolding r using random_loop_runs [OF h assms(2)] by blast
  moreover have "\<exists>w g'. random_ulong g = Inr (w, g') \<and> prng_ok g'"
    unfolding random_ulong_def r using random_loop_runs [OF h, of 0 4 "[0, 0, 0, 0]"] by auto
  ultimately show ?thesis by blast
qed

theorem random_bytes_correct_witness:
  "\<exists>bs g'. random_bytes 1 3 [0, 0, 0, 0] \<lparr>rc4_s = [], rc4_i = 0, rc4_j = 0, inited = False\<rparr> = Inr (overwrite 1 bs [0, 0, 0, 0], g')
     \<and> length bs = 3"
proof -
  have "prng_ok \<lparr>rc4_s = [], rc4_i = 0, rc4_j = 0, inited = False\<rparr>" "1 + (1 + 2) \<le> length [0, 0, 0, 0 :: byte]"
    by (simp_all add: prng_ok_def)
  from conjunct1 [OF random_bytes_correct [OF this]] show ?thesis by (auto simp: numeral_3_eq_3)
qed

text \<open>A second initialisation has no effect, although the comment of \<^verbatim>\<open>random_init\<close> says that it reinitialises.\<close>

lemma random_init_twice: "random_init seed' (random_init seed g) = random_init seed g"
  using random_init_ok(2) [of seed g] by (simp add: random_init_def [of seed'])

end
