(* ===== verification/Hash.thy ===== *)
theory Hash
  imports Cstring "HOL-Library.Multiset"
begin

unbundle bit_operations_syntax

text \<open>
  \<^verbatim>\<open>lib/kernel/hash.c\<close>: hash tables with chaining. A bucket is the sequence of the elements on its list,
  for which \<open>Kernel_List_Props\<close> shows what the list routines do; so \<^verbatim>\<open>hash_clear\<close> and \<^verbatim>\<open>hash_apply\<close> are folds over
  these sequences. An element is the address of a
  \<^verbatim>\<open>struct hash_elem\<close>. Counts and hash values are 32-bit words. An operation calls \<^verbatim>\<open>malloc\<close> at most
  once; whether it succeeds is the argument \<open>got\<close>.
\<close>

section \<open>The table\<close>

record hash =
  elem_cnt :: "32 word"
  bucket_cnt :: "32 word"
  buckets :: "nat list list"
  hash_fn :: "nat \<Rightarrow> 32 word"
  less_fn :: "nat \<Rightarrow> nat \<Rightarrow> bool"

definition bucket_idx :: "hash \<Rightarrow> nat \<Rightarrow> nat" where
  "bucket_idx h e = unat (hash_fn h e AND (bucket_cnt h - 1))"

definition find_bucket :: "hash \<Rightarrow> nat \<Rightarrow> nat res" where
  "find_bucket h e = (if bucket_idx h e < length (buckets h) then Inr (bucket_idx h e) else Inl OutOfBounds)"

definition elem_equal :: "hash \<Rightarrow> nat \<Rightarrow> nat \<Rightarrow> bool" where
  "elem_equal h a b \<longleftrightarrow> \<not> less_fn h a b \<and> \<not> less_fn h b a"

definition find_elem :: "hash \<Rightarrow> nat \<Rightarrow> nat \<Rightarrow> nat option" where
  "find_elem h bucket e = find (\<lambda>hi. elem_equal h hi e) (buckets h ! bucket)"

definition push_bucket :: "nat \<Rightarrow> nat \<Rightarrow> hash \<Rightarrow> hash" where
  "push_bucket bucket e h = h\<lparr>buckets := (buckets h)[bucket := e # buckets h ! bucket]\<rparr>"

definition insert_elem :: "hash \<Rightarrow> nat \<Rightarrow> nat \<Rightarrow> hash" where
  "insert_elem h bucket e = push_bucket bucket e (h\<lparr>elem_cnt := elem_cnt h + 1\<rparr>)"

text \<open>\<^verbatim>\<open>list_remove\<close> takes the element out of the list it is on.\<close>

definition remove_elem :: "hash \<Rightarrow> nat \<Rightarrow> hash" where
  "remove_elem h e = h\<lparr>elem_cnt := elem_cnt h - 1, buckets := map (remove1 e) (buckets h)\<rparr>"

section \<open>Changing the number of buckets\<close>

definition turn_off_least_1bit :: "32 word \<Rightarrow> 32 word" where
  "turn_off_least_1bit x = x AND (x - 1)"

definition is_power_of_2 :: "32 word \<Rightarrow> bool" where
  "is_power_of_2 x \<longleftrightarrow> x \<noteq> 0 \<and> turn_off_least_1bit x = 0"

definition BEST_ELEMS_PER_BUCKET :: "32 word" where "BEST_ELEMS_PER_BUCKET = 2"

text \<open>On zero the loop would not end.\<close>

partial_function (option) power_loop :: "32 word \<Rightarrow> 32 word option" where
  "power_loop x = (if \<not> is_power_of_2 x then power_loop (turn_off_least_1bit x) else Some x)"

fun move_elems :: "nat list \<Rightarrow> hash \<Rightarrow> hash res" where
  "move_elems [] h = Inr h"
| "move_elems (e # es) h = bindR (find_bucket h e) (\<lambda>b. move_elems es (push_bucket b e h))"

definition rehash :: "bool \<Rightarrow> hash \<Rightarrow> hash res option" where
  "rehash got h =
     (let new_bucket_cnt = elem_cnt h div BEST_ELEMS_PER_BUCKET
      in case power_loop (if new_bucket_cnt < 4 then 4 else new_bucket_cnt) of
           None \<Rightarrow> None
         | Some new_bucket_cnt \<Rightarrow>
             Some (if new_bucket_cnt = bucket_cnt h then Inr h
                   else if \<not> got then Inr h
                   else move_elems (concat (buckets h))
                          (h\<lparr>buckets := replicate (unat new_bucket_cnt) [], bucket_cnt := new_bucket_cnt\<rparr>)))"

section \<open>Life cycle\<close>

text \<open>The destructor and the action of \<^verbatim>\<open>hash_apply\<close> act on a state of the caller's.\<close>

definition hash_clear :: "(nat \<Rightarrow> 's \<Rightarrow> 's) option \<Rightarrow> hash \<Rightarrow> 's \<Rightarrow> hash \<times> 's" where
  "hash_clear destructor h st =
     (h\<lparr>buckets := map (\<lambda>_. []) (buckets h), elem_cnt := 0\<rparr>,
      case destructor of None \<Rightarrow> st | Some d \<Rightarrow> fold d (concat (buckets h)) st)"

definition hash_init :: "(nat \<Rightarrow> 32 word) \<Rightarrow> (nat \<Rightarrow> nat \<Rightarrow> bool) \<Rightarrow> bool \<Rightarrow> bool \<times> hash" where
  "hash_init hash lt got =
     (let h = \<lparr>elem_cnt = 0, bucket_cnt = 4, buckets = (if got then replicate 4 [] else []), hash_fn = hash, less_fn = lt\<rparr>
      in if got then (True, fst (hash_clear None h ())) else (False, h))"

definition hash_destroy :: "(nat \<Rightarrow> 's \<Rightarrow> 's) option \<Rightarrow> hash \<Rightarrow> 's \<Rightarrow> 's" where
  "hash_destroy destructor h st = (if destructor \<noteq> None then snd (hash_clear destructor h st) else st)"

section \<open>Search, insertion and deletion\<close>

definition hash_insert :: "bool \<Rightarrow> nat \<Rightarrow> hash \<Rightarrow> (nat option \<times> hash) res option" where
  "hash_insert got new h =
     bindO (Some (find_bucket h new)) (\<lambda>bucket.
       let old = find_elem h bucket new
       in bindO (rehash got (if old = None then insert_elem h bucket new else h)) (\<lambda>h. Some (Inr (old, h))))"

definition hash_replace :: "bool \<Rightarrow> nat \<Rightarrow> hash \<Rightarrow> (nat option \<times> hash) res option" where
  "hash_replace got new h =
     bindO (Some (find_bucket h new)) (\<lambda>bucket.
       let old = find_elem h bucket new;
           h = (case old of None \<Rightarrow> h | Some e \<Rightarrow> remove_elem h e)
       in bindO (rehash got (insert_elem h bucket new)) (\<lambda>h. Some (Inr (old, h))))"

definition hash_find :: "nat \<Rightarrow> hash \<Rightarrow> nat option res" where
  "hash_find e h = bindR (find_bucket h e) (\<lambda>bucket. Inr (find_elem h bucket e))"

definition hash_delete :: "bool \<Rightarrow> nat \<Rightarrow> hash \<Rightarrow> (nat option \<times> hash) res option" where
  "hash_delete got e h =
     bindO (Some (hash_find e h)) (\<lambda>found.
       case found of
         None \<Rightarrow> Some (Inr (None, h))
       | Some x \<Rightarrow> bindO (rehash got (remove_elem h x)) (\<lambda>h. Some (Inr (found, h))))"

definition hash_size :: "hash \<Rightarrow> 32 word" where
  "hash_size h = elem_cnt h"

definition hash_empty :: "hash \<Rightarrow> bool" where
  "hash_empty h \<longleftrightarrow> elem_cnt h = 0"

section \<open>Iteration\<close>

definition hash_apply :: "(nat \<Rightarrow> 's \<Rightarrow> 's) \<Rightarrow> hash \<Rightarrow> 's \<Rightarrow> 's" where
  "hash_apply action h st = fold (\<lambda>bucket. fold action bucket) (buckets h) st"

text \<open>An iterator: the bucket, and the place of its element in the bucket's list, where 0 is the head
  of the list; \<open>it_elem\<close> is \<open>None\<close> for the head and at the end of the table.\<close>

record hash_iterator =
  it_bucket :: nat
  it_place :: nat
  it_elem :: "nat option"

definition hash_first :: "hash \<Rightarrow> hash_iterator" where
  "hash_first h = \<lparr>it_bucket = 0, it_place = 0, it_elem = None\<rparr>"

text \<open>The loop of \<^verbatim>\<open>hash_next\<close>, with the iterator at the given place of a bucket, one past the last being
  the end of its list.\<close>

function next_loop :: "nat \<Rightarrow> nat \<Rightarrow> hash \<Rightarrow> hash_iterator" where
  "next_loop bucket place h =
     (if place > length (buckets h ! bucket)
      then if bucket + 1 \<ge> length (buckets h) then \<lparr>it_bucket = bucket + 1, it_place = 0, it_elem = None\<rparr>
           else next_loop (bucket + 1) 1 h
      else \<lparr>it_bucket = bucket, it_place = place, it_elem = Some (buckets h ! bucket ! (place - 1))\<rparr>)"
  by auto
termination by (relation "measure (\<lambda>(bucket, _, h). length (buckets h) - bucket)") auto

definition hash_next :: "hash \<Rightarrow> hash_iterator \<Rightarrow> hash_iterator" where
  "hash_next h it = next_loop (it_bucket it) (it_place it + 1) h"

definition hash_cur :: "hash_iterator \<Rightarrow> nat option" where
  "hash_cur it = it_elem it"

section \<open>Hash functions\<close>

definition FNV_32_PRIME :: "32 word" where "FNV_32_PRIME = 16777619"
definition FNV_32_BASIS :: "32 word" where "FNV_32_BASIS = 2166136261"

fun fnv_bytes :: "nat \<Rightarrow> nat \<Rightarrow> 32 word \<Rightarrow> store \<Rightarrow> 32 word res" where
  "fnv_bytes buf 0 hash m = Inr hash"
| "fnv_bytes buf (Suc n) hash m = bindR (rd m buf) (\<lambda>b. fnv_bytes (buf + 1) n ((hash * FNV_32_PRIME) XOR ucast b) m)"

definition hash_bytes :: "nat \<Rightarrow> nat \<Rightarrow> store \<Rightarrow> 32 word res" where
  "hash_bytes buf sz m = assertR (buf \<noteq> 0) (fnv_bytes buf sz FNV_32_BASIS m)"

function fnv_string :: "nat \<Rightarrow> 32 word \<Rightarrow> store \<Rightarrow> 32 word res" where
  "fnv_string s hash m =
     bindR (rd m s) (\<lambda>b. if b \<noteq> 0 then fnv_string (s + 1) ((hash * FNV_32_PRIME) XOR ucast b) m else Inr hash)"
  by auto
termination by (relation "measure (\<lambda>(s, _, m). length m - s)") auto

definition hash_string :: "nat \<Rightarrow> store \<Rightarrow> 32 word res" where
  "hash_string s m = assertR (s \<noteq> 0) (fnv_string s FNV_32_BASIS m)"

text \<open>The argument lies on the stack of \<^verbatim>\<open>hash_int\<close>, here after an unused byte at address 0.\<close>

definition hash_int :: "int \<Rightarrow> 32 word res" where
  "hash_int i = hash_bytes 1 4 (0 # word_bytes (word_of_int i))"

declare next_loop.simps [simp del] fnv_string.simps [simp del]

section \<open>Buckets\<close>

definition placed :: "hash \<Rightarrow> bool" where
  "placed h \<longleftrightarrow> is_power_of_2 (bucket_cnt h) \<and> length (buckets h) = unat (bucket_cnt h)
     \<and> (\<forall>i<length (buckets h). \<forall>e\<in>set (buckets h ! i). bucket_idx h e = i)"

definition elems :: "hash \<Rightarrow> nat set" where
  "elems h = set (concat (buckets h))"

lemma word_and_le: "(x AND y :: 32 word) \<le> y"
  by (simp add: word_le_def unsigned_and_eq)

lemma word_minus_one_less: "x \<noteq> 0 \<Longrightarrow> x - 1 < (x :: 32 word)"
  using unat_gt_0 [of x] by (simp add: word_less_nat_alt unat_minus_one)

lemma bucket_idx_less:
  assumes "placed h"
  shows "bucket_idx h e < length (buckets h)"
proof -
  have "bucket_cnt h - 1 < bucket_cnt h" using assms by (intro word_minus_one_less) (simp add: placed_def is_power_of_2_def)
  then have "hash_fn h e AND (bucket_cnt h - 1) < bucket_cnt h" by (rule le_less_trans [OF word_and_le])
  then show ?thesis using assms by (simp add: placed_def bucket_idx_def word_less_nat_alt)
qed

lemma find_bucket_eq: "placed h \<Longrightarrow> find_bucket h e = Inr (bucket_idx h e)"
  by (simp add: find_bucket_def bucket_idx_less)

lemma in_elems:
  assumes "placed h"
  shows "x \<in> elems h \<longleftrightarrow> x \<in> set (buckets h ! bucket_idx h x)"
proof
  assume "x \<in> elems h"
  then obtain i where "i < length (buckets h)" "x \<in> set (buckets h ! i)" by (auto simp: elems_def in_set_conv_nth [of _ "buckets h"])
  then show "x \<in> set (buckets h ! bucket_idx h x)" using assms by (simp add: placed_def)
next
  assume "x \<in> set (buckets h ! bucket_idx h x)"
  then show "x \<in> elems h" using nth_mem [OF bucket_idx_less [OF assms, of x]] by (auto simp: elems_def)
qed

lemma mset_concat_update:
  "b < length B \<Longrightarrow> mset (concat (B[b := e # B ! b])) = add_mset e (mset (concat B))"
proof (induction B arbitrary: b)
  case (Cons x B)
  then show ?case by (cases b) auto
qed simp

lemma push_bucket_frame [simp]:
  "elem_cnt (push_bucket b e h) = elem_cnt h" "bucket_cnt (push_bucket b e h) = bucket_cnt h"
  "hash_fn (push_bucket b e h) = hash_fn h" "less_fn (push_bucket b e h) = less_fn h"
  "bucket_idx (push_bucket b e h) = bucket_idx h"
  by (simp_all add: push_bucket_def bucket_idx_def fun_eq_iff)

lemma push_bucket_placed:
  assumes "placed h"
  shows "placed (push_bucket (bucket_idx h e) e h)"
    and "mset (concat (buckets (push_bucket (bucket_idx h e) e h))) = add_mset e (mset (concat (buckets h)))"
proof -
  note b = bucket_idx_less [OF assms, of e]
  show "placed (push_bucket (bucket_idx h e) e h)"
    using assms b unfolding placed_def push_bucket_frame by (auto simp: push_bucket_def nth_list_update)
  show "mset (concat (buckets (push_bucket (bucket_idx h e) e h))) = add_mset e (mset (concat (buckets h)))"
    using b by (simp add: push_bucket_def mset_concat_update)
qed

lemma move_elems_placed:
  assumes "placed h"
  shows "\<exists>h'. move_elems es h = Inr h' \<and> placed h' \<and> mset (concat (buckets h')) = mset es + mset (concat (buckets h))
    \<and> elem_cnt h' = elem_cnt h \<and> hash_fn h' = hash_fn h \<and> less_fn h' = less_fn h"
  using assms
proof (induction es arbitrary: h)
  case (Cons e es)
  note p = push_bucket_placed [OF Cons.prems, of e]
  show ?case using Cons.IH [OF p(1)] p(2) by (simp add: find_bucket_eq [OF Cons.prems])
qed simp

section \<open>Changing the number of buckets keeps the elements\<close>

lemma turn_off_less: "x \<noteq> 0 \<Longrightarrow> turn_off_least_1bit x < x"
proof -
  assume "x \<noteq> 0"
  then have "x - 1 < x" by (rule word_minus_one_less)
  then show ?thesis unfolding turn_off_least_1bit_def by (rule le_less_trans [OF word_and_le])
qed

lemma power_loop_returns: "x \<noteq> 0 \<Longrightarrow> \<exists>y. power_loop x = Some y \<and> is_power_of_2 y"
proof (induction "unat x" arbitrary: x rule: less_induct)
  case less
  show ?case
  proof (cases "is_power_of_2 x")
    case True
    then show ?thesis by (subst power_loop.simps) simp
  next
    case False
    then have "turn_off_least_1bit x \<noteq> 0" using less.prems by (simp add: is_power_of_2_def)
    moreover have "unat (turn_off_least_1bit x) < unat x" using turn_off_less [OF less.prems] by (simp add: word_less_nat_alt)
    ultimately show ?thesis using less.hyps False by (subst power_loop.simps) simp
  qed
qed

lemma rehash_placed:
  assumes "placed h"
  shows "\<exists>h'. rehash got h = Some (Inr h') \<and> placed h' \<and> mset (concat (buckets h')) = mset (concat (buckets h))
    \<and> elem_cnt h' = elem_cnt h \<and> hash_fn h' = hash_fn h \<and> less_fn h' = less_fn h"
proof -
  let ?n = "elem_cnt h div BEST_ELEMS_PER_BUCKET"
  have "(if ?n < 4 then 4 else ?n) \<noteq> 0" by auto
  then obtain n where n: "power_loop (if ?n < 4 then 4 else ?n) = Some n" "is_power_of_2 n"
    using power_loop_returns by blast
  let ?g = "h\<lparr>buckets := replicate (unat n) [], bucket_cnt := n\<rparr>"
  have "placed ?g" using n(2) by (simp add: placed_def)
  then obtain h' where "move_elems (concat (buckets h)) ?g = Inr h'" "placed h'" "mset (concat (buckets h')) = mset (concat (buckets h))"
      "elem_cnt h' = elem_cnt h" "hash_fn h' = hash_fn h" "less_fn h' = less_fn h"
    using move_elems_placed [of ?g "concat (buckets h)"] by auto
  then show ?thesis using assms n(1) by (auto simp: rehash_def Let_def)
qed

lemma mset_concat_remove1:
  "distinct (concat B) \<Longrightarrow> mset (concat (map (remove1 e) B)) = mset (concat B) - {#e#}"
proof (induction B)
  case (Cons b B)
  show ?case
  proof (cases "e \<in> set b")
    case True
    then have "map (remove1 e) B = B" using Cons.prems by (auto intro!: map_idI remove1_idem)
    then show ?thesis using True diff_union_single_conv [of e "mset b" "mset (concat B)"] by (simp add: add.commute)
  next
    case False
    then show ?thesis using Cons diff_union_single_conv [of e "mset (concat B)" "mset b"]
      by (cases "e \<in># mset (concat B)") (simp_all add: remove1_idem)
  qed
qed simp

lemma remove_elem_placed:
  assumes "placed h" "distinct (concat (buckets h))"
  shows "placed (remove_elem h e)" "mset (concat (buckets (remove_elem h e))) = mset (concat (buckets h)) - {#e#}"
proof -
  show "placed (remove_elem h e)"
    using assms(1) by (auto simp: placed_def remove_elem_def bucket_idx_def dest: set_mp [OF set_remove1_subset])
  show "mset (concat (buckets (remove_elem h e))) = mset (concat (buckets h)) - {#e#}"
    using mset_concat_remove1 [OF assms(2)] by (simp add: remove_elem_def)
qed

section \<open>A hash table is a set\<close>

text \<open>What the table relies on: the comparison is a strict weak order, and elements equal under it have
  the same hash.\<close>

locale hash_key = strict_weak_order +
  fixes hash_of :: "'a \<Rightarrow> 32 word"
  assumes hash_equal: "\<not> lt a b \<Longrightarrow> \<not> lt b a \<Longrightarrow> hash_of a = hash_of b"

definition hash_ok :: "hash \<Rightarrow> bool" where
  "hash_ok h \<longleftrightarrow> placed h \<and> distinct (concat (buckets h)) \<and> (\<forall>a\<in>elems h. \<forall>b\<in>elems h. elem_equal h a b \<longrightarrow> a = b)
     \<and> unat (elem_cnt h) = length (concat (buckets h))"

definition matches :: "(nat \<Rightarrow> nat \<Rightarrow> bool) \<Rightarrow> nat \<Rightarrow> nat set \<Rightarrow> nat option \<Rightarrow> bool" where
  "matches eq e S r \<longleftrightarrow> (case r of None \<Rightarrow> \<forall>x\<in>S. \<not> eq x e | Some x \<Rightarrow> x \<in> S \<and> eq x e)"

datatype table_call = Insert nat | Replace nat | Find nat | Delete nat

fun hash_call :: "bool \<Rightarrow> table_call \<Rightarrow> hash \<Rightarrow> (nat option \<times> hash) res option" where
  "hash_call got (Insert e) h = hash_insert got e h"
| "hash_call got (Replace e) h = hash_replace got e h"
| "hash_call got (Find e) h = bindO (Some (hash_find e h)) (\<lambda>r. Some (Inr (r, h)))"
| "hash_call got (Delete e) h = hash_delete got e h"

fun set_call :: "(nat \<Rightarrow> nat \<Rightarrow> bool) \<Rightarrow> table_call \<Rightarrow> nat set \<Rightarrow> nat option \<Rightarrow> nat set \<Rightarrow> bool" where
  "set_call eq (Insert e) S r S' \<longleftrightarrow> matches eq e S r \<and> S' = (if r = None then insert e S else S)"
| "set_call eq (Replace e) S r S' \<longleftrightarrow> matches eq e S r \<and> S' = insert e (S - set_option r)"
| "set_call eq (Find e) S r S' \<longleftrightarrow> matches eq e S r \<and> S' = S"
| "set_call eq (Delete e) S r S' \<longleftrightarrow> matches eq e S r \<and> S' = S - set_option r"

fun hash_calls :: "(bool \<times> table_call) list \<Rightarrow> hash \<Rightarrow> (nat option list \<times> hash) res option" where
  "hash_calls [] h = Some (Inr ([], h))"
| "hash_calls ((got, c) # cs) h =
     bindO (hash_call got c h) (\<lambda>(r, h). bindO (hash_calls cs h) (\<lambda>(rs, h). Some (Inr (r # rs, h))))"

fun set_calls :: "(nat \<Rightarrow> nat \<Rightarrow> bool) \<Rightarrow> table_call list \<Rightarrow> nat set \<Rightarrow> nat option list \<Rightarrow> nat set \<Rightarrow> bool" where
  "set_calls eq [] S [] S' \<longleftrightarrow> S' = S"
| "set_calls eq (c # cs) S (r # rs) S' \<longleftrightarrow> (\<exists>T. set_call eq c S r T \<and> set_calls eq cs T rs S')"
| "set_calls eq _ S _ S' \<longleftrightarrow> False"

lemma elems_mset: "mset (concat (buckets h')) = mset (concat (buckets h)) \<Longrightarrow> elems h' = elems h"
  unfolding elems_def by (rule mset_eq_setD)

lemma hash_ok_card:
  assumes "hash_ok h"
  shows "unat (elem_cnt h) = card (elems h)"
proof -
  have "distinct (concat (buckets h))" "unat (elem_cnt h) = length (concat (buckets h))" using assms by (simp_all add: hash_ok_def)
  then show ?thesis unfolding elems_def using distinct_card by metis
qed

lemma find_elem_matches:
  assumes ok: "hash_ok h" and key: "hash_key (less_fn h) (hash_fn h)"
  shows "matches (elem_equal h) e (elems h) (find_elem h (bucket_idx h e) e)"
proof -
  have p: "placed h" using ok by (simp add: hash_ok_def)
  have same: "bucket_idx h x = bucket_idx h e" if "elem_equal h x e" for x
    using hash_key.hash_equal [OF key, of x e] that by (simp add: bucket_idx_def elem_equal_def)
  show ?thesis
  proof (cases "find_elem h (bucket_idx h e) e")
    case None
    then have "\<forall>x\<in>set (buckets h ! bucket_idx h e). \<not> elem_equal h x e" by (auto simp: find_elem_def find_None_iff)
    then have "\<forall>x\<in>elems h. \<not> elem_equal h x e" using same in_elems [OF p] by metis
    then show ?thesis using None by (simp add: matches_def)
  next
    case (Some x)
    then have "x \<in> set (buckets h ! bucket_idx h e)" "elem_equal h x e"
      by (auto simp: find_elem_def find_Some_iff)
    then show ?thesis using Some same in_elems [OF p] by (simp add: matches_def)
  qed
qed

lemma insert_elem_ok:
  assumes ok: "hash_ok h" and new: "\<forall>x\<in>elems h. \<not> elem_equal h x e" and room: "card (elems h) + 1 < 2 ^ 32"
    and key: "strict_weak_order (less_fn h)"
  shows "hash_ok (insert_elem h (bucket_idx h e) e)" "elems (insert_elem h (bucket_idx h e) e) = insert e (elems h)"
proof -
  let ?h = "insert_elem h (bucket_idx h e) e"
  have p: "placed (h\<lparr>elem_cnt := elem_cnt h + 1\<rparr>)" using ok by (simp add: hash_ok_def placed_def bucket_idx_def)
  have i: "bucket_idx h e = bucket_idx (h\<lparr>elem_cnt := elem_cnt h + 1\<rparr>) e" by (simp add: bucket_idx_def)
  have ms: "mset (concat (buckets ?h)) = mset (e # concat (buckets h))" and pl: "placed ?h"
    using push_bucket_placed [OF p, of e] unfolding insert_elem_def i by simp_all
  have "elem_equal h e e" using strict_weak_order.lt_irrefl [OF key] by (simp add: elem_equal_def)
  then have "e \<notin> elems h" using new by blast
  show el: "elems ?h = insert e (elems h)" using mset_eq_setD [OF ms] by (simp add: elems_def)
  have di: "distinct (concat (buckets ?h))"
    using mset_eq_imp_distinct_iff [OF ms] ok \<open>e \<notin> elems h\<close> by (simp add: hash_ok_def elems_def)
  have eq: "elem_equal ?h = elem_equal h" by (simp add: elem_equal_def insert_elem_def fun_eq_iff)
  have sym: "elem_equal h a b \<longleftrightarrow> elem_equal h b a" for a b by (auto simp: elem_equal_def)
  have "unat (elem_cnt h) + 1 < 2 ^ 32" using hash_ok_card [OF ok] room by simp
  then have "unat (elem_cnt h + 1) = unat (elem_cnt h) + 1" by (simp add: unat_word_ariths)
  then have "unat (elem_cnt ?h) = length (concat (buckets ?h))"
    using mset_eq_length [OF ms] ok by (simp add: hash_ok_def insert_elem_def)
  then show "hash_ok ?h" using pl di ok new sym unfolding hash_ok_def el eq by blast
qed

lemma remove_elem_ok:
  assumes ok: "hash_ok h" and x: "x \<in> elems h"
  shows "hash_ok (remove_elem h x)" "elems (remove_elem h x) = elems h - {x}"
proof -
  let ?h = "remove_elem h x"
  have d: "placed h" "distinct (concat (buckets h))" using ok by (simp_all add: hash_ok_def)
  note p = remove_elem_placed [OF d, of x]
  have ms: "mset (concat (buckets ?h)) = mset (remove1 x (concat (buckets h)))" using p(2) by simp
  show el: "elems ?h = elems h - {x}" using mset_eq_setD [OF ms] d(2) by (simp add: elems_def set_remove1_eq)
  have "finite (elems h)" by (simp add: elems_def)
  then have "elem_cnt h \<noteq> 0" using hash_ok_card [OF ok] x by auto
  then have "unat (elem_cnt ?h) = length (concat (buckets ?h))"
    using mset_eq_length [OF ms] ok x unfolding hash_ok_def elems_def by (simp add: remove_elem_def unat_minus_one length_remove1)
  moreover have "distinct (concat (buckets ?h))" using mset_eq_imp_distinct_iff [OF ms] d(2) by (simp add: distinct_remove1)
  moreover have "elem_equal ?h = elem_equal h" by (simp add: elem_equal_def remove_elem_def fun_eq_iff)
  ultimately show "hash_ok ?h" using p(1) ok unfolding hash_ok_def el by simp
qed

lemma rehash_ok:
  assumes "hash_ok h"
  obtains h' where "rehash got h = Some (Inr h')" "hash_ok h'" "elems h' = elems h" "hash_fn h' = hash_fn h" "less_fn h' = less_fn h"
proof -
  obtain h' where h': "rehash got h = Some (Inr h')" "placed h'" "mset (concat (buckets h')) = mset (concat (buckets h))"
      "elem_cnt h' = elem_cnt h" "hash_fn h' = hash_fn h" "less_fn h' = less_fn h"
    using rehash_placed [of h got] assms by (auto simp: hash_ok_def)
  have "elem_equal h' = elem_equal h" using h'(6) by (simp add: elem_equal_def fun_eq_iff)
  then have "hash_ok h'"
    using assms h' elems_mset [OF h'(3)] mset_eq_length [OF h'(3)] mset_eq_imp_distinct_iff [OF h'(3)] by (simp add: hash_ok_def)
  then show ?thesis using that h' elems_mset by blast
qed

text \<open>An operation that ends with \<^verbatim>\<open>rehash\<close> on a proper table.\<close>

lemma rehash_last:
  assumes "hash_ok g" "elems g = S'" "hash_fn g = hash_fn h" "less_fn g = less_fn h"
  shows "\<exists>h'. bindO (rehash got g) (\<lambda>h. Some (Inr (r, h))) = Some (Inr (r, h')) \<and> elems h' = S'
    \<and> hash_ok h' \<and> hash_fn h' = hash_fn h \<and> less_fn h' = less_fn h"
proof -
  obtain h' where "rehash got g = Some (Inr h')" "hash_ok h'" "elems h' = elems g" "hash_fn h' = hash_fn g" "less_fn h' = less_fn g"
    using assms(1) by (rule rehash_ok)
  then show ?thesis using assms by simp
qed

lemma hash_insert_ok:
  assumes ok: "hash_ok h" and key: "hash_key (less_fn h) (hash_fn h)" and room: "card (elems h) + 1 < 2 ^ 32"
  shows "\<exists>r h'. hash_insert got e h = Some (Inr (r, h')) \<and> set_call (elem_equal h) (Insert e) (elems h) r (elems h')
    \<and> hash_ok h' \<and> hash_fn h' = hash_fn h \<and> less_fn h' = less_fn h"
proof -
  let ?old = "find_elem h (bucket_idx h e) e"
  have fe: "matches (elem_equal h) e (elems h) ?old" by (rule find_elem_matches [OF ok key])
  have fb: "find_bucket h e = Inr (bucket_idx h e)" using ok by (intro find_bucket_eq) (simp add: hash_ok_def)
  have fns: "hash_fn (insert_elem h b e) = hash_fn h" "less_fn (insert_elem h b e) = less_fn h" for b by (simp_all add: insert_elem_def)
  show ?thesis
  proof (cases ?old)
    case None
    then have "\<forall>x\<in>elems h. \<not> elem_equal h x e" using fe by (simp add: matches_def)
    note i = insert_elem_ok [OF ok this room hash_key.axioms(1) [OF key]]
    show ?thesis using rehash_last [OF i fns, of got None] fe None by (auto simp: hash_insert_def fb)
  next
    case (Some x)
    then show ?thesis using rehash_last [OF ok refl refl refl, of got ?old] fe by (auto simp: hash_insert_def fb)
  qed
qed

lemma hash_replace_ok:
  assumes ok: "hash_ok h" and key: "hash_key (less_fn h) (hash_fn h)" and room: "card (elems h) + 1 < 2 ^ 32"
  shows "\<exists>r h'. hash_replace got e h = Some (Inr (r, h')) \<and> set_call (elem_equal h) (Replace e) (elems h) r (elems h')
    \<and> hash_ok h' \<and> hash_fn h' = hash_fn h \<and> less_fn h' = less_fn h"
proof -
  let ?old = "find_elem h (bucket_idx h e) e"
  let ?g = "case ?old of None \<Rightarrow> h | Some x \<Rightarrow> remove_elem h x"
  let ?h = "insert_elem ?g (bucket_idx h e) e"
  note swo = hash_key.axioms(1) [OF key]
  have fe: "matches (elem_equal h) e (elems h) ?old" by (rule find_elem_matches [OF ok key])
  have fb: "find_bucket h e = Inr (bucket_idx h e)" using ok by (intro find_bucket_eq) (simp add: hash_ok_def)
  have g: "hash_ok ?g" "elems ?g = elems h - set_option ?old" "hash_fn ?g = hash_fn h" "less_fn ?g = less_fn h" "bucket_cnt ?g = bucket_cnt h"
    using remove_elem_ok [OF ok] ok fe by (cases ?old; simp add: matches_def remove_elem_def)+
  have eq: "elem_equal ?g = elem_equal h" and i: "bucket_idx ?g e = bucket_idx h e"
    using g(3-5) by (simp_all add: elem_equal_def bucket_idx_def fun_eq_iff)
  have "x = y" if "x \<in> elems h" "y \<in> elems h" "elem_equal h x e" "elem_equal h y e" for x y
  proof -
    have "elem_equal h x y" using that(3,4) strict_weak_order.lt_neg_trans [OF swo] unfolding elem_equal_def by blast
    then show ?thesis using ok that(1,2) by (simp add: hash_ok_def)
  qed
  then have new: "\<forall>x\<in>elems ?g. \<not> elem_equal ?g x e"
    unfolding eq g(2) using fe by (cases ?old) (auto simp: matches_def)
  have "card (elems ?g) \<le> card (elems h)" unfolding g(2) by (rule card_mono) (auto simp: elems_def)
  then have "card (elems ?g) + 1 < 2 ^ 32" using room by simp
  note ins = insert_elem_ok [OF g(1) new this, unfolded i g, OF swo]
  have "hash_fn ?h = hash_fn h" "less_fn ?h = less_fn h" using g(3,4) by (simp_all add: insert_elem_def)
  from rehash_last [OF ins this, of got ?old] show ?thesis using fe by (auto simp: hash_replace_def fb Let_def)
qed

lemma hash_delete_ok:
  assumes ok: "hash_ok h" and key: "hash_key (less_fn h) (hash_fn h)"
  shows "\<exists>r h'. hash_delete got e h = Some (Inr (r, h')) \<and> set_call (elem_equal h) (Delete e) (elems h) r (elems h')
    \<and> hash_ok h' \<and> hash_fn h' = hash_fn h \<and> less_fn h' = less_fn h"
proof -
  let ?old = "find_elem h (bucket_idx h e) e"
  have fe: "matches (elem_equal h) e (elems h) ?old" by (rule find_elem_matches [OF ok key])
  have fb: "find_bucket h e = Inr (bucket_idx h e)" using ok by (intro find_bucket_eq) (simp add: hash_ok_def)
  show ?thesis
  proof (cases ?old)
    case None
    then show ?thesis using fe ok by (simp add: hash_delete_def hash_find_def fb)
  next
    case (Some x)
    then have x: "x \<in> elems h" using fe by (simp add: matches_def)
    have "hash_fn (remove_elem h x) = hash_fn h" "less_fn (remove_elem h x) = less_fn h" by (simp_all add: remove_elem_def)
    from rehash_last [OF remove_elem_ok [OF ok x] this, of got ?old] show ?thesis
      using fe Some by (auto simp: hash_delete_def hash_find_def fb)
  qed
qed

lemma hash_call_ok:
  assumes "hash_ok h" "hash_key (less_fn h) (hash_fn h)" "card (elems h) + 1 < 2 ^ 32"
  shows "\<exists>r h'. hash_call got c h = Some (Inr (r, h')) \<and> set_call (elem_equal h) c (elems h) r (elems h')
    \<and> hash_ok h' \<and> hash_fn h' = hash_fn h \<and> less_fn h' = less_fn h"
proof (cases c)
  case (Find e)
  have "placed h" using assms(1) by (simp add: hash_ok_def)
  then show ?thesis
    using Find find_elem_matches [OF assms(1,2), of e] assms(1) by (simp add: hash_find_def find_bucket_eq)
qed (use hash_insert_ok [OF assms] hash_replace_ok [OF assms] hash_delete_ok [OF assms(1,2)] in \<open>simp_all only: hash_call.simps\<close>)

lemma set_call_card:
  assumes "set_call eq c S r S'" "finite S"
  shows "finite S' \<and> card S' \<le> card S + 1"
proof -
  obtain e where "S' \<subseteq> insert e S"
  proof (cases c)
    case (Insert e)
    then show ?thesis using that [of e] assms(1) by (auto split: if_splits)
  next
    case (Replace e)
    then show ?thesis using that [of e] assms(1) by auto
  qed (use that assms(1) in auto)
  then have "finite S'" "card S' \<le> card (insert e S)" using assms(2) finite_subset card_mono by (metis finite_insert)+
  then show ?thesis using card_insert_if [OF assms(2), of e] by (simp split: if_splits)
qed

lemma hash_calls_ok:
  assumes "hash_ok h" "hash_key (less_fn h) (hash_fn h)" "card (elems h) + length cs < 2 ^ 32"
  shows "\<exists>rs h'. hash_calls cs h = Some (Inr (rs, h')) \<and> set_calls (elem_equal h) (map snd cs) (elems h) rs (elems h') \<and> hash_ok h'"
  using assms
proof (induction cs arbitrary: h)
  case (Cons gc cs)
  obtain got c where gc: "gc = (got, c)" by (cases gc)
  have "card (elems h) + 1 < 2 ^ 32" using Cons.prems(3) by simp
  then obtain r g where g: "hash_call got c h = Some (Inr (r, g))" "set_call (elem_equal h) c (elems h) r (elems g)"
      "hash_ok g" "hash_fn g = hash_fn h" "less_fn g = less_fn h"
    using hash_call_ok [OF Cons.prems(1,2), of got c] by blast
  have "finite (elems h)" by (simp add: elems_def)
  then have "card (elems g) + length cs < 2 ^ 32" using set_call_card [OF g(2)] Cons.prems(3) by simp
  moreover have "elem_equal g = elem_equal h" using g(5) by (simp add: elem_equal_def fun_eq_iff)
  ultimately obtain rs h' where "hash_calls cs g = Some (Inr (rs, h'))"
      "set_calls (elem_equal h) (map snd cs) (elems g) rs (elems h')" "hash_ok h'"
    using Cons.IH [OF g(3)] Cons.prems(2) g(4,5) by auto
  then show ?case using g(1,2) gc by auto
qed simp

lemma hash_init_ok: "hash_ok (snd (hash_init hash lt True))" "elems (snd (hash_init hash lt True)) = {}"
  by (auto simp: hash_init_def hash_clear_def hash_ok_def placed_def elems_def is_power_of_2_def turn_off_least_1bit_def nth_replicate)

text \<open>C16. A hash table is a set of elements no two of which are equal: from a table \<^verbatim>\<open>hash_init\<close> made or any proper
  one, every sequence of insertions, replacements, searches and deletions returns, each result and the
  elements after it are those of the set, whatever \<^verbatim>\<open>malloc\<close> does when the number of buckets is to change,
  and \<^verbatim>\<open>hash_size\<close> is the number of elements.\<close>

theorem hash_table_refines:
  assumes "hash_ok h" "hash_key (less_fn h) (hash_fn h)" "card (elems h) + length cs < 2 ^ 32"
  shows "(\<exists>rs h'. hash_calls cs h = Some (Inr (rs, h')) \<and> set_calls (elem_equal h) (map snd cs) (elems h) rs (elems h')
      \<and> hash_ok h' \<and> unat (hash_size h') = card (elems h'))
    \<and> hash_ok (snd (hash_init (hash_fn h) (less_fn h) True)) \<and> elems (snd (hash_init (hash_fn h) (less_fn h) True)) = {}"
  using hash_calls_ok [OF assms] hash_ok_card hash_init_ok unfolding hash_size_def by blast

section \<open>Iteration visits every element once\<close>

text \<open>The loop the comment of \<^verbatim>\<open>hash_first\<close> shows: the elements in the order they are visited.\<close>

partial_function (option) visit :: "hash \<Rightarrow> hash_iterator \<Rightarrow> nat list option" where
  "visit h it =
     (let it = hash_next h it
      in case hash_cur it of
           None \<Rightarrow> Some []
         | Some e \<Rightarrow> Option.bind (visit h it) (\<lambda>es. Some (e # es)))"

definition ahead :: "hash \<Rightarrow> nat \<Rightarrow> nat \<Rightarrow> nat list" where
  "ahead h b p = drop p (buckets h ! b) @ concat (drop (b + 1) (buckets h))"

lemma next_loop_ahead:
  assumes "b < length (buckets h)"
  shows "case ahead h b p of
      [] \<Rightarrow> it_elem (next_loop b (p + 1) h) = None
    | x # xs \<Rightarrow> it_elem (next_loop b (p + 1) h) = Some x \<and> it_bucket (next_loop b (p + 1) h) < length (buckets h)
        \<and> ahead h (it_bucket (next_loop b (p + 1) h)) (it_place (next_loop b (p + 1) h)) = xs"
  using assms
proof (induction "length (buckets h) - b" arbitrary: b p)
  case (Suc n)
  show ?case
  proof (cases "p < length (buckets h ! b)")
    case True
    then have "ahead h b p = buckets h ! b ! p # ahead h b (p + 1)" by (simp add: ahead_def Cons_nth_drop_Suc [symmetric])
    then show ?thesis using True Suc.prems by (subst (1 2 3 4) next_loop.simps) simp
  next
    case False
    show ?thesis
    proof (cases "b + 1 < length (buckets h)")
      case True
      then have "ahead h b p = ahead h (b + 1) 0" using False by (simp add: ahead_def Cons_nth_drop_Suc [symmetric])
      moreover have "next_loop b (p + 1) h = next_loop (b + 1) (0 + 1) h" using False True by (subst next_loop.simps) simp
      moreover have "n = length (buckets h) - (b + 1)" using Suc.hyps(2) by simp
      note Suc.hyps(1) [OF this True, of 0]
      ultimately show ?thesis by (simp only:)
    next
      case last: False
      then have "ahead h b p = []" using False by (simp add: ahead_def)
      then show ?thesis using last False by (subst next_loop.simps) simp
    qed
  qed
qed simp

lemma visit_ahead: "it_bucket it < length (buckets h) \<Longrightarrow> visit h it = Some (ahead h (it_bucket it) (it_place it))"
proof (induction "ahead h (it_bucket it) (it_place it)" arbitrary: it)
  case Nil
  then show ?case
    using next_loop_ahead [OF Nil.prems, of "it_place it"] by (subst visit.simps) (simp add: hash_next_def hash_cur_def)
next
  case (Cons x xs)
  let ?it = "hash_next h it"
  have n: "it_elem ?it = Some x" "it_bucket ?it < length (buckets h)" "xs = ahead h (it_bucket ?it) (it_place ?it)"
    using next_loop_ahead [OF Cons.prems, of "it_place it"] unfolding Cons.hyps(2) [symmetric] hash_next_def by auto
  have "visit h ?it = Some xs" using Cons.hyps(1) [OF n(3,2)] n(3) by simp
  then show ?case using n(1) Cons.hyps(2) by (subst visit.simps) (simp add: hash_cur_def)
qed

text \<open>C17. Iterating over a proper table ends and visits every element exactly once, and \<^verbatim>\<open>hash_apply\<close> and a destructor
  in \<^verbatim>\<open>hash_clear\<close> are called for the same elements in the same order.\<close>

theorem hash_iteration:
  assumes "hash_ok h"
  shows "\<exists>es. visit h (hash_first h) = Some es \<and> distinct es \<and> set es = elems h
    \<and> hash_apply f h st = fold f es st \<and> snd (hash_clear (Some f) h st) = fold f es st
    \<and> elems (fst (hash_clear (Some f) h st)) = {} \<and> hash_ok (fst (hash_clear (Some f) h st))"
proof -
  have "is_power_of_2 (bucket_cnt h)" "length (buckets h) = unat (bucket_cnt h)" using assms by (simp_all add: hash_ok_def placed_def)
  then have "0 < length (buckets h)" by (simp add: is_power_of_2_def unat_gt_0)
  then have "visit h (hash_first h) = Some (ahead h 0 0)" using visit_ahead [of "hash_first h" h] by (simp add: hash_first_def)
  also have "ahead h 0 0 = concat (buckets h)" using \<open>0 < length (buckets h)\<close> by (cases "buckets h") (simp_all add: ahead_def)
  finally have v: "visit h (hash_first h) = Some (concat (buckets h))" .
  have "fold (\<lambda>bucket. fold f bucket) bs st = fold f (concat bs) st" for bs by (induction bs arbitrary: st) simp_all
  then have a: "hash_apply f h st = fold f (concat (buckets h)) st" by (simp add: hash_apply_def)
  have c: "concat (map (\<lambda>_. []) bs) = []" for bs :: "nat list list" by simp
  have "hash_ok (fst (hash_clear (Some f) h st))"
    using assms by (simp add: hash_ok_def placed_def hash_clear_def elems_def bucket_idx_def c)
  then show ?thesis using v a assms by (auto simp: hash_ok_def hash_clear_def elems_def)
qed

section \<open>Tables of integers\<close>

text \<open>\<^verbatim>\<open>hash_string\<close> hashes the bytes of the string.\<close>

lemma fnv_string_bytes:
  assumes "\<forall>b\<in>set str. b \<noteq> 0"
  shows "fnv_string (length p) hash (p @ str @ 0 # q) = fnv_bytes (length p) (length str) hash (p @ str @ 0 # q)"
  using assms
proof (induction str arbitrary: p hash)
  case Nil
  then show ?case by (subst fnv_string.simps) (simp add: rd_def)
next
  case (Cons b str)
  then show ?case using Cons.IH [of "p @ [b]"] by (subst fnv_string.simps) (simp add: rd_def)
qed

lemma hash_string_bytes:
  "\<forall>b\<in>set str. b \<noteq> 0 \<Longrightarrow> hash_string (length p) (p @ str @ 0 # q) = hash_bytes (length p) (length str) (p @ str @ 0 # q)"
  by (simp add: hash_string_def hash_bytes_def fnv_string_bytes)

text \<open>Elements compared by an integer and hashed by \<^verbatim>\<open>hash_int\<close>, here that of their address.\<close>

interpretation int_key: hash_key "(<) :: nat \<Rightarrow> nat \<Rightarrow> bool" "\<lambda>e. projr (hash_int (int e))"
  by unfold_locales (auto simp: not_less dest: antisym)

definition int_table :: hash where
  "int_table = snd (hash_init (\<lambda>e. projr (hash_int (int e))) (<) True)"

lemma int_table_fns: "hash_fn int_table = (\<lambda>e. projr (hash_int (int e)))" "less_fn int_table = (<)"
  by (simp_all add: int_table_def hash_init_def hash_clear_def)

lemma int_table_ok: "hash_ok int_table" "elems int_table = {}" "hash_key (less_fn int_table) (hash_fn int_table)"
  using hash_init_ok int_key.hash_key_axioms unfolding int_table_fns by (simp_all add: int_table_def)

theorem hash_table_refines_witness:
  "\<exists>rs h'. hash_calls [(False, Insert 7), (True, Insert 7), (True, Find 9), (True, Delete 7)] int_table = Some (Inr (rs, h'))
    \<and> rs = [None, Some 7, None, Some 7] \<and> elems h' = {}"
proof -
  have eq: "elem_equal int_table x y \<longleftrightarrow> x = y" for x y by (auto simp: elem_equal_def int_table_fns)
  let ?cs = "[(False, Insert 7), (True, Insert 7), (True, Find 9), (True, Delete 7)]"
  have "card (elems int_table) + length ?cs < 2 ^ 32" by (simp add: int_table_ok)
  then obtain rs h' where "hash_calls ?cs int_table = Some (Inr (rs, h'))"
      "set_calls (elem_equal int_table) (map snd ?cs) {} rs (elems h')"
    using hash_table_refines [OF int_table_ok(1,3)] int_table_ok(2) by metis
  then show ?thesis
    by (auto simp: matches_def eq elim!: set_calls.elims split: option.splits if_splits)
qed

theorem hash_iteration_witness:
  "\<exists>es. visit (insert_elem int_table (bucket_idx int_table 7) 7) (hash_first (insert_elem int_table (bucket_idx int_table 7) 7)) = Some es
    \<and> set es = {7}"
proof -
  have "\<forall>x\<in>elems int_table. \<not> elem_equal int_table x 7" "card (elems int_table) + 1 < 2 ^ 32" by (simp_all add: int_table_ok)
  note i = insert_elem_ok [OF int_table_ok(1) this hash_key.axioms(1) [OF int_table_ok(3)]]
  show ?thesis using hash_iteration [OF i(1), of "\<lambda>_ s. s" "()"] i(2) int_table_ok(2) by auto
qed

end
