(* ===== verification/Inode.thy ===== *)
theory Inode
  imports Bitmap Block Vaddr
begin

text \<open>
  \<^verbatim>\<open>filesys/inode.c\<close>, reading and writing: the data of an inode is one contiguous extent of sectors.
  Both loops go over it sector by sector, with a bounce buffer for parts of a sector. They are
  shown to read and to overwrite the byte array the extent stands for.
\<close>

section \<open>Inodes\<close>

definition INODE_MAGIC :: nat where "INODE_MAGIC = 0x494e4f44"

record inode_disk =
  i_start :: nat
  i_length :: int
  i_magic :: nat

record inode =
  i_sector :: nat
  open_cnt :: int
  removed :: bool
  deny_write_cnt :: int
  i_data :: inode_disk

definition bytes_to_sectors :: "int \<Rightarrow> nat" where
  "bytes_to_sectors n = nat (u32 (s32 (n + int BLOCK_SECTOR_SIZE - 1) sdiv int BLOCK_SECTOR_SIZE))"

definition inode_length :: "inode \<Rightarrow> int" where
  "inode_length ino = i_length (i_data ino)"

definition inode_get_inumber :: "inode \<Rightarrow> nat" where
  "inode_get_inumber ino = i_sector ino"

definition byte_to_sector :: "inode \<Rightarrow> int \<Rightarrow> nat" where
  "byte_to_sector ino pos =
     (if pos < i_length (i_data ino)
      then nat (u32 (int (i_start (i_data ino)) + pos sdiv int BLOCK_SECTOR_SIZE))
      else 2 ^ 32 - 1)"

text \<open>An inode as it is stored in its sector.\<close>

definition inode_disk_bytes :: "inode_disk \<Rightarrow> byte list" where
  "inode_disk_bytes d =
     word_bytes (of_nat (i_start d)) @ word_bytes (of_int (i_length d)) @ word_bytes (of_nat (i_magic d))
       @ replicate 500 0"

definition bytes_inode_disk :: "byte list \<Rightarrow> inode_disk" where
  "bytes_inode_disk bs =
     \<lparr>i_start = unat (bytes_word (take 4 bs)), i_length = sint (bytes_word (take 4 (drop 4 bs))),
      i_magic = unat (bytes_word (take 4 (drop 8 bs)))\<rparr>"

section \<open>Reading and writing\<close>

text \<open>The offset within a sector, the bytes left in it, and how many bytes one round handles.\<close>

definition sector_ofs :: "int \<Rightarrow> int" where
  "sector_ofs offset = offset smod int BLOCK_SECTOR_SIZE"

definition sector_left :: "int \<Rightarrow> int" where
  "sector_left offset = int BLOCK_SECTOR_SIZE - sector_ofs offset"

definition chunk_size :: "inode \<Rightarrow> int \<Rightarrow> int \<Rightarrow> int" where
  "chunk_size ino n offset =
     (let inode_left = s32 (inode_length ino - offset);
          min_left = (if inode_left < sector_left offset then inode_left else sector_left offset)
      in if n < min_left then n else min_left)"

text \<open>\<open>bounce\<close> is whether the bounce buffer has been allocated.\<close>

definition get_bounce :: "bool \<Rightarrow> blocks \<Rightarrow> bool \<times> blocks" where
  "get_bounce bounce s = (if bounce then (True, s) else try_malloc s)"

function read_loop :: "nat \<Rightarrow> inode \<Rightarrow> int \<Rightarrow> int \<Rightarrow> bool \<Rightarrow> blocks \<Rightarrow> (byte list \<times> blocks) res" where
  "read_loop dev ino n offset bounce s =
     (if n > 0 \<and> chunk_size ino n offset > 0
      then if sector_ofs offset = 0 \<and> chunk_size ino n offset = int BLOCK_SECTOR_SIZE
           then bindR (block_read dev (byte_to_sector ino offset) s) (\<lambda>(buffer, s).
                bindR (read_loop dev ino (n - chunk_size ino n offset) (s32 (offset + chunk_size ino n offset)) bounce s) (\<lambda>(rest, s).
                  Inr (buffer @ rest, s)))
           else case get_bounce bounce s of
                  (False, s) \<Rightarrow> Inr ([], s)
                | (True, s) \<Rightarrow>
                    bindR (block_read dev (byte_to_sector ino offset) s) (\<lambda>(buffer, s).
                    if sector_ofs offset < 0 then Inl OutOfBounds
                    else bindR (read_loop dev ino (n - chunk_size ino n offset) (s32 (offset + chunk_size ino n offset)) True s) (\<lambda>(rest, s).
                      Inr (take (nat (chunk_size ino n offset)) (drop (nat (sector_ofs offset)) buffer) @ rest, s)))
      else Inr ([], s))"
  by pat_completeness auto
termination by (relation "measure (\<lambda>(_, _, n, _). nat n)") auto

function write_loop :: "nat \<Rightarrow> inode \<Rightarrow> byte list \<Rightarrow> int \<Rightarrow> bool \<Rightarrow> blocks \<Rightarrow> (int \<times> blocks) res" where
  "write_loop dev ino data offset bounce s =
     (let chunk = chunk_size ino (int (length data)) offset
      in if data \<noteq> [] \<and> chunk > 0
         then if sector_ofs offset = 0 \<and> chunk = int BLOCK_SECTOR_SIZE
              then bindR (block_write dev (byte_to_sector ino offset) (take (nat chunk) data) s) (\<lambda>s.
                   bindR (write_loop dev ino (drop (nat chunk) data) (s32 (offset + chunk)) bounce s) (\<lambda>(n, s).
                     Inr (chunk + n, s)))
              else case get_bounce bounce s of
                     (False, s) \<Rightarrow> Inr (0, s)
                   | (True, s) \<Rightarrow>
                       bindR (if sector_ofs offset > 0 \<or> chunk < sector_left offset
                              then block_read dev (byte_to_sector ino offset) s
                              else Inr (replicate BLOCK_SECTOR_SIZE 0, s)) (\<lambda>(buffer, s).
                       if sector_ofs offset < 0 then Inl OutOfBounds
                       else bindR (block_write dev (byte_to_sector ino offset)
                                     (overwrite (nat (sector_ofs offset)) (take (nat chunk) data) buffer) s) (\<lambda>s.
                            bindR (write_loop dev ino (drop (nat chunk) data) (s32 (offset + chunk)) True s) (\<lambda>(n, s).
                              Inr (chunk + n, s))))
         else Inr (0, s))"
  by pat_completeness auto
termination by (relation "measure (\<lambda>(_, _, data, _). length data)") auto

declare read_loop.simps [simp del] write_loop.simps [simp del]

definition inode_read_at :: "nat \<Rightarrow> inode \<Rightarrow> int \<Rightarrow> int \<Rightarrow> blocks \<Rightarrow> (byte list \<times> blocks) res" where
  "inode_read_at dev ino n offset s = read_loop dev ino n offset False s"

definition inode_write_at :: "nat \<Rightarrow> inode \<Rightarrow> byte list \<Rightarrow> int \<Rightarrow> blocks \<Rightarrow> (int \<times> blocks) res" where
  "inode_write_at dev ino data offset s =
     (if deny_write_cnt ino \<noteq> 0 then Inr (0, s) else write_loop dev ino data offset False s)"

definition inode_deny_write :: "inode \<Rightarrow> inode res" where
  "inode_deny_write ino =
     (let ino = ino\<lparr>deny_write_cnt := s32 (deny_write_cnt ino + 1)\<rparr>
      in assertR (deny_write_cnt ino \<le> open_cnt ino) (Inr ino))"

definition inode_allow_write :: "inode \<Rightarrow> inode res" where
  "inode_allow_write ino =
     assertR (deny_write_cnt ino > 0) (assertR (deny_write_cnt ino \<le> open_cnt ino)
       (Inr (ino\<lparr>deny_write_cnt := deny_write_cnt ino - 1\<rparr>)))"

section \<open>The bytes of an extent\<close>

text \<open>A device the file system can use, and that two states hold the same disks.\<close>

definition dev_size :: "nat \<Rightarrow> blocks \<Rightarrow> nat" where
  "dev_size dev s = blk_size (all_blocks s ! dev)"

definition dev_ok :: "nat \<Rightarrow> blocks \<Rightarrow> bool" where
  "dev_ok dev s \<longleftrightarrow> blocks_ok s \<and> dev < length (all_blocks s) \<and> blk_type (all_blocks s ! dev) \<noteq> BLOCK_FOREIGN
     \<and> (\<forall>i < dev_size dev s. length (sector_at s dev i) = BLOCK_SECTOR_SIZE)"

definition same_table :: "blocks \<Rightarrow> blocks \<Rightarrow> bool" where
  "same_table s s' \<longleftrightarrow> map fixed_part (all_blocks s') = map fixed_part (all_blocks s) \<and> block_by_role s' = block_by_role s
     \<and> (\<exists>k. mallocs s' = drop k (mallocs s))"

lemma same_table_refl [simp]: "same_table s s"
  using drop_0 [of "mallocs s"] by (auto simp: same_table_def intro: exI [of _ 0])

lemma same_table_trans: "same_table s t \<Longrightarrow> same_table t u \<Longrightarrow> same_table s u"
  by (auto simp: same_table_def simp del: map_eq_conv)

lemma same_devices_table: "same_devices s s' \<Longrightarrow> same_table s s'"
  using drop_0 [of "mallocs s"] by (auto simp: same_table_def same_devices_def simp del: map_eq_conv intro: exI [of _ 0])

lemma try_malloc_table: "try_malloc s = (got, s') \<Longrightarrow> same_table s s' \<and> media s' = media s"
  using drop_0 [of "mallocs s"]
  by (auto simp: same_table_def try_malloc_def split: list.splits intro: exI [of _ 1] exI [of _ 0])

lemma same_table_mallocs: "same_table s s' \<Longrightarrow> mallocs s = [] \<Longrightarrow> mallocs s' = []"
  by (auto simp: same_table_def)

lemma same_table_dev:
  assumes "same_table s s'" "dev < length (all_blocks s)"
  shows "dev_size dev s' = dev_size dev s" "dev < length (all_blocks s')"
    "blk_type (all_blocks s' ! dev) = blk_type (all_blocks s ! dev)"
  using fixed_part_nth [of "all_blocks s'" "all_blocks s" dev] assms
  by (simp_all add: same_table_def dev_size_def del: map_eq_conv)

lemma same_table_ok:
  assumes "same_table s s'" "blocks_ok s"
  shows "blocks_ok s'"
  using same_devices_ok [of s "s'\<lparr>mallocs := mallocs s\<rparr>"] assms
  by (simp add: same_table_def same_devices_def blocks_ok_def del: map_eq_conv)

lemma same_table_sector:
  assumes "same_table s s'" "media s' = media s" "dev < length (all_blocks s)"
  shows "sector_at s' dev i = sector_at s dev i"
  using resolve_same [of "all_blocks s'" "all_blocks s" dev i] assms
  by (simp add: sector_at_def same_table_def del: map_eq_conv)

lemma dev_ok_same:
  assumes "same_table s s'" "dev_ok dev s" "\<And>i. i < dev_size dev s \<Longrightarrow> length (sector_at s' dev i) = BLOCK_SECTOR_SIZE"
  shows "dev_ok dev s'"
  using assms same_table_dev [OF assms(1), of dev] same_table_ok [OF assms(1)] by (simp add: dev_ok_def)

lemma dev_ok_media:
  "same_table s s' \<Longrightarrow> media s' = media s \<Longrightarrow> dev_ok dev s \<Longrightarrow> dev_ok dev s'"
  by (rule dev_ok_same) (auto simp: same_table_sector dev_ok_def)

lemma dev_read:
  assumes "dev_ok dev s" "i < dev_size dev s"
  obtains s' where "block_read dev i s = Inr (sector_at s dev i, s')" "same_table s s'" "media s' = media s" "mallocs s' = mallocs s"
  using block_read_ok [of s dev i] assms same_devices_table
  by (auto simp: dev_ok_def dev_size_def same_devices_def)

lemma dev_write:
  assumes "dev_ok dev s" "i < dev_size dev s" "length buf = BLOCK_SECTOR_SIZE"
  shows "\<exists>s'. block_write dev i buf s = Inr s' \<and> same_table s s' \<and> dev_ok dev s' \<and> mallocs s' = mallocs s
    \<and> (\<forall>j. sector_at s' dev j = (if j = i then buf else sector_at s dev j))"
proof -
  have d: "blocks_ok s" "dev < length (all_blocks s)" "i < blk_size (all_blocks s ! dev)" "blk_type (all_blocks s ! dev) \<noteq> BLOCK_FOREIGN"
    using assms(1,2) by (simp_all add: dev_ok_def dev_size_def)
  show ?thesis
  proof (rule block_write_sector_at [OF d, of buf])
    fix s' assume s': "block_write dev i buf s = Inr s'" "same_devices s s'"
      "\<And>j. sector_at s' dev j = (if j = i then buf else sector_at s dev j)"
    have "dev_ok dev s'"
      using same_devices_table [OF s'(2)] assms(1) by (rule dev_ok_same) (use assms s'(3) in \<open>simp add: dev_ok_def\<close>)
    then show ?thesis
      using s' same_devices_table [OF s'(2)] by (intro exI [of _ s']) (simp add: same_devices_def)
  qed
qed

definition extent :: "blocks \<Rightarrow> nat \<Rightarrow> nat \<Rightarrow> nat \<Rightarrow> byte list" where
  "extent s dev start n = concat (map (sector_at s dev) [start..<start + n])"

lemma length_concat_same: "(\<And>x. x \<in> set xs \<Longrightarrow> length x = m) \<Longrightarrow> length (concat xs) = m * length xs"
  by (induction xs) simp_all

lemma nth_concat_same:
  "(\<And>x. x \<in> set xs \<Longrightarrow> length x = m) \<Longrightarrow> 0 < m \<Longrightarrow> i < m * length xs \<Longrightarrow> concat xs ! i = xs ! (i div m) ! (i mod m)"
proof (induction xs arbitrary: i)
  case (Cons x xs)
  show ?case
  proof (cases "i < m")
    case False
    then have "i div m = Suc ((i - m) div m)" "i mod m = (i - m) mod m"
      using Cons.prems(2) by (simp_all add: div_if mod_if)
    then show ?thesis using Cons False by (simp add: nth_append)
  qed (use Cons.prems in \<open>simp add: nth_append\<close>)
qed simp

lemma length_extent:
  "dev_ok dev s \<Longrightarrow> start + n \<le> dev_size dev s \<Longrightarrow> length (extent s dev start n) = 512 * n"
  unfolding extent_def by (subst length_concat_same [of _ 512]) (auto simp: dev_ok_def BLOCK_SECTOR_SIZE_def)

lemma nth_extent:
  assumes "dev_ok dev s" "start + n \<le> dev_size dev s" "i < 512 * n"
  shows "extent s dev start n ! i = sector_at s dev (start + i div 512) ! (i mod 512)"
proof -
  have "i div 512 < n" using assms(3) by (simp add: less_mult_imp_div_less mult.commute)
  then show ?thesis
    unfolding extent_def using assms
    by (subst nth_concat_same [of _ 512]) (auto simp: dev_ok_def BLOCK_SECTOR_SIZE_def)
qed

section \<open>The contents of an inode\<close>

definition inode_fits :: "nat \<Rightarrow> blocks \<Rightarrow> inode_disk \<Rightarrow> bool" where
  "inode_fits dev s d \<longleftrightarrow> 0 \<le> i_length d \<and> i_length d \<le> 2 ^ 31 - 512
     \<and> i_start d + bytes_to_sectors (i_length d) \<le> dev_size dev s"

definition contents :: "blocks \<Rightarrow> nat \<Rightarrow> inode_disk \<Rightarrow> byte list" where
  "contents s dev d = take (nat (i_length d)) (extent s dev (i_start d) (bytes_to_sectors (i_length d)))"

lemma bytes_to_sectors_nat: "n \<le> 2 ^ 31 - 512 \<Longrightarrow> bytes_to_sectors (int n) = (n + 511) div 512"
proof -
  assume n: "n \<le> 2 ^ 31 - 512"
  have "in_s32 (int n + 512 - 1)" using n by (simp add: in_s32_def)
  then have "s32 (int n + 512 - 1) = int (n + 511)" by (simp add: s32_id)
  moreover have "int (n + 511) sdiv 512 = int ((n + 511) div 512)" by (simp add: sdiv_nonneg zdiv_int)
  moreover have "(n + 511) div 512 < 2 ^ 32" using n by (simp add: div_less_iff_less_mult)
  ultimately show ?thesis by (simp add: bytes_to_sectors_def BLOCK_SECTOR_SIZE_def u32_id)
qed

lemma dev_size_small: "dev_ok dev s \<Longrightarrow> dev_size dev s < 2 ^ 32"
  by (simp add: dev_ok_def dev_size_def blocks_ok_def block_in_def)

lemma fits_length:
  assumes "inode_fits dev s d"
  obtains L where "i_length d = int L" "L \<le> 2 ^ 31 - 512" "bytes_to_sectors (i_length d) = (L + 511) div 512"
    "i_start d + (L + 511) div 512 \<le> dev_size dev s"
proof -
  obtain L where L: "i_length d = int L" using assms by (auto simp: inode_fits_def intro: nonneg_int_cases)
  with assms have le: "L \<le> 2 ^ 31 - 512" by (simp add: inode_fits_def)
  with L assms bytes_to_sectors_nat [OF le] show thesis by (intro that [of L]) (simp_all add: inode_fits_def)
qed

lemma sectors_cover: "(L::nat) \<le> 512 * ((L + 511) div 512)" "i < L \<Longrightarrow> i div 512 < (L + 511) div 512"
proof -
  show le: "L \<le> 512 * ((L + 511) div 512)" by linarith
  show "i div 512 < (L + 511) div 512" if "i < L"
  proof -
    have "i < 512 * ((L + 511) div 512)" using that le by linarith
    then show ?thesis by (simp add: less_mult_imp_div_less mult.commute)
  qed
qed

lemma length_contents:
  assumes "dev_ok dev s" "inode_fits dev s d"
  shows "length (contents s dev d) = nat (i_length d)"
  using assms(2)
proof (rule fits_length)
  fix L assume L: "i_length d = int L" "bytes_to_sectors (i_length d) = (L + 511) div 512"
    "i_start d + (L + 511) div 512 \<le> dev_size dev s"
  then show ?thesis using length_extent [OF assms(1) L(3)] sectors_cover(1) [of L] by (simp add: contents_def)
qed

lemma nth_contents:
  assumes "dev_ok dev s" "inode_fits dev s d" "i < nat (i_length d)"
  shows "contents s dev d ! i = sector_at s dev (i_start d + i div 512) ! (i mod 512)"
    "i_start d + i div 512 < dev_size dev s"
    "i div 512 < bytes_to_sectors (i_length d)"
proof -
  from assms(2) obtain L where L: "i_length d = int L" "bytes_to_sectors (i_length d) = (L + 511) div 512"
    "i_start d + (L + 511) div 512 \<le> dev_size dev s" by (rule fits_length)
  have i: "i < L" using L(1) assms(3) by simp
  then have "i < 512 * ((L + 511) div 512)" using sectors_cover(1) [of L] by linarith
  from nth_extent [OF assms(1) L(3) this] i L
  show "contents s dev d ! i = sector_at s dev (i_start d + i div 512) ! (i mod 512)" by (simp add: contents_def)
  show "i div 512 < bytes_to_sectors (i_length d)" using sectors_cover(2) [OF i] L(2) by simp
  then show "i_start d + i div 512 < dev_size dev s" using L(2,3) by simp
qed

lemma smod_nonneg: "0 \<le> a \<Longrightarrow> 0 < b \<Longrightarrow> a smod b = a mod (b::int)"
  by (cases "a = 0") (simp_all add: signed_modulo_int_def sdiv_nonneg minus_div_mult_eq_mod)

lemma sector_ofs_nat: "sector_ofs (int pos) = int (pos mod 512)" "sector_left (int pos) = int (512 - pos mod 512)"
  by (simp_all add: sector_ofs_def sector_left_def BLOCK_SECTOR_SIZE_def smod_nonneg zmod_int of_nat_diff less_imp_le)

lemma byte_to_sector_nat:
  assumes "dev_ok dev s" "inode_fits dev s (i_data ino)" "pos < nat (inode_length ino)"
  shows "byte_to_sector ino (int pos) = i_start (i_data ino) + pos div 512"
proof -
  have lt: "i_start (i_data ino) + pos div 512 < 2 ^ 32"
    using nth_contents(2) [OF assms(1,2)] assms(3) dev_size_small [OF assms(1)] by (force simp: inode_length_def)
  have "int pos < i_length (i_data ino)" using assms(3) by (simp add: inode_length_def)
  moreover have "int pos sdiv 512 = int (pos div 512)" by (simp add: sdiv_nonneg zdiv_int)
  moreover have "u32 (int (i_start (i_data ino) + pos div 512)) = int (i_start (i_data ino) + pos div 512)"
    using lt by (intro u32_id) simp_all
  ultimately show ?thesis by (simp add: byte_to_sector_def BLOCK_SECTOR_SIZE_def)
qed

text \<open>The number of bytes one round handles: as many as are asked for, left in the inode, and left in
  the sector.\<close>

definition chunk :: "inode \<Rightarrow> nat \<Rightarrow> nat \<Rightarrow> nat" where
  "chunk ino n pos = min n (min (nat (inode_length ino) - pos) (512 - pos mod 512))"

lemma min3_int:
  "(let l = int a; m = (if l < int b then l else int b) in if int n < m then int n else m) = int (min n (min a b))"
  by (simp add: Let_def min_def)

lemma chunk_size_nat:
  assumes "0 \<le> inode_length ino" "inode_length ino < 2 ^ 31" "pos < 2 ^ 31"
  shows "pos < nat (inode_length ino) \<Longrightarrow> chunk_size ino (int n) (int pos) = int (chunk ino n pos)"
    "\<not> pos < nat (inode_length ino) \<Longrightarrow> chunk_size ino (int n) (int pos) \<le> 0"
proof -
  have "in_s32 (inode_length ino - int pos)" using assms by (simp add: in_s32_def)
  then have s: "s32 (inode_length ino - int pos) = inode_length ino - int pos" by (rule s32_id)
  show "chunk_size ino (int n) (int pos) = int (chunk ino n pos)" if "pos < nat (inode_length ino)"
  proof -
    have "inode_length ino - int pos = int (nat (inode_length ino) - pos)" using that by simp
    then show ?thesis unfolding chunk_size_def s sector_ofs_nat chunk_def by (simp only: min3_int)
  qed
  show "chunk_size ino (int n) (int pos) \<le> 0" if "\<not> pos < nat (inode_length ino)"
    using that unfolding chunk_size_def Let_def s by auto
qed

lemma same_sector:
  assumes "pos mod m + i < (m::nat)"
  shows "(pos + i) div m = pos div m" "(pos + i) mod m = pos mod m + i"
proof -
  have "(q * m + r) div m = q" "(q * m + r) mod m = r" if "r < m" for q r using that by simp_all
  from this [OF assms, of "pos div m"] show "(pos + i) div m = pos div m" "(pos + i) mod m = pos mod m + i"
    by (simp_all only: add.assoc [symmetric] div_mult_mod_eq)
qed

text \<open>The bytes of a round, in the sector and in the contents.\<close>

lemma round_bytes:
  assumes "dev_ok dev s" "inode_fits dev s (i_data ino)" "pos < nat (inode_length ino)"
  shows "take (chunk ino n pos) (drop (pos mod 512) (sector_at s dev (i_start (i_data ino) + pos div 512)))
       = take (chunk ino n pos) (drop pos (contents s dev (i_data ino)))"
proof (rule nth_equalityI)
  let ?d = "i_data ino" and ?c = "chunk ino n pos"
  have L: "length (contents s dev ?d) = nat (inode_length ino)"
    using length_contents [OF assms(1,2)] by (simp add: inode_length_def)
  have S: "length (sector_at s dev (i_start ?d + pos div 512)) = 512"
    using nth_contents(2) [OF assms(1,2)] assms by (simp add: dev_ok_def inode_length_def BLOCK_SECTOR_SIZE_def)
  have c: "?c \<le> nat (inode_length ino) - pos" "?c \<le> 512 - pos mod 512" by (simp_all add: chunk_def)
  show "length (take ?c (drop (pos mod 512) (sector_at s dev (i_start ?d + pos div 512)))) = length (take ?c (drop pos (contents s dev ?d)))"
    using c S L by simp
  fix i assume "i < length (take ?c (drop (pos mod 512) (sector_at s dev (i_start ?d + pos div 512))))"
  then have i: "i < ?c" by simp
  then have "pos mod 512 + i < 512" "pos + i < nat (inode_length ino)" using c by linarith+
  moreover have "(pos + i) div 512 = pos div 512" "(pos + i) mod 512 = pos mod 512 + i"
    using same_sector [OF \<open>pos mod 512 + i < 512\<close>] by simp_all
  ultimately show "take ?c (drop (pos mod 512) (sector_at s dev (i_start ?d + pos div 512))) ! i
      = take ?c (drop pos (contents s dev ?d)) ! i"
    using i S L nth_contents(1) [OF assms(1,2), of "pos + i"] by (simp add: inode_length_def)
qed

lemma contents_same:
  "same_table s s' \<Longrightarrow> media s' = media s \<Longrightarrow> dev_ok dev s \<Longrightarrow> contents s' dev d = contents s dev d"
  by (simp add: contents_def extent_def same_table_sector dev_ok_def cong: map_cong)

lemma fits_same: "same_table s s' \<Longrightarrow> dev_ok dev s \<Longrightarrow> inode_fits dev s' d = inode_fits dev s d"
  using same_table_dev(1) [of s s' dev] by (simp add: inode_fits_def dev_ok_def)

lemma fits_bounds: "inode_fits dev s d \<Longrightarrow> 0 \<le> i_length d \<and> i_length d < 2 ^ 31"
  by (simp add: inode_fits_def)

lemma got_bounce:
  assumes "bounce \<or> fst (try_malloc s)"
  obtains s' where "get_bounce bounce s = (True, s')" "same_table s s'" "media s' = media s"
proof (cases bounce)
  case False
  then obtain s' where "try_malloc s = (True, s')" using assms by (cases "try_malloc s") auto
  with False try_malloc_table [OF this] show thesis by (intro that [of s']) (simp_all add: get_bounce_def)
qed (use that [of s] in \<open>simp add: get_bounce_def\<close>)

lemma no_bounce:
  assumes "\<not> (bounce \<or> fst (try_malloc s))"
  obtains s' where "get_bounce bounce s = (False, s')" "same_table s s'" "media s' = media s"
  using assms try_malloc_table [of s "fst (try_malloc s)" "snd (try_malloc s)"]
  by (intro that [of "snd (try_malloc s)"]) (simp_all add: get_bounce_def prod_eq_iff)

lemma chunk_bounds:
  assumes "pos < nat (inode_length ino)" "0 < n"
  shows "0 < chunk ino n pos" "chunk ino n pos \<le> n" "pos + chunk ino n pos \<le> nat (inode_length ino)"
    "pos mod 512 + chunk ino n pos \<le> 512"
  using assms by (auto simp: chunk_def)

text \<open>What a round at a position before the end is about.\<close>

lemma round_facts:
  assumes "dev_ok dev s" "inode_fits dev s (i_data ino)" "pos < nat (inode_length ino)" "0 < n"
  shows "i_start (i_data ino) + pos div 512 < dev_size dev s"
    "byte_to_sector ino (int pos) = i_start (i_data ino) + pos div 512"
    "length (sector_at s dev (i_start (i_data ino) + pos div 512)) = 512"
    "pos < 2 ^ 31" "chunk_size ino (int n) (int pos) = int (chunk ino n pos)"
    "pos + chunk ino n pos < 2 ^ 31" "s32 (int pos + int (chunk ino n pos)) = int (pos + chunk ino n pos)"
proof -
  have len: "0 \<le> inode_length ino" "inode_length ino < 2 ^ 31"
    using fits_bounds [OF assms(2)] by (simp_all add: inode_length_def)
  show i: "i_start (i_data ino) + pos div 512 < dev_size dev s"
    using nth_contents(2) [OF assms(1,2)] assms(3) by (simp add: inode_length_def)
  then show "length (sector_at s dev (i_start (i_data ino) + pos div 512)) = 512"
    using assms(1) by (simp add: dev_ok_def BLOCK_SECTOR_SIZE_def)
  show "byte_to_sector ino (int pos) = i_start (i_data ino) + pos div 512"
    by (rule byte_to_sector_nat [OF assms(1-3)])
  show p: "pos < 2 ^ 31" using assms(3) len by simp
  show "chunk_size ino (int n) (int pos) = int (chunk ino n pos)" by (rule chunk_size_nat(1) [OF len p assms(3)])
  show "pos + chunk ino n pos < 2 ^ 31" using chunk_bounds(3) [OF assms(3,4)] len by simp
  then show "s32 (int pos + int (chunk ino n pos)) = int (pos + chunk ino n pos)" by (simp add: s32_id in_s32_def)
qed

lemma malloc_same: "mallocs s' = mallocs s \<Longrightarrow> fst (try_malloc s') = fst (try_malloc s)"
  by (simp add: try_malloc_def split: list.splits)

lemma whole_sector: "(int (pos mod 512) = 0 \<and> int c = int BLOCK_SECTOR_SIZE) = (pos mod 512 = 0 \<and> c = 512)"
  by (auto simp: BLOCK_SECTOR_SIZE_def)

lemma not_negative: "(int n < 0) = False"
  by simp

lemmas round_simps = sector_ofs_nat nat_int whole_sector not_negative if_True if_False bindR_Inr prod.case bool.case

lemma read_round:
  assumes "dev_ok dev s" "inode_fits dev s (i_data ino)" "pos < nat (inode_length ino)" "0 < n"
    and mem: "\<not> (pos mod 512 = 0 \<and> chunk ino n pos = 512) \<Longrightarrow> bounce \<or> fst (try_malloc s)"
  shows "\<exists>s1 bounce'. read_loop dev ino (int n) (int pos) bounce s =
      bindR (read_loop dev ino (int (n - chunk ino n pos)) (int (pos + chunk ino n pos)) bounce' s1) (\<lambda>(rest, s).
        Inr (take (chunk ino n pos) (drop pos (contents s1 dev (i_data ino))) @ rest, s))
    \<and> same_table s s1 \<and> media s1 = media s \<and> (bounce \<or> fst (try_malloc s) \<longrightarrow> bounce' \<or> fst (try_malloc s1))"
proof -
  let ?d = "i_data ino" and ?c = "chunk ino n pos"
  let ?i = "i_start ?d + pos div 512"
  note r = round_facts [OF assms(1-4)] and b = chunk_bounds [OF assms(3,4)]
  have go: "(int n > 0 \<and> int ?c > 0) = True" using assms(4) b(1) by simp
  have n: "int n - int ?c = int (n - ?c)" using b(2) by simp
  have full: "P \<Longrightarrow> P = True" for P by simp
  note rb = round_bytes [OF assms(1-3), of n]
  show ?thesis
  proof (cases "pos mod 512 = 0 \<and> ?c = 512")
    case True
    obtain s1 where s1: "block_read dev ?i s = Inr (sector_at s dev ?i, s1)" "same_table s s1" "media s1 = media s" "mallocs s1 = mallocs s"
      using dev_read [OF assms(1) r(1)] .
    have "sector_at s dev ?i = take ?c (drop pos (contents s1 dev ?d))"
      using rb r(3) True contents_same [OF s1(2,3) assms(1)] by simp
    moreover have "read_loop dev ino (int n) (int pos) bounce s =
        bindR (read_loop dev ino (int (n - ?c)) (int (pos + ?c)) bounce s1) (\<lambda>(rest, s'). Inr (sector_at s dev ?i @ rest, s'))"
      by (subst read_loop.simps) (simp only: r(2,5,7) go n full [OF True] s1(1) round_simps)
    ultimately show ?thesis using s1(2,3) malloc_same [OF s1(4)] by (intro exI [of _ s1] exI [of _ bounce]) simp
  next
    case False
    obtain s0 where s0: "get_bounce bounce s = (True, s0)" "same_table s s0" "media s0 = media s"
      using got_bounce [OF mem [OF False]] .
    have i0: "?i < dev_size dev s0" "sector_at s0 dev ?i = sector_at s dev ?i"
      using r(1) same_table_dev(1) [OF s0(2)] same_table_sector [OF s0(2,3)] assms(1) by (simp_all add: dev_ok_def)
    obtain s1 where s1: "block_read dev ?i s0 = Inr (sector_at s dev ?i, s1)" "same_table s0 s1" "media s1 = media s0"
      using dev_read [OF dev_ok_media [OF s0(2,3) assms(1)] i0(1)] unfolding i0(2) .
    have t: "same_table s s1" "media s1 = media s" using same_table_trans [OF s0(2) s1(2)] s1(3) s0(3) by simp_all
    have "read_loop dev ino (int n) (int pos) bounce s =
        bindR (read_loop dev ino (int (n - ?c)) (int (pos + ?c)) True s1) (\<lambda>(rest, s').
          Inr (take ?c (drop (pos mod 512) (sector_at s dev ?i)) @ rest, s'))"
      by (subst read_loop.simps) (simp only: r(2,5,7) go n False s0(1) s1(1) round_simps)
    then show ?thesis
      using t rb contents_same [OF t assms(1)] by (intro exI [of _ s1] exI [of _ True]) simp
  qed
qed

lemma read_failed:
  assumes "dev_ok dev s" "inode_fits dev s (i_data ino)" "pos < nat (inode_length ino)" "0 < n"
    and "\<not> (pos mod 512 = 0 \<and> chunk ino n pos = 512)" "\<not> (bounce \<or> fst (try_malloc s))"
  shows "\<exists>s'. read_loop dev ino (int n) (int pos) bounce s = Inr ([], s') \<and> same_table s s' \<and> media s' = media s"
proof -
  note r = round_facts [OF assms(1-4)]
  have go: "(int n > 0 \<and> int (chunk ino n pos) > 0) = True" using assms(4) chunk_bounds(1) [OF assms(3,4)] by simp
  obtain s' where s': "get_bounce bounce s = (False, s')" "same_table s s'" "media s' = media s"
    using no_bounce [OF assms(6)] .
  have "read_loop dev ino (int n) (int pos) bounce s = Inr ([], s')"
    by (subst read_loop.simps) (simp only: r(2,5,7) go assms(5) s'(1) round_simps)
  with s'(2,3) show ?thesis by blast
qed

text \<open>Without memory for the bounce buffer a read is cut short.\<close>

lemma read_loop_partial:
  "dev_ok dev s \<Longrightarrow> inode_fits dev s (i_data ino) \<Longrightarrow> pos < 2 ^ 31 \<Longrightarrow>
   \<exists>k s'. read_loop dev ino (int n) (int pos) bounce s = Inr (take k (drop pos (contents s dev (i_data ino))), s')
     \<and> k \<le> n \<and> (bounce \<or> fst (try_malloc s) \<longrightarrow> k = n) \<and> same_table s s' \<and> media s' = media s"
proof (induction n arbitrary: pos bounce s rule: less_induct)
  case (less n)
  let ?d = "i_data ino" and ?c = "chunk ino n pos" and ?X = "contents s dev (i_data ino)"
  let ?whole = "pos mod 512 = 0 \<and> ?c = 512"
  have len: "0 \<le> inode_length ino" "inode_length ino < 2 ^ 31"
    using fits_bounds [OF less.prems(2)] by (simp_all add: inode_length_def)
  consider (at_end) "\<not> (0 < n \<and> pos < nat (inode_length ino))"
    | (failed) "0 < n" "pos < nat (inode_length ino)" "\<not> ?whole" "\<not> (bounce \<or> fst (try_malloc s))"
    | (go) "0 < n" "pos < nat (inode_length ino)" "\<not> ?whole \<Longrightarrow> bounce \<or> fst (try_malloc s)" by argo
  then show ?case
  proof cases
    case at_end
    then have "read_loop dev ino (int n) (int pos) bounce s = Inr ([], s)"
      using chunk_size_nat(2) [OF len less.prems(3), of n] by (subst read_loop.simps) auto
    moreover have "take n (drop pos ?X) = []"
      using at_end length_contents [OF less.prems(1,2)] by (auto simp: inode_length_def)
    ultimately show ?thesis by (intro exI [of _ n] exI [of _ s]) simp
  next
    case failed
    from read_failed [OF less.prems(1,2) failed(2,1,3,4)] failed(4) show ?thesis
      by (elim exE conjE) (intro exI [of _ 0], simp)
  next
    case go
    note b = chunk_bounds [OF go(2,1)] and r = round_facts [OF less.prems(1,2) go(2,1)]
    obtain s1 bounce' where s1: "same_table s s1" "media s1 = media s"
      and mem: "bounce \<or> fst (try_malloc s) \<longrightarrow> bounce' \<or> fst (try_malloc s1)"
      and eq: "read_loop dev ino (int n) (int pos) bounce s =
        bindR (read_loop dev ino (int (n - ?c)) (int (pos + ?c)) bounce' s1) (\<lambda>(rest, s).
          Inr (take ?c (drop pos (contents s1 dev ?d)) @ rest, s))"
      using read_round [OF less.prems(1,2) go(2,1,3)] by blast
    have X: "contents s1 dev ?d = ?X" by (rule contents_same [OF s1(1,2) less.prems(1)])
    have lt: "n - ?c < n" using b(1) go(1) by simp
    have fits: "inode_fits dev s1 ?d" using fits_same [OF s1(1) less.prems(1)] less.prems(2) by simp
    from less.IH [OF lt dev_ok_media [OF s1(1,2) less.prems(1)] fits r(6), of bounce'] obtain k s2 where
      s2: "read_loop dev ino (int (n - ?c)) (int (pos + ?c)) bounce' s1 = Inr (take k (drop (pos + ?c) ?X), s2)"
        "k \<le> n - ?c" "bounce' \<or> fst (try_malloc s1) \<longrightarrow> k = n - ?c" "same_table s1 s2" "media s2 = media s1" unfolding X by blast
    have "take (?c + k) (drop pos ?X) = take ?c (drop pos ?X) @ take k (drop (pos + ?c) ?X)"
      using take_add [of ?c k "drop pos ?X"] by (simp add: add.commute)
    then have "read_loop dev ino (int n) (int pos) bounce s = Inr (take (?c + k) (drop pos ?X), s2)"
      unfolding eq X s2(1) bindR_Inr prod.case by (simp only:)
    moreover have "?c + k \<le> n" "bounce \<or> fst (try_malloc s) \<longrightarrow> ?c + k = n" using s2(2,3) mem b(2) by auto
    ultimately show ?thesis using same_table_trans [OF s1(1) s2(4)] s2(5) s1(2) by auto
  qed
qed

lemma in_chunk:
  assumes "pos mod m + c \<le> (m::nat)"
  shows "j div m = pos div m \<and> pos mod m \<le> j mod m \<and> j mod m < pos mod m + c \<longleftrightarrow> pos \<le> j \<and> j < pos + c" (is "?l = ?r")
    and "pos \<le> j \<Longrightarrow> j < pos + c \<Longrightarrow> j mod m - pos mod m = j - pos"
proof -
  have d: "j div m = pos div m" "j mod m = pos mod m + (j - pos)" if "pos \<le> j" "j < pos + c"
  proof -
    have "pos mod m + (j - pos) < m" using that assms by linarith
    from same_sector [OF this] that show "j div m = pos div m" "j mod m = pos mod m + (j - pos)" by simp_all
  qed
  then show "j mod m - pos mod m = j - pos" if "pos \<le> j" "j < pos + c" using that by simp
  show "?l = ?r"
  proof
    assume l: ?l
    have "j = pos div m * m + j mod m" using div_mult_mod_eq [of j m] l by simp
    moreover have "pos = pos div m * m + pos mod m" by simp
    ultimately show ?r using l by linarith
  next
    assume r: ?r
    then have "j div m = pos div m" "j mod m = pos mod m + (j - pos)" using d by simp_all
    with r show ?l by (intro conjI) linarith+
  qed
qed

text \<open>Replacing the bytes of a round in their sector replaces them in the contents.\<close>

lemma round_write:
  assumes "dev_ok dev s" "inode_fits dev s d" "dev_ok dev s'" "same_table s s'"
    and pos: "pos < nat (i_length d)" and xs: "pos mod 512 + length xs \<le> 512" "pos + length xs \<le> nat (i_length d)"
    and upd: "\<And>j. sector_at s' dev j =
      (if j = i_start d + pos div 512 then overwrite (pos mod 512) xs (sector_at s dev j) else sector_at s dev j)"
  shows "contents s' dev d = overwrite pos xs (contents s dev d)"
proof (rule overwrite_eqI)
  have fits: "inode_fits dev s' d" using fits_same [OF assms(4,1)] assms(2) by simp
  have L: "length (contents s dev d) = nat (i_length d)" "length (contents s' dev d) = nat (i_length d)"
    using length_contents [OF assms(1,2)] length_contents [OF assms(3) fits] by simp_all
  then show "length (contents s' dev d) = length (contents s dev d)" "pos + length xs \<le> length (contents s dev d)"
    using xs(2) by simp_all
  fix j assume "j < length (contents s dev d)"
  then have j: "j < nat (i_length d)" using L by simp
  let ?t = "i_start d + j div 512"
  have S: "length (sector_at s dev ?t) = 512"
    using nth_contents(2) [OF assms(1,2) j] assms(1) by (simp add: dev_ok_def BLOCK_SECTOR_SIZE_def)
  have "overwrite (pos mod 512) xs (sector_at s dev ?t) ! (j mod 512) =
      (if pos mod 512 \<le> j mod 512 \<and> j mod 512 < pos mod 512 + length xs then xs ! (j mod 512 - pos mod 512)
       else sector_at s dev ?t ! (j mod 512))"
    using S xs(1) by (intro nth_overwrite) simp_all
  then show "contents s' dev d ! j =
      (if pos \<le> j \<and> j < pos + length xs then xs ! (j - pos) else contents s dev d ! j)"
    unfolding nth_contents(1) [OF assms(1,2) j] nth_contents(1) [OF assms(3) fits j] upd
    using in_chunk [OF xs(1), of j] by auto
qed

lemma overwrite_append:
  "p + length xs + length ys \<le> length m \<Longrightarrow> overwrite (p + length xs) ys (overwrite p xs m) = overwrite p (xs @ ys) m"
  by (intro overwrite_eqI) (auto simp: nth_overwrite nth_append)

lemma overwrite_all: "length xs = length m \<Longrightarrow> overwrite 0 xs m = xs"
  by (simp add: overwrite_def)

definition outside :: "inode_disk \<Rightarrow> nat \<Rightarrow> bool" where
  "outside d i \<longleftrightarrow> i < i_start d \<or> i_start d + bytes_to_sectors (i_length d) \<le> i"

lemma write_round:
  assumes "dev_ok dev s" "inode_fits dev s (i_data ino)" "pos < nat (inode_length ino)" "0 < length data"
    and mem: "\<not> (pos mod 512 = 0 \<and> chunk ino (length data) pos = 512) \<Longrightarrow> bounce \<or> fst (try_malloc s)"
  defines "c \<equiv> chunk ino (length data) pos" and "i \<equiv> i_start (i_data ino) + pos div 512"
  shows "\<exists>s1 bounce'. write_loop dev ino data (int pos) bounce s =
      bindR (write_loop dev ino (drop c data) (int (pos + c)) bounce' s1) (\<lambda>(n, s). Inr (int c + n, s))
    \<and> same_table s s1 \<and> dev_ok dev s1 \<and> (bounce \<or> fst (try_malloc s) \<longrightarrow> bounce' \<or> fst (try_malloc s1))
    \<and> (\<forall>j. sector_at s1 dev j = (if j = i then overwrite (pos mod 512) (take c data) (sector_at s dev j) else sector_at s dev j))"
proof -
  note r = round_facts [OF assms(1-4), folded c_def i_def] and b = chunk_bounds [OF assms(3,4), folded c_def]
  let ?xs = "take c data"
  let ?buf = "overwrite (pos mod 512) ?xs (sector_at s dev i)"
  have xs: "length ?xs = c" using b(2) by simp
  have buf: "length ?buf = BLOCK_SECTOR_SIZE" using r(3) b(4) xs by (simp add: BLOCK_SECTOR_SIZE_def)
  have go: "(data \<noteq> [] \<and> int c > 0) = True" using assms(4) b(1) by simp
  have full: "P \<Longrightarrow> P = True" for P by simp
  show ?thesis
  proof (cases "pos mod 512 = 0 \<and> c = 512")
    case True
    have whole: "?buf = ?xs" using True r(3) xs by (simp add: overwrite_all)
    obtain s1 where s1: "block_write dev i ?xs s = Inr s1" "same_table s s1" "dev_ok dev s1"
        "mallocs s1 = mallocs s" "\<forall>j. sector_at s1 dev j = (if j = i then ?buf else sector_at s dev j)"
      using dev_write [OF assms(1) r(1) buf] unfolding whole by blast
    have "write_loop dev ino data (int pos) bounce s =
        bindR (write_loop dev ino (drop c data) (int (pos + c)) bounce s1) (\<lambda>(n, s). Inr (int c + n, s))"
      by (subst write_loop.simps) (simp only: Let_def r(2,5,7) go full [OF True] s1(1) round_simps)
    then show ?thesis using s1 malloc_same [OF s1(4)] by (intro exI [of _ s1] exI [of _ bounce]) simp
  next
    case False
    have fetch: "(0 < int (pos mod 512) \<or> int c < int (512 - pos mod 512)) = True" using False b(4) by auto
    obtain s0 where s0: "get_bounce bounce s = (True, s0)" "same_table s s0" "media s0 = media s"
      using got_bounce [OF mem [folded c_def, OF False]] .
    have ok0: "dev_ok dev s0" by (rule dev_ok_media [OF s0(2,3) assms(1)])
    have i0: "i < dev_size dev s0" "sector_at s0 dev j = sector_at s dev j" for j
      using r(1) same_table_dev(1) [OF s0(2)] same_table_sector [OF s0(2,3)] assms(1) by (simp_all add: dev_ok_def)
    obtain sr where sr: "block_read dev i s0 = Inr (sector_at s dev i, sr)" "same_table s0 sr" "media sr = media s0"
      using dev_read [OF ok0 i0(1)] unfolding i0(2) .
    have okr: "dev_ok dev sr" by (rule dev_ok_media [OF sr(2,3) ok0])
    have ir: "i < dev_size dev sr" "sector_at sr dev j = sector_at s dev j" for j
      using i0 same_table_dev(1) [OF sr(2)] same_table_sector [OF sr(2,3)] ok0 by (simp_all add: dev_ok_def)
    obtain s1 where s1: "block_write dev i ?buf sr = Inr s1" "same_table sr s1" "dev_ok dev s1"
        "\<forall>j. sector_at s1 dev j = (if j = i then ?buf else sector_at s dev j)"
      using dev_write [OF okr ir(1) buf] unfolding ir(2) by blast
    have "write_loop dev ino data (int pos) bounce s =
        bindR (write_loop dev ino (drop c data) (int (pos + c)) True s1) (\<lambda>(n, s). Inr (int c + n, s))"
      by (subst write_loop.simps) (simp only: Let_def r(2,5,7) go False fetch s0(1) sr(1) s1(1) round_simps)
    moreover have "same_table s s1" using same_table_trans [OF s0(2) same_table_trans [OF sr(2) s1(2)]] .
    ultimately show ?thesis using s1(3,4) by (intro exI [of _ s1] exI [of _ True]) simp
  qed
qed

lemma write_failed:
  assumes "dev_ok dev s" "inode_fits dev s (i_data ino)" "pos < nat (inode_length ino)" "0 < length data"
    and "\<not> (pos mod 512 = 0 \<and> chunk ino (length data) pos = 512)" "\<not> (bounce \<or> fst (try_malloc s))"
  shows "\<exists>s'. write_loop dev ino data (int pos) bounce s = Inr (0, s') \<and> same_table s s' \<and> media s' = media s"
proof -
  note r = round_facts [OF assms(1-4)]
  have go: "(data \<noteq> [] \<and> int (chunk ino (length data) pos) > 0) = True" using assms(4) chunk_bounds(1) [OF assms(3,4)] by simp
  obtain s' where s': "get_bounce bounce s = (False, s')" "same_table s s'" "media s' = media s"
    using no_bounce [OF assms(6)] .
  have "write_loop dev ino data (int pos) bounce s = Inr (0, s')"
    by (subst write_loop.simps) (simp only: Let_def r(2,5,7) go assms(5) s'(1) round_simps)
  with s'(2,3) show ?thesis by blast
qed

text \<open>What a write that reports \<open>k\<close> bytes has done.\<close>

definition wrote :: "nat \<Rightarrow> inode_disk \<Rightarrow> nat \<Rightarrow> byte list \<Rightarrow> blocks \<Rightarrow> blocks \<Rightarrow> bool" where
  "wrote dev d pos bs s s' \<longleftrightarrow> same_table s s' \<and> dev_ok dev s' \<and> contents s' dev d = overwrite pos bs (contents s dev d)
     \<and> (\<forall>i. outside d i \<longrightarrow> sector_at s' dev i = sector_at s dev i)"

lemma wrote_nothing:
  assumes "same_table s s'" "media s' = media s" "dev_ok dev s"
  shows "wrote dev d pos [] s s'"
  using assms dev_ok_media [OF assms] contents_same [OF assms]
  by (simp add: wrote_def same_table_sector dev_ok_def)

lemma wrote_append:
  assumes "wrote dev d pos xs s t" "wrote dev d (pos + length xs) ys t u" "pos + length xs + length ys \<le> length (contents s dev d)"
  shows "wrote dev d pos (xs @ ys) s u"
  using assms same_table_trans [of s t u] overwrite_append [OF assms(3)] by (simp add: wrote_def)

lemma write_round_wrote:
  assumes "dev_ok dev s" "inode_fits dev s d" "same_table s s1" "dev_ok dev s1"
    and "pos < nat (i_length d)" "pos mod 512 + length xs \<le> 512" "pos + length xs \<le> nat (i_length d)"
    and upd: "\<forall>j. sector_at s1 dev j =
      (if j = i_start d + pos div 512 then overwrite (pos mod 512) xs (sector_at s dev j) else sector_at s dev j)"
  shows "wrote dev d pos xs s s1"
proof -
  have "contents s1 dev d = overwrite pos xs (contents s dev d)"
    by (rule round_write [OF assms(1,2,4,3,5-7)]) (use upd in simp)
  moreover have "\<not> outside d (i_start d + pos div 512)" using nth_contents(3) [OF assms(1,2,5)] by (simp add: outside_def)
  then have "\<forall>i. outside d i \<longrightarrow> sector_at s1 dev i = sector_at s dev i" using upd by auto
  ultimately show ?thesis using assms(3,4) by (simp add: wrote_def)
qed

lemma chunk_rest: "c \<le> n \<Longrightarrow> p + c \<le> m \<Longrightarrow> c + min (n - c) (m - (p + c)) = min n (m - p :: nat)"
  by (auto simp: min_def)

lemma write_loop_partial:
  "dev_ok dev s \<Longrightarrow> inode_fits dev s (i_data ino) \<Longrightarrow> pos < 2 ^ 31 \<Longrightarrow>
   \<exists>k s'. write_loop dev ino data (int pos) bounce s = Inr (int k, s')
     \<and> k \<le> min (length data) (nat (inode_length ino) - pos)
     \<and> (bounce \<or> fst (try_malloc s) \<longrightarrow> k = min (length data) (nat (inode_length ino) - pos))
     \<and> wrote dev (i_data ino) pos (take k data) s s'"
proof (induction "length data" arbitrary: data pos bounce s rule: less_induct)
  case less
  let ?d = "i_data ino" and ?n = "length data" and ?X = "contents s dev (i_data ino)"
  let ?c = "chunk ino ?n pos"
  let ?whole = "pos mod 512 = 0 \<and> ?c = 512"
  have len: "0 \<le> inode_length ino" "inode_length ino < 2 ^ 31"
    using fits_bounds [OF less.prems(2)] by (simp_all add: inode_length_def)
  consider (at_end) "\<not> (0 < ?n \<and> pos < nat (inode_length ino))"
    | (failed) "0 < ?n" "pos < nat (inode_length ino)" "\<not> ?whole" "\<not> (bounce \<or> fst (try_malloc s))"
    | (go) "0 < ?n" "pos < nat (inode_length ino)" "\<not> ?whole \<Longrightarrow> bounce \<or> fst (try_malloc s)" by argo
  then show ?case
  proof cases
    case at_end
    then have "write_loop dev ino data (int pos) bounce s = Inr (int 0, s)"
      using chunk_size_nat(2) [OF len less.prems(3), of ?n] by (subst write_loop.simps) (auto simp: Let_def)
    moreover have "0 = min ?n (nat (inode_length ino) - pos)" using at_end by auto
    ultimately show ?thesis
      using wrote_nothing [OF same_table_refl refl less.prems(1)] by (intro exI [of _ 0] exI [of _ s]) simp
  next
    case failed
    then obtain s' where "write_loop dev ino data (int pos) bounce s = Inr (int 0, s')" "same_table s s'" "media s' = media s"
      using write_failed [OF less.prems(1,2) failed(2,1,3,4)] by auto
    with failed(4) wrote_nothing [OF this(2,3) less.prems(1)] show ?thesis by (intro exI [of _ 0] exI [of _ s']) simp
  next
    case go
    note b = chunk_bounds [OF go(2,1)] and r = round_facts [OF less.prems(1,2) go(2,1)]
    have pos': "pos < nat (i_length ?d)" using go(2) by (simp add: inode_length_def)
    obtain s1 bounce' where s1: "same_table s s1" "dev_ok dev s1"
      and mem: "bounce \<or> fst (try_malloc s) \<longrightarrow> bounce' \<or> fst (try_malloc s1)"
      and upd: "\<forall>j. sector_at s1 dev j =
        (if j = i_start ?d + pos div 512 then overwrite (pos mod 512) (take ?c data) (sector_at s dev j) else sector_at s dev j)"
      and eq: "write_loop dev ino data (int pos) bounce s =
        bindR (write_loop dev ino (drop ?c data) (int (pos + ?c)) bounce' s1) (\<lambda>(n, s). Inr (int ?c + n, s))"
      using write_round [OF less.prems(1,2) go(2,1,3)] by blast
    have w1: "wrote dev ?d pos (take ?c data) s s1"
      by (rule write_round_wrote [OF less.prems(1,2) s1 pos']) (use b(2-4) upd in \<open>simp_all add: inode_length_def\<close>)
    have fits: "inode_fits dev s1 ?d" using fits_same [OF s1(1) less.prems(1)] less.prems(2) by simp
    have lt: "length (drop ?c data) < length data" using go(1) b(1) by simp
    obtain k s2 where s2: "write_loop dev ino (drop ?c data) (int (pos + ?c)) bounce' s1 = Inr (int k, s2)"
        "k \<le> min (length (drop ?c data)) (nat (inode_length ino) - (pos + ?c))"
        "bounce' \<or> fst (try_malloc s1) \<longrightarrow> k = min (length (drop ?c data)) (nat (inode_length ino) - (pos + ?c))"
        "wrote dev ?d (pos + ?c) (take k (drop ?c data)) s1 s2"
      using less.hyps [OF lt s1(2) fits r(6), of bounce'] by blast
    have k: "pos + (?c + k) \<le> nat (i_length ?d)" "?c + k \<le> ?n" using s2(2) b by (auto simp: inode_length_def)
    have "wrote dev ?d pos (take ?c data @ take k (drop ?c data)) s s2"
      by (rule wrote_append [OF w1]) (use s2(4) b(2) k length_contents [OF less.prems(1,2)] in simp_all)
    moreover have "take ?c data @ take k (drop ?c data) = take (?c + k) data" by (simp add: take_add)
    moreover have "?c + k \<le> min ?n (nat (inode_length ino) - pos)"
      using k by (simp add: inode_length_def)
    moreover have "bounce \<or> fst (try_malloc s) \<longrightarrow> ?c + k = min ?n (nat (inode_length ino) - pos)"
    proof
      assume "bounce \<or> fst (try_malloc s)"
      with mem s2(3) have "k = min (length (drop ?c data)) (nat (inode_length ino) - (pos + ?c))" by blast
      then show "?c + k = min ?n (nat (inode_length ino) - pos)" using chunk_rest [OF b(2,3)] by simp
    qed
    ultimately show ?thesis using eq s2(1) by (intro exI [of _ "?c + k"] exI [of _ s2]) simp
  qed
qed

section \<open>Round trip of the inode itself\<close>

lemma inode_disk_roundtrip:
  assumes "i_start d < 2 ^ 32" "in_s32 (i_length d)" "i_magic d < 2 ^ 32"
  shows "bytes_inode_disk (inode_disk_bytes d) = d" "length (inode_disk_bytes d) = BLOCK_SECTOR_SIZE"
proof -
  have u: "unat (of_nat n :: 32 word) = n" if "n < 2 ^ 32" for n using that by (simp add: unat_of_nat)
  have "sint (of_int (i_length d) :: 32 word) = i_length d"
    using s32_id [OF assms(2)] s32_sint [of "i_length d"] by simp
  then show "bytes_inode_disk (inode_disk_bytes d) = d"
    using assms(1,3) by (simp add: bytes_inode_disk_def inode_disk_bytes_def bytes_word_word_bytes u)
  show "length (inode_disk_bytes d) = BLOCK_SECTOR_SIZE" by (simp add: inode_disk_bytes_def BLOCK_SECTOR_SIZE_def)
qed

text \<open>C31. An inode is a byte array of fixed length. Reading gives the bytes asked for that the inode has;
  writing replaces as many bytes as fit, reports their number, and leaves every sector outside the
  inode's extent alone; while writes are denied nothing is written. (The first allocation of memory
  succeeds.)\<close>

theorem inode_refines_bytes:
  fixes data :: "byte list"
  assumes "dev_ok dev s" "inode_fits dev s (i_data ino)" "pos < 2 ^ 31" "fst (try_malloc s)"
  defines "bytes \<equiv> \<lambda>s. contents s dev (i_data ino)"
    and "k \<equiv> min (length data) (nat (inode_length ino) - pos)"
  shows "(\<exists>s'. inode_read_at dev ino (int n) (int pos) s = Inr (take n (drop pos (bytes s)), s') \<and> bytes s' = bytes s)
    \<and> (deny_write_cnt ino = 0 \<longrightarrow>
        (\<exists>s'. inode_write_at dev ino data (int pos) s = Inr (int k, s') \<and> bytes s' = overwrite pos (take k data) (bytes s)
          \<and> (\<forall>i. outside (i_data ino) i \<longrightarrow> sector_at s' dev i = sector_at s dev i)))
    \<and> (deny_write_cnt ino \<noteq> 0 \<longrightarrow> inode_write_at dev ino data (int pos) s = Inr (0, s))"
proof -
  obtain s1 where s1: "read_loop dev ino (int n) (int pos) False s = Inr (take n (drop pos (bytes s)), s1)"
      "same_table s s1" "media s1 = media s"
    using read_loop_partial [OF assms(1-3), of n False] assms(4) by (auto simp: bytes_def)
  obtain s2 where s2: "write_loop dev ino data (int pos) False s = Inr (int k, s2)"
      "bytes s2 = overwrite pos (take k data) (bytes s)" "\<forall>i. outside (i_data ino) i \<longrightarrow> sector_at s2 dev i = sector_at s dev i"
    using write_loop_partial [OF assms(1-3), of data False] assms(4) by (auto simp: bytes_def k_def wrote_def)
  show ?thesis
    using s1(1) s2 contents_same [OF s1(2,3) assms(1)] by (simp add: inode_read_at_def inode_write_at_def bytes_def)
qed

definition small_inode :: inode where
  "small_inode = \<lparr>i_sector = 9, open_cnt = 1, removed = False, deny_write_cnt = 0,
     i_data = \<lparr>i_start = 10, i_length = 600, i_magic = INODE_MAGIC\<rparr>\<rparr>"

theorem inode_refines_bytes_witness:
  "\<exists>s'. inode_write_at 0 small_inode [1, 2, 3] 598 (one_disk (replicate 512 0) 100) = Inr (2, s')
     \<and> contents s' 0 (i_data small_inode) = overwrite 598 [1, 2] (contents (one_disk (replicate 512 0) 100) 0 (i_data small_inode))"
proof -
  let ?s = "one_disk (replicate 512 0) 100"
  have dev: "dev_ok 0 ?s"
    by (simp add: dev_ok_def dev_size_def one_disk_def blocks_ok_def block_in_def sector_at_def resolve.simps BLOCK_SECTOR_SIZE_def)
  have fits: "inode_fits 0 ?s (i_data small_inode)"
    using bytes_to_sectors_nat [of 600] by (simp add: inode_fits_def small_inode_def dev_size_def one_disk_def)
  have m: "fst (try_malloc ?s)" by (simp add: try_malloc_def one_disk_def)
  have "(598::nat) < 2 ^ 31" by simp
  from inode_refines_bytes [OF dev fits this m, of 0 "[1, 2, 3]"] show ?thesis
    by (auto simp: small_inode_def inode_length_def min_def)
qed

end
