(* ===== verification/File.thy ===== *)
theory File
  imports Inode Unit_Allocator
begin

text \<open>
  The open inodes, the free map and open files: the rest of \<^verbatim>\<open>filesys/inode.c\<close>,
  \<^verbatim>\<open>filesys/free-map.c\<close> and \<^verbatim>\<open>filesys/file.c\<close>. An open inode is named by its sector, which
  determines it; a handle whose inode is no longer open is a dangling pointer.
\<close>

section \<open>State\<close>

record open_file =
  f_inode :: nat
  f_pos :: int
  f_deny_write :: bool

record fsys =
  blks :: blocks
  fs_device :: nat
  open_inodes :: "inode list"
  free_map :: bitmap
  free_map_file :: "open_file option"

definition FREE_MAP_SECTOR :: nat where "FREE_MAP_SECTOR = 0"
definition ROOT_DIR_SECTOR :: nat where "ROOT_DIR_SECTOR = 1"

definition fs_malloc :: "fsys \<Rightarrow> bool \<times> fsys" where
  "fs_malloc s = (case try_malloc (blks s) of (got, b) \<Rightarrow> (got, s\<lparr>blks := b\<rparr>))"

definition fs_read :: "nat \<Rightarrow> fsys \<Rightarrow> (byte list \<times> fsys) res" where
  "fs_read sector s = bindR (block_read (fs_device s) sector (blks s)) (\<lambda>(buf, b). Inr (buf, s\<lparr>blks := b\<rparr>))"

definition fs_write :: "nat \<Rightarrow> byte list \<Rightarrow> fsys \<Rightarrow> fsys res" where
  "fs_write sector buf s = bindR (block_write (fs_device s) sector buf (blks s)) (\<lambda>b. Inr (s\<lparr>blks := b\<rparr>))"

text \<open>Access through a pointer to an open inode.\<close>

definition get_inode :: "nat \<Rightarrow> fsys \<Rightarrow> inode res" where
  "get_inode i s = (case find (\<lambda>n. i_sector n = i) (open_inodes s) of Some n \<Rightarrow> Inr n | None \<Rightarrow> Inl NullDeref)"

definition put_inode :: "inode \<Rightarrow> fsys \<Rightarrow> fsys" where
  "put_inode n s = s\<lparr>open_inodes := map (\<lambda>x. if i_sector x = i_sector n then n else x) (open_inodes s)\<rparr>"

definition read_at :: "nat \<Rightarrow> int \<Rightarrow> int \<Rightarrow> fsys \<Rightarrow> (byte list \<times> fsys) res" where
  "read_at i n offset s =
     bindR (get_inode i s) (\<lambda>ino.
     bindR (inode_read_at (fs_device s) ino n offset (blks s)) (\<lambda>(bs, b). Inr (bs, s\<lparr>blks := b\<rparr>)))"

definition write_at :: "nat \<Rightarrow> byte list \<Rightarrow> int \<Rightarrow> fsys \<Rightarrow> (int \<times> fsys) res" where
  "write_at i data offset s =
     bindR (get_inode i s) (\<lambda>ino.
     bindR (inode_write_at (fs_device s) ino data offset (blks s)) (\<lambda>(n, b). Inr (n, s\<lparr>blks := b\<rparr>)))"

section \<open>The free map\<close>

definition file_write_at :: "open_file \<Rightarrow> fsys \<Rightarrow> byte list \<Rightarrow> int \<Rightarrow> (int \<times> fsys) res" where
  "file_write_at f s data file_ofs = write_at (f_inode f) data file_ofs s"

definition file_read_at :: "open_file \<Rightarrow> fsys \<Rightarrow> int \<Rightarrow> int \<Rightarrow> (byte list \<times> fsys) res" where
  "file_read_at f s n file_ofs = read_at (f_inode f) n file_ofs s"

definition free_map_allocate :: "nat \<Rightarrow> fsys \<Rightarrow> (nat option \<times> fsys) res" where
  "free_map_allocate cnt s =
     bindR (bitmap_scan_and_flip (free_map s) 0 cnt False) (\<lambda>(sector, b).
       let s = s\<lparr>free_map := b\<rparr>
       in if sector \<noteq> BITMAP_ERROR
          then case free_map_file s of
                 None \<Rightarrow> Inr (Some sector, s)
               | Some f \<Rightarrow>
                   bindR (bitmap_write (file_write_at f) (free_map s) s) (\<lambda>(written, s).
                     if written then Inr (Some sector, s)
                     else bindR (bitmap_set_multiple (free_map s) sector cnt False) (\<lambda>b.
                            Inr (None, s\<lparr>free_map := b\<rparr>)))
          else Inr (None, s))"

definition free_map_release :: "nat \<Rightarrow> nat \<Rightarrow> fsys \<Rightarrow> fsys res" where
  "free_map_release sector cnt s =
     bindR (bitmap_all (free_map s) sector cnt) (\<lambda>all.
       assertR all (
       bindR (bitmap_set_multiple (free_map s) sector cnt False) (\<lambda>b.
         let s = s\<lparr>free_map := b\<rparr>
         in case free_map_file s of
              None \<Rightarrow> Inl NullDeref
            | Some f \<Rightarrow> bindR (bitmap_write (file_write_at f) (free_map s) s) (\<lambda>(_, s). Inr s))))"

section \<open>Opening and closing inodes\<close>

definition inode_init :: "fsys \<Rightarrow> fsys" where
  "inode_init s = s\<lparr>open_inodes := []\<rparr>"

fun zero_sectors :: "nat \<Rightarrow> nat \<Rightarrow> fsys \<Rightarrow> fsys res" where
  "zero_sectors 0 sector s = Inr s"
| "zero_sectors (Suc n) sector s =
     bindR (fs_write (sector mod 2 ^ 32) (replicate BLOCK_SECTOR_SIZE 0) s) (zero_sectors n (sector + 1))"

definition inode_create :: "nat \<Rightarrow> int \<Rightarrow> fsys \<Rightarrow> (bool \<times> fsys) res" where
  "inode_create sector len s =
     assertR (len \<ge> 0) (
     let (got, s) = fs_malloc s
     in if got
        then let sectors = bytes_to_sectors len
             in bindR (free_map_allocate sectors s) (\<lambda>(r, s).
                  case r of
                    Some start \<Rightarrow>
                      bindR (fs_write sector (inode_disk_bytes \<lparr>i_start = start, i_length = len, i_magic = INODE_MAGIC\<rparr>) s) (\<lambda>s.
                      bindR (zero_sectors sectors start s) (\<lambda>s. Inr (True, s)))
                  | None \<Rightarrow> Inr (False, s))
        else Inr (False, s))"

definition inode_reopen :: "nat option \<Rightarrow> fsys \<Rightarrow> (nat option \<times> fsys) res" where
  "inode_reopen r s =
     (case r of
        None \<Rightarrow> Inr (None, s)
      | Some i \<Rightarrow> bindR (get_inode i s) (\<lambda>ino. Inr (Some i, put_inode (ino\<lparr>open_cnt := s32 (open_cnt ino + 1)\<rparr>) s)))"

definition inode_open :: "nat \<Rightarrow> fsys \<Rightarrow> (nat option \<times> fsys) res" where
  "inode_open sector s =
     (case find (\<lambda>n. i_sector n = sector) (open_inodes s) of
        Some ino \<Rightarrow> inode_reopen (Some sector) s
      | None \<Rightarrow>
          let (got, s) = fs_malloc s
          in if got
             then bindR (fs_read sector s) (\<lambda>(buf, s).
                    Inr (Some sector, s\<lparr>open_inodes := \<lparr>i_sector = sector, open_cnt = 1, removed = False,
                           deny_write_cnt = 0, i_data = bytes_inode_disk buf\<rparr> # open_inodes s\<rparr>))
             else Inr (None, s))"

definition inode_close :: "nat option \<Rightarrow> fsys \<Rightarrow> fsys res" where
  "inode_close r s =
     (case r of
        None \<Rightarrow> Inr s
      | Some i \<Rightarrow>
          bindR (get_inode i s) (\<lambda>ino.
            let ino = ino\<lparr>open_cnt := s32 (open_cnt ino - 1)\<rparr>;
                s = put_inode ino s
            in if open_cnt ino = 0
               then let s = s\<lparr>open_inodes := filter (\<lambda>n. i_sector n \<noteq> i) (open_inodes s)\<rparr>
                    in if removed ino
                       then bindR (free_map_release (i_sector ino) 1 s)
                              (free_map_release (i_start (i_data ino)) (bytes_to_sectors (i_length (i_data ino))))
                       else Inr s
               else Inr s))"

definition inode_remove :: "nat option \<Rightarrow> fsys \<Rightarrow> fsys res" where
  "inode_remove r s =
     (case r of
        None \<Rightarrow> Inl Assertion
      | Some i \<Rightarrow> bindR (get_inode i s) (\<lambda>ino. Inr (put_inode (ino\<lparr>removed := True\<rparr>) s)))"

section \<open>Files\<close>

definition file_open :: "nat option \<Rightarrow> fsys \<Rightarrow> (open_file option \<times> fsys) res" where
  "file_open r s =
     (let (got, s) = fs_malloc s
      in case r of
           Some i \<Rightarrow>
             if got then Inr (Some \<lparr>f_inode = i, f_pos = 0, f_deny_write = False\<rparr>, s)
             else bindR (inode_close r s) (\<lambda>s. Inr (None, s))
         | None \<Rightarrow> Inr (None, s))"

definition file_reopen :: "open_file \<Rightarrow> fsys \<Rightarrow> (open_file option \<times> fsys) res" where
  "file_reopen f s = bindR (inode_reopen (Some (f_inode f)) s) (\<lambda>(r, s). file_open r s)"

definition file_deny_write :: "open_file \<Rightarrow> fsys \<Rightarrow> (open_file \<times> fsys) res" where
  "file_deny_write f s =
     (if \<not> f_deny_write f
      then bindR (get_inode (f_inode f) s) (\<lambda>ino.
           bindR (inode_deny_write ino) (\<lambda>ino. Inr (f\<lparr>f_deny_write := True\<rparr>, put_inode ino s)))
      else Inr (f, s))"

definition file_allow_write :: "open_file \<Rightarrow> fsys \<Rightarrow> (open_file \<times> fsys) res" where
  "file_allow_write f s =
     (if f_deny_write f
      then bindR (get_inode (f_inode f) s) (\<lambda>ino.
           bindR (inode_allow_write ino) (\<lambda>ino. Inr (f\<lparr>f_deny_write := False\<rparr>, put_inode ino s)))
      else Inr (f, s))"

definition file_close :: "open_file option \<Rightarrow> fsys \<Rightarrow> fsys res" where
  "file_close r s =
     (case r of
        None \<Rightarrow> Inr s
      | Some f \<Rightarrow> bindR (file_allow_write f s) (\<lambda>(f, s). inode_close (Some (f_inode f)) s))"

definition file_get_inode :: "open_file \<Rightarrow> nat" where
  "file_get_inode f = f_inode f"

definition file_read :: "open_file \<Rightarrow> int \<Rightarrow> fsys \<Rightarrow> (byte list \<times> open_file \<times> fsys) res" where
  "file_read f n s =
     bindR (read_at (f_inode f) n (f_pos f) s) (\<lambda>(bs, s).
       Inr (bs, f\<lparr>f_pos := s32 (f_pos f + int (length bs))\<rparr>, s))"

definition file_write :: "open_file \<Rightarrow> byte list \<Rightarrow> fsys \<Rightarrow> (int \<times> open_file \<times> fsys) res" where
  "file_write f data s =
     bindR (write_at (f_inode f) data (f_pos f) s) (\<lambda>(n, s). Inr (n, f\<lparr>f_pos := s32 (f_pos f + n)\<rparr>, s))"

definition file_length :: "open_file \<Rightarrow> fsys \<Rightarrow> int res" where
  "file_length f s = bindR (get_inode (f_inode f) s) (\<lambda>ino. Inr (inode_length ino))"

definition file_seek :: "open_file \<Rightarrow> int \<Rightarrow> open_file res" where
  "file_seek f new_pos = assertR (new_pos \<ge> 0) (Inr (f\<lparr>f_pos := new_pos\<rparr>))"

definition file_tell :: "open_file \<Rightarrow> int" where
  "file_tell f = f_pos f"

section \<open>The free map and its copy on disk\<close>

text \<open>A byte array read as a set of numbers, eight to a byte.\<close>

definition disk_marks :: "byte list \<Rightarrow> nat set" where
  "disk_marks bs = {i. i div 8 < length bs \<and> bit (bs ! (i div 8)) (i mod 8)}"

lemma bit_word_bytes: "k < 4 \<Longrightarrow> n < 8 \<Longrightarrow> bit (word_bytes w ! k) n = bit w (8 * k + n)"
  by (auto simp: word_bytes_def bit_simps less_Suc_eq numeral_eq_Suc)

lemma nth_bitmap_bytes:
  assumes "j < 4 * length (bm_bits b)"
  shows "bitmap_bytes b ! j = word_bytes (bm_bits b ! (j div 4)) ! (j mod 4)"
proof -
  have "j div 4 < length (bm_bits b)" using assms by (simp add: less_mult_imp_div_less mult.commute)
  moreover have "\<And>x. x \<in> set (map word_bytes (bm_bits b)) \<Longrightarrow> length x = 4" by auto
  from nth_concat_same [of "map word_bytes (bm_bits b)" 4 j, OF this] have "bitmap_bytes b ! j = map word_bytes (bm_bits b) ! (j div 4) ! (j mod 4)"
    using assms by (simp add: bitmap_bytes_def)
  ultimately show ?thesis by simp
qed

lemma disk_marks_bitmap:
  assumes "bitmap_ok b" "i < bit_cnt b"
  shows "i \<in> disk_marks (bitmap_bytes b) \<longleftrightarrow> nth_bit b i"
proof -
  have w: "i div 32 < length (bm_bits b)" by (rule elem_idx_in [OF assms])
  then have j: "i div 8 < 4 * length (bm_bits b)" by linarith
  have d: "i div 8 div 4 = i div 32" by (simp add: div_mult2_eq [symmetric])
  have m: "8 * (i div 8 mod 4) + i mod 8 = i mod 32" using mod_mult2_eq [of i 8 4] by simp
  have "length (bitmap_bytes b) = 4 * length (bm_bits b)" by (simp add: bitmap_bytes_def)
  then have "i \<in> disk_marks (bitmap_bytes b) \<longleftrightarrow> bit (word_bytes (bm_bits b ! (i div 32)) ! (i div 8 mod 4)) (i mod 8)"
    using j nth_bitmap_bytes [OF j] by (simp add: disk_marks_def d)
  then show ?thesis by (simp add: bit_word_bytes m nth_bit_def)
qed

lemma marked_disk_marks: "bitmap_ok b \<Longrightarrow> marked b = disk_marks (bitmap_bytes b) \<inter> {..<bit_cnt b}"
  using disk_marks_bitmap [of b] by (auto simp: marked_def)

text \<open>If a number is marked both in the old bytes and in the new ones, it is also after writing a part
  of the new ones.\<close>

lemma disk_marks_mixed:
  assumes "i \<in> disk_marks new" "i \<in> disk_marks old" "length new \<le> length old" "k \<le> length new"
  shows "i \<in> disk_marks (overwrite 0 (take k new) old)"
  using assms by (auto simp: disk_marks_def nth_overwrite)

text \<open>The free map as it should be: one bit for each sector of the device, kept in an open file that
  holds exactly one bitmap, in which at least the sectors in use are marked.\<close>

definition map_bytes :: "inode \<Rightarrow> fsys \<Rightarrow> byte list" where
  "map_bytes ino s = contents (blks s) (fs_device s) (i_data ino)"

definition map_file_ok :: "open_file \<Rightarrow> inode \<Rightarrow> fsys \<Rightarrow> bool" where
  "map_file_ok f ino s \<longleftrightarrow> free_map_file s = Some f \<and> get_inode (f_inode f) s = Inr ino \<and> deny_write_cnt ino = 0
     \<and> inode_fits (fs_device s) (blks s) (i_data ino) \<and> inode_length ino = int (byte_cnt (bit_cnt (free_map s)))"

definition map_ok :: "fsys \<Rightarrow> bool" where
  "map_ok s \<longleftrightarrow> dev_ok (fs_device s) (blks s) \<and> bitmap_ok (free_map s)
     \<and> bit_cnt (free_map s) = dev_size (fs_device s) (blks s)"

definition free_map_ok :: "fsys \<Rightarrow> bool" where
  "free_map_ok s \<longleftrightarrow> map_ok s
     \<and> (\<exists>f ino. map_file_ok f ino s \<and> marked (free_map s) \<subseteq> disk_marks (map_bytes ino s))"

lemma map_file_upd:
  assumes "map_file_ok f ino s" "same_table (blks s) bl" "dev_ok (fs_device s) (blks s)" "bit_cnt b = bit_cnt (free_map s)"
  shows "map_file_ok f ino (s\<lparr>blks := bl, free_map := b\<rparr>)"
  using assms fits_same [OF assms(2,3)] by (simp add: map_file_ok_def get_inode_def)

lemma map_ok_upd:
  assumes "map_ok s" "same_table (blks s) bl" "dev_ok (fs_device s) bl" "bitmap_ok b" "bit_cnt b = bit_cnt (free_map s)"
  shows "map_ok (s\<lparr>blks := bl, free_map := b\<rparr>)"
  using assms same_table_dev(1) [OF assms(2), of "fs_device s"] by (simp add: map_ok_def dev_ok_def)

text \<open>Writing the map to its file: all of it, or the first bytes when there is no memory for the bounce
  buffer.\<close>

lemma bitmap_write_map:
  assumes "map_ok s" "map_file_ok f ino s"
  shows "\<exists>k bl. bitmap_write (file_write_at f) (free_map s) s = Inr (k = length (bitmap_bytes (free_map s)), s\<lparr>blks := bl\<rparr>)
    \<and> k \<le> length (bitmap_bytes (free_map s)) \<and> (fst (try_malloc (blks s)) \<longrightarrow> k = length (bitmap_bytes (free_map s)))
    \<and> wrote (fs_device s) (i_data ino) 0 (take k (bitmap_bytes (free_map s))) (blks s) bl"
proof -
  let ?bs = "bitmap_bytes (free_map s)"
  have m: "dev_ok (fs_device s) (blks s)" "bitmap_ok (free_map s)" using assms(1) by (simp_all add: map_ok_def)
  have f: "get_inode (f_inode f) s = Inr ino" "deny_write_cnt ino = 0"
      "inode_fits (fs_device s) (blks s) (i_data ino)" "inode_length ino = int (length ?bs)"
    using assms(2) length_bitmap_bytes [OF m(2)] by (simp_all add: map_file_ok_def)
  obtain k bl where k: "write_loop (fs_device s) ino ?bs (int 0) False (blks s) = Inr (int k, bl)" "k \<le> length ?bs"
      "fst (try_malloc (blks s)) \<longrightarrow> k = length ?bs" "wrote (fs_device s) (i_data ino) 0 (take k ?bs) (blks s) bl"
    using write_loop_partial [OF m(1) f(3), of 0 ?bs False] f(4) by auto
  have "bitmap_write (file_write_at f) (free_map s) s = Inr (k = length ?bs, s\<lparr>blks := bl\<rparr>)"
    using bitmap_write_bytes [OF m(2), of "file_write_at f" s] k(1) f(1,2) length_bitmap_bytes [OF m(2)]
    by (simp add: file_write_at_def write_at_def inode_write_at_def)
  with k show ?thesis by blast
qed

lemma length_map_bytes:
  assumes "map_ok s" "map_file_ok f ino s"
  shows "length (map_bytes ino s) = length (bitmap_bytes (free_map s))"
  using assms length_contents [of "fs_device s" "blks s" "i_data ino"] length_bitmap_bytes [of "free_map s"]
  by (simp add: map_ok_def map_bytes_def map_file_ok_def inode_length_def)

lemma wrote_all:
  assumes "map_ok s" "map_file_ok f ino s" "wrote (fs_device s) (i_data ino) 0 (bitmap_bytes (free_map s)) (blks s) bl"
  shows "contents bl (fs_device s) (i_data ino) = bitmap_bytes (free_map s)"
  using assms(3) length_map_bytes [OF assms(1,2)] by (simp add: wrote_def map_bytes_def overwrite_all)

text \<open>After it the file marks what both the old file and the new map mark.\<close>

lemma wrote_marks:
  assumes "map_ok s" "map_file_ok f ino s" "k \<le> length (bitmap_bytes (free_map s))"
    and "wrote (fs_device s) (i_data ino) 0 (take k (bitmap_bytes (free_map s))) (blks s) bl"
    and "i \<in> marked (free_map s)" "k < length (bitmap_bytes (free_map s)) \<Longrightarrow> i \<in> disk_marks (map_bytes ino s)"
  shows "i \<in> disk_marks (contents bl (fs_device s) (i_data ino))"
proof -
  let ?bs = "bitmap_bytes (free_map s)"
  have b: "bitmap_ok (free_map s)" "dev_ok (fs_device s) (blks s)" using assms(1) by (simp_all add: map_ok_def)
  have new: "i \<in> disk_marks ?bs" using marked_disk_marks [OF b(1)] assms(5) by blast
  note len = length_map_bytes [OF assms(1,2)]
  have eq: "contents bl (fs_device s) (i_data ino) = overwrite 0 (take k ?bs) (map_bytes ino s)"
    using assms(4) by (simp add: wrote_def map_bytes_def)
  show ?thesis
  proof (cases "k < length ?bs")
    case True
    then show ?thesis unfolding eq using disk_marks_mixed [OF new assms(6) [OF True]] len assms(3) by simp
  next
    case False
    then show ?thesis unfolding eq using new len assms(3) by (simp add: overwrite_all)
  qed
qed

text \<open>Giving back sectors that have just been marked restores the map.\<close>

lemma unmark_marked:
  assumes "bitmap_ok b'" "bit_cnt b' = bit_cnt b" "marked b' = marked b \<union> {i..<i + n}" "marked b \<inter> {i..<i + n} = {}" "i + n \<le> bit_cnt b"
  obtains b'' where "bitmap_set_multiple b' i n False = Inr b''" "bitmap_ok b''" "bit_cnt b'' = bit_cnt b" "marked b'' = marked b"
proof -
  obtain b'' where b'': "bitmap_set_multiple b' i n False = Inr b''" "bitmap_ok b''" "bit_cnt b'' = bit_cnt b'"
      "marked b'' = marked b' - {i..<i + n}"
    using bitmap_clear_marked [OF assms(1), of i n] assms(2,5) by auto
  moreover have "marked b'' = marked b" using b''(4) assms(3,4) by auto
  ultimately show thesis using assms(2) by (intro that [of b'']) simp_all
qed

text \<open>What the file system keeps across an operation that allocates or releases sectors: only the
  device and the map change, and on the device only the sectors of the map file.\<close>

definition only_map :: "inode_disk \<Rightarrow> fsys \<Rightarrow> fsys \<Rightarrow> bool" where
  "only_map d s s' \<longleftrightarrow> s' = s\<lparr>blks := blks s', free_map := free_map s'\<rparr> \<and> same_table (blks s) (blks s')
     \<and> (\<forall>i. outside d i \<longrightarrow> sector_at (blks s') (fs_device s) i = sector_at (blks s) (fs_device s) i)"

lemma only_map_upd:
  "same_table (blks s) bl \<Longrightarrow> \<forall>i. outside d i \<longrightarrow> sector_at bl (fs_device s) i = sector_at (blks s) (fs_device s) i \<Longrightarrow>
   only_map d s (s\<lparr>blks := bl, free_map := b\<rparr>)"
  by (simp add: only_map_def)

lemma free_map_allocate_result:
  assumes "map_ok s" "map_file_ok f ino s" "marked (free_map s) \<subseteq> disk_marks (map_bytes ino s)"
  shows "\<exists>r s'. free_map_allocate n s = Inr (r, s') \<and> map_ok s' \<and> map_file_ok f ino s' \<and> only_map (i_data ino) s s'
    \<and> marked (free_map s') \<subseteq> disk_marks (map_bytes ino s')
    \<and> (case r of
         Some i \<Rightarrow> i + n \<le> dev_size (fs_device s) (blks s) \<and> marked (free_map s) \<inter> {i..<i + n} = {}
           \<and> marked (free_map s') = marked (free_map s) \<union> {i..<i + n} \<and> map_bytes ino s' = bitmap_bytes (free_map s')
       | None \<Rightarrow> marked (free_map s') = marked (free_map s)
           \<and> (fst (try_malloc (blks s)) \<longrightarrow> s' = s \<and> (\<forall>i. \<not> group_at (free_map s) i n False)))"
proof -
  have m: "dev_ok (fs_device s) (blks s)" "bitmap_ok (free_map s)" "bit_cnt (free_map s) = dev_size (fs_device s) (blks s)"
    using assms(1) by (simp_all add: map_ok_def)
  have ff: "free_map_file s = Some f" using assms(2) by (simp add: map_file_ok_def)
  from m(2) show ?thesis
  proof (cases rule: scan_and_flip_marked [where n = n])
    case full
    then have "free_map_allocate n s = Inr (None, s)" by (simp add: free_map_allocate_def)
    then show ?thesis using assms full(2) by (intro exI [of _ None] exI [of _ s]) (simp add: only_map_def)
  next
    case (found i b')
    let ?t = "s\<lparr>free_map := b'\<rparr>"
    have t: "map_ok ?t" "map_file_ok f ino ?t"
      using map_ok_upd [OF assms(1) same_table_refl m(1) found(5,6)] map_file_upd [OF assms(2) same_table_refl m(1) found(6)] by simp_all
    obtain k bl where w: "bitmap_write (file_write_at f) b' ?t = Inr (k = length (bitmap_bytes b'), ?t\<lparr>blks := bl\<rparr>)"
        "k \<le> length (bitmap_bytes b')" "fst (try_malloc (blks s)) \<longrightarrow> k = length (bitmap_bytes b')"
        "wrote (fs_device s) (i_data ino) 0 (take k (bitmap_bytes b')) (blks s) bl"
      using bitmap_write_map [OF t] by auto
    note bl = w(4) [unfolded wrote_def]
    have old: "i \<in> disk_marks (map_bytes ino ?t)" if "i \<in> marked (free_map s)" for i
      using assms(3) that by (auto simp: map_bytes_def)
    show ?thesis
    proof (cases "k = length (bitmap_bytes b')")
      case True
      let ?u = "s\<lparr>blks := bl, free_map := b'\<rparr>"
      have "free_map_allocate n s = Inr (Some i, ?u)"
        using found(1,2) ff w(1) True by (simp add: free_map_allocate_def)
      moreover have "map_ok ?u" "map_file_ok f ino ?u"
        using bl map_ok_upd [OF assms(1) _ _ found(5,6)] map_file_upd [OF assms(2) _ m(1) found(6)] by simp_all
      moreover have "map_bytes ino ?u = bitmap_bytes b'" using wrote_all [OF t, of bl] w(4) True by (simp add: map_bytes_def)
      moreover have "marked b' \<subseteq> disk_marks (bitmap_bytes b')" using marked_disk_marks [OF found(5)] by blast
      ultimately show ?thesis
        using found(3,4,7) m(3) bl by (intro exI [of _ "Some i"] exI [of _ ?u]) (simp add: only_map_upd)
    next
      case False
      obtain b'' where b'': "bitmap_set_multiple b' i n False = Inr b''" "bitmap_ok b''" "bit_cnt b'' = bit_cnt (free_map s)"
          "marked b'' = marked (free_map s)"
        using unmark_marked [OF found(5-7,4,3)] .
      let ?u = "s\<lparr>blks := bl, free_map := b''\<rparr>"
      have "free_map_allocate n s = Inr (None, ?u)"
        using found(1,2) ff w(1) False b''(1) by (simp add: free_map_allocate_def)
      moreover have "map_ok ?u" "map_file_ok f ino ?u"
        using bl map_ok_upd [OF assms(1) _ _ b''(2,3)] map_file_upd [OF assms(2) _ m(1) b''(3)] by simp_all
      moreover have "j \<in> disk_marks (map_bytes ino ?u)" if "j \<in> marked (free_map s)" for j
        using wrote_marks [OF t, of k bl j] w(2,4) found(7) old [OF that] that by (simp add: map_bytes_def)
      ultimately show ?thesis
        using b''(4) bl w(3) False by (intro exI [of _ None] exI [of _ ?u]) (auto simp: only_map_upd)
    qed
  qed
qed

lemma free_map_release_result:
  assumes "map_ok s" "map_file_ok f ino s" "marked (free_map s) \<subseteq> disk_marks (map_bytes ino s)"
    and "i + n \<le> dev_size (fs_device s) (blks s)" "{i..<i + n} \<subseteq> marked (free_map s)"
  shows "\<exists>s'. free_map_release i n s = Inr s' \<and> map_ok s' \<and> map_file_ok f ino s' \<and> only_map (i_data ino) s s'
    \<and> marked (free_map s') \<subseteq> disk_marks (map_bytes ino s') \<and> marked (free_map s') = marked (free_map s) - {i..<i + n}
    \<and> (fst (try_malloc (blks s)) \<longrightarrow> map_bytes ino s' = bitmap_bytes (free_map s'))"
proof -
  have m: "dev_ok (fs_device s) (blks s)" "bitmap_ok (free_map s)" "i + n \<le> bit_cnt (free_map s)"
    using assms(1,4) by (simp_all add: map_ok_def)
  have ff: "free_map_file s = Some f" using assms(2) by (simp add: map_file_ok_def)
  obtain b where b: "bitmap_set_multiple (free_map s) i n False = Inr b" "bitmap_ok b" "bit_cnt b = bit_cnt (free_map s)"
      "marked b = marked (free_map s) - {i..<i + n}"
    using bitmap_clear_marked [OF m(2,3)] .
  let ?t = "s\<lparr>free_map := b\<rparr>"
  have t: "map_ok ?t" "map_file_ok f ino ?t"
    using map_ok_upd [OF assms(1) same_table_refl m(1) b(2,3)] map_file_upd [OF assms(2) same_table_refl m(1) b(3)] by simp_all
  obtain k bl where w: "bitmap_write (file_write_at f) b ?t = Inr (k = length (bitmap_bytes b), ?t\<lparr>blks := bl\<rparr>)"
      "k \<le> length (bitmap_bytes b)" "fst (try_malloc (blks s)) \<longrightarrow> k = length (bitmap_bytes b)"
      "wrote (fs_device s) (i_data ino) 0 (take k (bitmap_bytes b)) (blks s) bl"
    using bitmap_write_map [OF t] by auto
  note bl = w(4) [unfolded wrote_def]
  let ?u = "s\<lparr>blks := bl, free_map := b\<rparr>"
  have "free_map_release i n s = Inr ?u"
    using bitmap_all_taken [OF m(2,3)] assms(5) b(1) ff w(1) by (simp add: free_map_release_def)
  moreover have "map_ok ?u" "map_file_ok f ino ?u"
    using bl map_ok_upd [OF assms(1) _ _ b(2,3)] map_file_upd [OF assms(2) _ m(1) b(3)] by simp_all
  moreover have "j \<in> disk_marks (map_bytes ino ?u)" if "j \<in> marked b" for j
    using wrote_marks [OF t, of k bl j] w(2,4) assms(3) b(4) that by (auto simp: map_bytes_def)
  moreover have "fst (try_malloc (blks s)) \<longrightarrow> map_bytes ino ?u = bitmap_bytes b"
    using wrote_all [OF t, of bl] w(3,4) by (auto simp: map_bytes_def)
  ultimately show ?thesis using b(4) bl by (intro exI [of _ ?u]) (auto simp: only_map_upd)
qed

text \<open>So the free map is an allocator of sectors, whatever calls of \<^verbatim>\<open>malloc\<close> fail.\<close>

definition fs_units :: "fsys \<Rightarrow> nat" where
  "fs_units s = dev_size (fs_device s) (blks s)"

lemma only_map_units: "only_map d s s' \<Longrightarrow> map_ok s \<Longrightarrow> fs_units s' = fs_units s"
  using same_table_dev(1) [of "blks s" "blks s'" "fs_device s"]
  by (metis only_map_def fs_units_def fsys.select_convs(2) fsys.surjective fsys.update_convs(1,4) map_ok_def dev_ok_def)

interpretation sectors: unit_allocator free_map_ok fs_units "\<lambda>s. marked (free_map s)"
  "\<lambda>(_ :: unit) s n. free_map_allocate n s" "\<lambda>s i n. free_map_release i n s"
proof
  fix s n x assume "free_map_ok s"
  then obtain f ino where m: "map_ok s" "map_file_ok f ino s" "marked (free_map s) \<subseteq> disk_marks (map_bytes ino s)"
    by (auto simp: free_map_ok_def)
  show "\<exists>r s'. free_map_allocate n s = Inr (r, s') \<and> free_map_ok s' \<and> fs_units s' = fs_units s"
    using free_map_allocate_result [OF m, of n] only_map_units [OF _ m(1)] m(1) unfolding free_map_ok_def by blast
  fix s'
  show "i + n \<le> fs_units s \<and> marked (free_map s) \<inter> span (i, n) = {} \<and> marked (free_map s') = marked (free_map s) \<union> span (i, n)"
    if "free_map_allocate n s = Inr (Some i, s')" for i
    using free_map_allocate_result [OF m, of n] that by (auto simp: fs_units_def span_def)
  show "marked (free_map s') = marked (free_map s)" if "free_map_allocate n s = Inr (None, s')"
    using free_map_allocate_result [OF m, of n] that by auto
  show "\<exists>s'. free_map_release i n s = Inr s' \<and> free_map_ok s' \<and> fs_units s' = fs_units s
      \<and> marked (free_map s') = marked (free_map s) - span (i, n)"
    if "i + n \<le> fs_units s" "span (i, n) \<subseteq> marked (free_map s)" for i
    using free_map_release_result [OF m, of i n] that only_map_units [OF _ m(1)] m(1)
    unfolding free_map_ok_def by (auto simp: fs_units_def span_def)
qed

text \<open>C32. The free map never hands out a sector that is in use, and its file on disk stays safe: whatever groups of sectors a client asks for and gives back, and whatever calls of \<^verbatim>\<open>malloc\<close>
  fail on the way, no assertion fails, the groups it holds are disjoint and lie on the device, and every
  sector that is in use is marked in the file on disk, also where writing the file was cut short.\<close>

theorem free_map_safe:
  assumes "free_map_ok s" "\<forall>r \<in> set rs. sensible r"
  shows "\<exists>s' gs. alloc_run (\<lambda>(_ :: unit) s n. free_map_allocate n s) (\<lambda>s i n. free_map_release i n s) rs s [] = Inr (s', gs)
    \<and> sorted_wrt apart gs
    \<and> (\<forall>g \<in> set gs. fst g + snd g \<le> dev_size (fs_device s') (blks s') \<and> span g \<subseteq> marked (free_map s'))
    \<and> (\<exists>f ino. map_file_ok f ino s' \<and> marked (free_map s') \<subseteq> disk_marks (map_bytes ino s'))"
  using sectors.run_apart [OF assms] by (auto simp: free_map_ok_def fs_units_def)

text \<open>A disk of 100 sectors, formatted: the inodes of the free map and of the root directory, then their
  data.\<close>

definition formatted :: "nat \<Rightarrow> byte list" where
  "formatted a =
     (if a = 0 then inode_disk_bytes \<lparr>i_start = 2, i_length = 16, i_magic = INODE_MAGIC\<rparr>
      else if a = 1 then inode_disk_bytes \<lparr>i_start = 3, i_length = 320, i_magic = INODE_MAGIC\<rparr>
      else if a = 2 then 15 # replicate 511 0
      else replicate 512 0)"

definition formatted_disk :: "bool list \<Rightarrow> blocks" where
  "formatted_disk ms = \<lparr>all_blocks = [\<lparr>blk_name = ''hda1'', blk_type = BLOCK_FILESYS, blk_size = 100, blk_ops = Ide 0,
       read_cnt = 0, write_cnt = 0\<rparr>],
     block_by_role = (\<lambda>_. None)(BLOCK_FILESYS := Some 0), media = (\<lambda>d. formatted), mallocs = ms\<rparr>"

definition mounted :: "bool list \<Rightarrow> fsys" where
  "mounted ms = \<lparr>blks = formatted_disk ms, fs_device = 0,
     open_inodes = [\<lparr>i_sector = 0, open_cnt = 1, removed = False, deny_write_cnt = 0,
       i_data = \<lparr>i_start = 2, i_length = 16, i_magic = INODE_MAGIC\<rparr>\<rparr>],
     free_map = \<lparr>bit_cnt = 100, bm_bits = [15, 0, 0, 0]\<rparr>,
     free_map_file = Some \<lparr>f_inode = 0, f_pos = 0, f_deny_write = False\<rparr>\<rparr>"

lemma formatted_sector: "sector_at (formatted_disk ms) 0 i = formatted i"
  by (simp add: sector_at_def formatted_disk_def resolve.simps)

lemma formatted_dev: "dev_ok 0 (formatted_disk ms)" "dev_size 0 (formatted_disk ms) = 100"
proof -
  have "length (formatted i) = 512" for i
    using inode_disk_roundtrip(2) by (simp add: formatted_def INODE_MAGIC_def in_s32_def BLOCK_SECTOR_SIZE_def)
  then show "dev_ok 0 (formatted_disk ms)"
    by (simp add: dev_ok_def formatted_sector BLOCK_SECTOR_SIZE_def)
      (simp add: formatted_disk_def blocks_ok_def block_in_def)
  show "dev_size 0 (formatted_disk ms) = 100" by (simp add: dev_size_def formatted_disk_def)
qed

lemma formatted_map:
  "bitmap_ok \<lparr>bit_cnt = 100, bm_bits = [15, 0, 0, 0]\<rparr>"
  "contents (formatted_disk ms) 0 \<lparr>i_start = 2, i_length = 16, i_magic = INODE_MAGIC\<rparr>
   = bitmap_bytes \<lparr>bit_cnt = 100, bm_bits = [15, 0, 0, 0]\<rparr>"
proof -
  have b: "bytes_to_sectors 16 = 1" using bytes_to_sectors_nat [of 16] by simp
  have w: "word_bytes 15 = [15, 0, 0, 0]" "word_bytes 0 = [0, 0, 0, 0]" by (simp_all add: word_bytes_def upt_rec [of _ 4])
  have z: "replicate 15 (0 :: byte) = [0, 0, 0, 0, 0, 0, 0, 0, 0, 0, 0, 0, 0, 0, 0]"
    by (simp add: numeral_eq_Suc)
  show "bitmap_ok \<lparr>bit_cnt = 100, bm_bits = [15, 0, 0, 0]\<rparr>"
    by (simp add: bitmap_ok_def elem_cnt_def szadd_def ELEM_BITS_def DIV_ROUND_UP_def)
  show "contents (formatted_disk ms) 0 \<lparr>i_start = 2, i_length = 16, i_magic = INODE_MAGIC\<rparr>
      = bitmap_bytes \<lparr>bit_cnt = 100, bm_bits = [15, 0, 0, 0]\<rparr>"
    by (simp add: contents_def extent_def b formatted_sector formatted_def bitmap_bytes_def w z)
qed

lemma mounted_map: "map_ok (mounted ms)" "free_map_ok (mounted ms)"
proof -
  let ?s = "mounted ms" and ?d = "\<lparr>i_start = 2, i_length = 16, i_magic = INODE_MAGIC\<rparr>"
  have b: "bytes_to_sectors 16 = 1" using bytes_to_sectors_nat [of 16] by simp
  show m: "map_ok ?s" using formatted_dev formatted_map(1) by (simp add: map_ok_def mounted_def)
  have fits: "inode_fits 0 (formatted_disk ms) ?d" using formatted_dev by (simp add: inode_fits_def b)
  have "marked (free_map ?s) \<subseteq> disk_marks (map_bytes (hd (open_inodes ?s)) ?s)"
    using marked_disk_marks [OF formatted_map(1)] formatted_map(2) by (simp add: mounted_def map_bytes_def)
  moreover have "map_file_ok \<lparr>f_inode = 0, f_pos = 0, f_deny_write = False\<rparr> (hd (open_inodes ?s)) ?s"
    using fits formatted_map(1) by (simp add: map_file_ok_def mounted_def get_inode_def inode_length_def byte_cnt_def elem_cnt_def
      szadd_def ELEM_BITS_def DIV_ROUND_UP_def)
  ultimately show "free_map_ok ?s" using m unfolding free_map_ok_def by blast
qed

theorem free_map_safe_witness:
  "\<exists>s' gs. alloc_run (\<lambda>(_ :: unit) s n. free_map_allocate n s) (\<lambda>s i n. free_map_release i n s)
     [Take () 3, Take () 2, Give 0] (mounted [True, False]) [] = Inr (s', gs) \<and> sorted_wrt apart gs"
proof -
  have "\<forall>r \<in> set [Take () 3, Take () 2, Give 0]. sensible r" by simp
  from free_map_safe [OF mounted_map(2) this] show ?thesis by blast
qed

end
