(* ===== verification/Fs_State.thy ===== *)
theory Fs_State
  imports File
begin

text \<open>
  What the operations on the device, on inodes and on the free map do to the disk, when there is
  memory for their buffers: the disk is a function from sectors to their bytes, the data of an inode a
  byte array in it.
\<close>

section \<open>The disk\<close>

definition dsk :: "fsys \<Rightarrow> nat \<Rightarrow> byte list" where
  "dsk s = sector_at (blks s) (fs_device s)"

definition region :: "inode_disk \<Rightarrow> nat set" where
  "region d = {i_start d..<i_start d + bytes_to_sectors (i_length d)}"

definition bytes_of :: "(nat \<Rightarrow> byte list) \<Rightarrow> inode_disk \<Rightarrow> byte list" where
  "bytes_of D d = take (nat (i_length d)) (concat (map D [i_start d..<i_start d + bytes_to_sectors (i_length d)]))"

definition fits :: "nat \<Rightarrow> inode_disk \<Rightarrow> bool" where
  "fits N d \<longleftrightarrow> 0 \<le> i_length d \<and> i_length d \<le> 2 ^ 31 - 512 \<and> i_start d + bytes_to_sectors (i_length d) \<le> N"

lemma contents_bytes_of: "contents (blks s) (fs_device s) d = bytes_of (dsk s) d"
  by (simp add: contents_def extent_def bytes_of_def dsk_def)

lemma outside_region: "outside d i \<longleftrightarrow> i \<notin> region d"
  by (auto simp: outside_def region_def)

lemma inode_fits_units: "inode_fits (fs_device s) (blks s) d = fits (fs_units s) d"
  by (simp add: inode_fits_def fits_def fs_units_def)

lemma bytes_of_cong: "(\<And>i. i \<in> region d \<Longrightarrow> D' i = D i) \<Longrightarrow> bytes_of D' d = bytes_of D d"
  unfolding bytes_of_def region_def by (intro arg_cong [where f = "take _"] arg_cong [where f = concat] map_cong) auto

text \<open>The device works and no call of \<^verbatim>\<open>malloc\<close> fails.\<close>

definition fs_base :: "fsys \<Rightarrow> bool" where
  "fs_base s \<longleftrightarrow> dev_ok (fs_device s) (blks s) \<and> mallocs (blks s) = []"

text \<open>Only the device has changed.\<close>

definition dev_step :: "fsys \<Rightarrow> fsys \<Rightarrow> bool" where
  "dev_step s s' \<longleftrightarrow> fs_base s' \<and> s' = s\<lparr>blks := blks s'\<rparr> \<and> same_table (blks s) (blks s')"

lemma dev_step_fields:
  assumes "dev_step s s'" "fs_base s"
  shows "fs_base s'" "fs_device s' = fs_device s" "open_inodes s' = open_inodes s" "free_map s' = free_map s"
    "free_map_file s' = free_map_file s" "fs_units s' = fs_units s"
proof -
  have s': "s' = s\<lparr>blks := blks s'\<rparr>" and t: "same_table (blks s) (blks s')" and "fs_base s'"
    using assms(1) unfolding dev_step_def by blast+
  then show "fs_base s'" by simp
  show "fs_device s' = fs_device s" "open_inodes s' = open_inodes s" "free_map s' = free_map s" "free_map_file s' = free_map_file s"
    by (subst s', simp)+
  then show "fs_units s' = fs_units s"
    using same_table_dev(1) [OF t, of "fs_device s"] assms(2) by (simp add: fs_units_def fs_base_def dev_ok_def)
qed

lemma dev_step_refl [simp]: "fs_base s \<Longrightarrow> dev_step s s"
  by (simp add: dev_step_def)

lemma dev_step_trans:
  assumes "dev_step s t" "dev_step t u"
  shows "dev_step s u"
proof -
  have "t = s\<lparr>blks := blks t\<rparr>" "u = t\<lparr>blks := blks u\<rparr>" using assms unfolding dev_step_def by blast+
  then have "u = s\<lparr>blks := blks u\<rparr>" by (metis fsys.simps(12) fsys.surjective fsys.update_convs(1))
  then show ?thesis using assms same_table_trans unfolding dev_step_def by blast
qed

lemma dev_stepI:
  "fs_base s \<Longrightarrow> same_table (blks s) bl \<Longrightarrow> dev_ok (fs_device s) bl \<Longrightarrow> dev_step s (s\<lparr>blks := bl\<rparr>)"
  using same_table_mallocs [of "blks s" bl] by (simp add: dev_step_def fs_base_def)

lemma malloc_ok: "fs_base s \<Longrightarrow> fst (try_malloc (blks s))" "fs_base s \<Longrightarrow> fs_malloc s = (True, s)"
  by (simp_all add: fs_base_def try_malloc_def fs_malloc_def)

section \<open>Reading and writing\<close>

lemma fs_read_ok:
  assumes "fs_base s" "i < fs_units s"
  shows "\<exists>s'. fs_read i s = Inr (dsk s i, s') \<and> dev_step s s' \<and> dsk s' = dsk s"
proof -
  have d: "dev_ok (fs_device s) (blks s)" "i < dev_size (fs_device s) (blks s)" "fs_device s < length (all_blocks (blks s))"
    using assms by (simp_all add: fs_base_def fs_units_def dev_ok_def)
  obtain bl where bl: "block_read (fs_device s) i (blks s) = Inr (dsk s i, bl)" "same_table (blks s) bl" "media bl = media (blks s)"
    using dev_read [OF d(1,2)] unfolding dsk_def .
  have "dsk (s\<lparr>blks := bl\<rparr>) = dsk s" using same_table_sector [OF bl(2,3) d(3)] by (simp add: dsk_def fun_eq_iff)
  with bl dev_stepI [OF assms(1) bl(2) dev_ok_media [OF bl(2,3) d(1)]] show ?thesis
    by (intro exI [of _ "s\<lparr>blks := bl\<rparr>"]) (simp add: fs_read_def)
qed

lemma fs_write_ok:
  assumes "fs_base s" "i < fs_units s" "length buf = BLOCK_SECTOR_SIZE"
  shows "\<exists>s'. fs_write i buf s = Inr s' \<and> dev_step s s' \<and> dsk s' = (dsk s)(i := buf)"
proof -
  obtain bl where bl: "block_write (fs_device s) i buf (blks s) = Inr bl" "same_table (blks s) bl" "dev_ok (fs_device s) bl"
      "\<forall>j. sector_at bl (fs_device s) j = (if j = i then buf else sector_at (blks s) (fs_device s) j)"
    using dev_write [of "fs_device s" "blks s" i buf] assms by (auto simp: fs_base_def fs_units_def)
  have "dsk (s\<lparr>blks := bl\<rparr>) = (dsk s)(i := buf)" using bl(4) by (simp add: dsk_def fun_eq_iff)
  with bl dev_stepI [OF assms(1) bl(2,3)] show ?thesis
    by (intro exI [of _ "s\<lparr>blks := bl\<rparr>"]) (simp add: fs_write_def)
qed

lemma zero_sectors_ok:
  "fs_base s \<Longrightarrow> start + n \<le> fs_units s \<Longrightarrow>
   \<exists>s'. zero_sectors n start s = Inr s' \<and> dev_step s s'
     \<and> dsk s' = (\<lambda>i. if i \<in> {start..<start + n} then replicate 512 0 else dsk s i)"
proof (induction n arbitrary: start s)
  case (Suc n)
  have "start < 2 ^ 32"
    using Suc.prems dev_size_small [of "fs_device s" "blks s"] by (simp add: fs_base_def fs_units_def)
  then obtain t where t: "fs_write (start mod 2 ^ 32) (replicate BLOCK_SECTOR_SIZE 0) s = Inr t" "dev_step s t"
      "dsk t = (dsk s)(start := replicate BLOCK_SECTOR_SIZE 0)"
    using fs_write_ok [of s start "replicate BLOCK_SECTOR_SIZE 0"] Suc.prems by auto
  note f = dev_step_fields [OF t(2) Suc.prems(1)]
  obtain u where u: "zero_sectors n (start + 1) t = Inr u" "dev_step t u"
      "dsk u = (\<lambda>i. if i \<in> {start + 1..<start + 1 + n} then replicate 512 0 else dsk t i)"
    using Suc.IH [of t "start + 1"] f Suc.prems(2) by auto
  have "dsk u = (\<lambda>i. if i \<in> {start..<start + Suc n} then replicate 512 0 else dsk s i)"
    unfolding u(3) t(3) by (auto simp: fun_eq_iff BLOCK_SECTOR_SIZE_def)
  then show ?case using t(1) u(1) dev_step_trans [OF t(2) u(2)] by auto
qed simp

lemma read_at_ok:
  assumes "fs_base s" "get_inode i s = Inr ino" "fits (fs_units s) (i_data ino)" "pos < 2 ^ 31"
  shows "\<exists>s'. read_at i (int n) (int pos) s = Inr (take n (drop pos (bytes_of (dsk s) (i_data ino))), s')
    \<and> dev_step s s' \<and> dsk s' = dsk s"
proof -
  have d: "dev_ok (fs_device s) (blks s)" using assms(1) by (simp add: fs_base_def)
  obtain bl where bl: "read_loop (fs_device s) ino (int n) (int pos) False (blks s)
        = Inr (take n (drop pos (bytes_of (dsk s) (i_data ino))), bl)" "same_table (blks s) bl" "media bl = media (blks s)"
    using read_loop_partial [OF d, of ino pos n False] malloc_ok(1) [OF assms(1)] assms(3,4)
    by (auto simp: inode_fits_units contents_bytes_of)
  have "dsk (s\<lparr>blks := bl\<rparr>) = dsk s" using same_table_sector [OF bl(2,3)] d by (simp add: dsk_def fun_eq_iff dev_ok_def)
  with bl assms(2) dev_stepI [OF assms(1) bl(2) dev_ok_media [OF bl(2,3) d]] show ?thesis
    by (intro exI [of _ "s\<lparr>blks := bl\<rparr>"]) (simp add: read_at_def inode_read_at_def)
qed

lemma write_at_ok:
  fixes data :: "byte list"
  assumes "fs_base s" "get_inode i s = Inr ino" "fits (fs_units s) (i_data ino)" "pos < 2 ^ 31" "deny_write_cnt ino = 0"
  defines "d \<equiv> i_data ino" and "k \<equiv> min (length data) (nat (inode_length ino) - pos)"
  shows "\<exists>s'. write_at i data (int pos) s = Inr (int k, s') \<and> dev_step s s'
    \<and> bytes_of (dsk s') d = overwrite pos (take k data) (bytes_of (dsk s) d) \<and> (\<forall>j. j \<notin> region d \<longrightarrow> dsk s' j = dsk s j)"
proof -
  have dev: "dev_ok (fs_device s) (blks s)" using assms(1) by (simp add: fs_base_def)
  obtain bl where bl: "write_loop (fs_device s) ino data (int pos) False (blks s) = Inr (int k, bl)"
      "wrote (fs_device s) d pos (take k data) (blks s) bl"
    using write_loop_partial [OF dev, of ino pos data False] malloc_ok(1) [OF assms(1)] assms(3,4)
    by (auto simp: inode_fits_units k_def d_def)
  have "write_at i data (int pos) s = Inr (int k, s\<lparr>blks := bl\<rparr>)"
    using bl(1) assms(2,5) by (simp add: write_at_def inode_write_at_def)
  moreover have "dev_step s (s\<lparr>blks := bl\<rparr>)" using bl(2) by (intro dev_stepI [OF assms(1)]) (simp_all add: wrote_def)
  moreover have "bytes_of (dsk (s\<lparr>blks := bl\<rparr>)) d = overwrite pos (take k data) (bytes_of (dsk s) d)"
    using bl(2) contents_bytes_of [of "s\<lparr>blks := bl\<rparr>" d] contents_bytes_of [of s d] by (simp add: wrote_def)
  moreover have "\<forall>j. j \<notin> region d \<longrightarrow> dsk (s\<lparr>blks := bl\<rparr>) j = dsk s j"
    using bl(2) by (simp add: wrote_def dsk_def outside_region)
  ultimately show ?thesis by (intro exI [of _ "s\<lparr>blks := bl\<rparr>"]) simp
qed

lemma length_bytes_of:
  assumes "fs_base s" "fits (fs_units s) d"
  shows "length (bytes_of (dsk s) d) = nat (i_length d)"
  using assms length_contents [of "fs_device s" "blks s" d] by (simp add: fs_base_def inode_fits_units contents_bytes_of)

end
