(* ===== verification/Directory.thy ===== *)
theory Directory
  imports Fs_State Cstring
begin

text \<open>
  Directories (\<^verbatim>\<open>filesys/directory.c\<close>): a directory is a file of 20-byte entries, searched by its routines
  one entry at a time. A name is its bytes without the terminating zero; it is compared and copied by
  the routines of \<^verbatim>\<open>lib/string.c\<close>, on a store that holds the name and the entry.
\<close>

section \<open>Entries\<close>

definition NAME_MAX :: nat where "NAME_MAX = 14"

record dir =
  d_inode :: nat
  d_pos :: int

text \<open>\<^verbatim>\<open>struct dir_entry\<close>, kept as its 20 bytes: the sector, the name with its terminator, the flag.\<close>

definition ENTRY_SIZE :: nat where "ENTRY_SIZE = 20"

definition inode_sector :: "byte list \<Rightarrow> nat" where
  "inode_sector e = unat (bytes_word (take 4 e))"

definition in_use :: "byte list \<Rightarrow> bool" where
  "in_use e \<longleftrightarrow> e ! 19 \<noteq> 0"

definition set_in_use :: "bool \<Rightarrow> byte list \<Rightarrow> byte list" where
  "set_in_use b e = e[19 := (if b then 1 else 0)]"

text \<open>The string at the name field, which is read on past the field if it is not terminated.\<close>

definition entry_name_is :: "byte list \<Rightarrow> byte list \<Rightarrow> bool res" where
  "entry_name_is name e = bindR (strcmp 1 (length name + 2) (0 # name @ 0 # drop 4 e)) (\<lambda>r. Inr (r = 0))"

definition set_entry_name :: "byte list \<Rightarrow> byte list \<Rightarrow> byte list res" where
  "set_entry_name name e =
     bindR (strlcpy (length name + 2) 1 (NAME_MAX + 1) (0 # name @ 0 # drop 4 e)) (\<lambda>(_, m).
       Inr (take 4 e @ drop (length name + 2) m))"

section \<open>Searching\<close>

text \<open>A read of an entry just before the end of the range of offsets fails, so the searches end.\<close>

lemma read_before_wrap:
  assumes "sector_ofs ofs < 0" "read_loop dev ino n ofs False s = Inr (got, s')"
  shows "got = []"
proof (cases "n > 0 \<and> chunk_size ino n ofs > 0")
  case True
  then show ?thesis using assms by (subst (asm) read_loop.simps) (auto split: bool.splits prod.splits)
next
  case False
  then have "read_loop dev ino n ofs False s = Inr ([], s)" by (subst read_loop.simps) auto
  then show ?thesis using assms(2) by simp
qed

lemma unat_lt: "unat (w :: 32 word) < 2 ^ 32"
  using unsigned_less [of w] by simp

lemma sint_s32: "sint (w :: 32 word) = s32 (uint w)"
  using s32_sint [of "uint w"] by simp

lemma s32_high:
  assumes "2 ^ 31 \<le> x" "x < 2 ^ 32"
  shows "s32 x = x - 2 ^ 32"
proof -
  have "(x + 2 ^ 31) mod 2 ^ 32 = (x + 2 ^ 31 - 2 ^ 32) mod 2 ^ 32" by (rule minus_mod_self2 [symmetric])
  also have "\<dots> = x + 2 ^ 31 - 2 ^ 32" using assms by (intro mod_pos_pos_trivial) simp_all
  finally show ?thesis by (simp add: s32_def)
qed

lemma sector_ofs_negative: "- 512 < x \<Longrightarrow> x < 0 \<Longrightarrow> sector_ofs x < 0"
  by (simp add: sector_ofs_def BLOCK_SECTOR_SIZE_def signed_modulo_int_def signed_divide_int_def)

lemma entry_read_bound:
  fixes ofs :: "32 word"
  assumes "read_at i 20 (sint ofs) s = Inr (got, s')" "length got = 20"
  shows "unat (ofs + 20) = unat ofs + 20"
proof (rule ccontr)
  assume no: "unat (ofs + 20) \<noteq> unat ofs + 20"
  have ge: "2 ^ 32 \<le> unat ofs + 20"
  proof (rule ccontr)
    assume "\<not> 2 ^ 32 \<le> unat ofs + 20"
    with no show False by (simp add: unat_word_ariths)
  qed
  have lt: "unat ofs < 2 ^ 32" using unat_lt [of ofs] by simp
  define n where "n = unat ofs"
  have n: "2 ^ 32 \<le> int n + 20" "int n < 2 ^ 32" using ge lt unfolding n_def [symmetric] by simp_all
  have "sint ofs = s32 (int n)" by (simp add: sint_s32 n_def)
  also have "\<dots> = int n - 2 ^ 32" using n by (intro s32_high) simp_all
  finally have "sector_ofs (sint ofs) < 0" using n by (simp add: sector_ofs_negative)
  with assms show False
    by (auto simp: read_at_def inode_read_at_def split: prod.splits dest!: read_before_wrap)
qed

lemma entry_read_ends:
  fixes ofs :: "32 word"
  assumes "read_at i 20 (sint ofs) s = Inr (got, s')" "length got = 20"
  shows "2 ^ 32 - unat (ofs + 20) < 2 ^ 32 - unat ofs"
  using entry_read_bound [OF assms] unat_lt [of ofs] by simp

function lookup_loop :: "nat \<Rightarrow> byte list \<Rightarrow> 32 word \<Rightarrow> fsys \<Rightarrow> ((byte list \<times> 32 word) option \<times> fsys) res" where
  "lookup_loop i name ofs s =
     bindR (read_at i 20 (sint ofs) s) (\<lambda>(e, s).
       if length e = 20
       then bindR (if in_use e then entry_name_is name e else Inr False) (\<lambda>found.
              if found then Inr (Some (e, ofs), s) else lookup_loop i name (ofs + 20) s)
       else Inr (None, s))"
  by pat_completeness auto
termination
  by (relation "measure (\<lambda>(_, _, ofs, _). 2 ^ 32 - unat ofs)") (auto dest: entry_read_ends simp del: unat_plus_if_size)

text \<open>\<open>e\<close> is what \<^verbatim>\<open>struct dir_entry e\<close> holds; at the call it is whatever is on the stack.\<close>

function free_slot :: "nat \<Rightarrow> 32 word \<Rightarrow> byte list \<Rightarrow> fsys \<Rightarrow> (32 word \<times> byte list \<times> fsys) res" where
  "free_slot i ofs e s =
     bindR (read_at i 20 (sint ofs) s) (\<lambda>(got, s).
       let e = overwrite 0 got e
       in if length got = 20 \<and> in_use e then free_slot i (ofs + 20) e s else Inr (ofs, e, s))"
  by pat_completeness auto
termination
  by (relation "measure (\<lambda>(_, ofs, _, _). 2 ^ 32 - unat ofs)") (auto dest: entry_read_ends simp del: unat_plus_if_size)

function readdir_loop :: "nat \<Rightarrow> 32 word \<Rightarrow> fsys \<Rightarrow> (byte list option \<times> 32 word \<times> fsys) res" where
  "readdir_loop i pos s =
     bindR (read_at i 20 (sint pos) s) (\<lambda>(e, s).
       if length e = 20
       then if in_use e then Inr (Some e, pos + 20, s) else readdir_loop i (pos + 20) s
       else Inr (None, pos, s))"
  by pat_completeness auto
termination
  by (relation "measure (\<lambda>(_, pos, _). 2 ^ 32 - unat pos)") (auto dest: entry_read_ends simp del: unat_plus_if_size)

declare lookup_loop.simps [simp del] free_slot.simps [simp del] readdir_loop.simps [simp del]

definition lookup :: "dir \<Rightarrow> byte list \<Rightarrow> fsys \<Rightarrow> ((byte list \<times> 32 word) option \<times> fsys) res" where
  "lookup d name s = lookup_loop (d_inode d) name 0 s"

section \<open>Operations\<close>

definition dir_create :: "nat \<Rightarrow> nat \<Rightarrow> fsys \<Rightarrow> (bool \<times> fsys) res" where
  "dir_create sector entry_cnt s = inode_create sector (s32 (int (entry_cnt * ENTRY_SIZE))) s"

definition dir_open :: "nat option \<Rightarrow> fsys \<Rightarrow> (dir option \<times> fsys) res" where
  "dir_open r s =
     (let (got, s) = fs_malloc s
      in case r of
           Some i \<Rightarrow>
             if got then Inr (Some \<lparr>d_inode = i, d_pos = 0\<rparr>, s) else bindR (inode_close r s) (\<lambda>s. Inr (None, s))
         | None \<Rightarrow> Inr (None, s))"

definition dir_open_root :: "fsys \<Rightarrow> (dir option \<times> fsys) res" where
  "dir_open_root s = bindR (inode_open ROOT_DIR_SECTOR s) (\<lambda>(r, s). dir_open r s)"

definition dir_reopen :: "dir \<Rightarrow> fsys \<Rightarrow> (dir option \<times> fsys) res" where
  "dir_reopen d s = bindR (inode_reopen (Some (d_inode d)) s) (\<lambda>(r, s). dir_open r s)"

definition dir_close :: "dir option \<Rightarrow> fsys \<Rightarrow> fsys res" where
  "dir_close r s = (case r of None \<Rightarrow> Inr s | Some d \<Rightarrow> inode_close (Some (d_inode d)) s)"

definition dir_get_inode :: "dir \<Rightarrow> nat" where
  "dir_get_inode d = d_inode d"

definition dir_lookup :: "dir \<Rightarrow> byte list \<Rightarrow> fsys \<Rightarrow> (nat option \<times> fsys) res" where
  "dir_lookup d name s =
     bindR (lookup d name s) (\<lambda>(r, s).
       case r of Some (e, _) \<Rightarrow> inode_open (inode_sector e) s | None \<Rightarrow> Inr (None, s))"

definition dir_add :: "byte list \<Rightarrow> dir \<Rightarrow> byte list \<Rightarrow> nat \<Rightarrow> fsys \<Rightarrow> (bool \<times> fsys) res" where
  "dir_add stack d name sector s =
     (if name = [] \<or> length name > NAME_MAX then Inr (False, s)
      else bindR (lookup d name s) (\<lambda>(r, s).
             if r \<noteq> None then Inr (False, s)
             else bindR (free_slot (d_inode d) 0 stack s) (\<lambda>(ofs, e, s).
                  bindR (set_entry_name name (set_in_use True e)) (\<lambda>e.
                  bindR (write_at (d_inode d) (overwrite 0 (word_bytes (of_nat sector)) e) (sint ofs) s) (\<lambda>(n, s).
                    Inr (n = 20, s))))))"

definition dir_remove :: "dir \<Rightarrow> byte list \<Rightarrow> fsys \<Rightarrow> (bool \<times> fsys) res" where
  "dir_remove d name s =
     bindR (lookup d name s) (\<lambda>(r, s).
       case r of
         None \<Rightarrow> Inr (False, s)
       | Some (e, ofs) \<Rightarrow>
           bindR (inode_open (inode_sector e) s) (\<lambda>(ino, s).
             if ino = None then Inr (False, s)
             else bindR (write_at (d_inode d) (set_in_use False e) (sint ofs) s) (\<lambda>(n, s).
                    if n \<noteq> 20 then bindR (inode_close ino s) (\<lambda>s. Inr (False, s))
                    else bindR (inode_remove ino s) (\<lambda>s.
                         bindR (inode_close ino s) (\<lambda>s. Inr (True, s))))))"

definition dir_readdir :: "dir \<Rightarrow> fsys \<Rightarrow> (byte list option \<times> dir \<times> fsys) res" where
  "dir_readdir d s =
     bindR (readdir_loop (d_inode d) (word_of_int (d_pos d)) s) (\<lambda>(r, pos, s).
       let d = d\<lparr>d_pos := sint pos\<rparr>
       in case r of
            None \<Rightarrow> Inr (None, d, s)
          | Some e \<Rightarrow>
              bindR (strlcpy 1 20 (NAME_MAX + 1) (0 # replicate (NAME_MAX + 1) 0 @ e)) (\<lambda>(_, m).
                Inr (Some (takeWhile (\<lambda>b. b \<noteq> 0) (take (NAME_MAX + 1) (drop 1 m))), d, s)))"

section \<open>Names in entries\<close>

definition entry_name :: "byte list \<Rightarrow> byte list" where
  "entry_name e = takeWhile (\<lambda>b. b \<noteq> 0) (take 15 (drop 4 e))"

definition entry_ok :: "byte list \<Rightarrow> bool" where
  "entry_ok e \<longleftrightarrow> length e = 20 \<and> 0 \<in> set (take 15 (drop 4 e))"

lemma cstr_at: "0 \<notin> set s \<Longrightarrow> cstr (xs @ s @ 0 # ys) (length xs) s"
  by (simp add: cstr_def block_def nth_append)

lemma takeWhile_zero: "0 \<notin> set us \<Longrightarrow> takeWhile (\<lambda>b. b \<noteq> 0) (us @ 0 # vs) = us"
  by (induction us) auto

lemma cstr_takeWhile:
  assumes "0 \<in> set ys"
  shows "cstr (xs @ ys @ zs) (length xs) (takeWhile (\<lambda>b. b \<noteq> 0) ys)"
proof -
  obtain us vs where ys: "ys = us @ 0 # vs" "0 \<notin> set us" using assms by (blast dest: split_list_first)
  then have "takeWhile (\<lambda>b. b \<noteq> 0) ys = us" by (simp add: takeWhile_zero)
  then show ?thesis using cstr_at [OF ys(2), of xs "vs @ zs"] ys(1) by simp
qed

lemma entry_name_is_name:
  assumes "entry_ok e" "0 \<notin> set name"
  shows "entry_name_is name e = Inr (name = entry_name e)"
proof -
  let ?m = "0 # name @ 0 # drop 4 e"
  have e: "drop 4 e = take 15 (drop 4 e) @ drop 19 e" using append_take_drop_id [of 15 "drop 4 e"] by simp
  have n: "cstr ?m 1 name" using cstr_at [OF assms(2), of "[0]" "drop 4 e"] by simp
  have "cstr (([0] @ name @ [0]) @ take 15 (drop 4 e) @ drop 19 e) (length ([0] @ name @ [0])) (entry_name e)"
    using assms(1) unfolding entry_name_def entry_ok_def by (intro cstr_takeWhile) simp
  then have c: "cstr ?m (length name + 2) (entry_name e)" using e by simp
  show ?thesis
    using strcmp_cstr [OF _ _ n c] by (simp add: entry_name_is_def lex_cmp_0)
qed

lemma set_entry_name_ok:
  assumes "length e = 20" "0 \<notin> set name" "length name \<le> 14"
  shows "\<exists>e'. set_entry_name name e = Inr e' \<and> entry_ok e' \<and> entry_name e' = name \<and> take 4 e' = take 4 e \<and> e' ! 19 = e ! 19"
proof -
  let ?xs = "0 # name @ [0]" and ?ys = "drop 4 e"
  let ?e = "take 4 e @ name @ 0 # drop (length name + 5) e"
  have n: "cstr (?xs @ ?ys) 1 name" using cstr_at [OF assms(2), of "[0]" ?ys] by simp
  have "overwrite (length ?xs) (name @ [0]) (?xs @ ?ys) = ?xs @ name @ 0 # drop (length name + 5) e"
    by (simp add: overwrite_def add.commute)
  then have "strlcpy (length ?xs) 1 15 (?xs @ ?ys) = Inr (length name, ?xs @ name @ 0 # drop (length name + 5) e)"
    using strlcpy_overwrite [OF _ _ n, of "length ?xs" 15] assms by simp
  then have "set_entry_name name e = Inr ?e" by (simp add: set_entry_name_def NAME_MAX_def)
  moreover have "15 - length name = Suc (14 - length name)" using assms(3) by simp
  then have f: "take 15 (drop 4 ?e) = name @ 0 # take (14 - length name) (drop (length name + 5) e)"
    using assms(1,3) by simp
  have "entry_ok ?e" unfolding entry_ok_def f using assms(1,3) by simp
  moreover have "entry_name ?e = name" unfolding entry_name_def f using assms(2) by (rule takeWhile_zero)
  moreover have "?e ! 19 = e ! 19" using assms(1,3) by (auto simp: nth_append nth_Cons')
  ultimately show ?thesis using assms(1) by (intro exI [of _ ?e]) simp
qed

section \<open>The entries of a directory\<close>

definition slot :: "byte list \<Rightarrow> nat \<Rightarrow> byte list" where
  "slot bs k = take 20 (drop (20 * k) bs)"

definition slot_cnt :: "byte list \<Rightarrow> nat" where
  "slot_cnt bs = length bs div 20"

definition used_for :: "byte list \<Rightarrow> byte list \<Rightarrow> bool" where
  "used_for name e \<longleftrightarrow> in_use e \<and> entry_name e = name"

text \<open>The files of a directory, and when its entries make sense.\<close>

definition dir_names :: "byte list \<Rightarrow> byte list \<Rightarrow> nat option" where
  "dir_names bs name =
     map_option (\<lambda>k. inode_sector (slot bs k)) (find (\<lambda>k. used_for name (slot bs k)) [0..<slot_cnt bs])"

definition dir_ok :: "byte list \<Rightarrow> bool" where
  "dir_ok bs \<longleftrightarrow> (\<forall>k < slot_cnt bs. in_use (slot bs k) \<longrightarrow> entry_ok (slot bs k) \<and> entry_name (slot bs k) \<noteq> [])
     \<and> (\<forall>j < slot_cnt bs. \<forall>k < slot_cnt bs. in_use (slot bs j) \<and> in_use (slot bs k)
          \<and> entry_name (slot bs j) = entry_name (slot bs k) \<longrightarrow> j = k)"

lemma slot_in: "k < slot_cnt bs \<Longrightarrow> 20 * k + 20 \<le> length bs"
  unfolding slot_cnt_def by linarith

lemma length_slot: "k < slot_cnt bs \<Longrightarrow> length (slot bs k) = 20"
  using slot_in [of k bs] by (simp add: slot_def)

lemma slot_end: "slot_cnt bs \<le> k \<Longrightarrow> length (slot bs k) < 20"
  unfolding slot_cnt_def slot_def by simp

lemma dir_names_iff:
  assumes "dir_ok bs"
  shows "dir_names bs name = Some x \<longleftrightarrow> (\<exists>k < slot_cnt bs. used_for name (slot bs k) \<and> inode_sector (slot bs k) = x)"
proof
  assume "dir_names bs name = Some x"
  then show "\<exists>k < slot_cnt bs. used_for name (slot bs k) \<and> inode_sector (slot bs k) = x"
    by (auto simp: dir_names_def find_Some_iff)
next
  assume "\<exists>k < slot_cnt bs. used_for name (slot bs k) \<and> inode_sector (slot bs k) = x"
  then obtain k where k: "k < slot_cnt bs" "used_for name (slot bs k)" "inode_sector (slot bs k) = x" by blast
  have "find (\<lambda>k. used_for name (slot bs k)) [0..<slot_cnt bs] \<noteq> None" using k by (auto simp: find_None_iff)
  then obtain j where j: "find (\<lambda>k. used_for name (slot bs k)) [0..<slot_cnt bs] = Some j" by blast
  then have "j < slot_cnt bs" "used_for name (slot bs j)" by (auto simp: find_Some_iff)
  then have "j = k" using assms k by (auto simp: dir_ok_def used_for_def)
  then show "dir_names bs name = Some x" using j k by (simp add: dir_names_def)
qed

lemma dir_names_None: "dir_names bs name = None \<longleftrightarrow> (\<forall>k < slot_cnt bs. \<not> used_for name (slot bs k))"
  by (auto simp: dir_names_def find_None_iff)

text \<open>Writing an entry.\<close>

lemma slot_overwrite:
  assumes "j < slot_cnt bs" "length e = 20" "k < slot_cnt bs"
  shows "slot (overwrite (20 * j) e bs) k = (if k = j then e else slot bs k)"
proof (rule nth_equalityI)
  have j: "20 * j + length e \<le> length bs" and k: "20 * k + 20 \<le> length bs" using slot_in assms by simp_all
  then show "length (slot (overwrite (20 * j) e bs) k) = length (if k = j then e else slot bs k)"
    using assms by (simp add: slot_def)
  fix i assume "i < length (slot (overwrite (20 * j) e bs) k)"
  then have i: "i < 20" by (simp add: slot_def)
  then have "slot (overwrite (20 * j) e bs) k ! i = overwrite (20 * j) e bs ! (20 * k + i)"
    using j k by (simp add: slot_def)
  also have "\<dots> = (if 20 * j \<le> 20 * k + i \<and> 20 * k + i < 20 * j + length e then e ! (20 * k + i - 20 * j) else bs ! (20 * k + i))"
    using j k i by (intro nth_overwrite) simp_all
  also have "\<dots> = (if k = j then e else slot bs k) ! i" using i k assms(2) by (auto simp: slot_def)
  finally show "slot (overwrite (20 * j) e bs) k ! i = (if k = j then e else slot bs k) ! i" .
qed

lemma slot_cnt_overwrite: "j < slot_cnt bs \<Longrightarrow> length e = 20 \<Longrightarrow> slot_cnt (overwrite (20 * j) e bs) = slot_cnt bs"
  using slot_in [of j bs] by (simp add: slot_cnt_def)

lemma dir_add_entry:
  assumes "dir_ok bs" "j < slot_cnt bs" "\<not> in_use (slot bs j)"
    and "entry_ok e" "in_use e" "entry_name e \<noteq> []" "dir_names bs (entry_name e) = None"
  shows "dir_ok (overwrite (20 * j) e bs)"
    "dir_names (overwrite (20 * j) e bs) = (dir_names bs)(entry_name e \<mapsto> inode_sector e)"
proof -
  let ?bs = "overwrite (20 * j) e bs"
  have e: "length e = 20" using assms(4) by (simp add: entry_ok_def)
  note sl = slot_overwrite [OF assms(2) e] and n = slot_cnt_overwrite [OF assms(2) e]
  have none: "\<forall>k < slot_cnt bs. \<not> used_for (entry_name e) (slot bs k)" using assms(7) by (simp add: dir_names_None)
  show ok: "dir_ok ?bs"
    unfolding dir_ok_def n using assms(1,4,6) none
    by (auto simp: sl dir_ok_def used_for_def)
  have "dir_names ?bs name = Some x \<longleftrightarrow> ((dir_names bs)(entry_name e \<mapsto> inode_sector e)) name = Some x" for name x
  proof (cases "name = entry_name e")
    case True
    have "dir_names ?bs name = Some x \<longleftrightarrow> inode_sector e = x"
      unfolding dir_names_iff [OF ok] n using True none assms(2,5) sl by (auto simp: used_for_def split: if_splits)
    then show ?thesis using True by auto
  next
    case False
    have "dir_names ?bs name = Some x \<longleftrightarrow> dir_names bs name = Some x"
      unfolding dir_names_iff [OF ok] dir_names_iff [OF assms(1)] n using False assms(3) sl
      by (auto simp: used_for_def split: if_splits)
    then show ?thesis using False by simp
  qed
  then show "dir_names ?bs = (dir_names bs)(entry_name e \<mapsto> inode_sector e)" by (intro ext option.expand) (metis not_None_eq option.sel)+
qed

lemma dir_remove_entry:
  assumes "dir_ok bs" "j < slot_cnt bs" "used_for name (slot bs j)" "length e = 20" "\<not> in_use e"
  shows "dir_ok (overwrite (20 * j) e bs)" "dir_names (overwrite (20 * j) e bs) = (dir_names bs)(name := None)"
proof -
  let ?bs = "overwrite (20 * j) e bs"
  note sl = slot_overwrite [OF assms(2,4)] and n = slot_cnt_overwrite [OF assms(2,4)]
  show ok: "dir_ok ?bs"
    unfolding dir_ok_def n using assms(1,5) by (auto simp: sl dir_ok_def)
  have only: "used_for name (slot bs k) \<Longrightarrow> k < slot_cnt bs \<Longrightarrow> k = j" for k
    using assms(1-3) by (auto simp: dir_ok_def used_for_def)
  have "dir_names ?bs nm = Some x \<longleftrightarrow> ((dir_names bs)(name := None)) nm = Some x" for nm x
  proof (cases "nm = name")
    case True
    have "dir_names ?bs nm \<noteq> Some x"
      unfolding dir_names_iff [OF ok] n using True only assms(5) sl by (auto simp: used_for_def split: if_splits)
    then show ?thesis using True by simp
  next
    case False
    have "dir_names ?bs nm = Some x \<longleftrightarrow> dir_names bs nm = Some x"
      unfolding dir_names_iff [OF ok] dir_names_iff [OF assms(1)] n using False assms(3,5) sl
      by (auto simp: used_for_def split: if_splits)
    then show ?thesis using False by simp
  qed
  then show "dir_names ?bs = (dir_names bs)(name := None)" by (intro ext option.expand) (metis not_None_eq option.sel)+
qed

section \<open>What the searches find\<close>

text \<open>An open inode, the bytes of its data, and that they can be read.\<close>

definition reads :: "nat \<Rightarrow> byte list \<Rightarrow> fsys \<Rightarrow> bool" where
  "reads i bs s \<longleftrightarrow> fs_base s \<and> (\<exists>ino. get_inode i s = Inr ino \<and> fits (fs_units s) (i_data ino) \<and> bs = bytes_of (dsk s) (i_data ino))"

lemma get_inode_step: "dev_step s s' \<Longrightarrow> fs_base s \<Longrightarrow> get_inode i s' = get_inode i s"
  using dev_step_fields(3) [of s s'] by (simp add: get_inode_def)

lemma reads_step: "reads i bs s \<Longrightarrow> dev_step s s' \<Longrightarrow> dsk s' = dsk s \<Longrightarrow> reads i bs s'"
  using get_inode_step [of s s' i] dev_step_fields(6) [of s s'] by (auto simp: reads_def dev_step_def)

lemma reads_length: "reads i bs s \<Longrightarrow> length bs \<le> 2 ^ 31 - 512"
  using length_bytes_of [of s] by (auto simp: reads_def fits_def)

lemma sint_of_nat: "n < 2 ^ 31 \<Longrightarrow> sint (of_nat n :: 32 word) = int n"
  using s32_sint [of "int n"] s32_id [of "int n"] by (simp add: in_s32_def)

lemma read_slot:
  assumes "reads i bs s" "k \<le> slot_cnt bs"
  shows "\<exists>s'. read_at i 20 (sint (of_nat (20 * k) :: 32 word)) s = Inr (slot bs k, s') \<and> dev_step s s' \<and> dsk s' = dsk s"
proof -
  obtain ino where ino: "fs_base s" "get_inode i s = Inr ino" "fits (fs_units s) (i_data ino)" "bs = bytes_of (dsk s) (i_data ino)"
    using assms(1) by (auto simp: reads_def)
  have "20 * k \<le> length bs" using assms(2) by (simp add: slot_cnt_def)
  then have k: "20 * k < 2 ^ 31" using reads_length [OF assms(1)] by simp
  show ?thesis
    using read_at_ok [OF ino(1-3) k, of 20] sint_of_nat [OF k] by (simp add: slot_def ino(4))
qed

lemma next_slot: "(of_nat (20 * k) + 20 :: 32 word) = of_nat (20 * Suc k)"
  by simp

definition lookup_finds :: "byte list \<Rightarrow> byte list \<Rightarrow> (byte list \<times> 32 word) option \<Rightarrow> nat \<Rightarrow> bool" where
  "lookup_finds bs name r k \<longleftrightarrow>
     (case r of
        None \<Rightarrow> \<forall>j. k \<le> j \<and> j < slot_cnt bs \<longrightarrow> \<not> used_for name (slot bs j)
      | Some (e, ofs) \<Rightarrow> \<exists>j < slot_cnt bs. e = slot bs j \<and> ofs = of_nat (20 * j) \<and> used_for name e)"

lemma lookup_finds_Suc:
  "lookup_finds bs name r (Suc k) \<Longrightarrow> \<not> used_for name (slot bs k) \<Longrightarrow> lookup_finds bs name r k"
  unfolding lookup_finds_def by (auto simp: Suc_le_eq split: option.splits) (metis le_neq_implies_less)

lemma lookup_loop_ok:
  assumes "dir_ok bs" "0 \<notin> set name"
  shows "reads i bs s \<Longrightarrow> k \<le> slot_cnt bs \<Longrightarrow>
    \<exists>r s'. lookup_loop i name (of_nat (20 * k)) s = Inr (r, s') \<and> dev_step s s' \<and> dsk s' = dsk s \<and> lookup_finds bs name r k"
proof (induction "slot_cnt bs - k" arbitrary: k s)
  case 0
  then have k: "k = slot_cnt bs" by simp
  obtain s' where s': "read_at i 20 (sint (of_nat (20 * k) :: 32 word)) s = Inr (slot bs k, s')" "dev_step s s'" "dsk s' = dsk s"
    using read_slot [OF 0(2,3)] by blast
  have "length (slot bs k) \<noteq> 20" using slot_end [of bs k] k by simp
  then have "lookup_loop i name (of_nat (20 * k)) s = Inr (None, s')"
    by (subst lookup_loop.simps) (simp only: s'(1) bindR_Inr prod.case if_False)
  with s'(2,3) k show ?case by (auto simp: lookup_finds_def)
next
  case (Suc m)
  then have k: "k < slot_cnt bs" and m: "m = slot_cnt bs - Suc k" "Suc k \<le> slot_cnt bs" by simp_all
  obtain s' where s': "read_at i 20 (sint (of_nat (20 * k) :: 32 word)) s = Inr (slot bs k, s')" "dev_step s s'" "dsk s' = dsk s"
    using read_slot [OF Suc(3,4)] by blast
  have l: "(length (slot bs k) = 20) = True" using length_slot [OF k] by simp
  have t: "(if in_use (slot bs k) then entry_name_is name (slot bs k) else Inr False) = Inr (used_for name (slot bs k))"
    using entry_name_is_name [OF _ assms(2), of "slot bs k"] assms(1) k by (auto simp: dir_ok_def used_for_def)
  have eq: "lookup_loop i name (of_nat (20 * k)) s =
      (if used_for name (slot bs k) then Inr (Some (slot bs k, of_nat (20 * k)), s') else lookup_loop i name (of_nat (20 * Suc k)) s')"
    by (subst lookup_loop.simps) (simp only: s'(1) bindR_Inr prod.case l if_True t next_slot)
  show ?case
  proof (cases "used_for name (slot bs k)")
    case True
    then show ?thesis using eq s'(2,3) k by (auto simp: lookup_finds_def)
  next
    case False
    obtain r s'' where r: "lookup_loop i name (of_nat (20 * Suc k)) s' = Inr (r, s'')" "dev_step s' s''" "dsk s'' = dsk s'"
        "lookup_finds bs name r (Suc k)"
      using Suc.hyps(1) [OF m(1) reads_step [OF Suc.prems(1) s'(2,3)] m(2)] by blast
    show ?thesis
      using eq False r(1,3) s'(3) dev_step_trans [OF s'(2) r(2)] lookup_finds_Suc [OF r(4) False] by auto
  qed
qed

lemma lookup_ok:
  assumes "reads (d_inode d) bs s" "dir_ok bs" "0 \<notin> set name"
  shows "\<exists>r s'. lookup d name s = Inr (r, s') \<and> dev_step s s' \<and> dsk s' = dsk s
    \<and> (case r of
         None \<Rightarrow> dir_names bs name = None
       | Some (e, ofs) \<Rightarrow> dir_names bs name = Some (inode_sector e)
           \<and> (\<exists>j < slot_cnt bs. e = slot bs j \<and> ofs = of_nat (20 * j) \<and> used_for name e))"
proof -
  obtain r s' where r: "lookup d name s = Inr (r, s')" "dev_step s s'" "dsk s' = dsk s" "lookup_finds bs name r 0"
    using lookup_loop_ok [OF assms(2,3,1), of 0] by (auto simp: lookup_def)
  show ?thesis
  proof (cases r)
    case None
    then show ?thesis using r by (auto simp: lookup_finds_def dir_names_None)
  next
    case (Some p)
    obtain e ofs where p: "p = (e, ofs)" by (cases p)
    then obtain j where j: "j < slot_cnt bs" "e = slot bs j" "ofs = of_nat (20 * j)" "used_for name e"
      using r(4) Some by (auto simp: lookup_finds_def)
    then have "dir_names bs name = Some (inode_sector e)" using dir_names_iff [OF assms(2)] by blast
    then show ?thesis using r(1-3) Some p j by auto
  qed
qed

lemma free_slot_ok:
  "reads i bs s \<Longrightarrow> k \<le> slot_cnt bs \<Longrightarrow> length e = 20 \<Longrightarrow>
   \<exists>j e' s'. free_slot i (of_nat (20 * k)) e s = Inr (of_nat (20 * j), e', s') \<and> dev_step s s' \<and> dsk s' = dsk s
     \<and> length e' = 20 \<and> k \<le> j \<and> j \<le> slot_cnt bs \<and> (j < slot_cnt bs \<longrightarrow> \<not> in_use (slot bs j))
     \<and> (\<forall>m. k \<le> m \<and> m < j \<longrightarrow> in_use (slot bs m))"
proof (induction "slot_cnt bs - k" arbitrary: k s e)
  case 0
  then have k: "k = slot_cnt bs" by simp
  obtain s' where s': "read_at i 20 (sint (of_nat (20 * k) :: 32 word)) s = Inr (slot bs k, s')" "dev_step s s'" "dsk s' = dsk s"
    using read_slot [OF 0(2,3)] by blast
  have l: "length (slot bs k) < 20" using slot_end [of bs k] k by simp
  then have "free_slot i (of_nat (20 * k)) e s = Inr (of_nat (20 * k), overwrite 0 (slot bs k) e, s')"
    by (subst free_slot.simps) (simp add: s'(1) del: of_nat_mult)
  with s'(2,3) k l 0(4) show ?case by (intro exI [of _ k]) auto
next
  case (Suc m)
  then have k: "k < slot_cnt bs" and m: "m = slot_cnt bs - Suc k" "Suc k \<le> slot_cnt bs" by simp_all
  obtain s' where s': "read_at i 20 (sint (of_nat (20 * k) :: 32 word)) s = Inr (slot bs k, s')" "dev_step s s'" "dsk s' = dsk s"
    using read_slot [OF Suc(3,4)] by blast
  have l: "(length (slot bs k) = 20) = True" and o: "overwrite 0 (slot bs k) e = slot bs k"
    using length_slot [OF k] Suc.prems(3) by (simp_all add: overwrite_all)
  have eq: "free_slot i (of_nat (20 * k)) e s =
      (if in_use (slot bs k) then free_slot i (of_nat (20 * Suc k)) (slot bs k) s' else Inr (of_nat (20 * k), slot bs k, s'))"
    by (subst free_slot.simps) (simp only: s'(1) bindR_Inr prod.case Let_def o l HOL.simp_thms next_slot)
  show ?case
  proof (cases "in_use (slot bs k)")
    case False
    then show ?thesis using eq s'(2,3) k length_slot [OF k] by (intro exI [of _ k]) auto
  next
    case True
    obtain j e' s'' where r: "free_slot i (of_nat (20 * Suc k)) (slot bs k) s' = Inr (of_nat (20 * j), e', s'')" "dev_step s' s''"
        "dsk s'' = dsk s'" "length e' = 20" "Suc k \<le> j" "j \<le> slot_cnt bs" "j < slot_cnt bs \<longrightarrow> \<not> in_use (slot bs j)"
        "\<forall>m. Suc k \<le> m \<and> m < j \<longrightarrow> in_use (slot bs m)"
      using Suc.hyps(1) [OF m(1) reads_step [OF Suc.prems(1) s'(2,3)] m(2) length_slot [OF k]] by blast
    have "\<forall>m. k \<le> m \<and> m < j \<longrightarrow> in_use (slot bs m)" using r(8) True by (auto simp: Suc_le_eq) (metis le_neq_implies_less)
    then show ?thesis
      using eq True r(1,3-7) s'(3) dev_step_trans [OF s'(2) r(2)] by (intro exI [of _ j] exI [of _ e'] exI [of _ s'']) simp
  qed
qed

end
