(* ===== verification/Filesys.thy ===== *)
theory Filesys
  imports Directory
begin

text \<open>
  The file system (\<^verbatim>\<open>filesys/filesys.c\<close>) and the life cycle of the free map (\<^verbatim>\<open>filesys/free-map.c\<close>):
  formatting, mounting, and creating, opening and removing files by name.
\<close>

section \<open>Mounting and formatting\<close>

text \<open>\<open>mem\<close> is the content of the memory the bitmap is allocated in.\<close>

definition free_map_init :: "32 word list \<Rightarrow> fsys \<Rightarrow> fsys res" where
  "free_map_init mem s =
     bindR (block_size (fs_device s) (blks s)) (\<lambda>n.
     let (got, s) = fs_malloc s;
         (got', s) = (if got then fs_malloc s else (False, s))
     in bindR (bitmap_create n got (if got' then Some (take (elem_cnt n) mem) else None)) (\<lambda>r.
          case r of
            None \<Rightarrow> Inl Panic
          | Some b \<Rightarrow>
              bindR (bitmap_mark b FREE_MAP_SECTOR) (\<lambda>b.
              bindR (bitmap_mark b ROOT_DIR_SECTOR) (\<lambda>b. Inr (s\<lparr>free_map := b\<rparr>)))))"

definition free_map_open :: "fsys \<Rightarrow> fsys res" where
  "free_map_open s =
     bindR (inode_open FREE_MAP_SECTOR s) (\<lambda>(r, s).
     bindR (file_open r s) (\<lambda>(f, s).
     let s = s\<lparr>free_map_file := f\<rparr>
     in case f of
          None \<Rightarrow> Inl Panic
        | Some f \<Rightarrow>
            bindR (bitmap_read (file_read_at f) (free_map s) s) (\<lambda>(done, b, s).
              if done then Inr (s\<lparr>free_map := b\<rparr>) else Inl Panic)))"

definition free_map_close :: "fsys \<Rightarrow> fsys res" where
  "free_map_close s = file_close (free_map_file s) s"

definition free_map_create :: "fsys \<Rightarrow> fsys res" where
  "free_map_create s =
     bindR (inode_create FREE_MAP_SECTOR (s32 (int (bitmap_file_size (free_map s)))) s) (\<lambda>(created, s).
     if \<not> created then Inl Panic
     else bindR (inode_open FREE_MAP_SECTOR s) (\<lambda>(r, s).
          bindR (file_open r s) (\<lambda>(f, s).
          let s = s\<lparr>free_map_file := f\<rparr>
          in case f of
               None \<Rightarrow> Inl Panic
             | Some f \<Rightarrow>
                 bindR (bitmap_write (file_write_at f) (free_map s) s) (\<lambda>(written, s).
                   if written then Inr s else Inl Panic))))"

definition do_format :: "fsys \<Rightarrow> fsys res" where
  "do_format s =
     bindR (free_map_create s) (\<lambda>s.
     bindR (dir_create ROOT_DIR_SECTOR 16 s) (\<lambda>(created, s).
       if created then free_map_close s else Inl Panic))"

definition filesys_init :: "32 word list \<Rightarrow> bool \<Rightarrow> fsys \<Rightarrow> fsys res" where
  "filesys_init mem format s =
     bindR (block_get_role BLOCK_FILESYS (blks s)) (\<lambda>r.
       case r of
         None \<Rightarrow> Inl Panic
       | Some dev \<Rightarrow>
           bindR (free_map_init mem (inode_init (s\<lparr>fs_device := dev\<rparr>))) (\<lambda>s.
           bindR (if format then do_format s else Inr s) free_map_open))"

definition filesys_done :: "fsys \<Rightarrow> fsys res" where
  "filesys_done s = free_map_close s"

section \<open>Files by name\<close>

text \<open>A condition that is evaluated only if those before it hold.\<close>

definition and_then :: "(bool \<times> 's) res \<Rightarrow> ('s \<Rightarrow> (bool \<times> 's) res) \<Rightarrow> (bool \<times> 's) res" where
  "and_then m f = bindR m (\<lambda>(ok, s). if ok then f s else Inr (False, s))"

definition filesys_create :: "byte list \<Rightarrow> byte list \<Rightarrow> int \<Rightarrow> fsys \<Rightarrow> (bool \<times> fsys) res" where
  "filesys_create stack name initial_size s =
     bindR (dir_open_root s) (\<lambda>(dir, s).
     bindR (case dir of
              None \<Rightarrow> Inr (False, 0, s)
            | Some d \<Rightarrow>
                bindR (free_map_allocate 1 s) (\<lambda>(r, s).
                  case r of
                    None \<Rightarrow> Inr (False, 0, s)
                  | Some sector \<Rightarrow>
                      bindR (and_then (inode_create sector initial_size s) (dir_add stack d name sector)) (\<lambda>(ok, s).
                        Inr (ok, sector, s)))) (\<lambda>(success, sector, s).
     bindR (if \<not> success \<and> sector \<noteq> 0 then free_map_release sector 1 s else Inr s) (\<lambda>s.
     bindR (dir_close dir s) (\<lambda>s. Inr (success, s)))))"

definition filesys_open :: "byte list \<Rightarrow> fsys \<Rightarrow> (open_file option \<times> fsys) res" where
  "filesys_open name s =
     bindR (dir_open_root s) (\<lambda>(dir, s).
     bindR (case dir of None \<Rightarrow> Inr (None, s) | Some d \<Rightarrow> dir_lookup d name s) (\<lambda>(ino, s).
     bindR (dir_close dir s) (file_open ino)))"

definition filesys_remove :: "byte list \<Rightarrow> fsys \<Rightarrow> (bool \<times> fsys) res" where
  "filesys_remove name s =
     bindR (dir_open_root s) (\<lambda>(dir, s).
     bindR (case dir of None \<Rightarrow> Inr (False, s) | Some d \<Rightarrow> dir_remove d name s) (\<lambda>(success, s).
     bindR (dir_close dir s) (\<lambda>s. Inr (success, s))))"

end
