(* ===== verification/Fs_Invariant.thy ===== *)
theory Fs_Invariant
  imports Filesys
begin

text \<open>
  The invariant of the mounted file system: the inodes on the disk, those of the files in the root
  directory and those of files removed while open, occupy disjoint sets of sectors, all marked in the
  free map; the open inodes agree with the disk; the free map file agrees with the map.
\<close>

section \<open>The layout of a disk\<close>

definition di :: "(nat \<Rightarrow> byte list) \<Rightarrow> nat \<Rightarrow> inode_disk" where
  "di D x = bytes_inode_disk (D x)"

definition space :: "(nat \<Rightarrow> byte list) \<Rightarrow> nat \<Rightarrow> nat set" where
  "space D x = insert x (region (di D x))"

definition data_of :: "(nat \<Rightarrow> byte list) \<Rightarrow> nat \<Rightarrow> byte list" where
  "data_of D x = bytes_of D (di D x)"

definition names_of :: "(nat \<Rightarrow> byte list) \<Rightarrow> byte list \<Rightarrow> nat option" where
  "names_of D = dir_names (data_of D 1)"

definition linked :: "(nat \<Rightarrow> byte list) \<Rightarrow> nat set" where
  "linked D = insert 0 (insert 1 (ran (names_of D)))"

definition live :: "(nat \<Rightarrow> byte list) \<Rightarrow> inode list \<Rightarrow> nat set" where
  "live D ns = linked D \<union> i_sector ` set ns"

text \<open>The inodes at the sectors \<open>L\<close> own disjoint parts of the sectors \<open>M\<close>.\<close>

definition layout :: "nat \<Rightarrow> (nat \<Rightarrow> byte list) \<Rightarrow> nat set \<Rightarrow> nat set \<Rightarrow> bool" where
  "layout N D L M \<longleftrightarrow> (\<forall>x \<in> L. fits N (di D x) \<and> x < N \<and> x \<notin> region (di D x) \<and> space D x \<subseteq> M)
     \<and> (\<forall>x \<in> L. \<forall>y \<in> L. x \<noteq> y \<longrightarrow> space D x \<inter> space D y = {})"

definition tree_ok :: "(nat \<Rightarrow> byte list) \<Rightarrow> bool" where
  "tree_ok D \<longleftrightarrow> dir_ok (data_of D 1) \<and> inj_on (names_of D) (dom (names_of D)) \<and> 0 \<notin> ran (names_of D) \<and> 1 \<notin> ran (names_of D)"

definition open_ok :: "(nat \<Rightarrow> byte list) \<Rightarrow> inode \<Rightarrow> bool" where
  "open_ok D n \<longleftrightarrow> i_data n = di D (i_sector n) \<and> 0 < open_cnt n \<and> open_cnt n < 2 ^ 31
     \<and> 0 \<le> deny_write_cnt n \<and> deny_write_cnt n \<le> open_cnt n \<and> (removed n \<longleftrightarrow> i_sector n \<notin> linked D)
     \<and> (i_sector n \<le> 1 \<longrightarrow> deny_write_cnt n = 0)"

definition opens_ok :: "(nat \<Rightarrow> byte list) \<Rightarrow> inode list \<Rightarrow> bool" where
  "opens_ok D ns \<longleftrightarrow> distinct (map i_sector ns) \<and> (\<forall>n \<in> set ns. open_ok D n)"

text \<open>A change of sectors that hold no inode leaves the layout alone.\<close>

lemma layout_apart:
  assumes "layout N D L M" "x \<in> L"
  shows "region (di D x) \<inter> L = {}" "y \<in> L \<Longrightarrow> x \<noteq> y \<Longrightarrow> region (di D x) \<inter> region (di D y) = {}"
    "y \<in> L \<Longrightarrow> x \<noteq> y \<Longrightarrow> region (di D x) \<inter> space D y = {}"
  using assms by (auto simp: layout_def space_def) metis

lemma di_frame: "\<forall>i. i \<notin> A \<longrightarrow> D' i = D i \<Longrightarrow> x \<notin> A \<Longrightarrow> di D' x = di D x"
  by (simp add: di_def)

lemma data_frame: "\<forall>i. i \<notin> A \<longrightarrow> D' i = D i \<Longrightarrow> A \<inter> space D x = {} \<Longrightarrow> data_of D' x = data_of D x"
  using bytes_of_cong [of "di D x" D' D] di_frame [of A D' D x] by (auto simp: data_of_def space_def)

lemma layout_frame:
  assumes "layout N D L M" "\<forall>i. i \<notin> A \<longrightarrow> D' i = D i" "A \<inter> L = {}" "M \<subseteq> M'"
  shows "layout N D' L M'"
proof -
  have "\<forall>x \<in> L. di D' x = di D x" using di_frame [OF assms(2)] assms(3) by blast
  then show ?thesis using assms(1,4) by (auto simp: layout_def space_def)
qed

lemma names_frame:
  "\<forall>i. i \<notin> A \<longrightarrow> D' i = D i \<Longrightarrow> A \<inter> space D 1 = {} \<Longrightarrow> names_of D' = names_of D \<and> linked D' = linked D"
  using data_frame [of A D' D 1] by (simp add: names_of_def linked_def)

lemma tree_frame: "\<forall>i. i \<notin> A \<longrightarrow> D' i = D i \<Longrightarrow> A \<inter> space D 1 = {} \<Longrightarrow> tree_ok D' = tree_ok D"
  using data_frame [of A D' D 1] by (simp add: tree_ok_def names_of_def)

lemma opens_frame:
  assumes "opens_ok D ns" "\<forall>i. i \<notin> A \<longrightarrow> D' i = D i" "A \<inter> space D 1 = {}" "A \<inter> i_sector ` set ns = {}"
  shows "opens_ok D' ns"
proof -
  have "\<forall>n \<in> set ns. di D' (i_sector n) = di D (i_sector n)" using di_frame [OF assms(2)] assms(4) by blast
  then show ?thesis using assms(1) names_frame [OF assms(2,3)] by (simp add: opens_ok_def open_ok_def)
qed

lemma layout_mono: "layout N D L M \<Longrightarrow> L' \<subseteq> L \<Longrightarrow> (\<Union>x \<in> L'. space D x) \<subseteq> M' \<Longrightarrow> layout N D L' M'"
  unfolding layout_def by blast

text \<open>A new inode in sectors that were not in use.\<close>

lemma layout_insert:
  assumes "layout N D L M" "fits N (di D x)" "x < N" "x \<notin> region (di D x)" "space D x \<subseteq> M" "\<forall>y \<in> L. space D x \<inter> space D y = {}"
  shows "layout N D (insert x L) M"
  using assms unfolding layout_def by (auto simp: Int_commute)

section \<open>The invariant\<close>

definition fs_good :: "nat \<Rightarrow> (nat \<Rightarrow> byte list) \<Rightarrow> inode list \<Rightarrow> nat set \<Rightarrow> bool" where
  "fs_good N D ns M \<longleftrightarrow> layout N D (live D ns) M \<and> tree_ok D \<and> opens_ok D ns"

definition map_good :: "fsys \<Rightarrow> bool" where
  "map_good s \<longleftrightarrow> (\<exists>f n. free_map_file s = Some f \<and> f_inode f = 0 \<and> \<not> f_deny_write f \<and> get_inode 0 s = Inr n \<and> deny_write_cnt n = 0)
     \<and> i_length (di (dsk s) 0) = int (byte_cnt (bit_cnt (free_map s)))
     \<and> disk_marks (data_of (dsk s) 0) \<inter> {..<fs_units s} = marked (free_map s)"

definition fs_inv :: "fsys \<Rightarrow> bool" where
  "fs_inv s \<longleftrightarrow> fs_base s \<and> map_ok s \<and> map_good s \<and> fs_good (fs_units s) (dsk s) (open_inodes s) (marked (free_map s))"

lemma fs_good_frame:
  assumes "fs_good N D ns M" "\<forall>i. i \<notin> A \<longrightarrow> D' i = D i" "A \<inter> live D ns = {}" "A \<inter> region (di D 1) = {}" "M \<subseteq> M'"
  shows "fs_good N D' ns M'" "live D' ns = live D ns" "names_of D' = names_of D"
proof -
  have one: "A \<inter> space D 1 = {}" using assms(3,4) by (auto simp: space_def live_def linked_def)
  have op: "A \<inter> i_sector ` set ns = {}" using assms(3) by (auto simp: live_def)
  show n: "names_of D' = names_of D" and l: "live D' ns = live D ns"
    using names_frame [OF assms(2) one] by (simp_all add: live_def)
  show "fs_good N D' ns M'"
    using assms(1) layout_frame [OF _ assms(2,3,5)] tree_frame [OF assms(2) one] opens_frame [OF _ assms(2) one op]
    unfolding fs_good_def l by blast
qed

lemma get_inode_iff:
  assumes "distinct (map i_sector (open_inodes s))"
  shows "get_inode i s = Inr n \<longleftrightarrow> n \<in> set (open_inodes s) \<and> i_sector n = i"
proof
  assume "get_inode i s = Inr n"
  then show "n \<in> set (open_inodes s) \<and> i_sector n = i"
    by (auto simp: get_inode_def find_Some_iff split: option.splits)
next
  assume n: "n \<in> set (open_inodes s) \<and> i_sector n = i"
  then have "find (\<lambda>n. i_sector n = i) (open_inodes s) \<noteq> None" by (auto simp: find_None_iff)
  then obtain m where m: "find (\<lambda>n. i_sector n = i) (open_inodes s) = Some m" by blast
  then have "m \<in> set (open_inodes s)" "i_sector m = i" by (auto simp: find_Some_iff)
  then have "m = n" using n assms by (auto simp: distinct_map inj_on_def)
  then show "get_inode i s = Inr n" using m by (simp add: get_inode_def)
qed

lemma fs_inv_get:
  assumes "fs_inv s" "get_inode i s = Inr n"
  shows "n \<in> set (open_inodes s)" "i_sector n = i" "i \<in> live (dsk s) (open_inodes s)" "i_data n = di (dsk s) i"
    "fits (fs_units s) (i_data n)"
proof -
  have g: "opens_ok (dsk s) (open_inodes s)" "layout (fs_units s) (dsk s) (live (dsk s) (open_inodes s)) (marked (free_map s))"
    using assms(1) by (simp_all add: fs_inv_def fs_good_def)
  show n: "n \<in> set (open_inodes s)" and i: "i_sector n = i"
    using get_inode_iff assms(2) g(1) by (simp_all add: opens_ok_def)
  then show l: "i \<in> live (dsk s) (open_inodes s)" by (auto simp: live_def)
  show "i_data n = di (dsk s) i" using g(1) n i by (auto simp: opens_ok_def open_ok_def)
  then show "fits (fs_units s) (i_data n)" using g(2) l by (simp add: layout_def)
qed

text \<open>Writing to the device, but not to inodes, the free map or the root directory.\<close>

lemma fs_inv_step:
  assumes "fs_inv s" "dev_step s s'" "\<forall>i. i \<notin> A \<longrightarrow> dsk s' i = dsk s i"
    and "A \<inter> live (dsk s) (open_inodes s) = {}" "A \<inter> region (di (dsk s) 0) = {}" "A \<inter> region (di (dsk s) 1) = {}"
  shows "fs_inv s'"
proof -
  have b: "fs_base s" and m: "map_ok s" using assms(1) by (simp_all add: fs_inv_def)
  note f = dev_step_fields [OF assms(2) b]
  have zero: "A \<inter> space (dsk s) 0 = {}" "0 \<notin> A" using assms(4,5) by (auto simp: space_def live_def linked_def)
  have "map_ok s'"
    using m f(1,2,4,6) by (simp add: map_ok_def fs_base_def fs_units_def)
  moreover have "map_good s'"
    using assms(1) f di_frame [OF assms(3) zero(2)] data_frame [OF assms(3) zero(1)] get_inode_step [OF assms(2) b]
    by (simp add: fs_inv_def map_good_def)
  moreover have "fs_good (fs_units s') (dsk s') (open_inodes s') (marked (free_map s'))"
    using fs_good_frame(1) [OF _ assms(3,4,6) subset_refl] assms(1) f by (simp add: fs_inv_def)
  ultimately show ?thesis using f(1) by (simp add: fs_inv_def)
qed

section \<open>Opening and closing\<close>

text \<open>The table of open inodes after one more open, and after one more close.\<close>

definition bump :: "nat \<Rightarrow> inode_disk \<Rightarrow> inode list \<Rightarrow> inode list" where
  "bump x d ns =
     (if x \<in> i_sector ` set ns then map (\<lambda>n. if i_sector n = x then n\<lparr>open_cnt := open_cnt n + 1\<rparr> else n) ns
      else \<lparr>i_sector = x, open_cnt = 1, removed = False, deny_write_cnt = 0, i_data = d\<rparr> # ns)"

definition unref :: "nat \<Rightarrow> inode list \<Rightarrow> inode list" where
  "unref x ns =
     (if \<exists>n \<in> set ns. i_sector n = x \<and> open_cnt n = 1 then filter (\<lambda>n. i_sector n \<noteq> x) ns
      else map (\<lambda>n. if i_sector n = x then n\<lparr>open_cnt := open_cnt n - 1\<rparr> else n) ns)"

lemma bump_sectors: "i_sector ` set (bump x d ns) = insert x (i_sector ` set ns)"
proof (cases "x \<in> i_sector ` set ns")
  case True
  then have "map i_sector (bump x d ns) = map i_sector ns" by (simp add: bump_def)
  from arg_cong [OF this, of set] True show ?thesis by auto
qed (simp add: bump_def)

lemma bump_member: "n \<in> set ns \<Longrightarrow> (if i_sector n = x then n\<lparr>open_cnt := open_cnt n + 1\<rparr> else n) \<in> set (bump x d ns)"
  by (auto simp: bump_def)

lemma unref_bump:
  assumes "\<forall>n \<in> set ns. 0 < open_cnt n"
  shows "unref x (bump x d ns) = ns"
proof (cases "x \<in> i_sector ` set ns")
  case True
  have no: "\<not> (\<exists>n \<in> set (bump x d ns). i_sector n = x \<and> open_cnt n = 1)"
    using assms True by (force simp: bump_def)
  have b: "bump x d ns = map (\<lambda>n. if i_sector n = x then n\<lparr>open_cnt := open_cnt n + 1\<rparr> else n) ns"
    using True by (simp add: bump_def)
  show ?thesis unfolding unref_def if_not_P [OF no] unfolding b map_map by (rule map_idI) simp
next
  case False
  then have "filter (\<lambda>n. i_sector n \<noteq> x) ns = ns" by (auto simp: filter_id_conv)
  then show ?thesis using False by (simp add: unref_def bump_def)
qed

lemma opens_bump:
  assumes "opens_ok D ns" "x \<in> linked D" "\<forall>n \<in> set ns. open_cnt n < 2 ^ 31 - 1"
  shows "opens_ok D (bump x (di D x) ns)"
proof (cases "x \<in> i_sector ` set ns")
  case True
  have "map i_sector (bump x (di D x) ns) = map i_sector ns" using True by (simp add: bump_def)
  then have "distinct (map i_sector (bump x (di D x) ns))" using assms(1) by (simp only: opens_ok_def)
  moreover have "open_ok D n" if n: "n \<in> set (bump x (di D x) ns)" for n
  proof -
    obtain m where "m \<in> set ns" "n = m \<or> n = m\<lparr>open_cnt := open_cnt m + 1\<rparr>" using True n by (auto simp: bump_def)
    then show ?thesis using assms(1,3) by (auto simp: opens_ok_def open_ok_def)
  qed
  ultimately show ?thesis by (simp add: opens_ok_def)
next
  case False
  then show ?thesis using assms by (auto simp: opens_ok_def open_ok_def bump_def)
qed

lemma opens_unref:
  assumes "opens_ok D ns" "\<forall>n \<in> set ns. i_sector n = x \<longrightarrow> deny_write_cnt n < open_cnt n \<or> deny_write_cnt n = 0"
  shows "opens_ok D (unref x ns)"
proof (cases "\<exists>n \<in> set ns. i_sector n = x \<and> open_cnt n = 1")
  case True
  then have "unref x ns = filter (\<lambda>n. i_sector n \<noteq> x) ns" by (simp add: unref_def)
  then show ?thesis using assms unfolding opens_ok_def by (simp add: distinct_map_filter)
next
  case False
  then have u: "unref x ns = map (\<lambda>n. if i_sector n = x then n\<lparr>open_cnt := open_cnt n - 1\<rparr> else n) ns"
    unfolding unref_def by (rule if_not_P)
  have "map i_sector (unref x ns) = map i_sector ns" using u by simp
  then have "distinct (map i_sector (unref x ns))" using assms(1) by (simp only: opens_ok_def)
  moreover have "open_ok D n" if n: "n \<in> set (unref x ns)" for n
  proof -
    obtain m where m: "m \<in> set ns" "n = (if i_sector m = x then m\<lparr>open_cnt := open_cnt m - 1\<rparr> else m)"
      using n unfolding u by auto
    then have "open_ok D m" "i_sector m = x \<longrightarrow> open_cnt m \<noteq> 1" using assms(1) False by (auto simp: opens_ok_def open_ok_def)
    then show ?thesis using m assms(2) by (auto simp: open_ok_def)
  qed
  ultimately show ?thesis by (simp add: opens_ok_def)
qed

text \<open>Only the table of open inodes has changed, and counters of the device.\<close>

definition opened :: "fsys \<Rightarrow> fsys \<Rightarrow> inode list \<Rightarrow> bool" where
  "opened s s' ns \<longleftrightarrow> fs_base s' \<and> same_table (blks s) (blks s') \<and> fs_device s' = fs_device s \<and> free_map s' = free_map s
     \<and> free_map_file s' = free_map_file s \<and> dsk s' = dsk s \<and> open_inodes s' = ns"

lemma opened_fields:
  assumes "opened s s' ns" "fs_base s"
  shows "fs_base s'" "fs_device s' = fs_device s" "free_map s' = free_map s" "free_map_file s' = free_map_file s"
    "fs_units s' = fs_units s" "dsk s' = dsk s" "open_inodes s' = ns"
proof -
  show f: "fs_base s'" "fs_device s' = fs_device s" "free_map s' = free_map s" "free_map_file s' = free_map_file s"
    "dsk s' = dsk s" "open_inodes s' = ns" using assms(1) by (simp_all add: opened_def)
  show "fs_units s' = fs_units s"
    using assms same_table_dev(1) [of "blks s" "blks s'" "fs_device s"] f(2)
    by (simp add: opened_def fs_base_def dev_ok_def fs_units_def)
qed

lemma dev_step_table: "dev_step s t \<Longrightarrow> same_table (blks s) (blks t)"
  unfolding dev_step_def by blast

lemma opened_step: "dev_step s t \<Longrightarrow> dsk t = dsk s \<Longrightarrow> fs_base s \<Longrightarrow> opened s (t\<lparr>open_inodes := ns\<rparr>) ns"
  using dev_step_fields [of s t] dev_step_table [of s t] by (simp add: opened_def dsk_def fs_base_def)

lemma opened_upd: "fs_base s \<Longrightarrow> opened s (s\<lparr>open_inodes := ns\<rparr>) ns"
  using opened_step [of s s ns] by simp

lemma opened_trans: "opened s t ns \<Longrightarrow> opened t u ms \<Longrightarrow> opened s u ms"
  using same_table_trans by (auto simp: opened_def)

lemma fs_inv_opened:
  assumes "fs_inv s" "opened s s' ns" "opens_ok (dsk s) ns" "i_sector ` set ns \<subseteq> live (dsk s) (open_inodes s)"
    and "\<exists>n \<in> set ns. i_sector n = 0 \<and> deny_write_cnt n = 0"
  shows "fs_inv s'"
proof -
  have b: "fs_base s" "map_ok s" "map_good s" using assms(1) by (simp_all add: fs_inv_def)
  note f = opened_fields [OF assms(2) b(1)]
  have "live (dsk s) ns \<subseteq> live (dsk s) (open_inodes s)" using assms(4) by (auto simp: live_def)
  then have l: "layout (fs_units s) (dsk s) (live (dsk s) ns) (marked (free_map s))"
    using assms(1) unfolding fs_inv_def fs_good_def layout_def by blast
  have "distinct (map i_sector ns)" using assms(3) by (simp add: opens_ok_def)
  then have "\<exists>n. get_inode 0 s' = Inr n \<and> deny_write_cnt n = 0"
    using assms(5) get_inode_iff [of s' 0] f(7) by auto
  then show ?thesis
    using b l assms(1,3) f unfolding fs_inv_def fs_good_def map_good_def map_ok_def fs_base_def
    by (auto simp: fs_units_def)
qed

text \<open>A bound on the counters, so that one more open cannot overflow them.\<close>

definition open_room :: "fsys \<Rightarrow> bool" where
  "open_room s \<longleftrightarrow> (\<forall>n \<in> set (open_inodes s). open_cnt n < 2 ^ 31 - 2)"

lemma fs_inv_opens: "fs_inv s \<Longrightarrow> opens_ok (dsk s) (open_inodes s)" "fs_inv s \<Longrightarrow> fs_base s" "fs_inv s \<Longrightarrow> distinct (map i_sector (open_inodes s))"
  by (simp_all add: fs_inv_def fs_good_def opens_ok_def)

lemma linked_sector: "fs_inv s \<Longrightarrow> x \<in> linked (dsk s) \<Longrightarrow> x < fs_units s"
  by (auto simp: fs_inv_def fs_good_def layout_def live_def)

lemma put_inode_map:
  assumes "n \<in> set (open_inodes s)" "i_sector (f n) = i_sector n" "distinct (map i_sector (open_inodes s))"
  shows "put_inode (f n) s = s\<lparr>open_inodes := map (\<lambda>m. if i_sector m = i_sector n then f m else m) (open_inodes s)\<rparr>"
proof -
  have "\<forall>m \<in> set (open_inodes s). i_sector m = i_sector n \<longrightarrow> m = n"
    using assms by (auto simp: distinct_map inj_on_def)
  then have "map (\<lambda>m. if i_sector m = i_sector (f n) then f n else m) (open_inodes s)
      = map (\<lambda>m. if i_sector m = i_sector n then f m else m) (open_inodes s)"
    using assms(2) by (intro map_cong) auto
  then show ?thesis by (simp add: put_inode_def)
qed

lemma fs_inv_bump:
  assumes "fs_inv s" "opened s s' (bump x (di (dsk s) x) (open_inodes s))" "x \<in> linked (dsk s)"
    and "\<forall>n \<in> set (open_inodes s). open_cnt n < 2 ^ 31 - 1"
  shows "fs_inv s'"
proof (rule fs_inv_opened [OF assms(1,2)])
  show "opens_ok (dsk s) (bump x (di (dsk s) x) (open_inodes s))"
    by (rule opens_bump [OF fs_inv_opens(1) [OF assms(1)] assms(3,4)])
  show "i_sector ` set (bump x (di (dsk s) x) (open_inodes s)) \<subseteq> live (dsk s) (open_inodes s)"
    using assms(3) by (auto simp: bump_sectors live_def)
  obtain n where n: "get_inode 0 s = Inr n" "deny_write_cnt n = 0" using assms(1) by (auto simp: fs_inv_def map_good_def)
  then have m: "n \<in> set (open_inodes s)" "i_sector n = 0" using fs_inv_get [OF assms(1)] by auto
  show "\<exists>n \<in> set (bump x (di (dsk s) x) (open_inodes s)). i_sector n = 0 \<and> deny_write_cnt n = 0"
    by (rule bexI [OF _ bump_member [OF m(1)]]) (use m(2) n(2) in auto)
qed

lemma inode_reopen_ok:
  assumes "fs_inv s" "x \<in> i_sector ` set (open_inodes s)" "\<forall>n \<in> set (open_inodes s). open_cnt n < 2 ^ 31 - 1"
  shows "inode_reopen (Some x) s = Inr (Some x, s\<lparr>open_inodes := bump x (di (dsk s) x) (open_inodes s)\<rparr>)"
proof -
  obtain n where n: "n \<in> set (open_inodes s)" "i_sector n = x" using assms(2) by auto
  then have g: "get_inode x s = Inr n" using get_inode_iff [OF fs_inv_opens(3) [OF assms(1)]] by simp
  have "0 < open_cnt n" using n fs_inv_opens(1) [OF assms(1)] by (auto simp: opens_ok_def open_ok_def)
  then have "s32 (open_cnt n + 1) = open_cnt n + 1" using n assms(3) by (intro s32_id) (auto simp: in_s32_def)
  then show ?thesis
    using g put_inode_map [OF n(1) _ fs_inv_opens(3) [OF assms(1)], of "\<lambda>n. n\<lparr>open_cnt := open_cnt n + 1\<rparr>"] n assms(2)
    by (simp add: inode_reopen_def bump_def)
qed

lemma inode_open_ok:
  assumes "fs_inv s" "x \<in> linked (dsk s)" "\<forall>n \<in> set (open_inodes s). open_cnt n < 2 ^ 31 - 1"
  shows "\<exists>s'. inode_open x s = Inr (Some x, s') \<and> opened s s' (bump x (di (dsk s) x) (open_inodes s)) \<and> fs_inv s'"
proof (cases "x \<in> i_sector ` set (open_inodes s)")
  case True
  then obtain n where "find (\<lambda>n. i_sector n = x) (open_inodes s) = Some n" by (cases "find (\<lambda>n. i_sector n = x) (open_inodes s)") (auto simp: find_None_iff)
  then have "inode_open x s = Inr (Some x, s\<lparr>open_inodes := bump x (di (dsk s) x) (open_inodes s)\<rparr>)"
    using inode_reopen_ok [OF assms(1) True assms(3)] by (simp add: inode_open_def)
  then show ?thesis
    using opened_upd [OF fs_inv_opens(2) [OF assms(1)]] fs_inv_bump [OF assms(1) _ assms(2,3)] by blast
next
  case False
  note b = fs_inv_opens(2) [OF assms(1)]
  have none: "find (\<lambda>n. i_sector n = x) (open_inodes s) = None" using False by (auto simp: find_None_iff)
  obtain t where t: "fs_read x s = Inr (dsk s x, t)" "dev_step s t" "dsk t = dsk s"
    using fs_read_ok [OF b linked_sector [OF assms(1,2)]] by blast
  let ?s' = "t\<lparr>open_inodes := bump x (di (dsk s) x) (open_inodes s)\<rparr>"
  have "inode_open x s = Inr (Some x, ?s')"
    using none malloc_ok(2) [OF b] t(1) dev_step_fields(3) [OF t(2) b] False
    by (simp add: inode_open_def bump_def di_def)
  then show ?thesis using opened_step [OF t(2,3) b] fs_inv_bump [OF assms(1) _ assms(2,3)] by blast
qed

text \<open>Closing an inode that is not to be deleted.\<close>

lemma inode_close_kept:
  assumes "n \<in> set (open_inodes s)" "distinct (map i_sector (open_inodes s))" "0 < open_cnt n" "open_cnt n < 2 ^ 31"
    and "\<not> removed n \<or> open_cnt n \<noteq> 1"
  shows "inode_close (Some (i_sector n)) s = Inr (s\<lparr>open_inodes := unref (i_sector n) (open_inodes s)\<rparr>)"
proof -
  let ?x = "i_sector n"
  have g: "get_inode ?x s = Inr n" using get_inode_iff [OF assms(2)] assms(1) by simp
  have c: "s32 (open_cnt n - 1) = open_cnt n - 1" using assms(3,4) by (intro s32_id) (auto simp: in_s32_def)
  have only: "\<forall>m \<in> set (open_inodes s). i_sector m = ?x \<longrightarrow> m = n" using assms(1,2) by (auto simp: distinct_map inj_on_def)
  note p = put_inode_map [OF assms(1) _ assms(2), of "\<lambda>n. n\<lparr>open_cnt := open_cnt n - 1\<rparr>"]
  show ?thesis
  proof (cases "open_cnt n = 1")
    case True
    have "filter (\<lambda>m. i_sector m \<noteq> ?x) (map (\<lambda>m. if i_sector m = ?x then m\<lparr>open_cnt := open_cnt m - 1\<rparr> else m) (open_inodes s))
        = filter (\<lambda>m. i_sector m \<noteq> ?x) (open_inodes s)"
      by (induction "open_inodes s" rule: list.induct) (auto simp: filter_map comp_def intro: map_idI)
    moreover have "unref ?x (open_inodes s) = filter (\<lambda>m. i_sector m \<noteq> ?x) (open_inodes s)"
      using assms(1) True by (auto simp: unref_def)
    ultimately show ?thesis using g c p True assms(5) by (simp add: inode_close_def Let_def)
  next
    case False
    then have "unref ?x (open_inodes s) = map (\<lambda>m. if i_sector m = ?x then m\<lparr>open_cnt := open_cnt m - 1\<rparr> else m) (open_inodes s)"
      using only by (auto simp: unref_def)
    then show ?thesis using g c p False by (simp add: inode_close_def Let_def)
  qed
qed

section \<open>Allocating and releasing\<close>

text \<open>The disk outside the free map's own data is unchanged, and so are the inodes and files there.\<close>

definition map_step :: "fsys \<Rightarrow> fsys \<Rightarrow> bool" where
  "map_step s s' \<longleftrightarrow> fs_base s' \<and> fs_units s' = fs_units s \<and> open_inodes s' = open_inodes s
     \<and> free_map_file s' = free_map_file s \<and> (\<forall>i. i \<notin> region (di (dsk s) 0) \<longrightarrow> dsk s' i = dsk s i)"

definition live_of :: "fsys \<Rightarrow> nat set" where
  "live_of s = live (dsk s) (open_inodes s)"

lemma linked_live: "linked (dsk s) \<subseteq> live_of s" "0 \<in> live_of s" "1 \<in> live_of s"
  by (auto simp: live_of_def live_def linked_def)

lemma fs_inv_layout: "fs_inv s \<Longrightarrow> layout (fs_units s) (dsk s) (live_of s) (marked (free_map s))"
  by (simp add: fs_inv_def fs_good_def live_of_def)

lemma fs_inv_map_file:
  assumes "fs_inv s"
  obtains f n where "map_ok s" "map_file_ok f n s" "i_data n = di (dsk s) 0" "map_bytes n s = data_of (dsk s) 0"
    "marked (free_map s) \<subseteq> disk_marks (map_bytes n s)"
proof -
  obtain f n where f: "free_map_file s = Some f" "f_inode f = 0" "get_inode 0 s = Inr n" "deny_write_cnt n = 0"
    using assms by (auto simp: fs_inv_def map_good_def)
  note n = fs_inv_get [OF assms f(3)]
  have m: "map_ok s" "map_good s" using assms by (simp_all add: fs_inv_def)
  have b: "map_bytes n s = data_of (dsk s) 0" by (simp add: map_bytes_def contents_bytes_of data_of_def n(4))
  have "map_file_ok f n s"
    using f n(4,5) m(2) by (simp add: map_file_ok_def inode_fits_units inode_length_def map_good_def)
  moreover have "marked (free_map s) \<subseteq> disk_marks (map_bytes n s)" using m(2) b by (auto simp: map_good_def)
  ultimately show thesis using that m(1) n(4) b by blast
qed

lemma only_map_step:
  assumes "only_map (di (dsk s) 0) s s'" "fs_base s" "map_ok s" "map_ok s'"
  shows "map_step s s'"
proof -
  have s': "s' = s\<lparr>blks := blks s', free_map := free_map s'\<rparr>" and t: "same_table (blks s) (blks s')"
    using assms(1) unfolding only_map_def by blast+
  have f: "fs_device s' = fs_device s" "open_inodes s' = open_inodes s" "free_map_file s' = free_map_file s" by (subst s', simp)+
  have "fs_units s' = fs_units s" by (rule only_map_units [OF assms(1,3)])
  moreover have "fs_base s'"
    using assms(2,4) same_table_mallocs [OF t] by (simp add: fs_base_def map_ok_def)
  moreover have "dsk s' i = dsk s i" if "i \<notin> region (di (dsk s) 0)" for i
    using assms(1) that unfolding only_map_def by (simp add: outside_region dsk_def f(1))
  ultimately show ?thesis using f by (simp add: map_step_def)
qed

lemma map_step_frame:
  assumes "map_step s s'" "fs_inv s"
  shows "live_of s' = live_of s" "names_of (dsk s') = names_of (dsk s)" "di (dsk s') x = di (dsk s) x \<or> x \<notin> live_of s"
    "x \<in> live_of s \<Longrightarrow> x \<noteq> 0 \<Longrightarrow> data_of (dsk s') x = data_of (dsk s) x"
    "marked (free_map s) \<subseteq> M \<Longrightarrow> fs_good (fs_units s) (dsk s') (open_inodes s) M"
proof -
  let ?A = "region (di (dsk s) 0)"
  have a: "\<forall>i. i \<notin> ?A \<longrightarrow> dsk s' i = dsk s i" using assms(1) by (simp add: map_step_def)
  note l = fs_inv_layout [OF assms(2)]
  have A: "?A \<inter> live_of s = {}" "?A \<inter> region (di (dsk s) 1) = {}"
    using layout_apart [OF l linked_live(2)] linked_live(3) by auto
  have g: "fs_good (fs_units s) (dsk s) (open_inodes s) (marked (free_map s))" using assms(2) by (simp add: fs_inv_def)
  show "live_of s' = live_of s" "names_of (dsk s') = names_of (dsk s)"
    using fs_good_frame(2,3) [OF g a A(1) [unfolded live_of_def] A(2) subset_refl] assms(1) by (simp_all add: live_of_def map_step_def)
  show "di (dsk s') x = di (dsk s) x \<or> x \<notin> live_of s" using di_frame [OF a] A(1) by auto
  show "data_of (dsk s') x = data_of (dsk s) x" if "x \<in> live_of s" "x \<noteq> 0"
    using data_frame [OF a] layout_apart(3) [OF l linked_live(2) that(1)] that(2) by blast
  show "marked (free_map s) \<subseteq> M \<Longrightarrow> fs_good (fs_units s) (dsk s') (open_inodes s) M"
    by (rule fs_good_frame(1) [OF g a A(1) [unfolded live_of_def] A(2)])
qed

lemma get_inode_opens: "open_inodes s' = open_inodes s \<Longrightarrow> get_inode i s' = get_inode i s"
  by (simp add: get_inode_def)

lemma map_step_inv:
  assumes "map_step s s'" "fs_inv s" "map_ok s'" "bit_cnt (free_map s') = bit_cnt (free_map s)"
    and "fs_good (fs_units s) (dsk s') (open_inodes s) (marked (free_map s'))" "data_of (dsk s') 0 = bitmap_bytes (free_map s')"
  shows "fs_inv s'"
proof -
  have st: "fs_base s'" "fs_units s' = fs_units s" "open_inodes s' = open_inodes s" "free_map_file s' = free_map_file s"
    using assms(1) by (simp_all add: map_step_def)
  have m: "map_good s" using assms(2) by (simp add: fs_inv_def)
  have "di (dsk s') 0 = di (dsk s) 0" using map_step_frame(3) [OF assms(1,2)] linked_live(2) by blast
  moreover have "disk_marks (data_of (dsk s') 0) \<inter> {..<fs_units s'} = marked (free_map s')"
    using assms(3,6) marked_disk_marks by (simp add: map_ok_def fs_units_def)
  ultimately have "map_good s'"
    using m st get_inode_opens [OF st(3)] assms(4) by (simp add: map_good_def)
  then show ?thesis using assms(3,5) st by (simp add: fs_inv_def)
qed

lemma fs_allocate:
  assumes "fs_inv s"
  shows "\<exists>r s'. free_map_allocate n s = Inr (r, s') \<and> fs_inv s' \<and> map_step s s'
    \<and> (case r of
         Some i \<Rightarrow> i + n \<le> fs_units s \<and> marked (free_map s) \<inter> {i..<i + n} = {} \<and> marked (free_map s') = marked (free_map s) \<union> {i..<i + n}
       | None \<Rightarrow> s' = s \<and> (\<forall>i. \<not> group_at (free_map s) i n False))"
proof -
  obtain f ino where m: "map_ok s" "map_file_ok f ino s" "i_data ino = di (dsk s) 0" "marked (free_map s) \<subseteq> disk_marks (map_bytes ino s)"
    using fs_inv_map_file [OF assms] .
  obtain r s' where r: "free_map_allocate n s = Inr (r, s')" "map_ok s'" "only_map (di (dsk s) 0) s s'"
    and c: "case r of
         Some i \<Rightarrow> i + n \<le> dev_size (fs_device s) (blks s) \<and> marked (free_map s) \<inter> {i..<i + n} = {}
           \<and> marked (free_map s') = marked (free_map s) \<union> {i..<i + n} \<and> map_bytes ino s' = bitmap_bytes (free_map s')
       | None \<Rightarrow> marked (free_map s') = marked (free_map s)
           \<and> (fst (try_malloc (blks s)) \<longrightarrow> s' = s \<and> (\<forall>i. \<not> group_at (free_map s) i n False))"
    using free_map_allocate_result [OF m(1,2,4), of n] unfolding m(3) by blast
  have st: "map_step s s'" by (rule only_map_step [OF r(3) fs_inv_opens(2) [OF assms] m(1) r(2)])
  show ?thesis
  proof (cases r)
    case None
    then show ?thesis using r(1) st c malloc_ok(1) [OF fs_inv_opens(2) [OF assms]] assms by auto
  next
    case (Some i)
    have "bit_cnt (free_map s') = bit_cnt (free_map s)"
      using r(2) m(1) st by (simp add: map_ok_def map_step_def fs_units_def)
    moreover have "fs_device s' = fs_device s" using r(3) by (metis only_map_def fsys.select_convs(2) fsys.surjective fsys.update_convs(1,4))
    then have "data_of (dsk s') 0 = bitmap_bytes (free_map s')"
      using c Some contents_bytes_of [of s' "di (dsk s) 0"] map_step_frame(3) [OF st assms, of 0] linked_live(2) [of s]
      by (simp add: map_bytes_def data_of_def m(3))
    ultimately have "fs_inv s'"
      using map_step_inv [OF st assms r(2)] map_step_frame(5) [OF st assms, of "marked (free_map s')"] c Some by auto
    then show ?thesis using r(1) st c Some by (auto simp: fs_units_def)
  qed
qed

definition live_space :: "fsys \<Rightarrow> nat set" where
  "live_space s = (\<Union>x \<in> live_of s. space (dsk s) x)"

lemma live_space_marked: "fs_inv s \<Longrightarrow> live_space s \<subseteq> marked (free_map s)"
  using fs_inv_layout by (auto simp: live_space_def layout_def)

lemma live_in_space: "live_of s \<subseteq> live_space s" "x \<in> live_of s \<Longrightarrow> region (di (dsk s) x) \<subseteq> live_space s"
  "x \<in> live_of s \<Longrightarrow> space (dsk s) x \<subseteq> live_space s"
  by (auto simp: live_space_def space_def)

lemma map_step_space:
  assumes "map_step s s'" "fs_inv s"
  shows "live_space s' = live_space s"
proof -
  have "space (dsk s') x = space (dsk s) x" if "x \<in> live_of s" for x
    using map_step_frame(3) [OF assms, of x] that by (simp add: space_def)
  then show ?thesis using map_step_frame(1) [OF assms] by (simp add: live_space_def)
qed

lemma fs_good_shrink: "fs_good N D ns M \<Longrightarrow> (\<Union>x \<in> live D ns. space D x) \<subseteq> M' \<Longrightarrow> fs_good N D ns M'"
  using layout_mono [of N D "live D ns" M "live D ns" M'] by (simp add: fs_good_def)

lemma fs_release:
  assumes "fs_inv s" "i + n \<le> fs_units s" "{i..<i + n} \<subseteq> marked (free_map s)" "{i..<i + n} \<inter> live_space s = {}"
  shows "\<exists>s'. free_map_release i n s = Inr s' \<and> fs_inv s' \<and> map_step s s' \<and> marked (free_map s') = marked (free_map s) - {i..<i + n}"
proof -
  obtain f ino where m: "map_ok s" "map_file_ok f ino s" "i_data ino = di (dsk s) 0" "marked (free_map s) \<subseteq> disk_marks (map_bytes ino s)"
    using fs_inv_map_file [OF assms(1)] .
  obtain s' where r: "free_map_release i n s = Inr s'" "map_ok s'" "only_map (di (dsk s) 0) s s'"
      "marked (free_map s') = marked (free_map s) - {i..<i + n}" "map_bytes ino s' = bitmap_bytes (free_map s')"
    using free_map_release_result [OF m(1,2,4) assms(2) [unfolded fs_units_def] assms(3)]
      malloc_ok(1) [OF fs_inv_opens(2) [OF assms(1)]] unfolding m(3) by blast
  have st: "map_step s s'" by (rule only_map_step [OF r(3) fs_inv_opens(2) [OF assms(1)] m(1) r(2)])
  then have o: "open_inodes s' = open_inodes s" by (simp add: map_step_def)
  have "bit_cnt (free_map s') = bit_cnt (free_map s)"
    using r(2) m(1) st by (simp add: map_ok_def map_step_def fs_units_def)
  moreover have "data_of (dsk s') 0 = bitmap_bytes (free_map s')"
    using r(5) contents_bytes_of [of s' "di (dsk s) 0"] map_step_frame(3) [OF st assms(1), of 0] linked_live(2) [of s]
    by (simp add: map_bytes_def data_of_def m(3))
  moreover have "fs_good (fs_units s) (dsk s') (open_inodes s) (marked (free_map s'))"
  proof (rule fs_good_shrink [OF map_step_frame(5) [OF st assms(1) subset_refl]])
    have "(\<Union>x \<in> live (dsk s') (open_inodes s). space (dsk s') x) = live_space s'" by (simp add: live_space_def live_of_def o)
    then show "(\<Union>x \<in> live (dsk s') (open_inodes s). space (dsk s') x) \<subseteq> marked (free_map s')"
      using map_step_space [OF st assms(1)] live_space_marked [OF assms(1)] assms(4) r(4) by auto
  qed
  ultimately have "fs_inv s'" using map_step_inv [OF st assms(1) r(2)] by blast
  then show ?thesis using r(1,4) st by blast
qed

section \<open>Creating an inode\<close>

lemma bytes_of_zeros:
  assumes "\<And>i. i \<in> region d \<Longrightarrow> D i = replicate 512 0" "fits N d"
  shows "bytes_of D d = replicate (nat (i_length d)) 0"
proof -
  have z: "concat (map (\<lambda>_. replicate 512 (0 :: byte)) xs) = replicate (512 * length xs) 0" for xs :: "nat list"
    by (induction xs) (simp_all add: replicate_add [symmetric])
  have m: "map D [i_start d..<i_start d + bytes_to_sectors (i_length d)]
      = map (\<lambda>_. replicate 512 0) [i_start d..<i_start d + bytes_to_sectors (i_length d)]"
    using assms(1) by (intro map_cong) (auto simp: region_def)
  have "nat (i_length d) \<le> 512 * bytes_to_sectors (i_length d)"
  proof -
    have "nat (i_length d) \<le> 2 ^ 31 - 512" using assms(2) by (auto simp: fits_def)
    from bytes_to_sectors_nat [OF this] have "bytes_to_sectors (i_length d) = (nat (i_length d) + 511) div 512"
      using assms(2) by (simp add: fits_def)
    then show ?thesis using sectors_cover(1) [of "nat (i_length d)"] by simp
  qed
  then show ?thesis unfolding bytes_of_def m z by simp
qed

text \<open>Sectors outside every inode and file can be written freely.\<close>

lemma free_write:
  assumes "fs_inv s" "dev_step s s'" "\<forall>i. i \<notin> A \<longrightarrow> dsk s' i = dsk s i" "A \<inter> live_space s = {}"
  shows "fs_inv s'" "live_of s' = live_of s" "names_of (dsk s') = names_of (dsk s)" "live_space s' = live_space s"
    "x \<in> live_of s \<Longrightarrow> di (dsk s') x = di (dsk s) x \<and> data_of (dsk s') x = data_of (dsk s) x"
proof -
  have A: "A \<inter> live_of s = {}" "x \<in> live_of s \<Longrightarrow> A \<inter> region (di (dsk s) x) = {}" "x \<in> live_of s \<Longrightarrow> A \<inter> space (dsk s) x = {}" for x
    using assms(4) live_in_space by blast+
  note o = dev_step_fields(3) [OF assms(2) fs_inv_opens(2) [OF assms(1)]]
  show "fs_inv s'" by (rule fs_inv_step [OF assms(1-3)]) (use A linked_live(2,3) in \<open>auto simp: live_of_def\<close>)
  have one: "A \<inter> space (dsk s) 1 = {}" using A(3) linked_live(3) by blast
  show l: "live_of s' = live_of s" and "names_of (dsk s') = names_of (dsk s)"
    using names_frame [OF assms(3) one] o by (simp_all add: live_of_def live_def)
  have d: "di (dsk s') x = di (dsk s) x" if "x \<in> live_of s" for x using di_frame [OF assms(3)] A(1) that by blast
  then show "live_space s' = live_space s" by (simp add: live_space_def l space_def)
  show "di (dsk s') x = di (dsk s) x \<and> data_of (dsk s') x = data_of (dsk s) x" if "x \<in> live_of s"
    using d [OF that] data_frame [OF assms(3) A(3) [OF that]] by simp
qed

text \<open>Writing a new inode and clearing its data.\<close>

lemma new_inode:
  assumes "fs_base t" "x < fs_units t" "start + bytes_to_sectors len \<le> fs_units t" "0 \<le> len" "len \<le> 2 ^ 31 - 512"
  defines "d \<equiv> \<lparr>i_start = start, i_length = len, i_magic = INODE_MAGIC\<rparr>"
  assumes "x \<notin> region d"
  shows "\<exists>v. bindR (fs_write x (inode_disk_bytes d) t) (zero_sectors (bytes_to_sectors len) start) = Inr v \<and> dev_step t v
    \<and> (\<forall>i. i \<notin> insert x (region d) \<longrightarrow> dsk v i = dsk t i) \<and> di (dsk v) x = d \<and> data_of (dsk v) x = replicate (nat len) 0"
proof -
  let ?n = "bytes_to_sectors len"
  have "start < 2 ^ 32" "INODE_MAGIC < 2 ^ 32" "in_s32 len"
    using assms(3) dev_size_small [of "fs_device t" "blks t"] assms(1,4,5)
    by (simp_all add: fs_base_def fs_units_def INODE_MAGIC_def in_s32_def)
  then have rt: "bytes_inode_disk (inode_disk_bytes d) = d" "length (inode_disk_bytes d) = BLOCK_SECTOR_SIZE"
    using inode_disk_roundtrip [of d] by (simp_all add: d_def)
  obtain u where u: "fs_write x (inode_disk_bytes d) t = Inr u" "dev_step t u" "dsk u = (dsk t)(x := inode_disk_bytes d)"
    using fs_write_ok [OF assms(1,2) rt(2)] by auto
  note fu = dev_step_fields [OF u(2) assms(1)]
  obtain v where v: "zero_sectors ?n start u = Inr v" "dev_step u v"
      "dsk v = (\<lambda>i. if i \<in> {start..<start + ?n} then replicate 512 0 else dsk u i)"
    using zero_sectors_ok [OF fu(1), of start ?n] assms(3) fu(6) by auto
  have r: "region d = {start..<start + ?n}" by (simp add: region_def d_def)
  have "\<forall>i. i \<notin> insert x (region d) \<longrightarrow> dsk v i = dsk t i" unfolding v(3) u(3) r by simp
  moreover have dx: "di (dsk v) x = d" using assms(7) rt(1) unfolding di_def v(3) u(3) r by auto
  moreover have "fits (fs_units t) d" using assms(3-5) by (simp add: fits_def d_def)
  then have "data_of (dsk v) x = replicate (nat len) 0"
    unfolding data_of_def dx using bytes_of_zeros [of d "dsk v"] v(3) r by (simp add: d_def)
  ultimately show ?thesis using u(1) v(1) dev_step_trans [OF u(2) v(2)] by auto
qed

lemma inode_create_ok:
  assumes "fs_inv s" "x < fs_units s" "x \<in> marked (free_map s)" "x \<notin> live_space s" "0 \<le> len" "len \<le> 2 ^ 31 - 512"
  shows "\<exists>ok s'. inode_create x len s = Inr (ok, s') \<and> fs_inv s' \<and> fs_units s' = fs_units s \<and> open_inodes s' = open_inodes s
    \<and> free_map_file s' = free_map_file s \<and> live_of s' = live_of s \<and> live_space s' = live_space s \<and> names_of (dsk s') = names_of (dsk s)
    \<and> (\<forall>y \<in> live_of s. di (dsk s') y = di (dsk s) y \<and> (y \<noteq> 0 \<longrightarrow> data_of (dsk s') y = data_of (dsk s) y))
    \<and> (if ok
        then i_length (di (dsk s') x) = len \<and> fits (fs_units s) (di (dsk s') x) \<and> data_of (dsk s') x = replicate (nat len) 0
          \<and> region (di (dsk s') x) \<inter> marked (free_map s) = {} \<and> marked (free_map s') = marked (free_map s) \<union> region (di (dsk s') x)
        else s' = s \<and> (\<forall>i. \<not> group_at (free_map s) i (bytes_to_sectors len) False))"
proof -
  let ?n = "bytes_to_sectors len"
  note b = fs_inv_opens(2) [OF assms(1)]
  obtain r t where t: "free_map_allocate ?n s = Inr (r, t)" "fs_inv t" "map_step s t"
    and c: "case r of
         Some i \<Rightarrow> i + ?n \<le> fs_units s \<and> marked (free_map s) \<inter> {i..<i + ?n} = {} \<and> marked (free_map t) = marked (free_map s) \<union> {i..<i + ?n}
       | None \<Rightarrow> t = s \<and> (\<forall>i. \<not> group_at (free_map s) i ?n False)"
    using fs_allocate [OF assms(1), of ?n] by blast
  show ?thesis
  proof (cases r)
    case None
    then have "inode_create x len s = Inr (False, s)"
      using t(1) c malloc_ok(2) [OF b] assms(5) by (simp add: inode_create_def)
    then show ?thesis using assms(1) c None by auto
  next
    case (Some start)
    let ?d = "\<lparr>i_start = start, i_length = len, i_magic = INODE_MAGIC\<rparr>"
    have g: "start + ?n \<le> fs_units s" "marked (free_map s) \<inter> region ?d = {}" "marked (free_map t) = marked (free_map s) \<union> region ?d"
      using c Some by (simp_all add: region_def)
    have ft: "fs_base t" "fs_units t = fs_units s" "open_inodes t = open_inodes s" "free_map_file t = free_map_file s"
      using t(3) by (simp_all add: map_step_def)
    let ?A = "insert x (region ?d)"
    have xr: "x \<notin> region ?d" using assms(3) g(2) by blast
    obtain v where v: "bindR (fs_write x (inode_disk_bytes ?d) t) (zero_sectors ?n start) = Inr v" and tv: "dev_step t v"
      and ag: "\<forall>i. i \<notin> ?A \<longrightarrow> dsk v i = dsk t i" and dx: "di (dsk v) x = ?d" and data: "data_of (dsk v) x = replicate (nat len) 0"
      using new_inode [OF ft(1) _ _ assms(5,6) xr] assms(2) g(1) ft(2) by auto
    have eq: "inode_create x len s = Inr (True, v)"
      using t(1) Some malloc_ok(2) [OF b] assms(5) v by (auto simp: inode_create_def)
    note fv = dev_step_fields [OF tv ft(1)]
    have A: "?A \<inter> live_space t = {}"
      unfolding map_step_space [OF t(3) assms(1)] using assms(4) g(2) live_space_marked [OF assms(1)] by blast
    note w = free_write [OF t(2) tv ag A]
    have fit: "fits (fs_units s) ?d" using g(1) assms(5,6) by (simp add: fits_def)
    have "di (dsk v) y = di (dsk s) y \<and> (y \<noteq> 0 \<longrightarrow> data_of (dsk v) y = data_of (dsk s) y)" if "y \<in> live_of s" for y
      using w(5) [of y] map_step_frame(1) [OF t(3) assms(1)] map_step_frame(3,4) [OF t(3) assms(1), of y] that by auto
    then show ?thesis
      using eq data w(1-4) fv ft map_step_frame(1,2) [OF t(3) assms(1)] map_step_space [OF t(3) assms(1)] dx fit g(2,3)
      by (intro exI [of _ True] exI [of _ v]) auto
  qed
qed

section \<open>The root directory\<close>

lemma fs_inv_root:
  assumes "fs_inv s" "dev_step s s'" "\<forall>i. i \<notin> region (di (dsk s) 1) \<longrightarrow> dsk s' i = dsk s i"
    and "tree_ok (dsk s')" "opens_ok (dsk s') (open_inodes s)" "layout (fs_units s) (dsk s') (live (dsk s') (open_inodes s)) (marked (free_map s))"
  shows "fs_inv s'"
proof -
  have b: "fs_base s" and m: "map_ok s" "map_good s" using assms(1) by (simp_all add: fs_inv_def)
  note f = dev_step_fields [OF assms(2) b]
  have "region (di (dsk s) 1) \<inter> space (dsk s) 0 = {}"
    using layout_apart(3) [OF fs_inv_layout [OF assms(1)] linked_live(3) linked_live(2)] by simp
  then have "di (dsk s') 0 = di (dsk s) 0" "data_of (dsk s') 0 = data_of (dsk s) 0"
    using di_frame [OF assms(3)] data_frame [OF assms(3)] by (auto simp: space_def)
  then have "map_good s'" using m(2) f get_inode_step [OF assms(2) b] by (simp add: map_good_def)
  moreover have "map_ok s'" using m(1) f(1,2,4,6) by (simp add: map_ok_def fs_base_def fs_units_def)
  ultimately show ?thesis using assms(4-6) f by (simp add: fs_inv_def fs_good_def)
qed

lemma root_write_frame:
  assumes "fs_inv s" "\<forall>i. i \<notin> region (di (dsk s) 1) \<longrightarrow> dsk s' i = dsk s i"
  shows "x \<in> live_of s \<Longrightarrow> di (dsk s') x = di (dsk s) x" "x \<in> live_of s \<Longrightarrow> x \<noteq> 1 \<Longrightarrow> data_of (dsk s') x = data_of (dsk s) x"
    "space (dsk s) x \<inter> live_space s = {} \<Longrightarrow> di (dsk s') x = di (dsk s) x \<and> data_of (dsk s') x = data_of (dsk s) x"
proof -
  note l = fs_inv_layout [OF assms(1)]
  have r: "region (di (dsk s) 1) \<subseteq> live_space s" using live_in_space(2) linked_live(3) by blast
  show "di (dsk s') x = di (dsk s) x" if "x \<in> live_of s"
    using di_frame [OF assms(2)] layout_apart(1) [OF l linked_live(3)] that by blast
  show "data_of (dsk s') x = data_of (dsk s) x" if "x \<in> live_of s" "x \<noteq> 1"
    using data_frame [OF assms(2)] layout_apart(3) [OF l linked_live(3) that(1)] that(2) by blast
  show "di (dsk s') x = di (dsk s) x \<and> data_of (dsk s') x = data_of (dsk s) x" if "space (dsk s) x \<inter> live_space s = {}"
  proof -
    have "region (di (dsk s) 1) \<inter> space (dsk s) x = {}" using that r by blast
    then show ?thesis using di_frame [OF assms(2), of x] data_frame [OF assms(2), of x] by (auto simp: space_def)
  qed
qed

text \<open>A state in which the root directory is open.\<close>

lemma root_reads:
  assumes "fs_inv s" "get_inode 1 s = Inr n"
  shows "reads 1 (data_of (dsk s) 1) s" "deny_write_cnt n = 0" "i_data n = di (dsk s) 1" "inode_length n = int (length (data_of (dsk s) 1))"
proof -
  note n = fs_inv_get [OF assms]
  show "reads 1 (data_of (dsk s) 1) s"
    using assms n(4,5) fs_inv_opens(2) [OF assms(1)] by (auto simp: reads_def data_of_def)
  show "deny_write_cnt n = 0" using fs_inv_opens(1) [OF assms(1)] n(1,2) by (auto simp: opens_ok_def open_ok_def)
  show "i_data n = di (dsk s) 1" by (rule n(4))
  then show "inode_length n = int (length (data_of (dsk s) 1))"
    using length_bytes_of [OF fs_inv_opens(2) [OF assms(1)] n(5)] n(5) by (simp add: data_of_def inode_length_def fits_def)
qed

lemma root_write:
  assumes "fs_inv s" "get_inode 1 s = Inr n" "pos \<le> length (data_of (dsk s) 1)" "length e = 20"
  defines "k \<equiv> min 20 (length (data_of (dsk s) 1) - pos)"
  shows "\<exists>s'. write_at 1 e (sint (of_nat pos :: 32 word)) s = Inr (int k, s') \<and> dev_step s s'
    \<and> (\<forall>i. i \<notin> region (di (dsk s) 1) \<longrightarrow> dsk s' i = dsk s i)
    \<and> data_of (dsk s') 1 = overwrite pos (take k e) (data_of (dsk s) 1)"
proof -
  note r = root_reads [OF assms(1,2)]
  have p: "pos < 2 ^ 31" using assms(3) reads_length [OF r(1)] by simp
  obtain s' where s': "write_at 1 e (int pos) s = Inr (int k, s')" "dev_step s s'"
      "bytes_of (dsk s') (di (dsk s) 1) = overwrite pos (take k e) (bytes_of (dsk s) (di (dsk s) 1))"
      "\<forall>j. j \<notin> region (di (dsk s) 1) \<longrightarrow> dsk s' j = dsk s j"
    using write_at_ok [OF fs_inv_opens(2) [OF assms(1)] assms(2) fs_inv_get(5) [OF assms(1,2)] p r(2), of e] assms(4)
    unfolding r(3,4) k_def by auto
  have "di (dsk s') 1 = di (dsk s) 1" by (rule root_write_frame(1) [OF assms(1) s'(4) linked_live(3)])
  then show ?thesis using s' sint_of_nat [OF p] by (auto simp: data_of_def)
qed

lemma new_entry:
  assumes "length e0 = 20" "0 \<notin> set name" "length name \<le> 14" "x < 2 ^ 32"
  obtains e where "set_entry_name name (set_in_use True e0) = Inr e" "entry_ok (overwrite 0 (word_bytes (of_nat x)) e)"
    "entry_name (overwrite 0 (word_bytes (of_nat x)) e) = name" "in_use (overwrite 0 (word_bytes (of_nat x)) e)"
    "inode_sector (overwrite 0 (word_bytes (of_nat x)) e) = x"
proof -
  have "length (set_in_use True e0) = 20" using assms(1) by (simp add: set_in_use_def)
  from set_entry_name_ok [OF this assms(2,3)] obtain e where e: "set_entry_name name (set_in_use True e0) = Inr e"
      "entry_ok e" "entry_name e = name" "e ! 19 = set_in_use True e0 ! 19" by blast
  let ?e = "overwrite 0 (word_bytes (of_nat x)) e"
  have l: "length e = 20" using e(2) by (simp add: entry_ok_def)
  have d: "drop 4 ?e = drop 4 e" "take 4 ?e = word_bytes (of_nat x)" by (simp_all add: overwrite_def)
  have "?e ! 19 = e ! 19" using l by (simp add: nth_overwrite)
  then have "in_use ?e" using e(4) assms(1) by (simp add: in_use_def set_in_use_def)
  moreover have "unat (of_nat x :: 32 word) = x" using assms(4) by (simp add: unat_of_nat)
  then have "inode_sector ?e = x" by (simp add: inode_sector_def d bytes_word_word_bytes)
  ultimately show thesis using that [OF e(1)] e(2,3) l by (simp add: entry_ok_def entry_name_def d)
qed

lemma same_slots:
  assumes "slot_cnt bs' = slot_cnt bs" "\<And>k. k < slot_cnt bs \<Longrightarrow> slot bs' k = slot bs k"
  shows "dir_names bs' = dir_names bs" "dir_ok bs' = dir_ok bs"
proof -
  have f: "find P [0..<slot_cnt bs] = find Q [0..<slot_cnt bs]" if "\<forall>k < slot_cnt bs. P k = Q k" for P Q
    using that by (intro find_cong) simp_all
  show "dir_names bs' = dir_names bs"
  proof
    fix nm
    have eq: "find (\<lambda>k. used_for nm (slot bs' k)) [0..<slot_cnt bs] = find (\<lambda>k. used_for nm (slot bs k)) [0..<slot_cnt bs]"
      using assms(2) by (intro f) simp
    show "dir_names bs' nm = dir_names bs nm"
    proof (cases "find (\<lambda>k. used_for nm (slot bs k)) [0..<slot_cnt bs]")
      case (Some k)
      then have "k < slot_cnt bs" by (auto simp: find_Some_iff)
      then show ?thesis unfolding dir_names_def assms(1) eq Some using assms(2) by simp
    qed (simp add: dir_names_def assms(1) eq)
  qed
  show "dir_ok bs' = dir_ok bs" using assms by (simp add: dir_ok_def)
qed

lemma tail_slots:
  assumes "20 * slot_cnt bs + length e \<le> length bs"
  shows "slot_cnt (overwrite (20 * slot_cnt bs) e bs) = slot_cnt bs"
    "k < slot_cnt bs \<Longrightarrow> slot (overwrite (20 * slot_cnt bs) e bs) k = slot bs k"
proof -
  show "slot_cnt (overwrite (20 * slot_cnt bs) e bs) = slot_cnt bs" using assms by (simp add: slot_cnt_def)
  assume k: "k < slot_cnt bs"
  have "take (20 * k + 20) (overwrite (20 * slot_cnt bs) e bs) = take (20 * k + 20) bs"
    using k slot_in [OF k] assms by (simp add: overwrite_def min_def)
  then show "slot (overwrite (20 * slot_cnt bs) e bs) k = slot bs k"
    unfolding slot_def by (metis take_drop add.commute)
qed

text \<open>A root directory with the same entries.\<close>

lemma root_same_names:
  assumes "fs_inv s" "dev_step s s'" "\<forall>i. i \<notin> region (di (dsk s) 1) \<longrightarrow> dsk s' i = dsk s i"
    and "dir_names (data_of (dsk s') 1) = dir_names (data_of (dsk s) 1)" "dir_ok (data_of (dsk s') 1) = dir_ok (data_of (dsk s) 1)"
  shows "fs_inv s'" "names_of (dsk s') = names_of (dsk s)" "live_of s' = live_of s"
proof -
  have l: "linked (dsk s') = linked (dsk s)" "names_of (dsk s') = names_of (dsk s)" using assms(4) by (simp_all add: linked_def names_of_def)
  then have v: "live (dsk s') (open_inodes s) = live_of s" by (simp add: live_of_def live_def)
  then show "names_of (dsk s') = names_of (dsk s)" "live_of s' = live_of s"
    using l dev_step_fields(3) [OF assms(2) fs_inv_opens(2) [OF assms(1)]] by (simp_all add: live_of_def)
  have d: "di (dsk s') x = di (dsk s) x" if "x \<in> live_of s" for x by (rule root_write_frame(1) [OF assms(1,3) that])
  have t: "tree_ok (dsk s)" using assms(1) by (simp add: fs_inv_def fs_good_def)
  show "fs_inv s'"
  proof (rule fs_inv_root [OF assms(1-3)])
    show "tree_ok (dsk s')" using t assms(5) l by (simp add: tree_ok_def)
    show "opens_ok (dsk s') (open_inodes s)"
      using fs_inv_opens(1) [OF assms(1)] d l by (auto simp: opens_ok_def open_ok_def live_of_def live_def)
    show "layout (fs_units s) (dsk s') (live (dsk s') (open_inodes s)) (marked (free_map s))"
      unfolding v using fs_inv_layout [OF assms(1)] d by (simp add: layout_def space_def)
  qed
qed

section \<open>A formatted disk\<close>

lemma empty_slots:
  assumes "data_of D 1 = replicate 320 0"
  shows "slot_cnt (data_of D 1) = 16" "k < 16 \<Longrightarrow> \<not> in_use (slot (data_of D 1) k)"
  unfolding assms by (simp_all add: slot_def in_use_def slot_cnt_def)

lemma empty_dir:
  assumes "data_of D 1 = replicate 320 0"
  shows "names_of D = Map.empty" "tree_ok D"
proof -
  note e = empty_slots [OF assms]
  have "find (\<lambda>k. used_for name (slot (data_of D 1) k)) [0..<16] = None" for name
    using e(2) by (simp add: find_None_iff used_for_def del: One_nat_def) blast
  then show n: "names_of D = Map.empty" using e(1) by (simp add: fun_eq_iff names_of_def dir_names_def)
  have "dir_ok (data_of D 1)" using e unfolding dir_ok_def by simp
  then show "tree_ok D" by (simp add: tree_ok_def n)
qed

lemma mounted_disk: "dsk (mounted ms) = formatted" "fs_units (mounted ms) = 100"
  using formatted_dev(2) by (auto simp: dsk_def fs_units_def mounted_def formatted_sector)

lemma formatted_di: "di formatted 0 = \<lparr>i_start = 2, i_length = 16, i_magic = INODE_MAGIC\<rparr>"
  "di formatted (Suc 0) = \<lparr>i_start = 3, i_length = 320, i_magic = INODE_MAGIC\<rparr>"
  using inode_disk_roundtrip(1) by (simp_all add: di_def formatted_def INODE_MAGIC_def in_s32_def)

lemma sectors_16_320: "bytes_to_sectors 16 = 1" "bytes_to_sectors 320 = 1"
  using bytes_to_sectors_nat [of 16] bytes_to_sectors_nat [of 320] by simp_all

lemma formatted_space: "space formatted 0 = {0, 2}" "space formatted (Suc 0) = {1, 3}"
  by (auto simp: space_def formatted_di region_def sectors_16_320)

lemma formatted_data: "data_of formatted 1 = replicate 320 0"
  by (simp add: data_of_def bytes_of_def formatted_di sectors_16_320) (simp add: formatted_def)

lemma formatted_unused: "slot_cnt (data_of formatted 1) = 16" "k < 16 \<Longrightarrow> \<not> in_use (slot (data_of formatted 1) k)"
  using empty_slots [OF formatted_data] by simp_all

lemma formatted_names: "names_of formatted = Map.empty"
  using empty_dir [OF formatted_data] by simp

lemma mounted_marked: "marked (free_map (mounted ms)) = {0, 1, 2, 3}"
proof -
  have b: "nth_bit \<lparr>bit_cnt = 100, bm_bits = [15, 0, 0, 0]\<rparr> i \<longleftrightarrow> i < 4" if "i < 100" for i
  proof (cases "i < 32")
    case True
    have "bit (15 :: 32 word) i \<longleftrightarrow> i < 4"
      using bit_mask_iff [where 'a = "32 word", of 4 i] True by (simp add: mask_numeral)
    then show ?thesis using True by (simp add: nth_bit_def)
  next
    case False
    then have "i div 32 \<in> {1, 2, 3}" using that by auto
    then have "[15, 0, 0, 0] ! (i div 32) = (0 :: 32 word)" by auto
    then show ?thesis using False by (simp only: nth_bit_def bitmap.simps) simp
  qed
  then show ?thesis by (auto simp: marked_def mounted_def)
qed

lemma mounted_map_good: "map_good (mounted [])"
proof -
  have "data_of (dsk (mounted [])) 0 = contents (formatted_disk []) 0 \<lparr>i_start = 2, i_length = 16, i_magic = INODE_MAGIC\<rparr>"
    using contents_bytes_of [of "mounted []"] by (simp add: data_of_def mounted_disk formatted_di) (simp add: mounted_def)
  then have "disk_marks (data_of (dsk (mounted [])) 0) \<inter> {..<100} = marked (free_map (mounted []))"
    using marked_disk_marks [OF formatted_map(1)] formatted_map(2) [of "[]"] by (simp add: mounted_def)
  then show ?thesis
    unfolding map_good_def mounted_disk formatted_di
    by (simp add: mounted_def get_inode_def byte_cnt_def elem_cnt_def szadd_def ELEM_BITS_def DIV_ROUND_UP_def)
qed

lemma mounted_inv: "fs_inv (mounted [])"
proof -
  have l: "linked formatted = {0, 1}" by (simp add: linked_def formatted_names)
  have lv: "live formatted (open_inodes (mounted [])) = {0, 1}" by (auto simp: live_def l mounted_def)
  have "layout 100 formatted {0, 1} {0, 1, 2, 3}"
    by (auto simp: layout_def formatted_space formatted_di fits_def region_def sectors_16_320)
  moreover have "tree_ok formatted" by (rule empty_dir(2) [OF formatted_data])
  moreover have "opens_ok formatted (open_inodes (mounted []))"
    by (simp add: opens_ok_def open_ok_def mounted_def formatted_di l)
  ultimately show ?thesis
    using mounted_map(1) [of "[]"] mounted_map_good formatted_dev(1) [of "[]"]
    by (simp add: fs_inv_def fs_good_def fs_base_def mounted_disk mounted_marked lv) (simp add: mounted_def formatted_disk_def)
qed

lemma mounted_group: "4 + n \<le> 100 \<Longrightarrow> group_at (free_map (mounted ms)) 4 n False"
  by (simp add: group_at_free mounted_marked) (simp add: mounted_def)

lemma mounted_room: "open_room (mounted ms)"
  by (simp add: open_room_def mounted_def)

end
