(* ===== verification/Fs_Names.thy ===== *)
theory Fs_Names
  imports Fs_Invariant
begin

text \<open>
  Files by name: what adding an entry to the root directory and creating a file do to the files of the
  file system.
\<close>

section \<open>Adding an entry\<close>

text \<open>An inode that is complete but not linked yet.\<close>

definition unlinked :: "nat \<Rightarrow> fsys \<Rightarrow> bool" where
  "unlinked x s \<longleftrightarrow> x < fs_units s \<and> fits (fs_units s) (di (dsk s) x) \<and> x \<notin> region (di (dsk s) x)
     \<and> space (dsk s) x \<subseteq> marked (free_map s) \<and> space (dsk s) x \<inter> live_space s = {}"

lemma unlinked_small: "unlinked x s \<Longrightarrow> fs_inv s \<Longrightarrow> x < 2 ^ 32 \<and> x \<notin> live_of s"
  using dev_size_small [of "fs_device s" "blks s"] fs_inv_opens(2) [of s] live_in_space(1) [of s]
  by (auto simp: unlinked_def fs_base_def fs_units_def space_def)

text \<open>The directory with one more entry.\<close>

lemma root_new_name:
  assumes "fs_inv s" "dev_step s s'" "\<forall>i. i \<notin> region (di (dsk s) 1) \<longrightarrow> dsk s' i = dsk s i" "unlinked x s"
    and "dir_ok (data_of (dsk s') 1)" "names_of (dsk s') = (names_of (dsk s))(name \<mapsto> x)" "names_of (dsk s) name = None"
  shows "fs_inv s'" "live_of s' = insert x (live_of s)"
proof -
  note x = unlinked_small [OF assms(4,1)]
  note d = root_write_frame(1) [OF assms(1,3)]
  have dx: "di (dsk s') x = di (dsk s) x" using root_write_frame(3) [OF assms(1,3)] assms(4) by (simp add: unlinked_def)
  have ran: "ran (names_of (dsk s')) = insert x (ran (names_of (dsk s)))" using assms(6,7) by (simp add: ran_map_upd)
  then have l: "linked (dsk s') = insert x (linked (dsk s))" by (auto simp: linked_def)
  have v: "live (dsk s') (open_inodes s) = insert x (live_of s)" unfolding live_def l by (auto simp: live_of_def live_def)
  then show "live_of s' = insert x (live_of s)"
    using dev_step_fields(3) [OF assms(2) fs_inv_opens(2) [OF assms(1)]] by (simp add: live_of_def)
  have t: "tree_ok (dsk s)" using assms(1) by (simp add: fs_inv_def fs_good_def)
  have "x \<notin> linked (dsk s)" using x linked_live(1) by blast
  then have nx: "x \<notin> ran (names_of (dsk s))" "x \<noteq> 0" "x \<noteq> 1" by (simp_all add: linked_def)
  show "fs_inv s'"
  proof (rule fs_inv_root [OF assms(1-3)])
    have "inj_on (names_of (dsk s')) (dom (names_of (dsk s')))"
      using t nx(1) unfolding assms(6) tree_ok_def inj_on_def by (auto simp: ran_def dom_def)
    then show "tree_ok (dsk s')" using t assms(5) ran nx by (simp add: tree_ok_def)
    have "n \<in> set (open_inodes s) \<Longrightarrow> i_sector n \<noteq> x" for n using x by (auto simp: live_of_def live_def)
    then show "opens_ok (dsk s') (open_inodes s)"
      using fs_inv_opens(1) [OF assms(1)] d l by (auto simp: opens_ok_def open_ok_def live_of_def live_def)
    have "layout (fs_units s) (dsk s') (live_of s) (marked (free_map s))"
      using fs_inv_layout [OF assms(1)] d by (simp add: layout_def space_def)
    then show "layout (fs_units s) (dsk s') (live (dsk s') (open_inodes s)) (marked (free_map s))"
      unfolding v using assms(4) dx d by (intro layout_insert) (auto simp: unlinked_def space_def live_space_def)
  qed
qed

text \<open>What an operation on the directory leaves alone.\<close>

definition root_step :: "fsys \<Rightarrow> fsys \<Rightarrow> bool" where
  "root_step s s' \<longleftrightarrow> fs_units s' = fs_units s \<and> open_inodes s' = open_inodes s \<and> free_map s' = free_map s
     \<and> free_map_file s' = free_map_file s
     \<and> (\<forall>y. y \<in> live_of s \<or> unlinked y s \<longrightarrow> di (dsk s') y = di (dsk s) y \<and> (y \<noteq> 1 \<longrightarrow> data_of (dsk s') y = data_of (dsk s) y))"

lemma root_stepI:
  assumes "fs_inv s" "dev_step s s'" "\<forall>i. i \<notin> region (di (dsk s) 1) \<longrightarrow> dsk s' i = dsk s i"
  shows "root_step s s'"
  using dev_step_fields [OF assms(2) fs_inv_opens(2) [OF assms(1)]] root_write_frame [OF assms(1,3)]
  by (auto simp: root_step_def unlinked_def)

lemma dev_step_inv:
  assumes "fs_inv s" "dev_step s s'" "dsk s' = dsk s"
  shows "fs_inv s'" "root_step s s'" "names_of (dsk s') = names_of (dsk s)" "live_of s' = live_of s" "unlinked x s' = unlinked x s"
proof -
  note f = dev_step_fields [OF assms(2) fs_inv_opens(2) [OF assms(1)]]
  show "fs_inv s'" by (rule fs_inv_step [OF assms(1,2), of "{}"]) (simp_all add: assms(3))
  show "root_step s s'" by (rule root_stepI [OF assms(1,2)]) (simp add: assms(3))
  show "names_of (dsk s') = names_of (dsk s)" "live_of s' = live_of s" using f assms(3) by (simp_all add: live_of_def)
  then show "unlinked x s' = unlinked x s" using f assms(3) by (simp add: unlinked_def live_space_def)
qed

lemma root_step_trans:
  assumes "root_step s t" "root_step t u" "live_of t = live_of s" "\<And>x. unlinked x t = unlinked x s"
  shows "root_step s u"
  using assms by (simp add: root_step_def)

lemma dir_add_ok:
  assumes "fs_inv s" "get_inode 1 s = Inr n" "d_inode d = 1" "0 \<notin> set name" "length stack = 20" "unlinked x s"
  shows "\<exists>ok s'. dir_add stack d name x s = Inr (ok, s') \<and> fs_inv s' \<and> root_step s s'
    \<and> (if ok
        then names_of (dsk s) name = None \<and> name \<noteq> [] \<and> length name \<le> NAME_MAX
          \<and> names_of (dsk s') = (names_of (dsk s))(name \<mapsto> x) \<and> live_of s' = insert x (live_of s)
        else names_of (dsk s') = names_of (dsk s) \<and> live_of s' = live_of s
          \<and> (name = [] \<or> length name > NAME_MAX \<or> names_of (dsk s) name \<noteq> None
              \<or> (\<forall>k < slot_cnt (data_of (dsk s) 1). in_use (slot (data_of (dsk s) 1) k))))"
proof (cases "name = [] \<or> length name > NAME_MAX")
  case True
  then show ?thesis using assms(1) by (auto simp: dir_add_def root_step_def)
next
  case False
  let ?bs = "data_of (dsk s) 1"
  have "tree_ok (dsk s)" using assms(1) by (simp add: fs_inv_def fs_good_def)
  then have dir: "dir_ok ?bs" by (simp add: tree_ok_def)
  note rd = root_reads(1) [OF assms(1,2)]
  obtain r t where r: "lookup d name s = Inr (r, t)" "dev_step s t" "dsk t = dsk s"
      "case r of None \<Rightarrow> dir_names ?bs name = None | Some (e, ofs) \<Rightarrow> dir_names ?bs name = Some (inode_sector e)"
    using lookup_ok [of d ?bs s name] rd dir assms(3,4) by (auto split: option.splits)
  note t = dev_step_inv [OF assms(1) r(2,3)]
  show ?thesis
  proof (cases r)
    case (Some p)
    then have "names_of (dsk s) name \<noteq> None" using r(4) by (auto simp: names_of_def split: prod.splits)
    moreover have "dir_add stack d name x s = Inr (False, t)" using r(1) False Some by (simp add: dir_add_def)
    ultimately show ?thesis using t by (intro exI [of _ False] exI [of _ t]) simp
  next
    case None
    have new: "names_of (dsk s) name = None" using r(4) None by (simp add: names_of_def)
    obtain j e0 u where u: "j = j" "free_slot 1 0 stack t = Inr (of_nat (20 * j), e0, u)" "dev_step t u" "dsk u = dsk t" "length e0 = 20" "j \<le> slot_cnt ?bs"
        "j < slot_cnt ?bs \<longrightarrow> \<not> in_use (slot ?bs j)" "\<forall>m. m < j \<longrightarrow> in_use (slot ?bs m)"
      using free_slot_ok [OF reads_step [OF rd r(2,3)], of 0 stack] assms(5) by auto
    note su = dev_step_trans [OF r(2) u(3)]
    have du: "dsk u = dsk s" using u(4) r(3) by simp
    note v = dev_step_inv [OF assms(1) su du]
    have ub: "unlinked x u" using v(5) assms(6) by simp
    have gu: "get_inode 1 u = Inr n" using get_inode_step [OF su fs_inv_opens(2) [OF assms(1)]] assms(2) by simp
    obtain e where e: "set_entry_name name (set_in_use True e0) = Inr e" "entry_ok (overwrite 0 (word_bytes (of_nat x)) e)"
        "entry_name (overwrite 0 (word_bytes (of_nat x)) e) = name" "in_use (overwrite 0 (word_bytes (of_nat x)) e)"
        "inode_sector (overwrite 0 (word_bytes (of_nat x)) e) = x"
      using new_entry [OF u(5) assms(4), of x] False unlinked_small [OF assms(6,1)] by (auto simp: NAME_MAX_def)
    let ?e = "overwrite 0 (word_bytes (of_nat x)) e"
    have el: "length ?e = 20" using e(2) by (simp add: entry_ok_def)
    have p: "20 * j \<le> length (data_of (dsk u) 1)" using u(6) by (simp add: slot_cnt_def du)
    let ?k = "min 20 (length ?bs - 20 * j)"
    obtain w where w: "write_at 1 ?e (sint (of_nat (20 * j) :: 32 word)) u = Inr (int ?k, w)" "dev_step u w"
        "\<forall>i. i \<notin> region (di (dsk u) 1) \<longrightarrow> dsk w i = dsk u i" "data_of (dsk w) 1 = overwrite (20 * j) (take ?k ?e) ?bs"
      using root_write [OF v(1) gu p el] unfolding du by auto
    have eq: "dir_add stack d name x s = Inr (int ?k = 20, w)"
      using False r(1) None u(2) e(1) w(1) assms(3) by (simp add: dir_add_def)
    have sw: "root_step s w" by (rule root_step_trans [OF v(2) root_stepI [OF v(1) w(2,3)] v(4,5)])
    show ?thesis
    proof (cases "j < slot_cnt ?bs")
      case True
      have k: "?k = 20" using slot_in [OF True] by simp
      have bs: "data_of (dsk w) 1 = overwrite (20 * j) ?e ?bs" using w(4) k el by simp
      have nm: "dir_names ?bs (entry_name ?e) = None" "entry_name ?e \<noteq> []" using new e(3) False by (simp_all add: names_of_def)
      note a = dir_add_entry [OF dir True _ e(2,4) nm(2,1)]
      have "names_of (dsk w) = (names_of (dsk u))(name \<mapsto> x)" "dir_ok (data_of (dsk w) 1)"
        using a u(7) True e(3,5) bs by (simp_all add: names_of_def du)
      with root_new_name [OF v(1) w(2,3) ub] new eq k sw False v(4) du show ?thesis
        by (intro exI [of _ True] exI [of _ w]) simp
    next
      case False
      then have j: "j = slot_cnt ?bs" using u(6) by simp
      have lt: "length ?bs - 20 * j < 20" unfolding j slot_cnt_def by simp
      then have le: "20 * slot_cnt ?bs + length (take ?k ?e) \<le> length ?bs" using p j by (simp add: du)
      note sl = same_slots [OF tail_slots [OF le]]
      have bs: "data_of (dsk w) 1 = overwrite (20 * slot_cnt ?bs) (take ?k ?e) ?bs" using w(4) j by simp
      have "dir_names (data_of (dsk w) 1) = dir_names (data_of (dsk u) 1)" "dir_ok (data_of (dsk w) 1) = dir_ok (data_of (dsk u) 1)"
        unfolding bs du using sl by simp_all
      with root_same_names [OF v(1) w(2,3)] eq lt sw v(4) du u(8) j show ?thesis
        by (intro exI [of _ False] exI [of _ w]) simp
    qed
  qed
qed

section \<open>Opening and closing the root directory\<close>

lemma opened_live:
  assumes "opened s s' ns" "i_sector ` set ns = insert x (i_sector ` set (open_inodes s))" "x \<in> live_of s"
  shows "live_of s' = live_of s"
  using assms by (auto simp: opened_def live_of_def live_def)

lemma dir_open_root_ok:
  assumes "fs_inv s" "open_room s"
  shows "\<exists>t n. dir_open_root s = Inr (Some \<lparr>d_inode = 1, d_pos = 0\<rparr>, t) \<and> opened s t (bump 1 (di (dsk s) 1) (open_inodes s)) \<and> fs_inv t
    \<and> live_of t = live_of s \<and> get_inode 1 t = Inr n"
proof -
  have one: "1 \<in> linked (dsk s)" by (simp add: linked_def)
  have room: "\<forall>n \<in> set (open_inodes s). open_cnt n < 2 ^ 31 - 1" using assms(2) by (auto simp: open_room_def)
  obtain t where t: "inode_open 1 s = Inr (Some 1, t)" "opened s t (bump 1 (di (dsk s) 1) (open_inodes s))" "fs_inv t"
    using inode_open_ok [OF assms(1) one room] by blast
  have "1 \<in> i_sector ` set (open_inodes t)"
    using opened_fields(7) [OF t(2) fs_inv_opens(2) [OF assms(1)]] bump_sectors by simp
  then obtain n where "n \<in> set (open_inodes t)" "i_sector n = 1" by auto
  then have "get_inode 1 t = Inr n" using get_inode_iff [OF fs_inv_opens(3) [OF t(3)]] by simp
  moreover have "dir_open_root s = Inr (Some \<lparr>d_inode = 1, d_pos = 0\<rparr>, t)"
    using t(1) malloc_ok(2) [OF fs_inv_opens(2) [OF t(3)]] by (simp add: dir_open_root_def dir_open_def ROOT_DIR_SECTOR_def)
  moreover have "live_of t = live_of s" using opened_live [OF t(2) bump_sectors linked_live(3)] .
  ultimately show ?thesis using t(2,3) by blast
qed

lemma fs_inv_map_open: "fs_inv s \<Longrightarrow> \<exists>n \<in> set (open_inodes s). i_sector n = 0 \<and> deny_write_cnt n = 0"
proof -
  assume inv: "fs_inv s"
  then have "map_good s" by (simp add: fs_inv_def)
  then obtain n where "get_inode 0 s = Inr n" "deny_write_cnt n = 0" by (auto simp: map_good_def)
  with fs_inv_get(1,2) [OF inv this(1)] show ?thesis by blast
qed

lemma unref_sectors: "i_sector ` set (unref x ns) \<subseteq> i_sector ` set ns"
  by (auto simp: unref_def)

text \<open>A table of open inodes with the free map in it and no idle entry.\<close>

definition table_ok :: "inode list \<Rightarrow> bool" where
  "table_ok ns \<longleftrightarrow> (\<forall>n \<in> set ns. 0 < open_cnt n) \<and> (\<exists>n \<in> set ns. i_sector n = 0 \<and> deny_write_cnt n = 0)"

lemma fs_inv_table: "fs_inv s \<Longrightarrow> table_ok (open_inodes s)"
  using fs_inv_opens(1) [of s] fs_inv_map_open [of s] by (auto simp: table_ok_def opens_ok_def open_ok_def)

lemma unref_rest: "i_sector ` set (unref x ns) \<supseteq> i_sector ` set ns - {x}"
proof (cases "\<exists>n \<in> set ns. i_sector n = x \<and> open_cnt n = 1")
  case True
  then show ?thesis by (auto simp: unref_def)
next
  case False
  then have "map i_sector (unref x ns) = map i_sector ns" unfolding unref_def if_not_P [OF False] by simp
  from arg_cong [OF this, of set] show ?thesis by auto
qed

lemma live_unref: "x \<in> linked D \<Longrightarrow> live D (unref x ns) = live D ns"
  using unref_sectors [of x ns] unref_rest [of ns x] by (auto simp: live_def)

lemma close_again:
  assumes "fs_inv u" "x \<in> i_sector ` set (open_inodes u)" "unref x (open_inodes u) = ns" "table_ok ns" "x \<in> linked (dsk u)"
    and "\<forall>n \<in> set (open_inodes u). i_sector n = x \<longrightarrow> deny_write_cnt n < open_cnt n \<or> deny_write_cnt n = 0"
  shows "\<exists>v. inode_close (Some x) u = Inr v \<and> opened u v ns \<and> fs_inv v \<and> live_of v = live_of u"
proof -
  note o = fs_inv_opens [OF assms(1)]
  obtain n where n: "n \<in> set (open_inodes u)" "i_sector n = x" using assms(2) by auto
  then have c: "0 < open_cnt n" "open_cnt n < 2 ^ 31" "\<not> removed n" using o(1) assms(5) by (auto simp: opens_ok_def open_ok_def)
  note un = assms(3)
  let ?v = "u\<lparr>open_inodes := ns\<rparr>"
  have "inode_close (Some x) u = Inr ?v" using inode_close_kept [OF n(1) o(3) c(1,2)] c(3) n(2) un by simp
  moreover have op: "opened u ?v ns" by (rule opened_upd [OF o(2)])
  moreover have sub: "i_sector ` set ns \<subseteq> i_sector ` set (open_inodes u)" using unref_sectors [of x "open_inodes u"] un by simp
  have "fs_inv ?v"
  proof (rule fs_inv_opened [OF assms(1) op])
    show "opens_ok (dsk u) ns" using opens_unref [OF o(1) assms(6)] un by simp
    show "i_sector ` set ns \<subseteq> live (dsk u) (open_inodes u)" using sub by (auto simp: live_def)
    show "\<exists>n \<in> set ns. i_sector n = 0 \<and> deny_write_cnt n = 0" using assms(4) by (simp add: table_ok_def)
  qed
  moreover have "live_of ?v = live_of u"
    using sub assms(5) live_unref [of x "dsk u" "open_inodes u"] un by (auto simp: live_of_def dsk_def)
  ultimately show ?thesis by blast
qed

lemma root_close:
  assumes "fs_inv u" "1 \<in> i_sector ` set (open_inodes u)" "unref 1 (open_inodes u) = ns" "table_ok ns"
  shows "\<exists>v. dir_close (Some \<lparr>d_inode = 1, d_pos = p\<rparr>) u = Inr v \<and> opened u v ns \<and> fs_inv v \<and> live_of v = live_of u"
proof -
  have "\<forall>n \<in> set (open_inodes u). i_sector n = 1 \<longrightarrow> deny_write_cnt n < open_cnt n \<or> deny_write_cnt n = 0"
    using fs_inv_opens(1) [OF assms(1)] by (auto simp: opens_ok_def open_ok_def)
  from close_again [OF assms _ this] show ?thesis by (simp add: dir_close_def linked_def)
qed

lemma root_close_bump:
  assumes "fs_inv u" "open_inodes u = bump 1 d ns" "table_ok ns"
  shows "\<exists>v. dir_close (Some \<lparr>d_inode = 1, d_pos = p\<rparr>) u = Inr v \<and> opened u v ns \<and> fs_inv v \<and> live_of v = live_of u"
  using root_close [OF assms(1) _ _ assms(3)] assms(2,3) unref_bump [of ns 1 d] bump_sectors [of 1 d ns]
  by (simp add: table_ok_def)

section \<open>Creating a file\<close>

definition files :: "fsys \<Rightarrow> byte list \<Rightarrow> byte list option" where
  "files s name = map_option (data_of (dsk s)) (names_of (dsk s) name)"

text \<open>Inodes are kept, and so is the data of files other than the free map and the root directory.\<close>

definition kept :: "fsys \<Rightarrow> fsys \<Rightarrow> bool" where
  "kept s s' \<longleftrightarrow> fs_units s' = fs_units s
     \<and> (\<forall>x \<in> live_of s. x \<in> live_of s' \<and> di (dsk s') x = di (dsk s) x \<and> (1 < x \<longrightarrow> data_of (dsk s') x = data_of (dsk s) x))"

lemma kept_trans: "kept s t \<Longrightarrow> kept t u \<Longrightarrow> kept s u"
  by (simp add: kept_def)

lemma kept_opened: "opened s s' ns \<Longrightarrow> fs_base s \<Longrightarrow> live_of s \<subseteq> live_of s' \<Longrightarrow> kept s s'"
  using opened_fields(5) [of s s' ns] by (auto simp: kept_def opened_def)

lemma kept_map: "map_step s s' \<Longrightarrow> fs_inv s \<Longrightarrow> kept s s'"
  using map_step_frame [of s s'] by (auto simp: kept_def map_step_def)

lemma kept_root: "root_step s s' \<Longrightarrow> live_of s \<subseteq> live_of s' \<Longrightarrow> kept s s'"
  by (auto simp: kept_def root_step_def)

lemma names_live:
  assumes "fs_inv s" "names_of (dsk s) name = Some x"
  shows "x \<in> live_of s" "1 < x"
proof -
  have x: "x \<in> ran (names_of (dsk s))" using assms(2) by (auto simp: ran_def)
  then show "x \<in> live_of s" using linked_live(1) by (auto simp: linked_def)
  have "tree_ok (dsk s)" using assms(1) by (simp add: fs_inv_def fs_good_def)
  then show "1 < x" using x unfolding tree_ok_def by (metis less_one linorder_neqE_nat)
qed

lemma kept_files:
  assumes "fs_inv s" "kept s s'" "names_of (dsk s') = names_of (dsk s)"
  shows "files s' = files s"
proof
  fix name
  show "files s' name = files s name"
    using assms names_live [OF assms(1), of name] by (cases "names_of (dsk s) name") (auto simp: files_def kept_def)
qed

lemma kept_files_new:
  assumes "fs_inv s" "kept s s'" "names_of (dsk s') = (names_of (dsk s))(name \<mapsto> x)"
  shows "files s' = (files s)(name \<mapsto> data_of (dsk s') x)"
proof
  fix nm
  show "files s' nm = ((files s)(name \<mapsto> data_of (dsk s') x)) nm"
    using assms names_live [OF assms(1), of nm] by (cases "names_of (dsk s) nm") (auto simp: files_def kept_def)
qed

text \<open>The sectors handed out are the first that are free.\<close>

lemma allocate_first:
  assumes "free_map_allocate n s = Inr (Some x, s')" "bitmap_ok (free_map s)" "k < x"
  shows "\<not> group_at (free_map s) k n False"
proof -
  obtain b where "bitmap_scan_and_flip (free_map s) 0 n False = Inr (x, b)" "x \<noteq> BITMAP_ERROR"
    using assms(1) by (auto simp: free_map_allocate_def Let_def split: if_splits option.splits prod.splits)
  then have "bitmap_scan (free_map s) 0 n False = Inr x" "x \<noteq> BITMAP_ERROR"
    by (auto simp: bitmap_scan_and_flip_def split: if_splits)
  with bitmap_scan_first [OF assms(2) le0, of n False] assms(3) show ?thesis by auto
qed

text \<open>Taking the first free sector leaves the rest of a free group.\<close>

lemma group_after_first:
  assumes "group_at b i (1 + n) False" "\<forall>k < x. \<not> group_at b k 1 False" "marked b' = insert x (marked b)" "bit_cnt b' = bit_cnt b"
  shows "\<exists>j. group_at b' j n False"
proof -
  have g: "i + (1 + n) \<le> bit_cnt b" "marked b \<inter> {i..<i + (1 + n)} = {}" using assms(1) by (simp_all only: group_at_free)
  have "group_at b i 1 False" using g by (auto simp: group_at_free)
  then have "x \<le> i" using assms(2) by (meson not_le)
  then have "group_at b' (Suc i) n False" using g assms(3,4) unfolding group_at_free by auto
  then show ?thesis ..
qed

text \<open>After a failure the sector of the inode is given back.\<close>

lemma release_inode_sector:
  assumes "fs_inv s" "x < fs_units s" "x \<in> marked (free_map s)" "x \<notin> live_space s"
  shows "\<exists>v. free_map_release x 1 s = Inr v \<and> fs_inv v \<and> open_inodes v = open_inodes s \<and> kept s v \<and> names_of (dsk v) = names_of (dsk s)
    \<and> marked (free_map v) = marked (free_map s) - {x}"
proof -
  have "{x..<x + 1} = {x}" by auto
  then obtain v where v: "free_map_release x 1 s = Inr v" "fs_inv v" "map_step s v" "marked (free_map v) = marked (free_map s) - {x}"
    using fs_release [OF assms(1), of x 1] assms(2-4) by auto
  then show ?thesis using kept_map [OF v(3) assms(1)] map_step_frame(2) [OF v(3) assms(1)] by (auto simp: map_step_def)
qed

text \<open>\<open>n\<close> more units are marked.\<close>

definition spilled :: "nat \<Rightarrow> nat set \<Rightarrow> nat set \<Rightarrow> bool" where
  "spilled n M M' \<longleftrightarrow> (\<exists>R. R \<inter> M = {} \<and> M' = M \<union> R \<and> finite R \<and> card R = n)"

lemma spilled_region: "region d \<inter> M = {} \<Longrightarrow> spilled (bytes_to_sectors (i_length d)) M (M \<union> region d)"
  unfolding spilled_def by (intro exI [of _ "region d"]) (simp add: region_def)

lemma spilled_insert:
  assumes "spilled n (insert x M) M'" "x \<notin> M"
  shows "spilled (1 + n) M M'"
proof -
  obtain R where "R \<inter> insert x M = {}" "M' = insert x M \<union> R" "finite R" "card R = n" using assms(1) by (auto simp: spilled_def)
  then show ?thesis unfolding spilled_def using assms(2) by (intro exI [of _ "insert x R"]) auto
qed

lemma create_linked:
  assumes "fs_inv a" "get_inode 1 a = Inr n" "0 \<notin> set name" "length stack = 20" "0 \<le> len" "len \<le> 2 ^ 31 - 512" "d_inode d = 1"
    and x: "x < fs_units a" "x \<in> marked (free_map a)" "x \<notin> live_space a"
  shows "\<exists>ok u v. and_then (inode_create x len a) (dir_add stack d name x) = Inr (ok, u)
      \<and> (if \<not> ok then free_map_release x 1 u else Inr u) = Inr v \<and> fs_inv v \<and> open_inodes v = open_inodes a \<and> kept a v
      \<and> (if ok
          then names_of (dsk a) name = None \<and> name \<noteq> [] \<and> length name \<le> NAME_MAX
            \<and> names_of (dsk v) = (names_of (dsk a))(name \<mapsto> x) \<and> data_of (dsk v) x = replicate (nat len) 0
            \<and> spilled (bytes_to_sectors len) (marked (free_map a)) (marked (free_map v))
            \<and> space (dsk v) x \<inter> (marked (free_map a) - {x}) = {}
          else names_of (dsk v) = names_of (dsk a)
            \<and> (name = [] \<or> length name > NAME_MAX \<or> names_of (dsk a) name \<noteq> None
               \<or> (\<forall>k < slot_cnt (data_of (dsk a) 1). in_use (slot (data_of (dsk a) 1) k))
               \<or> (\<forall>i. \<not> group_at (free_map a) i (bytes_to_sectors len) False))
            \<and> (spilled (bytes_to_sectors len) (marked (free_map a) - {x}) (marked (free_map v))
               \<or> marked (free_map v) = marked (free_map a) - {x} \<and> (\<forall>i. \<not> group_at (free_map a) i (bytes_to_sectors len) False)))"
proof -
  obtain ok b where b: "inode_create x len a = Inr (ok, b)" "fs_inv b" "fs_units b = fs_units a" "open_inodes b = open_inodes a"
      "live_of b = live_of a" "live_space b = live_space a" "names_of (dsk b) = names_of (dsk a)"
      "\<forall>y \<in> live_of a. di (dsk b) y = di (dsk a) y \<and> (y \<noteq> 0 \<longrightarrow> data_of (dsk b) y = data_of (dsk a) y)"
    and c: "if ok
        then i_length (di (dsk b) x) = len \<and> fits (fs_units a) (di (dsk b) x) \<and> data_of (dsk b) x = replicate (nat len) 0
          \<and> region (di (dsk b) x) \<inter> marked (free_map a) = {} \<and> marked (free_map b) = marked (free_map a) \<union> region (di (dsk b) x)
        else b = a \<and> (\<forall>i. \<not> group_at (free_map a) i (bytes_to_sectors len) False)"
    using inode_create_ok [OF assms(1) x assms(5,6)] by blast
  have ab: "kept a b" using b(3,5,8) by (auto simp: kept_def)
  have rb: "data_of (dsk b) 1 = data_of (dsk a) 1" using b(8) linked_live(3) by auto
  show ?thesis
  proof (cases ok)
    case False
    obtain v where v: "free_map_release x 1 b = Inr v" "fs_inv v" "open_inodes v = open_inodes b" "kept b v" "names_of (dsk v) = names_of (dsk b)"
        "marked (free_map v) = marked (free_map b) - {x}"
      using release_inode_sector [OF b(2), of x] x b(3,6) c False by auto
    then show ?thesis
      using b c False kept_trans [OF ab v(4)] by - (rule exI [of _ False], rule exI [of _ b], rule exI [of _ v], simp add: and_then_def)
  next
    case True
    have r: "region (di (dsk b) x) \<inter> marked (free_map a) = {}" "marked (free_map b) = marked (free_map a) \<union> region (di (dsk b) x)"
      using c True by simp_all
    have "space (dsk b) x \<inter> live_space a = {}" using r(1) x(3) live_space_marked [OF assms(1)] by (auto simp: space_def)
    then have un: "unlinked x b" using c True x b(3,6) by (auto simp: unlinked_def space_def)
    have gb: "get_inode 1 b = Inr n" using get_inode_opens [OF b(4)] assms(2) by simp
    obtain ok2 u where u: "dir_add stack d name x b = Inr (ok2, u)" "fs_inv u" "root_step b u"
      and c2: "if ok2
        then names_of (dsk b) name = None \<and> name \<noteq> [] \<and> length name \<le> NAME_MAX
          \<and> names_of (dsk u) = (names_of (dsk b))(name \<mapsto> x) \<and> live_of u = insert x (live_of b)
        else names_of (dsk u) = names_of (dsk b) \<and> live_of u = live_of b
          \<and> (name = [] \<or> length name > NAME_MAX \<or> names_of (dsk b) name \<noteq> None
              \<or> (\<forall>k < slot_cnt (data_of (dsk b) 1). in_use (slot (data_of (dsk b) 1) k)))"
      using dir_add_ok [OF b(2) gb assms(7,3,4) un] by blast
    have eq: "and_then (inode_create x len a) (dir_add stack d name x) = Inr (ok2, u)" using b(1) True u(1) by (simp add: and_then_def)
    have bu: "kept b u" using kept_root [OF u(3)] c2 by (auto split: if_splits)
    have st: "fs_units u = fs_units b" "open_inodes u = open_inodes b" "free_map u = free_map b"
        "data_of (dsk u) x = data_of (dsk b) x \<or> x = 1" "\<forall>y \<in> live_of b. di (dsk u) y = di (dsk b) y" "di (dsk u) x = di (dsk b) x"
      using u(3) un by (auto simp: root_step_def)
    show ?thesis
    proof (cases ok2)
      case True2: True
      have "x \<noteq> 1" using x(3) live_in_space(1) linked_live(3) by blast
      moreover have "spilled (bytes_to_sectors len) (marked (free_map a)) (marked (free_map u))"
        using spilled_region [OF r(1)] r(2) st(3) c True by simp
      moreover have "space (dsk u) x \<inter> (marked (free_map a) - {x}) = {}" using r(1) st(6) by (auto simp: space_def)
      ultimately show ?thesis
        using eq True2 True c c2 u(2) st b(4,7) kept_trans [OF ab bu] by - (rule exI [of _ True], rule exI [of _ u], simp)
    next
      case False
      then have "live_space u = live_space b" using c2 st(5) by (simp add: live_space_def space_def)
      then obtain v where v: "free_map_release x 1 u = Inr v" "fs_inv v" "open_inodes v = open_inodes u" "kept u v" "names_of (dsk v) = names_of (dsk u)"
          "marked (free_map v) = marked (free_map u) - {x}"
        using release_inode_sector [OF u(2), of x] st(1-3) x b(3,6) r(2) by auto
      have "x \<notin> region (di (dsk b) x)" using r(1) x(2) by blast
      then have "marked (free_map v) = (marked (free_map a) - {x}) \<union> region (di (dsk b) x)" using v(6) st(3) r(2) by auto
      moreover have "i_length (di (dsk b) x) = len" using c True by simp
      ultimately have "spilled (bytes_to_sectors len) (marked (free_map a) - {x}) (marked (free_map v))"
        using spilled_region [of "di (dsk b) x" "marked (free_map a) - {x}"] r(1) by auto
      then show ?thesis
        using v eq False c2 st b(4,7) rb kept_trans [OF kept_trans [OF ab bu] v(4)] by - (rule exI [of _ False], rule exI [of _ u], rule exI [of _ v], simp, blast)
    qed
  qed
qed

lemma create_steps:
  assumes "fs_inv t" "get_inode 1 t = Inr n" "0 \<notin> set name" "length stack = 20" "0 \<le> len" "len \<le> 2 ^ 31 - 512"
    and d: "d_inode d = 1"
  shows "\<exists>ok x u v.
      bindR (free_map_allocate 1 t) (\<lambda>(r, s).
        case r of
          None \<Rightarrow> Inr (False, 0, s)
        | Some sector \<Rightarrow>
            bindR (and_then (inode_create sector len s) (dir_add stack d name sector)) (\<lambda>(ok, s). Inr (ok, sector, s))) = Inr (ok, x, u)
      \<and> (if \<not> ok \<and> x \<noteq> 0 then free_map_release x 1 u else Inr u) = Inr v
      \<and> fs_inv v \<and> open_inodes v = open_inodes t \<and> kept t v
      \<and> (if ok
          then names_of (dsk t) name = None \<and> name \<noteq> [] \<and> length name \<le> NAME_MAX
            \<and> names_of (dsk v) = (names_of (dsk t))(name \<mapsto> x) \<and> data_of (dsk v) x = replicate (nat len) 0
            \<and> spilled (1 + bytes_to_sectors len) (marked (free_map t)) (marked (free_map v))
            \<and> space (dsk v) x \<inter> marked (free_map t) = {}
          else names_of (dsk v) = names_of (dsk t)
            \<and> (name = [] \<or> length name > NAME_MAX \<or> names_of (dsk t) name \<noteq> None
               \<or> (\<forall>k < slot_cnt (data_of (dsk t) 1). in_use (slot (data_of (dsk t) 1) k))
               \<or> (\<forall>i. \<not> group_at (free_map t) i (1 + bytes_to_sectors len) False))
            \<and> (spilled (bytes_to_sectors len) (marked (free_map t)) (marked (free_map v))
               \<or> marked (free_map v) = marked (free_map t) \<and> (\<forall>i. \<not> group_at (free_map t) i (1 + bytes_to_sectors len) False)))"
proof -
  obtain r a where a: "free_map_allocate 1 t = Inr (r, a)" "fs_inv a" "map_step t a"
    and c: "case r of
         Some i \<Rightarrow> i + 1 \<le> fs_units t \<and> marked (free_map t) \<inter> {i..<i + 1} = {} \<and> marked (free_map a) = marked (free_map t) \<union> {i..<i + 1}
       | None \<Rightarrow> a = t \<and> (\<forall>i. \<not> group_at (free_map t) i 1 False)"
    using fs_allocate [OF assms(1), of 1] by blast
  show ?thesis
  proof (cases r)
    case None
    then have "\<forall>i. \<not> group_at (free_map t) i (1 + bytes_to_sectors len) False"
      using c by (auto simp: group_at_free)
    then show ?thesis using a(1) None c assms(1)
      by - (rule exI [of _ False], rule exI [of _ 0], rule exI [of _ t], simp add: kept_def)
  next
    case (Some x)
    have x: "x < fs_units t" "x \<notin> marked (free_map t)" "marked (free_map a) = insert x (marked (free_map t))"
      using c Some by (auto simp: atLeastLessThanSuc)
    have st: "fs_units a = fs_units t" "open_inodes a = open_inodes t" using a(3) by (simp_all add: map_step_def)
    have "live_space t \<subseteq> marked (free_map t)" by (rule live_space_marked [OF assms(1)])
    then have "x \<notin> live_space t" "0 \<in> marked (free_map t)" using x(2) live_in_space(1) [of t] linked_live(2) [of t] by blast+
    then have nl: "x \<notin> live_space a" "x \<noteq> 0" using x(2) map_step_space [OF a(3) assms(1)] by metis+
    have ga: "get_inode 1 a = Inr n" using get_inode_opens [OF st(2)] assms(2) by simp
    obtain ok u v where u: "and_then (inode_create x len a) (dir_add stack d name x) = Inr (ok, u)"
        "(if \<not> ok then free_map_release x 1 u else Inr u) = Inr v" "fs_inv v" "open_inodes v = open_inodes a" "kept a v"
      and f: "if ok
          then names_of (dsk a) name = None \<and> name \<noteq> [] \<and> length name \<le> NAME_MAX
            \<and> names_of (dsk v) = (names_of (dsk a))(name \<mapsto> x) \<and> data_of (dsk v) x = replicate (nat len) 0
            \<and> spilled (bytes_to_sectors len) (marked (free_map a)) (marked (free_map v))
            \<and> space (dsk v) x \<inter> (marked (free_map a) - {x}) = {}
          else names_of (dsk v) = names_of (dsk a)
            \<and> (name = [] \<or> length name > NAME_MAX \<or> names_of (dsk a) name \<noteq> None
               \<or> (\<forall>k < slot_cnt (data_of (dsk a) 1). in_use (slot (data_of (dsk a) 1) k))
               \<or> (\<forall>i. \<not> group_at (free_map a) i (bytes_to_sectors len) False))
            \<and> (spilled (bytes_to_sectors len) (marked (free_map a) - {x}) (marked (free_map v))
               \<or> marked (free_map v) = marked (free_map a) - {x} \<and> (\<forall>i. \<not> group_at (free_map a) i (bytes_to_sectors len) False))"
      using create_linked [OF a(2) ga assms(3-7), of x] x st(1) nl(1) by auto
    have fr: "names_of (dsk a) = names_of (dsk t)" "data_of (dsk a) 1 = data_of (dsk t) 1"
      using map_step_frame(2,4) [OF a(3) assms(1)] linked_live(3) by auto
    have grp: "\<forall>i. \<not> group_at (free_map t) i (1 + bytes_to_sectors len) False"
      if no: "\<forall>i. \<not> group_at (free_map a) i (bytes_to_sectors len) False"
    proof (intro allI notI)
      fix i assume g: "group_at (free_map t) i (1 + bytes_to_sectors len) False"
      have m: "map_ok t" "map_ok a" using assms(1) a(2) by (simp_all add: fs_inv_def)
      then have "bit_cnt (free_map a) = bit_cnt (free_map t)" using st(1) by (simp add: map_ok_def fs_units_def)
      moreover have "\<forall>k < x. \<not> group_at (free_map t) k 1 False"
        using allocate_first [of 1 t x a] a(1) Some m(1) by (auto simp: map_ok_def)
      ultimately show False using group_after_first [OF g _ x(3)] no by blast
    qed
    have mk: "marked (free_map a) - {x} = marked (free_map t)" using x(2,3) by simp
    have sp: "spilled (1 + bytes_to_sectors len) (marked (free_map t)) M" if "spilled (bytes_to_sectors len) (marked (free_map a)) M" for M
      using spilled_insert [OF _ x(2)] that x(3) by simp
    have "kept t v" by (rule kept_trans [OF kept_map [OF a(3) assms(1)] u(5)])
    then show ?thesis
      using a(1) Some u f [unfolded mk] fr grp sp st(2) nl(2) by - (rule exI [of _ ok], rule exI [of _ x], rule exI [of _ u], rule exI [of _ v], auto split: if_splits)
  qed
qed

lemma filesys_create_run:
  assumes "fs_inv s" "open_room s" "0 \<notin> set name" "length stack = 20" "0 \<le> len" "len \<le> 2 ^ 31 - 512"
  shows "\<exists>ok x s'. filesys_create stack name len s = Inr (ok, s') \<and> fs_inv s' \<and> open_inodes s' = open_inodes s \<and> kept s s'
    \<and> (if ok
        then names_of (dsk s) name = None \<and> name \<noteq> [] \<and> length name \<le> NAME_MAX
          \<and> names_of (dsk s') = (names_of (dsk s))(name \<mapsto> x) \<and> data_of (dsk s') x = replicate (nat len) 0
          \<and> spilled (1 + bytes_to_sectors len) (marked (free_map s)) (marked (free_map s'))
          \<and> space (dsk s') x \<inter> marked (free_map s) = {}
        else names_of (dsk s') = names_of (dsk s)
          \<and> (name = [] \<or> length name > NAME_MAX \<or> names_of (dsk s) name \<noteq> None
             \<or> (\<forall>k < slot_cnt (data_of (dsk s) 1). in_use (slot (data_of (dsk s) 1) k))
             \<or> (\<forall>i. \<not> group_at (free_map s) i (1 + bytes_to_sectors len) False))
          \<and> (spilled (bytes_to_sectors len) (marked (free_map s)) (marked (free_map s'))
             \<or> marked (free_map s') = marked (free_map s) \<and> (\<forall>i. \<not> group_at (free_map s) i (1 + bytes_to_sectors len) False)))"
proof -
  let ?d = "\<lparr>d_inode = 1, d_pos = 0\<rparr>"
  obtain t n where t: "dir_open_root s = Inr (Some ?d, t)" "opened s t (bump 1 (di (dsk s) 1) (open_inodes s))" "fs_inv t"
      "live_of t = live_of s" "get_inode 1 t = Inr n"
    using dir_open_root_ok [OF assms(1,2)] by blast
  note ft = opened_fields [OF t(2) fs_inv_opens(2) [OF assms(1)]]
  obtain ok x u v where u: "bindR (free_map_allocate 1 t) (\<lambda>(r, s).
        case r of
          None \<Rightarrow> Inr (False, 0, s)
        | Some sector \<Rightarrow>
            bindR (and_then (inode_create sector len s) (dir_add stack ?d name sector)) (\<lambda>(ok, s). Inr (ok, sector, s))) = Inr (ok, x, u)"
      "(if \<not> ok \<and> x \<noteq> 0 then free_map_release x 1 u else Inr u) = Inr v"
    and v: "fs_inv v" "open_inodes v = open_inodes t" "kept t v"
    and f: "if ok
          then names_of (dsk t) name = None \<and> name \<noteq> [] \<and> length name \<le> NAME_MAX
            \<and> names_of (dsk v) = (names_of (dsk t))(name \<mapsto> x) \<and> data_of (dsk v) x = replicate (nat len) 0
            \<and> spilled (1 + bytes_to_sectors len) (marked (free_map t)) (marked (free_map v))
            \<and> space (dsk v) x \<inter> marked (free_map t) = {}
          else names_of (dsk v) = names_of (dsk t)
            \<and> (name = [] \<or> length name > NAME_MAX \<or> names_of (dsk t) name \<noteq> None
               \<or> (\<forall>k < slot_cnt (data_of (dsk t) 1). in_use (slot (data_of (dsk t) 1) k))
               \<or> (\<forall>i. \<not> group_at (free_map t) i (1 + bytes_to_sectors len) False))
            \<and> (spilled (bytes_to_sectors len) (marked (free_map t)) (marked (free_map v))
               \<or> marked (free_map v) = marked (free_map t) \<and> (\<forall>i. \<not> group_at (free_map t) i (1 + bytes_to_sectors len) False))"
    using create_steps [OF t(3,5) assms(3-6), of ?d] by auto
  have ov: "open_inodes v = bump 1 (di (dsk s) 1) (open_inodes s)" using v(2) ft(7) by simp
  obtain w where w: "dir_close (Some ?d) v = Inr w" "opened v w (open_inodes s)" "fs_inv w" "live_of w = live_of v"
    using root_close_bump [OF v(1) ov fs_inv_table [OF assms(1)]] by blast
  note fw = opened_fields [OF w(2) fs_inv_opens(2) [OF v(1)]]
  have eq: "filesys_create stack name len s = Inr (ok, w)"
    by (simp only: filesys_create_def t(1) bindR_Inr prod.case option.case u w(1))
  have k: "kept s w"
    using kept_trans [OF kept_trans [OF kept_opened [OF t(2)] v(3)] kept_opened [OF w(2)]] t(4) w(4) fs_inv_opens(2) assms(1) v(1) by simp
  show ?thesis
    using eq w(3) fw(7) k f [unfolded ft(3,6), folded fw(3,6)] by - (rule exI [of _ ok], rule exI [of _ x], rule exI [of _ w], blast)
qed

lemma mounted_create:
  obtains x s' where "filesys_create (replicate 20 0) [97] 600 (mounted []) = Inr (True, s')" "fs_inv s'"
    "open_inodes s' = open_inodes (mounted [])" "names_of (dsk s') = [[97] \<mapsto> x]" "data_of (dsk s') x = replicate 600 0"
    "spilled (1 + 2) (marked (free_map (mounted []))) (marked (free_map s'))" "fs_units s' = 100"
proof -
  have "\<not> (\<forall>k < slot_cnt (data_of formatted 1). in_use (slot (data_of formatted 1) k))"
    using formatted_unused(1) formatted_unused(2) [of 0] by (auto intro!: exI [of _ 0])
  moreover have n: "bytes_to_sectors 600 = 2" using bytes_to_sectors_nat [of 600] by simp
  then have "group_at (free_map (mounted [])) 4 (1 + bytes_to_sectors 600) False"
    by (intro mounted_group) simp
  ultimately show ?thesis
    using that n filesys_create_run [OF mounted_inv mounted_room, of "[97]" "replicate 20 0" 600]
    by (auto simp: mounted_disk formatted_names NAME_MAX_def kept_def split: if_splits)
qed

text \<open>C8. Creating a file: on a mounted file system, with memory for the buffers, \<^verbatim>\<open>filesys_create\<close> always returns.
  If it reports success the name was valid and new, the file exists afterwards and holds as many zero
  bytes as asked for, and every other file is as it was; if it reports failure all files are as they
  were. It succeeds whenever the name is valid and new, the directory has a free entry, and there are
  enough consecutive free sectors for the inode and its data. The invariant of the file system is
  kept, and so are the files that are open.\<close>

theorem filesys_create_correct:
  assumes "fs_inv s" "open_room s" "0 \<notin> set name" "length stack = 20" "0 \<le> len" "len \<le> 2 ^ 31 - 512"
  shows "\<exists>ok s'. filesys_create stack name len s = Inr (ok, s') \<and> fs_inv s' \<and> open_inodes s' = open_inodes s \<and> kept s s'
    \<and> files s' = (if ok then (files s)(name \<mapsto> replicate (nat len) 0) else files s)
    \<and> (ok \<longrightarrow> files s name = None \<and> name \<noteq> [] \<and> length name \<le> NAME_MAX)
    \<and> (name \<noteq> [] \<and> length name \<le> NAME_MAX \<and> files s name = None
        \<and> (\<exists>k < slot_cnt (data_of (dsk s) 1). \<not> in_use (slot (data_of (dsk s) 1) k))
        \<and> (\<exists>i. group_at (free_map s) i (1 + bytes_to_sectors len) False) \<longrightarrow> ok)"
proof -
  obtain ok x w where w: "filesys_create stack name len s = Inr (ok, w)" "fs_inv w" "open_inodes w = open_inodes s" and k: "kept s w"
    and f: "if ok
        then names_of (dsk s) name = None \<and> name \<noteq> [] \<and> length name \<le> NAME_MAX
          \<and> names_of (dsk w) = (names_of (dsk s))(name \<mapsto> x) \<and> data_of (dsk w) x = replicate (nat len) 0
        else names_of (dsk w) = names_of (dsk s)
          \<and> (name = [] \<or> length name > NAME_MAX \<or> names_of (dsk s) name \<noteq> None
             \<or> (\<forall>k < slot_cnt (data_of (dsk s) 1). in_use (slot (data_of (dsk s) 1) k))
             \<or> (\<forall>i. \<not> group_at (free_map s) i (1 + bytes_to_sectors len) False))"
    using filesys_create_run [OF assms] by metis
  have "files w = (if ok then (files s)(name \<mapsto> replicate (nat len) 0) else files s)"
    using kept_files [OF assms(1) k] kept_files_new [OF assms(1) k, of name x] f by (auto split: if_splits)
  then show ?thesis
    using w k f by (intro exI [of _ ok] exI [of _ w]) (auto simp: files_def split: if_splits)
qed

theorem filesys_create_correct_witness:
  "\<exists>s'. filesys_create (replicate 20 0) [97] 600 (mounted []) = Inr (True, s') \<and> files s' = [[97] \<mapsto> replicate 600 0]"
proof -
  have "\<exists>k < slot_cnt (data_of formatted 1). \<not> in_use (slot (data_of formatted 1) k)"
    using formatted_unused by (intro exI [of _ 0]) simp
  moreover have "\<exists>i. group_at (free_map (mounted [])) i (1 + bytes_to_sectors 600) False"
    using bytes_to_sectors_nat [of 600] by (intro exI [of _ 4] mounted_group) simp
  moreover have "files (mounted []) = Map.empty" by (simp add: files_def mounted_disk formatted_names fun_eq_iff)
  ultimately show ?thesis
    using filesys_create_correct [OF mounted_inv mounted_room, of "[97]" "replicate 20 0" 600]
    by (auto simp: mounted_disk NAME_MAX_def)
qed

text \<open>Sectors that are marked but belong to no inode, neither one with a name nor an open one.\<close>

definition lost :: "fsys \<Rightarrow> nat set" where
  "lost s = marked (free_map s) - live_space s"

lemma lost_mono:
  assumes "lost s \<subseteq> marked (free_map w)" "live_of w \<subseteq> live_of s" "\<And>y. y \<in> live_of w \<Longrightarrow> di (dsk w) y = di (dsk s) y"
  shows "lost s \<subseteq> lost w"
proof -
  have "live_space w \<subseteq> live_space s" using assms(2,3) by (fastforce simp: live_space_def space_def)
  then show ?thesis using assms(1) by (auto simp: lost_def)
qed

text \<open>Creating a file takes no sectors that were marked.\<close>

lemma lost_create:
  assumes "fs_inv s" "kept s w" "open_inodes w = open_inodes s" "marked (free_map s) \<subseteq> marked (free_map w)"
    and "names_of (dsk w) = names_of (dsk s)
      \<or> names_of (dsk w) = (names_of (dsk s))(name \<mapsto> x) \<and> space (dsk w) x \<inter> marked (free_map s) = {}"
  shows "lost s \<subseteq> lost w"
proof -
  have sp: "space (dsk w) y = space (dsk s) y" if "y \<in> live_of s" for y
    using assms(2) that by (simp add: kept_def space_def)
  have "ran ((names_of (dsk s))(name \<mapsto> x)) \<subseteq> insert x (ran (names_of (dsk s)))" by (auto simp: ran_def)
  then have "live_of w \<subseteq> live_of s \<or> live_of w \<subseteq> insert x (live_of s) \<and> space (dsk w) x \<inter> marked (free_map s) = {}"
    using assms(3,5) by (auto simp: live_of_def live_def linked_def)
  then have "live_space w \<inter> lost s = {}" using sp by (fastforce simp: live_space_def lost_def)
  then show ?thesis using assms(4) by (auto simp: lost_def)
qed

lemma spilled_mono: "spilled n M M' \<Longrightarrow> M \<subseteq> M'"
  by (auto simp: spilled_def)

text \<open>With few units marked, there are three unmarked ones in a row.\<close>

lemma room_for_three:
  assumes "card (marked b) < 33" "bit_cnt b = 100"
  shows "\<exists>i. group_at b i 3 False"
proof (rule ccontr)
  assume no: "\<not> ?thesis"
  have "k \<in> (\<lambda>m. m div 3) ` marked b" if "k < 33" for k
  proof -
    have "\<not> group_at b (3 * k) 3 False" "3 * k + 3 \<le> bit_cnt b" using no that assms(2) by auto
    then have "marked b \<inter> {3 * k..<3 * k + 3} \<noteq> {}" by (simp add: group_at_free)
    then obtain m where "m \<in> marked b" "3 * k \<le> m" "m < 3 * k + 3" by auto
    moreover from this have "m div 3 = k" by linarith
    ultimately show ?thesis by blast
  qed
  then have "{..<33} \<subseteq> (\<lambda>m. m div 3) ` marked b" by auto
  moreover have "finite (marked b)" by (simp add: marked_def)
  ultimately have "33 \<le> card (marked b)" using surj_card_le [of "marked b" "{..<33}" "\<lambda>m. m div 3"] by simp
  then show False using assms(1) by simp
qed

end
