(* ===== verification/Fs_Remove.thy ===== *)
theory Fs_Remove
  imports Fs_Names
begin

text \<open>
  Removing, opening, reading and writing files: a removed file that is still open keeps its sectors
  until the last close.
\<close>

section \<open>Deleting the inode of a removed file\<close>

lemma filter_sectors: "i_sector ` set (filter (\<lambda>n. i_sector n \<noteq> x) ns) = i_sector ` set ns - {x}"
  by auto

lemma inode_close_last:
  assumes "n \<in> set (open_inodes s)" "distinct (map i_sector (open_inodes s))" "open_cnt n = 1" "removed n"
  shows "inode_close (Some (i_sector n)) s =
    bindR (free_map_release (i_sector n) 1 (s\<lparr>open_inodes := filter (\<lambda>m. i_sector m \<noteq> i_sector n) (open_inodes s)\<rparr>))
      (free_map_release (i_start (i_data n)) (bytes_to_sectors (i_length (i_data n))))"
proof -
  let ?x = "i_sector n"
  have g: "get_inode ?x s = Inr n" using get_inode_iff [OF assms(2)] assms(1) by simp
  have c: "s32 (open_cnt n - 1) = 0" using assms(3) by (simp add: s32_def)
  have "filter (\<lambda>m. i_sector m \<noteq> ?x) (map (\<lambda>m. if i_sector m = ?x then n\<lparr>open_cnt := s32 (open_cnt n - 1)\<rparr> else m) (open_inodes s))
      = filter (\<lambda>m. i_sector m \<noteq> ?x) (open_inodes s)"
    by (induction "open_inodes s" rule: list.induct) (auto simp: filter_map comp_def intro: map_idI)
  then show ?thesis using g c assms(4) by (simp add: inode_close_def Let_def put_inode_def)
qed

lemma close_removed:
  assumes "fs_inv c" "n \<in> set (open_inodes c)" "removed n" "open_cnt n = 1"
  defines "x \<equiv> i_sector n"
  shows "\<exists>v. inode_close (Some x) c = Inr v \<and> fs_inv v \<and> open_inodes v = filter (\<lambda>m. i_sector m \<noteq> x) (open_inodes c)
    \<and> names_of (dsk v) = names_of (dsk c) \<and> live_of v = live_of c - {x} \<and> marked (free_map v) = marked (free_map c) - space (dsk c) x
    \<and> (\<forall>y \<in> live_of v. di (dsk v) y = di (dsk c) y \<and> (0 < y \<longrightarrow> data_of (dsk v) y = data_of (dsk c) y))"
proof -
  note o = fs_inv_opens [OF assms(1)]
  let ?ns = "filter (\<lambda>m. i_sector m \<noteq> x) (open_inodes c)" and ?d = "di (dsk c) x"
  let ?c = "c\<lparr>open_inodes := ?ns\<rparr>"
  have "open_ok (dsk c) n" using o(1) assms(2) by (simp add: opens_ok_def)
  then have n: "i_data n = ?d" "x \<notin> linked (dsk c)" using assms(3) by (simp_all add: open_ok_def x_def)
  have xl: "x \<in> live_of c" using assms(2) by (auto simp: live_of_def live_def x_def)
  have x0: "x \<noteq> 0" using n(2) by (metis insertI1 linked_def)
  have op: "opened c ?c ?ns" by (rule opened_upd [OF o(2)])
  have inv: "fs_inv ?c"
  proof (rule fs_inv_opened [OF assms(1) op])
    show "opens_ok (dsk c) ?ns" using o(1) by (auto simp: opens_ok_def distinct_map_filter)
    show "i_sector ` set ?ns \<subseteq> live (dsk c) (open_inodes c)" by (auto simp: live_def)
    show "\<exists>n \<in> set ?ns. i_sector n = 0 \<and> deny_write_cnt n = 0" using fs_inv_map_open [OF assms(1)] x0 by auto
  qed
  have dc: "dsk ?c = dsk c" "fs_units ?c = fs_units c" using opened_fields [OF op o(2)] by simp_all
  have lc: "live_of ?c = live_of c - {x}"
    using n(2) unfolding live_of_def live_def dc(1) by (auto simp: filter_sectors)
  note lay = fs_inv_layout [OF assms(1)]
  have sp: "space (dsk c) x \<inter> live_space ?c = {}"
    using lay xl unfolding live_space_def lc dc(1) layout_def by blast
  have fit: "fits (fs_units c) ?d" "space (dsk c) x \<subseteq> marked (free_map c)" "x < fs_units c" "x \<notin> region ?d"
    using lay xl by (auto simp: layout_def)
  have "{x..<x + 1} = {x}" by auto
  then obtain a where a: "free_map_release x 1 ?c = Inr a" "fs_inv a" "map_step ?c a" "marked (free_map a) = marked (free_map c) - {x}"
    using fs_release [OF inv, of x 1] fit(2,3) sp dc(2) by (auto simp: space_def)
  have r: "{i_start ?d..<i_start ?d + bytes_to_sectors (i_length ?d)} = region ?d" by (simp add: region_def)
  have ua: "fs_units a = fs_units c" "open_inodes a = ?ns" using a(3) dc(2) by (simp_all add: map_step_def)
  obtain v where v: "free_map_release (i_start ?d) (bytes_to_sectors (i_length ?d)) a = Inr v" "fs_inv v" "map_step a v"
      "marked (free_map v) = marked (free_map a) - region ?d"
    using fs_release [OF a(2), of "i_start ?d" "bytes_to_sectors (i_length ?d)", unfolded r] fit ua(1) a(4) sp map_step_space [OF a(3) inv]
    by (auto simp: fits_def space_def)
  have eq: "inode_close (Some x) c = Inr v"
    using inode_close_last [OF assms(2) o(3) assms(4,3)] a(1) v(1) n(1) by (simp add: x_def)
  note fa = map_step_frame [OF a(3) inv] and fv = map_step_frame [OF v(3) a(2)]
  have "di (dsk v) y = di (dsk c) y \<and> (0 < y \<longrightarrow> data_of (dsk v) y = data_of (dsk c) y)" if "y \<in> live_of ?c" for y
    using fa(3,4) [of y] fv(3,4) [of y] fa(1) that dc(1) by auto
  moreover have "live_of v = live_of ?c" using fa(1) fv(1) by simp
  ultimately show ?thesis
    using eq v a(4) ua(2) fa(2) fv(2) lc dc(1) by (intro exI [of _ v]) (auto simp: map_step_def space_def)
qed

section \<open>Removing a file\<close>

text \<open>Taking the entry of an open file out of the directory and marking its inode.\<close>

definition mark_removed :: "nat \<Rightarrow> inode list \<Rightarrow> inode list" where
  "mark_removed x ns = map (\<lambda>n. if i_sector n = x then n\<lparr>removed := True\<rparr> else n) ns"

lemma mark_removed_sectors: "map i_sector (mark_removed x ns) = map i_sector ns" "i_sector ` set (mark_removed x ns) = i_sector ` set ns"
proof -
  show "map i_sector (mark_removed x ns) = map i_sector ns" by (simp add: mark_removed_def)
  from arg_cong [OF this, of set] show "i_sector ` set (mark_removed x ns) = i_sector ` set ns" by simp
qed

lemma mark_removed_member:
  "n \<in> set (mark_removed x ns) \<Longrightarrow> \<exists>m \<in> set ns. i_sector m = i_sector n \<and> open_cnt m = open_cnt n \<and> deny_write_cnt m = deny_write_cnt n"
  by (auto simp: mark_removed_def)

lemma bump_open_member:
  assumes "x \<in> i_sector ` set ns" "m \<in> set (bump x d ns)" "i_sector m = x"
  shows "\<exists>k \<in> set ns. open_cnt m = open_cnt k + 1 \<and> deny_write_cnt m = deny_write_cnt k"
proof -
  have "m \<in> (\<lambda>n. if i_sector n = x then n\<lparr>open_cnt := open_cnt n + 1\<rparr> else n) ` set ns"
    using assms(1,2) by (simp only: bump_def if_True set_map)
  then obtain k where k: "k \<in> set ns" "m = (if i_sector k = x then k\<lparr>open_cnt := open_cnt k + 1\<rparr> else k)" by blast
  then have "i_sector k = x" using assms(3) by (cases "i_sector k = x") simp_all
  then show ?thesis using k by (intro bexI [of _ k]) simp_all
qed

lemma bump_new_member:
  assumes "x \<notin> i_sector ` set ns" "m \<in> set (bump x d ns)" "i_sector m = x"
  shows "open_cnt m = 1"
proof -
  have "m = \<lparr>i_sector = x, open_cnt = 1, removed = False, deny_write_cnt = 0, i_data = d\<rparr> \<or> m \<in> set ns"
    using assms(1,2) by (simp add: bump_def)
  moreover have "m \<notin> set ns" using assms(1,3) by blast
  ultimately show ?thesis by (metis inode.select_convs(2))
qed

lemma root_unlink:
  assumes "fs_inv s" "dev_step s s'" "\<forall>i. i \<notin> region (di (dsk s) 1) \<longrightarrow> dsk s' i = dsk s i"
    and "dir_ok (data_of (dsk s') 1)" "names_of (dsk s') = (names_of (dsk s))(name := None)" "names_of (dsk s) name = Some x"
    and "x \<in> i_sector ` set (open_inodes s)"
  defines "c \<equiv> s'\<lparr>open_inodes := mark_removed x (open_inodes s)\<rparr>"
  shows "fs_inv c" "live_of c = live_of s" "x \<notin> linked (dsk c)"
proof -
  note b = fs_inv_opens [OF assms(1)]
  note f = dev_step_fields [OF assms(2) b(2)]
  note d = root_write_frame(1,2) [OF assms(1,3)]
  have dc: "dsk c = dsk s'" "fs_units c = fs_units s" "free_map c = free_map s" "free_map_file c = free_map_file s"
      "open_inodes c = mark_removed x (open_inodes s)" "fs_base c"
    using f by (simp_all add: c_def dsk_def fs_units_def fs_base_def)
  have t: "tree_ok (dsk s)" using assms(1) by (simp add: fs_inv_def fs_good_def)
  then have inj: "inj_on (names_of (dsk s)) (dom (names_of (dsk s)))" by (simp add: tree_ok_def)
  have ran: "ran (names_of (dsk s')) = ran (names_of (dsk s)) - {x}"
    using inj assms(5,6) by (auto simp: ran_def inj_on_def dom_def) (metis option.inject)
  have x: "x \<in> live_of s" "1 < x" using names_live [OF assms(1,6)] .
  have l: "linked (dsk s') = linked (dsk s) - {x}" using ran x(2) by (auto simp: linked_def)
  have v: "live (dsk c) (open_inodes c) = live_of s"
    unfolding live_def live_of_def dc(1,5) mark_removed_sectors l using assms(7) by auto
  then show "live_of c = live_of s" by (simp add: live_of_def)
  show "x \<notin> linked (dsk c)" using l dc(1) by simp
  have "layout (fs_units c) (dsk c) (live (dsk c) (open_inodes c)) (marked (free_map c))"
    unfolding v unfolding dc using fs_inv_layout [OF assms(1)] d(1) by (simp add: layout_def space_def)
  moreover have "tree_ok (dsk c)"
    unfolding dc(1) tree_ok_def ran using t assms(4) unfolding tree_ok_def assms(5) inj_on_def by auto
  moreover have "opens_ok (dsk c) (open_inodes c)"
  proof -
    have "open_ok (dsk c) n" if n: "n \<in> set (mark_removed x (open_inodes s))" for n
    proof -
      obtain m where m: "m \<in> set (open_inodes s)" "n = (if i_sector m = x then m\<lparr>removed := True\<rparr> else m)"
        using n by (auto simp: mark_removed_def)
      then have "open_ok (dsk s) m" "i_sector m \<in> live_of s" using b(1) by (auto simp: opens_ok_def live_of_def live_def)
      then show ?thesis using m(2) d(1) l by (auto simp: open_ok_def dc(1))
    qed
    then show ?thesis using b(3) unfolding opens_ok_def dc(5) mark_removed_sectors(1) by blast
  qed
  moreover have "map_good c"
  proof -
    obtain n where n: "n \<in> set (open_inodes s)" "i_sector n = 0" "deny_write_cnt n = 0" using fs_inv_map_open [OF assms(1)] by blast
    then have "n \<in> set (open_inodes c)" using x(2) unfolding dc(5) mark_removed_def by force
    then have "get_inode 0 c = Inr n"
      using get_inode_iff [of c 0 n] b(3) n(2) unfolding dc(5) mark_removed_sectors(1) by simp
    moreover have "di (dsk c) 0 = di (dsk s) 0" "data_of (dsk c) 0 = data_of (dsk s) 0"
      unfolding dc(1) using d linked_live(2) by auto
    ultimately show ?thesis using assms(1) n(3) dc by (auto simp: fs_inv_def map_good_def)
  qed
  moreover have "map_ok c" using assms(1) dc f(2) by (simp add: fs_inv_def map_ok_def fs_base_def fs_units_def c_def)
  ultimately show "fs_inv c" using dc(6) by (simp add: fs_inv_def fs_good_def)
qed

lemma inode_remove_open:
  assumes "n \<in> set (open_inodes s)" "distinct (map i_sector (open_inodes s))"
  shows "inode_remove (Some (i_sector n)) s = Inr (s\<lparr>open_inodes := mark_removed (i_sector n) (open_inodes s)\<rparr>)"
proof -
  have "get_inode (i_sector n) s = Inr n" using get_inode_iff [OF assms(2)] assms(1) by simp
  then show ?thesis
    using put_inode_map [OF assms(1) _ assms(2), of "\<lambda>n. n\<lparr>removed := True\<rparr>"] by (simp add: inode_remove_def mark_removed_def)
qed

text \<open>The table of open inodes after a removal.\<close>

definition opens_after :: "nat \<Rightarrow> inode list \<Rightarrow> inode list" where
  "opens_after x ns = (if x \<in> i_sector ` set ns then mark_removed x ns else ns)"

lemma remove_bump:
  assumes "\<forall>n \<in> set ns. 0 < open_cnt n"
  shows "x \<in> i_sector ` set ns \<Longrightarrow> unref x (mark_removed x (bump x d ns)) = mark_removed x ns"
    "x \<notin> i_sector ` set ns \<Longrightarrow> filter (\<lambda>m. i_sector m \<noteq> x) (mark_removed x (bump x d ns)) = ns"
proof -
  assume x: "x \<in> i_sector ` set ns"
  have eq: "mark_removed x (bump x d ns) = bump x d (mark_removed x ns)"
    using x by (auto simp: bump_def mark_removed_sectors(2)) (simp add: mark_removed_def)
  have "\<forall>n \<in> set (mark_removed x ns). 0 < open_cnt n" using assms by (auto simp: mark_removed_def)
  then show "unref x (mark_removed x (bump x d ns)) = mark_removed x ns" unfolding eq by (rule unref_bump)
next
  assume x: "x \<notin> i_sector ` set ns"
  then have "mark_removed x ns = ns" unfolding mark_removed_def by (intro map_idI) auto
  moreover have "filter (\<lambda>m. i_sector m \<noteq> x) ns = ns" using x by (auto simp: filter_id_conv)
  ultimately show "filter (\<lambda>m. i_sector m \<noteq> x) (mark_removed x (bump x d ns)) = ns"
    using x by (simp add: bump_def mark_removed_def)
qed

text \<open>Closing the removed file: it is deleted unless it is open elsewhere.\<close>

lemma close_unlinked:
  assumes "fs_inv c" "open_inodes c = mark_removed x (bump x d ns)" "\<forall>n \<in> set ns. 0 < open_cnt n \<and> open_cnt n < 2 ^ 31 - 1"
    and "\<forall>n \<in> set ns. deny_write_cnt n \<le> open_cnt n" "x \<notin> linked (dsk c)"
  shows "\<exists>v. inode_close (Some x) c = Inr v \<and> fs_inv v \<and> open_inodes v = opens_after x ns \<and> names_of (dsk v) = names_of (dsk c)
    \<and> live_of v = (if x \<in> i_sector ` set ns then live_of c else live_of c - {x})
    \<and> marked (free_map v) = (if x \<in> i_sector ` set ns then marked (free_map c) else marked (free_map c) - space (dsk c) x)
    \<and> (\<forall>y \<in> live_of v. di (dsk v) y = di (dsk c) y \<and> (0 < y \<longrightarrow> data_of (dsk v) y = data_of (dsk c) y))"
proof -
  note o = fs_inv_opens [OF assms(1)]
  have pos: "\<forall>n \<in> set ns. 0 < open_cnt n" using assms(3) by blast
  have "x \<in> i_sector ` set (open_inodes c)" unfolding assms(2) mark_removed_sectors(2) by (simp add: bump_sectors)
  then obtain n where n: "n \<in> set (open_inodes c)" "i_sector n = x" by auto
  then have "open_ok (dsk c) n" using o(1) by (simp add: opens_ok_def)
  then have ok: "removed n" "0 < open_cnt n" "open_cnt n < 2 ^ 31" using n(2) assms(5) by (simp_all add: open_ok_def)
  obtain m where m: "m \<in> set (bump x d ns)" "i_sector m = x" "open_cnt m = open_cnt n" "deny_write_cnt m = deny_write_cnt n"
    using mark_removed_member [of n x "bump x d ns"] n assms(2) by auto
  show ?thesis
  proof (cases "x \<in> i_sector ` set ns")
    case True
    then obtain k where k: "k \<in> set ns" "open_cnt m = open_cnt k + 1" "deny_write_cnt m = deny_write_cnt k"
      using m(1,2) bump_open_member [OF True m(1)] by auto
    let ?v = "c\<lparr>open_inodes := mark_removed x ns\<rparr>"
    have un: "unref x (open_inodes c) = mark_removed x ns" unfolding assms(2) by (rule remove_bump(1) [OF pos True])
    have "inode_close (Some x) c = Inr ?v"
      using inode_close_kept [OF n(1) o(3) ok(2,3)] k(1,2) m(3) pos n(2) un by auto
    moreover have op: "opened c ?v (mark_removed x ns)" by (rule opened_upd [OF o(2)])
    have only: "\<forall>k \<in> set (open_inodes c). i_sector k = x \<longrightarrow> k = n" using n o(3) by (auto simp: distinct_map inj_on_def)
    have sec: "i_sector ` set (mark_removed x ns) = i_sector ` set (open_inodes c)"
      unfolding assms(2) mark_removed_sectors bump_sectors using True by auto
    have "fs_inv ?v"
    proof (rule fs_inv_opened [OF assms(1) op])
      have "deny_write_cnt n < open_cnt n" using k m(3,4) assms(4) by auto
      then have "\<forall>k \<in> set (open_inodes c). i_sector k = x \<longrightarrow> deny_write_cnt k < open_cnt k \<or> deny_write_cnt k = 0"
        using only by blast
      from opens_unref [OF o(1) this] un show "opens_ok (dsk c) (mark_removed x ns)" by simp
      show "i_sector ` set (mark_removed x ns) \<subseteq> live (dsk c) (open_inodes c)" unfolding sec by (auto simp: live_def)
      have "0 \<in> linked (dsk c)" by (simp add: linked_def)
      then have "x \<noteq> 0" using assms(5) by metis
      then show "\<exists>n \<in> set (mark_removed x ns). i_sector n = 0 \<and> deny_write_cnt n = 0"
        using fs_inv_map_open [OF assms(1)] unfolding assms(2) by (auto simp: mark_removed_def bump_def split: if_splits)
    qed
    moreover have "live_of ?v = live_of c" unfolding live_of_def live_def using sec opened_fields(6) [OF op o(2)] by simp
    ultimately show ?thesis using True opened_fields [OF op o(2)] by (intro exI [of _ ?v]) (simp add: opens_after_def)
  next
    case False
    then have "open_cnt n = 1" using bump_new_member [OF False m(1,2)] m(3) by simp
    from close_removed [OF assms(1) n(1) ok(1) this] show ?thesis
      using False remove_bump(2) [OF pos False, of d] unfolding n(2) assms(2) opens_after_def by auto
  qed
qed

lemma get_inode_sector: "fs_inv s \<Longrightarrow> x \<in> i_sector ` set (open_inodes s) \<Longrightarrow> \<exists>n. get_inode x s = Inr n"
  using get_inode_iff [OF fs_inv_opens(3), of s x] by blast

lemma opened_dev: "dev_step s t \<Longrightarrow> dsk t = dsk s \<Longrightarrow> fs_base s \<Longrightarrow> opened s t (open_inodes s)"
  using dev_step_fields [of s t] dev_step_table [of s t] by (simp add: opened_def)

lemma dir_remove_ok:
  assumes "fs_inv t" "get_inode 1 t = Inr n" "d_inode d = 1" "0 \<notin> set name"
    and room: "\<forall>n \<in> set (open_inodes t). open_cnt n < 2 ^ 31 - 1"
  shows "\<exists>ok v. dir_remove d name t = Inr (ok, v) \<and> fs_inv v \<and> names_of (dsk v) = (names_of (dsk t))(name := None)
    \<and> (case names_of (dsk t) name of
         None \<Rightarrow> \<not> ok \<and> opened t v (open_inodes t)
       | Some x \<Rightarrow> ok \<and> open_inodes v = opens_after x (open_inodes t)
           \<and> live_of v = (if x \<in> i_sector ` set (open_inodes t) then live_of t else live_of t - {x})
           \<and> marked (free_map v) = (if x \<in> i_sector ` set (open_inodes t) then marked (free_map t) else marked (free_map t) - space (dsk t) x)
           \<and> (\<forall>y \<in> live_of v. di (dsk v) y = di (dsk t) y \<and> (1 < y \<longrightarrow> data_of (dsk v) y = data_of (dsk t) y)))"
proof -
  let ?bs = "data_of (dsk t) 1"
  have "tree_ok (dsk t)" using assms(1) by (simp add: fs_inv_def fs_good_def)
  then have dir: "dir_ok ?bs" by (simp add: tree_ok_def)
  have rd: "reads (d_inode d) ?bs t" using root_reads(1) [OF assms(1,2)] assms(3) by simp
  obtain r a where r: "lookup d name t = Inr (r, a)" "dev_step t a" "dsk a = dsk t"
      "case r of None \<Rightarrow> dir_names ?bs name = None
       | Some (e, ofs) \<Rightarrow> dir_names ?bs name = Some (inode_sector e)
           \<and> (\<exists>j < slot_cnt ?bs. e = slot ?bs j \<and> ofs = of_nat (20 * j) \<and> used_for name e)"
    using lookup_ok [OF rd dir assms(4)] by blast
  note fa = dev_step_inv [OF assms(1) r(2,3)] and oa = dev_step_fields [OF r(2) fs_inv_opens(2) [OF assms(1)]]
  show ?thesis
  proof (cases r)
    case None
    then have no: "names_of (dsk t) name = None" using r(4) by (simp add: names_of_def)
    then have "(names_of (dsk t))(name := None) = names_of (dsk t)" by auto
    moreover have "opened t a (open_inodes t)"
      by (rule opened_dev [OF r(2,3) fs_inv_opens(2) [OF assms(1)]])
    ultimately show ?thesis using None r(1) fa(1,3) no by (intro exI [of _ False] exI [of _ a]) (simp add: dir_remove_def)
  next
    case (Some p)
    then obtain e j where e: "p = (e, of_nat (20 * j))" "j < slot_cnt ?bs" "e = slot ?bs j" "used_for name e"
        "names_of (dsk t) name = Some (inode_sector e)"
      using r(4) by (cases p) (auto simp: names_of_def)
    let ?x = "inode_sector e" and ?e = "set_in_use False e" and ?ns = "open_inodes t"
    have e20: "length ?e = 20" "\<not> in_use ?e" using length_slot [OF e(2)] e(3) by (simp_all add: set_in_use_def in_use_def)
    have x: "?x \<in> linked (dsk a)" using e(5) r(3) by (auto simp: linked_def ran_def)
    obtain b where b: "inode_open ?x a = Inr (Some ?x, b)" "opened a b (bump ?x (di (dsk t) ?x) ?ns)" "fs_inv b"
      using inode_open_ok [OF fa(1) x] room oa(3) r(3) by auto
    note fb = opened_fields [OF b(2) fs_inv_opens(2) [OF fa(1)]]
    have db: "dsk b = dsk t" using fb(6) r(3) by simp
    have sec: "i_sector ` set (open_inodes b) = insert ?x (i_sector ` set ?ns)" using fb(7) bump_sectors by simp
    have "1 \<in> i_sector ` set ?ns" using fs_inv_get(1,2) [OF assms(1,2)] by force
    then obtain m where m: "get_inode 1 b = Inr m" using get_inode_sector [OF b(3), of 1] sec by blast
    have p: "20 * j \<le> length (data_of (dsk b) 1)" using slot_in [OF e(2)] db by simp
    obtain c where c: "write_at 1 ?e (sint (of_nat (20 * j) :: 32 word)) b = Inr (20, c)" "dev_step b c"
        "\<forall>i. i \<notin> region (di (dsk b) 1) \<longrightarrow> dsk c i = dsk b i" "data_of (dsk c) 1 = overwrite (20 * j) ?e ?bs"
      using root_write [OF b(3) m p e20(1)] slot_in [OF e(2)] e20(1) unfolding db by auto
    note rm = dir_remove_entry [OF dir e(2) _ e20, of name, folded e(3), OF e(4)]
    have nc: "names_of (dsk c) = (names_of (dsk b))(name := None)" "dir_ok (data_of (dsk c) 1)"
      using rm unfolding names_of_def c(4) db by simp_all
    note fc = dev_step_fields [OF c(2) fs_inv_opens(2) [OF b(3)]]
    let ?c = "c\<lparr>open_inodes := mark_removed ?x (open_inodes b)\<rparr>"
    have "names_of (dsk b) name = Some ?x" "?x \<in> i_sector ` set (open_inodes b)" using e(5) db sec by simp_all
    note u = root_unlink [OF b(3) c(2,3) nc(2,1) this]
    have rem: "inode_remove (Some ?x) c = Inr ?c"
    proof -
      obtain q where "q \<in> set (open_inodes c)" "i_sector q = ?x" using sec fc(3) by (metis image_iff insertI1)
      with inode_remove_open [of q c] fs_inv_opens(3) [OF b(3)] fc(3) show ?thesis by simp
    qed
    have pos: "\<forall>n \<in> set ?ns. 0 < open_cnt n \<and> open_cnt n < 2 ^ 31 - 1" "\<forall>n \<in> set ?ns. deny_write_cnt n \<le> open_cnt n"
      using fs_inv_opens(1) [OF assms(1)] room by (auto simp: opens_ok_def open_ok_def)
    have oc: "open_inodes ?c = mark_removed ?x (bump ?x (di (dsk t) ?x) ?ns)" using fb(7) by simp
    obtain v where v: "inode_close (Some ?x) ?c = Inr v" "fs_inv v" "open_inodes v = opens_after ?x ?ns" "names_of (dsk v) = names_of (dsk ?c)"
        "live_of v = (if ?x \<in> i_sector ` set ?ns then live_of ?c else live_of ?c - {?x})"
        "marked (free_map v) = (if ?x \<in> i_sector ` set ?ns then marked (free_map ?c) else marked (free_map ?c) - space (dsk ?c) ?x)"
        "\<forall>y \<in> live_of v. di (dsk v) y = di (dsk ?c) y \<and> (0 < y \<longrightarrow> data_of (dsk v) y = data_of (dsk ?c) y)"
      using close_unlinked [OF u(1) oc pos u(3)] by blast
    have eq: "dir_remove d name t = Inr (True, v)"
      using r(1) Some e(1) b(1) c(1) rem v(1) assms(3) by (simp add: dir_remove_def)
    have lb: "live_of b = live_of t"
      using opened_live [OF b(2), of ?x] sec fb(7) oa(3) fa(4) x linked_live(1) [of a] by auto
    have dc: "dsk ?c = dsk c" "free_map ?c = free_map t" using fc(4) fb(3) oa(4) by (simp_all add: dsk_def)
    note w = root_write_frame(1,2) [OF b(3) c(3), unfolded lb db]
    have xl: "?x \<in> live_of t" "1 < ?x" using names_live [OF assms(1) e(5)] .
    show ?thesis
      using eq v(2,3) e(5) v(4) nc(1) db u(2) lb dc xl w v(5-7)
      by (intro exI [of _ True] exI [of _ v]) (auto simp: space_def)
  qed
qed

lemma mark_bump_swap: "x \<noteq> y \<Longrightarrow> mark_removed x (bump y d ns) = bump y d (mark_removed x ns)"
proof (cases "y \<in> i_sector ` set ns")
  case True
  assume "x \<noteq> y"
  then show ?thesis using True by (simp add: bump_def mark_removed_sectors(2)) (simp add: mark_removed_def)
next
  case False
  assume "x \<noteq> y"
  then show ?thesis using False by (simp add: bump_def mark_removed_sectors(2)) (simp add: mark_removed_def)
qed

lemma opens_after_bump: "x \<noteq> y \<Longrightarrow> opens_after x (bump y d ns) = bump y d (opens_after x ns)"
  by (simp add: opens_after_def bump_sectors mark_bump_swap)

lemma opens_after_table:
  assumes "table_ok ns"
  shows "table_ok (opens_after x ns)"
proof -
  obtain n where n: "n \<in> set ns" "i_sector n = 0" "deny_write_cnt n = 0" using assms by (auto simp: table_ok_def)
  have "(if i_sector n = x then n\<lparr>removed := True\<rparr> else n) \<in> set (mark_removed x ns)" using n(1) by (simp add: mark_removed_def)
  then have "\<exists>n \<in> set (mark_removed x ns). i_sector n = 0 \<and> deny_write_cnt n = 0" by (rule bexI [rotated]) (simp add: n)
  then show ?thesis using assms by (auto simp: table_ok_def opens_after_def mark_removed_def)
qed

lemma filesys_remove_run:
  assumes "fs_inv s" "open_room s" "0 \<notin> set name"
  defines "is_open \<equiv> \<lambda>x. x \<in> i_sector ` set (open_inodes s)"
  shows "\<exists>ok s'. filesys_remove name s = Inr (ok, s') \<and> fs_inv s' \<and> names_of (dsk s') = (names_of (dsk s))(name := None)
    \<and> (case names_of (dsk s) name of
         None \<Rightarrow> \<not> ok \<and> open_inodes s' = open_inodes s \<and> live_of s' = live_of s \<and> marked (free_map s') = marked (free_map s)
       | Some x \<Rightarrow> ok \<and> open_inodes s' = opens_after x (open_inodes s)
           \<and> live_of s' = (if is_open x then live_of s else live_of s - {x})
           \<and> marked (free_map s') = (if is_open x then marked (free_map s) else marked (free_map s) - space (dsk s) x))
    \<and> (\<forall>y \<in> live_of s'. di (dsk s') y = di (dsk s) y \<and> (1 < y \<longrightarrow> data_of (dsk s') y = data_of (dsk s) y))"
proof -
  let ?d = "\<lparr>d_inode = 1, d_pos = 0\<rparr>" and ?ns = "open_inodes s"
  obtain t n where t: "dir_open_root s = Inr (Some ?d, t)" "opened s t (bump 1 (di (dsk s) 1) ?ns)" "fs_inv t"
      "live_of t = live_of s" "get_inode 1 t = Inr n"
    using dir_open_root_ok [OF assms(1,2)] by blast
  note ft = opened_fields [OF t(2) fs_inv_opens(2) [OF assms(1)]]
  have room: "\<forall>n \<in> set (open_inodes t). open_cnt n < 2 ^ 31 - 1"
    using assms(2) unfolding ft(7) by (auto simp: bump_def open_room_def)
  obtain ok v where v: "dir_remove ?d name t = Inr (ok, v)" "fs_inv v" "names_of (dsk v) = (names_of (dsk t))(name := None)"
    and c: "case names_of (dsk t) name of
         None \<Rightarrow> \<not> ok \<and> opened t v (open_inodes t)
       | Some x \<Rightarrow> ok \<and> open_inodes v = opens_after x (open_inodes t)
           \<and> live_of v = (if x \<in> i_sector ` set (open_inodes t) then live_of t else live_of t - {x})
           \<and> marked (free_map v) = (if x \<in> i_sector ` set (open_inodes t) then marked (free_map t) else marked (free_map t) - space (dsk t) x)
           \<and> (\<forall>y \<in> live_of v. di (dsk v) y = di (dsk t) y \<and> (1 < y \<longrightarrow> data_of (dsk v) y = data_of (dsk t) y))"
    using dir_remove_ok [OF t(3,5) _ assms(3) room, of ?d] by auto
  let ?ms = "case names_of (dsk s) name of None \<Rightarrow> ?ns | Some x \<Rightarrow> opens_after x ?ns"
  have x1: "1 < x" "x \<in> live_of s" if "names_of (dsk s) name = Some x" for x using names_live [OF assms(1) that] by simp_all
  have ov: "open_inodes v = bump 1 (di (dsk s) 1) ?ms" and tb: "table_ok ?ms"
    using c ft(6,7) opens_after_bump x1 fs_inv_table [OF assms(1)] opens_after_table
    by (auto simp: opened_def split: option.splits)
  obtain w where w: "dir_close (Some ?d) v = Inr w" "opened v w ?ms" "fs_inv w" "live_of w = live_of v"
    using root_close_bump [OF v(2) ov tb] by blast
  note fw = opened_fields [OF w(2) fs_inv_opens(2) [OF v(2)]]
  have eq: "filesys_remove name s = Inr (ok, w)" by (simp only: filesys_remove_def t(1) bindR_Inr prod.case option.case v(1) w(1))
  have data: "di (dsk w) y = di (dsk s) y" "1 < y \<Longrightarrow> data_of (dsk w) y = data_of (dsk s) y" if "y \<in> live_of v" for y
    using that c t(4) ft(6) fw(6) by (auto simp: opened_def split: option.splits)
  have nm: "names_of (dsk w) = (names_of (dsk s))(name := None)" using v(3) ft(6) fw(6) by simp
  have op: "x \<in> i_sector ` set (open_inodes t) \<longleftrightarrow> is_open x" if "1 < x" for x
    using that ft(7) by (auto simp: is_open_def bump_sectors)
  show ?thesis
    using eq w(3,4) fw(3,7) c ft(3,6) data x1 t(4) nm op by (intro exI [of _ ok] exI [of _ w]) (auto simp: opened_def live_of_def split: option.splits)
qed

text \<open>C9. Removing a file: \<^verbatim>\<open>filesys_remove\<close> succeeds exactly if a file of that name exists, and afterwards it does
  not exist while every other file is as it was. If the file is not open, exactly its sectors are free
  again; if it is, it keeps its sectors and contents, marked to be deleted by the last close. The
  invariant of the file system is kept.\<close>

theorem filesys_remove_correct:
  assumes "fs_inv s" "open_room s" "0 \<notin> set name"
  defines "is_open \<equiv> \<lambda>x. x \<in> i_sector ` set (open_inodes s)"
  shows "\<exists>ok s'. filesys_remove name s = Inr (ok, s') \<and> fs_inv s' \<and> (ok \<longleftrightarrow> files s name \<noteq> None) \<and> files s' = (files s)(name := None)
    \<and> (case names_of (dsk s) name of
         None \<Rightarrow> open_inodes s' = open_inodes s
       | Some x \<Rightarrow> open_inodes s' = opens_after x (open_inodes s)
           \<and> marked (free_map s') = (if is_open x then marked (free_map s) else marked (free_map s) - space (dsk s) x)
           \<and> (\<forall>y \<in> live_of s. 1 < y \<and> (y \<noteq> x \<or> is_open x) \<longrightarrow> data_of (dsk s') y = data_of (dsk s) y))"
proof -
  obtain ok w where w: "filesys_remove name s = Inr (ok, w)" "fs_inv w" "names_of (dsk w) = (names_of (dsk s))(name := None)"
    and c: "case names_of (dsk s) name of
         None \<Rightarrow> \<not> ok \<and> open_inodes w = open_inodes s \<and> live_of w = live_of s \<and> marked (free_map w) = marked (free_map s)
       | Some x \<Rightarrow> ok \<and> open_inodes w = opens_after x (open_inodes s)
           \<and> live_of w = (if is_open x then live_of s else live_of s - {x})
           \<and> marked (free_map w) = (if is_open x then marked (free_map s) else marked (free_map s) - space (dsk s) x)"
    and data: "\<forall>y \<in> live_of w. 1 < y \<longrightarrow> data_of (dsk w) y = data_of (dsk s) y"
    using filesys_remove_run [OF assms(1-3)] unfolding is_open_def by blast
  have "files w nm = ((files s)(name := None)) nm" for nm
    using w(3) data names_live [OF w(2), of nm] by (cases "nm = name"; cases "names_of (dsk s) nm") (auto simp: files_def)
  then have "files w = (files s)(name := None)" by blast
  moreover have "ok \<longleftrightarrow> files s name \<noteq> None" using c by (auto simp: files_def split: option.splits)
  ultimately show ?thesis using w(1,2) c data by (intro exI [of _ ok] exI [of _ w]) (auto split: option.splits)
qed

theorem filesys_remove_correct_witness:
  "\<exists>s1 s2. filesys_create (replicate 20 0) [97] 600 (mounted []) = Inr (True, s1) \<and> filesys_remove [97] s1 = Inr (True, s2)
     \<and> files s2 = files (mounted [])"
proof -
  obtain x s1 where c: "filesys_create (replicate 20 0) [97] 600 (mounted []) = Inr (True, s1)" "fs_inv s1"
      "open_inodes s1 = open_inodes (mounted [])" "names_of (dsk s1) = [[97] \<mapsto> x]"
    by (rule mounted_create) auto
  have "open_room s1" using c(3) mounted_room [of "[]"] by (simp add: open_room_def)
  moreover have "files s1 [97] \<noteq> None" "(files s1)([97] := None) = files (mounted [])"
    using c(4) by (simp_all add: files_def mounted_disk formatted_names fun_eq_iff)
  ultimately show ?thesis using filesys_remove_correct [OF c(2), of "[97]"] c(1) by auto
qed

end
