(* ===== verification/Fs_Open.thy ===== *)
theory Fs_Open
  imports Fs_Remove
begin

text \<open>
  Opening a file by name, and reading, writing and closing open files, on a file system that satisfies
  its invariant.
\<close>

section \<open>Opening\<close>

lemma unref_bump_other:
  assumes "\<forall>n \<in> set ns. 0 < open_cnt n" "x \<noteq> y"
  shows "unref y (bump x d (bump y e ns)) = bump x d ns"
proof (cases "y \<in> i_sector ` set ns")
  case True
  have "bump x d (bump y e ns) = bump y e (bump x d ns)"
    using True assms(2) unfolding bump_def by (auto simp: image_iff)
  moreover have "\<forall>n \<in> set (bump x d ns). 0 < open_cnt n" using assms(1) by (auto simp: bump_def)
  ultimately show ?thesis using unref_bump by simp
next
  case False
  have "filter (\<lambda>n. i_sector n \<noteq> y) (bump x d ns) = bump x d ns"
    using False assms(2) bump_sectors [of x d ns] by (auto simp: filter_id_conv)
  moreover have "filter (\<lambda>n. i_sector n \<noteq> y) (bump x d (bump y e ns)) = filter (\<lambda>n. i_sector n \<noteq> y) (bump x d ns)"
    using False assms(2) by (auto simp: bump_def)
  moreover have "\<exists>n \<in> set (bump x d (bump y e ns)). i_sector n = y \<and> open_cnt n = 1"
    using False assms(2) by (auto simp: bump_def)
  ultimately show ?thesis by (simp add: unref_def)
qed

lemma bump_table:
  assumes "table_ok ns"
  shows "table_ok (bump x d ns)"
proof -
  obtain n where n: "n \<in> set ns" "i_sector n = 0" "deny_write_cnt n = 0" using assms by (auto simp: table_ok_def)
  have "\<exists>n \<in> set (bump x d ns). i_sector n = 0 \<and> deny_write_cnt n = 0"
    using bump_member [OF n(1), of x d] n by (intro bexI) auto
  moreover have "\<forall>n \<in> set (bump x d ns). 0 < open_cnt n" using assms by (auto simp: bump_def table_ok_def)
  ultimately show ?thesis by (simp add: table_ok_def)
qed

lemma dir_lookup_ok:
  assumes "fs_inv t" "get_inode 1 t = Inr n" "d_inode d = 1" "0 \<notin> set name"
    and room: "\<forall>n \<in> set (open_inodes t). open_cnt n < 2 ^ 31 - 1"
  shows "\<exists>v. dir_lookup d name t = Inr (names_of (dsk t) name, v) \<and> fs_inv v \<and> live_of v = live_of t
    \<and> opened t v (case names_of (dsk t) name of None \<Rightarrow> open_inodes t | Some x \<Rightarrow> bump x (di (dsk t) x) (open_inodes t))"
proof -
  let ?bs = "data_of (dsk t) 1"
  have "tree_ok (dsk t)" using assms(1) by (simp add: fs_inv_def fs_good_def)
  then have dir: "dir_ok ?bs" by (simp add: tree_ok_def)
  have rd: "reads (d_inode d) ?bs t" using root_reads(1) [OF assms(1,2)] assms(3) by simp
  obtain r a where r: "lookup d name t = Inr (r, a)" "dev_step t a" "dsk a = dsk t"
      "case r of None \<Rightarrow> dir_names ?bs name = None
       | Some (e, ofs) \<Rightarrow> dir_names ?bs name = Some (inode_sector e)
           \<and> (\<exists>j < slot_cnt ?bs. e = slot ?bs j \<and> ofs = of_nat (20 * j) \<and> used_for name e)"
    using lookup_ok [OF rd dir assms(4)] by blast
  note fa = dev_step_inv [OF assms(1) r(2,3)] and oa = dev_step_fields [OF r(2) fs_inv_opens(2) [OF assms(1)]]
  have op: "opened t a (open_inodes t)" by (rule opened_dev [OF r(2,3) fs_inv_opens(2) [OF assms(1)]])
  show ?thesis
  proof (cases r)
    case None
    then show ?thesis using r(1,4) op fa by (simp add: dir_lookup_def names_of_def)
  next
    case (Some p)
    then obtain e ofs where e: "p = (e, ofs)" "names_of (dsk t) name = Some (inode_sector e)"
      using r(4) by (cases p) (auto simp: names_of_def)
    let ?x = "inode_sector e"
    have x: "?x \<in> linked (dsk a)" using e(2) r(3) by (auto simp: linked_def ran_def)
    obtain b where b: "inode_open ?x a = Inr (Some ?x, b)" "opened a b (bump ?x (di (dsk t) ?x) (open_inodes t))" "fs_inv b"
      using inode_open_ok [OF fa(1) x] room oa(3) r(3) by auto
    have "live_of b = live_of a"
      using opened_live [OF b(2), of ?x] bump_sectors [of ?x "di (dsk t) ?x" "open_inodes t"] oa(3) x linked_live(1) [of a] by auto
    then show ?thesis using r(1) Some e b opened_trans [OF op b(2)] fa(4) by (simp add: dir_lookup_def)
  qed
qed

lemma filesys_open_run:
  assumes "fs_inv s" "open_room s" "0 \<notin> set name"
  shows "\<exists>s'. filesys_open name s
      = Inr (map_option (\<lambda>x. \<lparr>f_inode = x, f_pos = 0, f_deny_write = False\<rparr>) (names_of (dsk s) name), s')
    \<and> fs_inv s' \<and> live_of s' = live_of s
    \<and> opened s s' (case names_of (dsk s) name of None \<Rightarrow> open_inodes s | Some x \<Rightarrow> bump x (di (dsk s) x) (open_inodes s))"
proof -
  let ?d = "\<lparr>d_inode = 1, d_pos = 0\<rparr>" and ?ns = "open_inodes s"
  obtain t n where t: "dir_open_root s = Inr (Some ?d, t)" "opened s t (bump 1 (di (dsk s) 1) ?ns)" "fs_inv t"
      "live_of t = live_of s" "get_inode 1 t = Inr n"
    using dir_open_root_ok [OF assms(1,2)] by blast
  note ft = opened_fields [OF t(2) fs_inv_opens(2) [OF assms(1)]]
  have room: "\<forall>n \<in> set (open_inodes t). open_cnt n < 2 ^ 31 - 1"
    using assms(2) unfolding ft(7) by (auto simp: bump_def open_room_def)
  let ?ms = "case names_of (dsk s) name of None \<Rightarrow> ?ns | Some x \<Rightarrow> bump x (di (dsk s) x) ?ns"
  obtain v where v: "dir_lookup ?d name t = Inr (names_of (dsk s) name, v)" "fs_inv v" "live_of v = live_of s"
      "opened t v (case names_of (dsk s) name of None \<Rightarrow> open_inodes t | Some x \<Rightarrow> bump x (di (dsk s) x) (open_inodes t))"
    using dir_lookup_ok [OF t(3,5) _ assms(3) room, of ?d] unfolding ft(6) t(4) by auto
  note fv = opened_fields [OF v(4) fs_inv_opens(2) [OF t(3)]]
  have pos: "\<forall>n \<in> set ?ns. 0 < open_cnt n" using fs_inv_table [OF assms(1)] by (simp add: table_ok_def)
  have un: "unref 1 (open_inodes v) = ?ms"
  proof (cases "names_of (dsk s) name")
    case None
    then show ?thesis using fv(7) ft(7) unref_bump [OF pos] by simp
  next
    case (Some x)
    then have "x \<noteq> 1" using names_live(2) [OF assms(1)] by auto
    then show ?thesis using Some fv(7) ft(7) unref_bump_other [OF pos] by simp
  qed
  have one: "1 \<in> i_sector ` set (open_inodes v)"
    using fv(7) ft(7) by (auto simp: bump_sectors split: option.splits)
  have tb: "table_ok ?ms"
    using fs_inv_table [OF assms(1)] bump_table by (cases "names_of (dsk s) name") simp_all
  obtain w where w: "dir_close (Some ?d) v = Inr w" "opened v w ?ms" "fs_inv w" "live_of w = live_of v"
    using root_close [OF v(2) one un tb] by blast
  have "file_open (names_of (dsk s) name) w
      = Inr (map_option (\<lambda>x. \<lparr>f_inode = x, f_pos = 0, f_deny_write = False\<rparr>) (names_of (dsk s) name), w)"
    using malloc_ok(2) [OF fs_inv_opens(2) [OF w(3)]] by (cases "names_of (dsk s) name") (simp_all add: file_open_def)
  then have "filesys_open name s
      = Inr (map_option (\<lambda>x. \<lparr>f_inode = x, f_pos = 0, f_deny_write = False\<rparr>) (names_of (dsk s) name), w)"
    by (simp only: filesys_open_def t(1) bindR_Inr prod.case option.case v(1) w(1))
  then show ?thesis using w(3,4) v(3) opened_trans [OF opened_trans [OF t(2) v(4)] w(2)] by auto
qed

end
