(* ===== verification/Fs_Session.thy ===== *)
theory Fs_Session
  imports Fs_Open
begin

text \<open>
  Sessions: sequences of calls to the file system by clients that hold open files. What a client can
  observe is specified without disks, inodes, sectors or a free map: names lead to nodes, nodes hold
  byte sequences, open files refer to nodes, and a node goes away with its last reference.
\<close>

section \<open>Calls\<close>

datatype fs_call = Create "byte list" int | Remove "byte list" | Open "byte list" | Reopen nat
  | Read nat nat | Write nat "byte list" | Seek nat int | Tell nat | Length nat | Deny nat | Allow nat | Close nat

datatype fs_ret = Flag bool | Bytes "byte list" | Count int | NoCall

type_synonym handles = "open_file option list"

definition handle :: "handles \<Rightarrow> nat \<Rightarrow> open_file option" where
  "handle hs h = (if h < length hs then hs ! h else None)"

fun handle_of :: "fs_call \<Rightarrow> nat option" where
  "handle_of (Create _ _) = None" | "handle_of (Remove _) = None" | "handle_of (Open _) = None"
| "handle_of (Reopen h) = Some h" | "handle_of (Read h _) = Some h" | "handle_of (Write h _) = Some h"
| "handle_of (Seek h _) = Some h" | "handle_of (Tell h) = Some h" | "handle_of (Length h) = Some h"
| "handle_of (Deny h) = Some h" | "handle_of (Allow h) = Some h" | "handle_of (Close h) = Some h"

text \<open>A call on the file system; \<open>stack\<close> is the content of the uninitialised entry in \<^verbatim>\<open>dir_add\<close>.\<close>

fun call_file :: "fs_call \<Rightarrow> open_file \<Rightarrow> handles \<Rightarrow> fsys \<Rightarrow> (fs_ret \<times> handles \<times> fsys) res" where
  "call_file (Reopen h) f hs s =
     bindR (file_reopen f s) (\<lambda>(r, s). Inr (Flag (r \<noteq> None), hs @ [r], s))"
| "call_file (Read h n) f hs s = bindR (file_read f (int n) s) (\<lambda>(bs, f, s). Inr (Bytes bs, hs[h := Some f], s))"
| "call_file (Write h data) f hs s = bindR (file_write f data s) (\<lambda>(n, f, s). Inr (Count n, hs[h := Some f], s))"
| "call_file (Seek h pos) f hs s = bindR (file_seek f pos) (\<lambda>f. Inr (Flag True, hs[h := Some f], s))"
| "call_file (Tell h) f hs s = Inr (Count (file_tell f), hs, s)"
| "call_file (Length h) f hs s = bindR (file_length f s) (\<lambda>n. Inr (Count n, hs, s))"
| "call_file (Deny h) f hs s = bindR (file_deny_write f s) (\<lambda>(f, s). Inr (Flag True, hs[h := Some f], s))"
| "call_file (Allow h) f hs s = bindR (file_allow_write f s) (\<lambda>(f, s). Inr (Flag True, hs[h := Some f], s))"
| "call_file (Close h) f hs s = bindR (file_close (Some f) s) (\<lambda>s. Inr (Flag True, hs[h := None], s))"
| "call_file _ f hs s = Inr (NoCall, hs, s)"

fun fs_do :: "byte list \<Rightarrow> fs_call \<Rightarrow> handles \<Rightarrow> fsys \<Rightarrow> (fs_ret \<times> handles \<times> fsys) res" where
  "fs_do stack (Create name len) hs s = bindR (filesys_create stack name len s) (\<lambda>(ok, s). Inr (Flag ok, hs, s))"
| "fs_do stack (Remove name) hs s = bindR (filesys_remove name s) (\<lambda>(ok, s). Inr (Flag ok, hs, s))"
| "fs_do stack (Open name) hs s = bindR (filesys_open name s) (\<lambda>(r, s). Inr (Flag (r \<noteq> None), hs @ [r], s))"
| "fs_do stack c hs s =
     (case handle_of c of
        None \<Rightarrow> Inr (NoCall, hs, s)
      | Some h \<Rightarrow> (case handle hs h of None \<Rightarrow> Inr (NoCall, hs, s) | Some f \<Rightarrow> call_file c f hs s))"

fun fs_run :: "byte list \<Rightarrow> fs_call list \<Rightarrow> handles \<Rightarrow> fsys \<Rightarrow> (fs_ret list \<times> handles \<times> fsys) res" where
  "fs_run stack [] hs s = Inr ([], hs, s)"
| "fs_run stack (c # cs) hs s =
     bindR (fs_do stack c hs s) (\<lambda>(r, hs, s).
     bindR (fs_run stack cs hs s) (\<lambda>(rs, hs, s). Inr (r # rs, hs, s)))"

text \<open>What the calls are assumed to pass: names are C strings, positions are non-negative and fit an \<^verbatim>\<open>off_t\<close>, as
  the assertion of \<^verbatim>\<open>file_seek\<close> and its type ask for; and no file is created that is so large that rounding its
  length up to whole sectors overflows, which neither a type nor an assertion asks for.\<close>

fun call_ok :: "fs_call \<Rightarrow> bool" where
  "call_ok (Create name len) \<longleftrightarrow> 0 \<notin> set name \<and> 0 \<le> len \<and> len \<le> 2 ^ 31 - 512"
| "call_ok (Remove name) \<longleftrightarrow> 0 \<notin> set name"
| "call_ok (Open name) \<longleftrightarrow> 0 \<notin> set name"
| "call_ok (Seek h pos) \<longleftrightarrow> 0 \<le> pos \<and> pos < 2 ^ 31"
| "call_ok _ \<longleftrightarrow> True"

section \<open>Specification\<close>

type_synonym spec = "(byte list \<Rightarrow> nat option) \<times> (nat \<Rightarrow> byte list option) \<times> handles"

definition nodes :: "handles \<Rightarrow> nat set" where
  "nodes hs = {f_inode f | f. Some f \<in> set hs}"

definition denied :: "nat \<Rightarrow> handles \<Rightarrow> bool" where
  "denied x hs \<longleftrightarrow> (\<exists>f. Some f \<in> set hs \<and> f_inode f = x \<and> f_deny_write f)"

definition at_start :: "nat \<Rightarrow> open_file" where
  "at_start x = \<lparr>f_inode = x, f_pos = 0, f_deny_write = False\<rparr>"

text \<open>Nodes with neither a name nor an open file go away.\<close>

definition collect :: "(byte list \<Rightarrow> nat option) \<Rightarrow> (nat \<Rightarrow> byte list option) \<Rightarrow> handles \<Rightarrow> nat \<Rightarrow> byte list option" where
  "collect N D hs = D |` (ran N \<union> nodes hs)"

inductive spec_step :: "fs_call \<Rightarrow> spec \<Rightarrow> fs_ret \<Rightarrow> spec \<Rightarrow> bool" where
  create: "name \<noteq> [] \<Longrightarrow> length name \<le> NAME_MAX \<Longrightarrow> N name = None \<Longrightarrow> x \<notin> ran N \<union> nodes hs \<Longrightarrow>
    spec_step (Create name len) (N, D, hs) (Flag True) (N(name \<mapsto> x), D(x \<mapsto> replicate (nat len) 0), hs)"
| no_create: "spec_step (Create name len) (N, D, hs) (Flag False) (N, D, hs)"
| remove: "spec_step (Remove name) (N, D, hs) (Flag (N name \<noteq> None)) (N(name := None), collect (N(name := None)) D hs, hs)"
| "open": "spec_step (Open name) (N, D, hs) (Flag (N name \<noteq> None)) (N, D, hs @ [map_option at_start (N name)])"
| reopen: "handle hs h = Some f \<Longrightarrow>
    spec_step (Reopen h) (N, D, hs) (Flag True) (N, D, hs @ [Some (at_start (f_inode f))])"
| read: "handle hs h = Some f \<Longrightarrow> D (f_inode f) = Some bs \<Longrightarrow> got = take n (drop (nat (f_pos f)) bs) \<Longrightarrow>
    spec_step (Read h n) (N, D, hs) (Bytes got) (N, D, hs[h := Some (f\<lparr>f_pos := f_pos f + int (length got)\<rparr>)])"
| store: "handle hs h = Some f \<Longrightarrow> \<not> denied (f_inode f) hs \<Longrightarrow> D (f_inode f) = Some bs \<Longrightarrow>
    k = min (length data) (length bs - nat (f_pos f)) \<Longrightarrow>
    spec_step (Write h data) (N, D, hs) (Count (int k))
      (N, D(f_inode f \<mapsto> overwrite (nat (f_pos f)) (take k data) bs), hs[h := Some (f\<lparr>f_pos := f_pos f + int k\<rparr>)])"
| no_write: "handle hs h = Some f \<Longrightarrow> denied (f_inode f) hs \<Longrightarrow> spec_step (Write h data) (N, D, hs) (Count 0) (N, D, hs)"
| seek: "handle hs h = Some f \<Longrightarrow> spec_step (Seek h pos) (N, D, hs) (Flag True) (N, D, hs[h := Some (f\<lparr>f_pos := pos\<rparr>)])"
| tell: "handle hs h = Some f \<Longrightarrow> spec_step (Tell h) (N, D, hs) (Count (f_pos f)) (N, D, hs)"
| length: "handle hs h = Some f \<Longrightarrow> D (f_inode f) = Some bs \<Longrightarrow> spec_step (Length h) (N, D, hs) (Count (int (length bs))) (N, D, hs)"
| deny: "handle hs h = Some f \<Longrightarrow> spec_step (Deny h) (N, D, hs) (Flag True) (N, D, hs[h := Some (f\<lparr>f_deny_write := True\<rparr>)])"
| allow: "handle hs h = Some f \<Longrightarrow> spec_step (Allow h) (N, D, hs) (Flag True) (N, D, hs[h := Some (f\<lparr>f_deny_write := False\<rparr>)])"
| close: "handle hs h = Some f \<Longrightarrow> spec_step (Close h) (N, D, hs) (Flag True) (N, collect N D (hs[h := None]), hs[h := None])"
| no_call: "handle_of c = Some h \<Longrightarrow> handle hs h = None \<Longrightarrow> spec_step c (N, D, hs) NoCall (N, D, hs)"

inductive spec_run :: "fs_call list \<Rightarrow> spec \<Rightarrow> fs_ret list \<Rightarrow> spec \<Rightarrow> bool" where
  "spec_run [] a [] a"
| "spec_step c a r b \<Longrightarrow> spec_run cs b rs d \<Longrightarrow> spec_run (c # cs) a (r # rs) d"

section \<open>The state of a session\<close>

definition refs :: "nat \<Rightarrow> handles \<Rightarrow> nat" where
  "refs x hs = length (filter (\<lambda>r. case r of None \<Rightarrow> False | Some f \<Rightarrow> f_inode f = x) hs)"

definition denies :: "nat \<Rightarrow> handles \<Rightarrow> nat" where
  "denies x hs = length (filter (\<lambda>r. case r of None \<Rightarrow> False | Some f \<Rightarrow> f_inode f = x \<and> f_deny_write f) hs)"

definition tracks :: "handles \<Rightarrow> inode \<Rightarrow> bool" where
  "tracks hs n \<longleftrightarrow> i_sector n = 0 \<and> open_cnt n = 1
     \<or> 1 < i_sector n \<and> open_cnt n = int (refs (i_sector n) hs) \<and> deny_write_cnt n = int (denies (i_sector n) hs)"

definition session :: "handles \<Rightarrow> fsys \<Rightarrow> bool" where
  "session hs s \<longleftrightarrow> fs_inv s \<and> (\<forall>n \<in> set (open_inodes s). tracks hs n)
     \<and> (\<forall>f. Some f \<in> set hs \<longrightarrow> f_inode f \<in> i_sector ` set (open_inodes s) \<and> 1 < f_inode f \<and> 0 \<le> f_pos f \<and> f_pos f < 2 ^ 31)
     \<and> length hs < 2 ^ 31 - 2"

definition node_data :: "handles \<Rightarrow> fsys \<Rightarrow> nat \<Rightarrow> byte list option" where
  "node_data hs s x = (if x \<in> ran (names_of (dsk s)) \<union> nodes hs then Some (data_of (dsk s) x) else None)"

definition spec_of :: "handles \<Rightarrow> fsys \<Rightarrow> spec" where
  "spec_of hs s = (names_of (dsk s), node_data hs s, hs)"

lemma handleD: "handle hs h = Some f \<Longrightarrow> h < length hs \<and> hs ! h = Some f \<and> Some f \<in> set hs"
  by (auto simp: handle_def split: if_splits) (metis nth_mem)

lemma length_filter_update:
  "h < length xs \<Longrightarrow>
   length (filter P (xs[h := y])) + (if P (xs ! h) then 1 else 0) = length (filter P xs) + (if P y then 1 else 0)"
proof (induction xs arbitrary: h)
  case (Cons x xs)
  then show ?case using Cons.IH [of "h - 1"] by (cases h) auto
qed simp

lemma refs_append [simp]:
  "refs x (hs @ [r]) = refs x hs + (case r of None \<Rightarrow> 0 | Some f \<Rightarrow> if f_inode f = x then 1 else 0)"
  "denies x (hs @ [r]) = denies x hs + (case r of None \<Rightarrow> 0 | Some f \<Rightarrow> if f_inode f = x \<and> f_deny_write f then 1 else 0)"
  by (auto simp: refs_def denies_def split: option.splits)

lemma refs_update:
  assumes "handle hs h = Some f"
  shows "refs x (hs[h := r]) + (if f_inode f = x then 1 else 0) = refs x hs + (case r of None \<Rightarrow> 0 | Some f \<Rightarrow> if f_inode f = x then 1 else 0)"
    "denies x (hs[h := r]) + (if f_inode f = x \<and> f_deny_write f then 1 else 0)
     = denies x hs + (case r of None \<Rightarrow> 0 | Some f \<Rightarrow> if f_inode f = x \<and> f_deny_write f then 1 else 0)"
  using length_filter_update [of h hs "\<lambda>r. case r of None \<Rightarrow> False | Some f \<Rightarrow> f_inode f = x" r]
    length_filter_update [of h hs "\<lambda>r. case r of None \<Rightarrow> False | Some f \<Rightarrow> f_inode f = x \<and> f_deny_write f" r] handleD [OF assms]
  by (simp_all add: refs_def denies_def split: option.splits)

lemma refs_bounds: "refs x hs \<le> length hs" "denies x hs \<le> refs x hs" "0 < refs x hs \<longleftrightarrow> x \<in> nodes hs" "0 < denies x hs \<longleftrightarrow> denied x hs"
proof -
  show "refs x hs \<le> length hs" by (simp add: refs_def)
  show "denies x hs \<le> refs x hs" unfolding refs_def denies_def by (induction hs) (auto split: option.splits)
  show "0 < refs x hs \<longleftrightarrow> x \<in> nodes hs"
    unfolding refs_def nodes_def by (induction hs) (auto split: option.splits)
  show "0 < denies x hs \<longleftrightarrow> denied x hs"
    unfolding denies_def denied_def by (induction hs) (auto split: option.splits)
qed

lemma denies_less:
  assumes "handle hs h = Some f" "\<not> f_deny_write f"
  shows "denies (f_inode f) hs < refs (f_inode f) hs"
  using refs_update [OF assms(1), of "f_inode f" None] refs_bounds(2) [of "f_inode f" "hs[h := None]"] assms(2) by simp

lemma nodes_append: "nodes (hs @ [r]) = nodes hs \<union> (case r of None \<Rightarrow> {} | Some f \<Rightarrow> {f_inode f})"
  by (auto simp: nodes_def split: option.splits)

lemma nodes_update: "handle hs h = Some f \<Longrightarrow> f_inode g = f_inode f \<Longrightarrow> nodes (hs[h := Some g]) = nodes hs"
  using refs_update(1) [of hs h f _ "Some g"] refs_bounds(3) [of _ hs] refs_bounds(3) [of _ "hs[h := Some g]"] by fastforce

lemma sessionD:
  assumes "session hs s"
  shows "fs_inv s" "n \<in> set (open_inodes s) \<Longrightarrow> tracks hs n" "open_room s"
    "live_of s = {0, 1} \<union> ran (names_of (dsk s)) \<union> nodes hs"
    "handle hs h = Some f \<Longrightarrow> f_inode f \<in> i_sector ` set (open_inodes s) \<and> 1 < f_inode f \<and> 0 \<le> f_pos f \<and> f_pos f < 2 ^ 31"
proof -
  show inv: "fs_inv s" and t: "n \<in> set (open_inodes s) \<Longrightarrow> tracks hs n" for n using assms by (simp_all add: session_def)
  have "open_cnt n < 2 ^ 31 - 2" if "n \<in> set (open_inodes s)" for n
    using t [OF that] refs_bounds(1) [of "i_sector n" hs] assms by (auto simp: tracks_def session_def)
  then show "open_room s" by (simp add: open_room_def)
  have "i_sector n \<in> insert 0 (nodes hs)" if n: "n \<in> set (open_inodes s)" for n
    using t [OF n] refs_bounds(3) [of "i_sector n" hs] fs_inv_opens(1) [OF inv] n
    by (auto simp: tracks_def opens_ok_def open_ok_def)
  then have "i_sector ` set (open_inodes s) \<subseteq> insert 0 (nodes hs)" by (rule image_subsetI)
  moreover have "nodes hs \<subseteq> i_sector ` set (open_inodes s)" using assms by (auto simp: nodes_def session_def)
  ultimately show "live_of s = {0, 1} \<union> ran (names_of (dsk s)) \<union> nodes hs"
    by (auto simp: live_of_def live_def linked_def)
  show "handle hs h = Some f \<Longrightarrow> f_inode f \<in> i_sector ` set (open_inodes s) \<and> 1 < f_inode f \<and> 0 \<le> f_pos f \<and> f_pos f < 2 ^ 31"
    using assms handleD [of hs h f] by (simp add: session_def)
qed

lemma node_data_collect:
  assumes "nodes hs' \<subseteq> ran (names_of (dsk s)) \<union> nodes hs" "ran (names_of (dsk s')) \<subseteq> ran (names_of (dsk s))"
    and "\<And>x. x \<in> ran (names_of (dsk s')) \<union> nodes hs' \<Longrightarrow> data_of (dsk s') x = data_of (dsk s) x"
  shows "node_data hs' s' = collect (names_of (dsk s')) (node_data hs s) hs'"
  using assms by (auto simp: node_data_def collect_def restrict_map_def fun_eq_iff)

lemma node_data_same:
  assumes "names_of (dsk s') = names_of (dsk s)" "nodes hs' = nodes hs"
    and "\<And>x. x \<in> ran (names_of (dsk s)) \<union> nodes hs \<Longrightarrow> data_of (dsk s') x = data_of (dsk s) x"
  shows "node_data hs' s' = node_data hs s"
  using assms by (auto simp: node_data_def)

lemma node_data_disk:
  "dsk w = dsk s \<Longrightarrow> ran (names_of (dsk s)) \<union> nodes hs' = ran (names_of (dsk s)) \<union> nodes hs \<Longrightarrow> node_data hs' w = node_data hs s"
  by (rule ext) (simp only: node_data_def)

section \<open>Every call follows the specification\<close>

definition follows :: "fs_call \<Rightarrow> handles \<Rightarrow> fsys \<Rightarrow> (fs_ret \<times> handles \<times> fsys) res \<Rightarrow> bool" where
  "follows c hs s m \<longleftrightarrow> (\<exists>r hs' s'. m = Inr (r, hs', s') \<and> session hs' s' \<and> length hs' \<le> length hs + 1
     \<and> spec_step c (spec_of hs s) r (spec_of hs' s') \<and> lost s \<subseteq> lost s')"

lemma followsI:
  "m = Inr (r, hs', s') \<Longrightarrow> session hs' s' \<Longrightarrow> length hs' \<le> length hs + 1 \<Longrightarrow> spec_step c (spec_of hs s) r (spec_of hs' s')
   \<Longrightarrow> lost s \<subseteq> lost s' \<Longrightarrow> follows c hs s m"
  by (auto simp: follows_def)

text \<open>A call that does not touch the disk loses nothing and finds nothing.\<close>

lemma lost_session:
  assumes "session hs s" "session hs' w" "dsk w = dsk s" "free_map w = free_map s" "nodes hs' \<subseteq> ran (names_of (dsk s)) \<union> nodes hs"
  shows "lost s \<subseteq> lost w"
proof (rule lost_mono)
  show "lost s \<subseteq> marked (free_map w)" using assms(4) by (auto simp: lost_def)
  show "live_of w \<subseteq> live_of s" using sessionD(4) [OF assms(1)] sessionD(4) [OF assms(2)] assms(3,5) by auto
qed (simp add: assms(3))

lemma session_nodes: "session hs s \<Longrightarrow> x \<in> ran (names_of (dsk s)) \<union> nodes hs \<Longrightarrow> x \<in> live_of s \<and> 1 < x"
  using sessionD(4) [of hs s] names_live(2) [OF sessionD(1), of hs s] by (auto simp: ran_def nodes_def session_def)

text \<open>The name of a new file refers to a node that was not in use.\<close>

lemma create_fresh:
  assumes "session hs s" "fs_inv s'" "open_inodes s' = open_inodes s" "names_of (dsk s') = (names_of (dsk s))(name \<mapsto> x)" "names_of (dsk s) name = None"
  shows "x \<notin> ran (names_of (dsk s)) \<union> nodes hs"
proof -
  have "tree_ok (dsk s')" using assms(2) by (simp add: fs_inv_def fs_good_def)
  then have t: "inj_on (names_of (dsk s')) (dom (names_of (dsk s')))" by (simp add: tree_ok_def)
  have new: "x \<notin> ran (names_of (dsk s))"
  proof
    assume "x \<in> ran (names_of (dsk s))"
    then obtain nm where nm: "names_of (dsk s) nm = Some x" by (auto simp: ran_def)
    then have "nm \<noteq> name" using assms(5) by auto
    moreover from this have "names_of (dsk s') nm = names_of (dsk s') name" "nm \<in> dom (names_of (dsk s'))" "name \<in> dom (names_of (dsk s'))"
      using nm assms(4) by (simp_all add: domI)
    ultimately show False using inj_onD [OF t] by blast
  qed
  have "x \<notin> nodes hs"
  proof
    assume "x \<in> nodes hs"
    then have "x \<in> i_sector ` set (open_inodes s)" "1 < x" using assms(1) by (auto simp: nodes_def session_def)
    then obtain n where n: "n \<in> set (open_inodes s)" "i_sector n = x" by auto
    then have "open_ok (dsk s) n" "open_ok (dsk s') n"
      using fs_inv_opens(1) [OF sessionD(1) [OF assms(1)]] fs_inv_opens(1) [OF assms(2)] assms(3) by (simp_all add: opens_ok_def)
    moreover have "x \<in> linked (dsk s')" using assms(4) by (auto simp: linked_def ran_def)
    moreover have "x \<notin> linked (dsk s)" using new \<open>1 < x\<close> by (auto simp: linked_def)
    ultimately show False using n(2) by (simp add: open_ok_def)
  qed
  with new show ?thesis by blast
qed

lemma do_create:
  assumes "session hs s" "call_ok (Create name len)" "length stack = 20"
  shows "follows (Create name len) hs s (fs_do stack (Create name len) hs s)"
proof -
  note d = sessionD [OF assms(1)]
  obtain ok x w where w: "filesys_create stack name len s = Inr (ok, w)" "fs_inv w" "open_inodes w = open_inodes s" and k: "kept s w"
    and f: "if ok
        then names_of (dsk s) name = None \<and> name \<noteq> [] \<and> length name \<le> NAME_MAX
          \<and> names_of (dsk w) = (names_of (dsk s))(name \<mapsto> x) \<and> data_of (dsk w) x = replicate (nat len) 0
          \<and> space (dsk w) x \<inter> marked (free_map s) = {}
        else names_of (dsk w) = names_of (dsk s)" and m: "marked (free_map s) \<subseteq> marked (free_map w)"
    using filesys_create_run [OF d(1,3), of name stack len] assms(2,3) spilled_mono unfolding call_ok.simps by (metis subset_refl)
  have "lost s \<subseteq> lost w" using lost_create [OF d(1) k w(3) m, of name x] f by (auto split: if_splits)
  have ss: "session hs w" using assms(1) w(2,3) by (simp add: session_def)
  have same: "data_of (dsk w) y = data_of (dsk s) y" if "y \<in> ran (names_of (dsk s)) \<union> nodes hs" for y
    using session_nodes [OF assms(1) that] k by (auto simp: kept_def)
  have "spec_step (Create name len) (spec_of hs s) (Flag ok) (spec_of hs w)"
  proof (cases ok)
    case True
    then have n: "names_of (dsk s) name = None" "name \<noteq> []" "length name \<le> NAME_MAX"
        "names_of (dsk w) = (names_of (dsk s))(name \<mapsto> x)" "data_of (dsk w) x = replicate (nat len) 0" using f by simp_all
    note fr = create_fresh [OF assms(1) w(2,3) n(4,1)]
    have "ran (names_of (dsk w)) = insert x (ran (names_of (dsk s)))" using n(1,4) by simp
    then have "node_data hs w = (node_data hs s)(x \<mapsto> replicate (nat len) 0)"
      using same n(5) fr by (auto simp: node_data_def fun_eq_iff)
    then show ?thesis using spec_step.create [OF n(2,3,1) fr] True n(4) by (simp add: spec_of_def)
  next
    case False
    then have "node_data hs w = node_data hs s" using f same by (intro node_data_same) auto
    then show ?thesis using False f spec_step.no_create by (simp add: spec_of_def)
  qed
  then show ?thesis using w(1) ss \<open>lost s \<subseteq> lost w\<close> by (intro followsI [of _ "Flag ok" hs w]) simp_all
qed

lemma do_remove:
  assumes "session hs s" "call_ok (Remove name)"
  shows "follows (Remove name) hs s (fs_do stack (Remove name) hs s)"
proof -
  note d = sessionD [OF assms(1)]
  let ?N = "names_of (dsk s)"
  obtain ok w where w: "filesys_remove name s = Inr (ok, w)" "fs_inv w" "names_of (dsk w) = ?N(name := None)"
    and m: "case ?N name of
         None \<Rightarrow> \<not> ok \<and> open_inodes w = open_inodes s \<and> live_of w = live_of s \<and> marked (free_map w) = marked (free_map s)
       | Some x \<Rightarrow> ok \<and> open_inodes w = opens_after x (open_inodes s)
           \<and> live_of w = (if x \<in> i_sector ` set (open_inodes s) then live_of s else live_of s - {x})
           \<and> marked (free_map w) = (if x \<in> i_sector ` set (open_inodes s) then marked (free_map s) else marked (free_map s) - space (dsk s) x)"
    and data: "\<forall>y \<in> live_of w. di (dsk w) y = di (dsk s) y \<and> (1 < y \<longrightarrow> data_of (dsk w) y = data_of (dsk s) y)"
    using filesys_remove_run [OF d(1,3), of name] assms(2) unfolding call_ok.simps by blast
  have c: "ok = (?N name \<noteq> None)" "open_inodes w = (case ?N name of None \<Rightarrow> open_inodes s | Some x \<Rightarrow> opens_after x (open_inodes s))"
    and live: "live_of w \<subseteq> live_of s" "marked (free_map s) - marked (free_map w) \<subseteq> (\<Union>x \<in> ran ?N. space (dsk s) x)"
    using m by (auto simp: ran_def split: option.splits if_splits)
  have "(\<Union>x \<in> ran ?N. space (dsk s) x) \<subseteq> live_space s" using linked_live(1) [of s] by (auto simp: live_space_def linked_def)
  then have "lost s \<subseteq> marked (free_map w)" using live(2) unfolding lost_def by blast
  then have lost: "lost s \<subseteq> lost w" using data live(1) by (intro lost_mono) blast+
  have sec: "i_sector ` set (open_inodes w) = i_sector ` set (open_inodes s)"
    using c(2) mark_removed_sectors(2) by (auto simp: opens_after_def split: option.splits if_splits)
  have "tracks hs n" if n: "n \<in> set (open_inodes w)" for n
  proof -
    obtain m where m: "m \<in> set (open_inodes s)" "i_sector m = i_sector n" "open_cnt m = open_cnt n" "deny_write_cnt m = deny_write_cnt n"
      using n c(2) mark_removed_member by (auto simp: opens_after_def split: option.splits if_splits)
    show ?thesis using d(2) [OF m(1)] m by (simp add: tracks_def)
  qed
  then have ss: "session hs w" using assms(1) w(2) sec by (simp add: session_def)
  have "ran (?N(name := None)) \<subseteq> ran ?N" by (auto simp: ran_def)
  then have "node_data hs w = collect (?N(name := None)) (node_data hs s) hs"
    using node_data_collect [of hs s hs w] session_nodes [OF ss] data w(3) by auto
  then have "spec_step (Remove name) (spec_of hs s) (Flag ok) (spec_of hs w)"
    using spec_step.remove [of name ?N "node_data hs s" hs] w(3) c(1) by (simp add: spec_of_def)
  then show ?thesis using w(1) ss lost by (intro followsI [of _ "Flag ok" hs w]) simp_all
qed

lemma bump_tracks:
  assumes "session hs s" "n \<in> set (bump x e (open_inodes s))" "1 < x"
  shows "tracks (hs @ [Some (at_start x)]) n"
proof -
  note d = sessionD [OF assms(1)]
  show ?thesis
  proof (cases "x \<in> i_sector ` set (open_inodes s)")
    case True
    then obtain m where m: "m \<in> set (open_inodes s)" "n = (if i_sector m = x then m\<lparr>open_cnt := open_cnt m + 1\<rparr> else m)"
      using assms(2) by (auto simp: bump_def)
    show ?thesis using d(2) [OF m(1)] m(2) assms(3) by (auto simp: tracks_def at_start_def)
  next
    case False
    then have "x \<notin> nodes hs" using assms(1) by (auto simp: nodes_def session_def)
    then have "refs x hs = 0" "denies x hs = 0" using refs_bounds(3) [of x hs] refs_bounds(2) [of x hs] by simp_all
    moreover have "n \<in> set (open_inodes s) \<or> n = \<lparr>i_sector = x, open_cnt = 1, removed = False, deny_write_cnt = 0, i_data = e\<rparr>"
      using assms(2) False by (auto simp: bump_def)
    moreover have "tracks (hs @ [Some (at_start x)]) n" if "n \<in> set (open_inodes s)"
      using d(2) [OF that] that False by (auto simp: tracks_def at_start_def)
    ultimately show ?thesis using assms(3) by (auto simp: tracks_def at_start_def)
  qed
qed

lemma session_bump:
  assumes "session hs s" "opened s s' (bump x e (open_inodes s))" "fs_inv s'" "1 < x" "length hs < 2 ^ 31 - 3"
  shows "session (hs @ [Some (at_start x)]) s'"
proof -
  have o: "open_inodes s' = bump x e (open_inodes s)" using assms(2) by (simp add: opened_def)
  have "\<forall>n \<in> set (open_inodes s'). tracks (hs @ [Some (at_start x)]) n" using bump_tracks [OF assms(1) _ assms(4)] o by simp
  moreover have "i_sector ` set (open_inodes s') = insert x (i_sector ` set (open_inodes s))" using o bump_sectors by simp
  ultimately show ?thesis using assms(1,3-5) by (auto simp: session_def at_start_def)
qed

lemma do_open:
  assumes "session hs s" "call_ok (Open name)" "length hs < 2 ^ 31 - 3"
  shows "follows (Open name) hs s (fs_do stack (Open name) hs s)"
proof -
  note d = sessionD [OF assms(1)]
  let ?N = "names_of (dsk s)"
  obtain w where w: "filesys_open name s = Inr (map_option at_start (?N name), w)" "fs_inv w"
      "opened s w (case ?N name of None \<Rightarrow> open_inodes s | Some x \<Rightarrow> bump x (di (dsk s) x) (open_inodes s))"
    using filesys_open_run [OF d(1,3), of name] assms(2) unfolding at_start_def by auto
  note dw = opened_fields(6,7,3) [OF w(3) fs_inv_opens(2) [OF d(1)]]
  let ?hs = "hs @ [map_option at_start (?N name)]"
  have ss: "session ?hs w"
  proof (cases "?N name")
    case None
    then show ?thesis using assms(1,3) w(2) dw(2) by (auto simp: session_def tracks_def)
  next
    case (Some x)
    then show ?thesis using session_bump [OF assms(1) _ w(2) names_live(2) [OF d(1) Some] assms(3)] w(3) by simp
  qed
  have "node_data ?hs w = node_data hs s"
    by (rule node_data_disk [OF dw(1)]) (auto simp: nodes_append at_start_def ran_def split: option.splits)
  then have "spec_step (Open name) (spec_of hs s) (Flag (?N name \<noteq> None)) (spec_of ?hs w)"
    using spec_step.open [of name ?N "node_data hs s" hs] dw(1) by (simp add: spec_of_def)
  moreover have "lost s \<subseteq> lost w"
    by (rule lost_session [OF assms(1) ss dw(1,3)]) (auto simp: nodes_append at_start_def ran_def split: option.splits)
  ultimately show ?thesis using w(1) ss by (intro followsI [of _ "Flag (?N name \<noteq> None)" ?hs w]) simp_all
qed

lemma opens_bump_open:
  assumes "opens_ok D ns" "x \<in> i_sector ` set ns" "\<forall>n \<in> set ns. open_cnt n < 2 ^ 31 - 1"
  shows "opens_ok D (bump x d ns)"
proof -
  have "map i_sector (bump x d ns) = map i_sector ns" using assms(2) by (simp add: bump_def)
  then have "distinct (map i_sector (bump x d ns))" using assms(1) by (simp only: opens_ok_def)
  moreover have "open_ok D n" if n: "n \<in> set (bump x d ns)" for n
  proof -
    obtain m where "m \<in> set ns" "n = m \<or> n = m\<lparr>open_cnt := open_cnt m + 1\<rparr>" using assms(2) n by (auto simp: bump_def)
    then show ?thesis using assms(1,3) by (auto simp: opens_ok_def open_ok_def)
  qed
  ultimately show ?thesis by (simp add: opens_ok_def)
qed

lemma do_reopen:
  assumes "session hs s" "handle hs h = Some f" "length hs < 2 ^ 31 - 3"
  shows "follows (Reopen h) hs s (call_file (Reopen h) f hs s)"
proof -
  note d = sessionD [OF assms(1)]
  let ?x = "f_inode f" and ?ns = "open_inodes s"
  have x: "?x \<in> i_sector ` set ?ns" "1 < ?x" using d(5) [OF assms(2)] by simp_all
  have room: "\<forall>n \<in> set ?ns. open_cnt n < 2 ^ 31 - 1" using d(3) by (auto simp: open_room_def)
  let ?bs = "bump ?x (di (dsk s) ?x) ?ns"
  let ?w = "s\<lparr>open_inodes := ?bs\<rparr>"
  have op: "opened s ?w ?bs" by (rule opened_upd [OF fs_inv_opens(2) [OF d(1)]])
  have inv: "fs_inv ?w"
  proof (rule fs_inv_opened [OF d(1) op opens_bump_open [OF fs_inv_opens(1) [OF d(1)] x(1) room]])
    show "i_sector ` set ?bs \<subseteq> live (dsk s) ?ns" using x(1) by (auto simp: bump_sectors live_def)
    show "\<exists>n \<in> set ?bs. i_sector n = 0 \<and> deny_write_cnt n = 0"
      using bump_table [OF fs_inv_table [OF d(1)]] by (simp add: table_ok_def)
  qed
  have "call_file (Reopen h) f hs s = Inr (Flag True, hs @ [Some (at_start ?x)], ?w)"
    using inode_reopen_ok [OF d(1) x(1) room] malloc_ok(2) [OF fs_inv_opens(2) [OF inv]]
    by (simp add: file_reopen_def file_open_def at_start_def)
  moreover have xn: "?x \<in> nodes hs" using handleD [OF assms(2)] by (auto simp: nodes_def)
  then have "node_data (hs @ [Some (at_start ?x)]) ?w = node_data hs s"
    by (intro node_data_disk opened_fields(6) [OF op fs_inv_opens(2) [OF d(1)]]) (auto simp: nodes_append at_start_def)
  then have "spec_step (Reopen h) (spec_of hs s) (Flag True) (spec_of (hs @ [Some (at_start ?x)]) ?w)"
    using spec_step.reopen [OF assms(2)] opened_fields(6) [OF op fs_inv_opens(2) [OF d(1)]] by (simp add: spec_of_def)
  moreover note ss = session_bump [OF assms(1) op inv x(2) assms(3)]
  moreover have "lost s \<subseteq> lost ?w"
    using xn opened_fields(3,6) [OF op fs_inv_opens(2) [OF d(1)]]
    by (intro lost_session [OF assms(1) ss]) (auto simp: nodes_append at_start_def)
  ultimately show ?thesis by (intro followsI) simp_all
qed

lemma session_handle:
  assumes "session hs s" "handle hs h = Some f"
  obtains n where "get_inode (f_inode f) s = Inr n" "n \<in> set (open_inodes s)" "i_sector n = f_inode f" "i_data n = di (dsk s) (f_inode f)"
    "fits (fs_units s) (di (dsk s) (f_inode f))" "open_cnt n = int (refs (f_inode f) hs)" "deny_write_cnt n = int (denies (f_inode f) hs)"
    "length (data_of (dsk s) (f_inode f)) = nat (inode_length n)" "inode_length n < 2 ^ 31"
    "node_data hs s (f_inode f) = Some (data_of (dsk s) (f_inode f))"
proof -
  note d = sessionD [OF assms(1)]
  have x: "f_inode f \<in> i_sector ` set (open_inodes s)" "1 < f_inode f" using d(5) [OF assms(2)] by simp_all
  obtain n where n: "get_inode (f_inode f) s = Inr n" using get_inode_sector [OF d(1) x(1)] by blast
  note g = fs_inv_get [OF d(1) n]
  have "open_cnt n = int (refs (f_inode f) hs)" "deny_write_cnt n = int (denies (f_inode f) hs)"
    using d(2) [OF g(1)] g(2) x(2) by (auto simp: tracks_def)
  moreover have "length (data_of (dsk s) (f_inode f)) = nat (inode_length n)" "inode_length n < 2 ^ 31"
    using length_bytes_of [OF fs_inv_opens(2) [OF d(1)] g(5)] g(4,5) by (simp_all add: data_of_def inode_length_def fits_def)
  moreover have "f_inode f \<in> nodes hs" using handleD [OF assms(2)] by (auto simp: nodes_def)
  ultimately show thesis using that n g by (simp add: node_data_def)
qed

lemma session_update:
  assumes "session hs s" "handle hs h = Some f" "fs_inv s'" "open_inodes s' = open_inodes s"
    and "f_inode g = f_inode f" "f_deny_write g = f_deny_write f" "0 \<le> f_pos g" "f_pos g < 2 ^ 31"
  shows "session (hs[h := Some g]) s'"
proof -
  have "refs x (hs[h := Some g]) = refs x hs" "denies x (hs[h := Some g]) = denies x hs" for x
    using refs_update [OF assms(2), of x "Some g"] assms(5,6) by auto
  then have "tracks (hs[h := Some g]) n = tracks hs n" for n by (simp add: tracks_def)
  moreover have "f_inode k \<in> i_sector ` set (open_inodes s) \<and> 1 < f_inode k \<and> 0 \<le> f_pos k \<and> f_pos k < 2 ^ 31"
    if "Some k \<in> set (hs[h := Some g])" for k
  proof -
    have "k = g \<or> Some k \<in> set hs" using that set_update_subset_insert [of hs h "Some g"] by auto
    then show ?thesis using assms(1,5,7,8) sessionD(5) [OF assms(1,2)] by (elim disjE) (simp_all add: session_def)
  qed
  ultimately show ?thesis using assms(1,3,4) by (simp add: session_def)
qed

lemma do_read:
  assumes "session hs s" "handle hs h = Some f"
  shows "follows (Read h n) hs s (call_file (Read h n) f hs s)"
proof -
  note d = sessionD [OF assms(1)]
  let ?x = "f_inode f" and ?bs = "data_of (dsk s) (f_inode f)"
  let ?got = "take n (drop (nat (f_pos f)) ?bs)"
  obtain m where m: "get_inode ?x s = Inr m" "i_data m = di (dsk s) ?x" "fits (fs_units s) (i_data m)" "length ?bs = nat (inode_length m)"
      "inode_length m < 2 ^ 31" "node_data hs s ?x = Some ?bs"
    using session_handle [OF assms] by metis
  have p: "0 \<le> f_pos f" "f_pos f < 2 ^ 31" "nat (f_pos f) < 2 ^ 31" using d(5) [OF assms(2)] by (simp_all add: nat_less_iff)
  then obtain w where w: "read_at ?x (int n) (f_pos f) s = Inr (?got, w)" "dev_step s w" "dsk w = dsk s"
    using read_at_ok [OF fs_inv_opens(2) [OF d(1)] m(1,3), of "nat (f_pos f)" n] m(2) by (auto simp: data_of_def)
  have q: "f_pos f + int (length ?got) < 2 ^ 31" using p m(4,5) by (cases "?got = []") auto
  then have "s32 (f_pos f + int (length ?got)) = f_pos f + int (length ?got)" using p(1) by (intro s32_id) (auto simp: in_s32_def)
  then have eq: "call_file (Read h n) f hs s = Inr (Bytes ?got, hs[h := Some (f\<lparr>f_pos := f_pos f + int (length ?got)\<rparr>)], w)"
    using w(1) by (simp add: file_read_def)
  have ss: "session (hs[h := Some (f\<lparr>f_pos := f_pos f + int (length ?got)\<rparr>)]) w"
    using dev_step_inv(1) [OF d(1) w(2,3)] dev_step_fields(3) [OF w(2) fs_inv_opens(2) [OF d(1)]] p q
    by (intro session_update [OF assms]) simp_all
  have "node_data (hs[h := Some (f\<lparr>f_pos := f_pos f + int (length ?got)\<rparr>)]) w = node_data hs s"
    using nodes_update [OF assms(2)] by (intro node_data_disk [OF w(3)]) simp
  then have "spec_step (Read h n) (spec_of hs s) (Bytes ?got) (spec_of (hs[h := Some (f\<lparr>f_pos := f_pos f + int (length ?got)\<rparr>)]) w)"
    unfolding spec_of_def w(3) using spec_step.read [where D = "node_data hs s", OF assms(2) m(6) refl] by simp
  moreover have "lost s \<subseteq> lost w"
    using nodes_update [OF assms(2)] dev_step_fields(4) [OF w(2) fs_inv_opens(2) [OF d(1)]]
    by (intro lost_session [OF assms(1) ss w(3)]) simp_all
  ultimately show ?thesis by (intro followsI [OF eq ss]) simp_all
qed

lemma do_seek:
  assumes "session hs s" "handle hs h = Some f" "call_ok (Seek h pos)"
  shows "follows (Seek h pos) hs s (call_file (Seek h pos) f hs s)"
proof -
  have ss: "session (hs[h := Some (f\<lparr>f_pos := pos\<rparr>)]) s"
    using assms(3) sessionD(1) [OF assms(1)] by (intro session_update [OF assms(1,2)]) simp_all
  have "node_data (hs[h := Some (f\<lparr>f_pos := pos\<rparr>)]) s = node_data hs s"
    using nodes_update [OF assms(2)] by (intro node_data_disk) simp_all
  then have "spec_step (Seek h pos) (spec_of hs s) (Flag True) (spec_of (hs[h := Some (f\<lparr>f_pos := pos\<rparr>)]) s)"
    unfolding spec_of_def using spec_step.seek [OF assms(2)] by simp
  then show ?thesis using assms(3) by (intro followsI [OF _ ss]) (simp_all add: file_seek_def)
qed

lemma do_tell: "session hs s \<Longrightarrow> handle hs h = Some f \<Longrightarrow> follows (Tell h) hs s (call_file (Tell h) f hs s)"
  using spec_step.tell [of hs h f "names_of (dsk s)" "node_data hs s"] by (intro followsI [of _ _ hs s]) (simp_all add: file_tell_def spec_of_def)

lemma do_length:
  assumes "session hs s" "handle hs h = Some f"
  shows "follows (Length h) hs s (call_file (Length h) f hs s)"
proof -
  obtain m where m: "get_inode (f_inode f) s = Inr m" "length (data_of (dsk s) (f_inode f)) = nat (inode_length m)"
      "node_data hs s (f_inode f) = Some (data_of (dsk s) (f_inode f))" "fits (fs_units s) (i_data m)"
    using session_handle [OF assms] by metis
  then have "0 \<le> inode_length m" by (simp add: fits_def inode_length_def)
  then show ?thesis using m spec_step.length [where D = "node_data hs s" and N = "names_of (dsk s)", OF assms(2) m(3)] assms(1) by (intro followsI [of _ _ hs s]) (simp_all add: file_length_def spec_of_def)
qed

text \<open>Writing the data of a file touches no inode, no other file, the free map or the directory.\<close>

lemma file_write_frame:
  assumes "fs_inv s" "dev_step s w" "\<forall>j. j \<notin> region (di (dsk s) x) \<longrightarrow> dsk w j = dsk s j" "x \<in> live_of s" "1 < x"
  shows "fs_inv w" "names_of (dsk w) = names_of (dsk s)" "y \<in> live_of s \<Longrightarrow> di (dsk w) y = di (dsk s) y"
    "y \<in> live_of s \<Longrightarrow> y \<noteq> x \<Longrightarrow> data_of (dsk w) y = data_of (dsk s) y"
proof -
  let ?A = "region (di (dsk s) x)"
  note a = layout_apart [OF fs_inv_layout [OF assms(1)] assms(4)]
  have "x \<noteq> 0" "x \<noteq> 1" using assms(5) by simp_all
  then have A: "?A \<inter> region (di (dsk s) 0) = {}" "?A \<inter> region (di (dsk s) 1) = {}" "?A \<inter> space (dsk s) 1 = {}"
    using a(2) [OF linked_live(2)] a(2) [OF linked_live(3)] a(3) [OF linked_live(3)] by (metis, metis, metis)
  show "fs_inv w" using fs_inv_step [OF assms(1-3)] a(1) A(1,2) by (simp add: live_of_def)
  show "names_of (dsk w) = names_of (dsk s)" using names_frame [OF assms(3) A(3)] by simp
  show "y \<in> live_of s \<Longrightarrow> di (dsk w) y = di (dsk s) y" using di_frame [OF assms(3)] a(1) by blast
  show "data_of (dsk w) y = data_of (dsk s) y" if "y \<in> live_of s" "y \<noteq> x"
    using data_frame [OF assms(3)] a(3) that by metis
qed

lemma do_write_denied:
  assumes "session hs s" "handle hs h = Some f" "denied (f_inode f) hs"
  shows "follows (Write h data) hs s (call_file (Write h data) f hs s)"
proof -
  obtain n where n: "get_inode (f_inode f) s = Inr n" "deny_write_cnt n = int (denies (f_inode f) hs)"
    using session_handle [OF assms(1,2)] by metis
  have "deny_write_cnt n \<noteq> 0" using n(2) assms(3) refs_bounds(4) [of "f_inode f" hs] by simp
  moreover have "s32 (f_pos f) = f_pos f" using sessionD(5) [OF assms(1,2)] by (intro s32_id) (auto simp: in_s32_def)
  moreover have "hs[h := Some f] = hs" using handleD [OF assms(2)] list_update_id [of hs h] by simp
  ultimately have eq: "call_file (Write h data) f hs s = Inr (Count 0, hs, s)"
    using n(1) by (simp add: file_write_def write_at_def inode_write_at_def)
  have "spec_step (Write h data) (spec_of hs s) (Count 0) (spec_of hs s)"
    unfolding spec_of_def by (rule spec_step.no_write [OF assms(2,3)])
  then show ?thesis by (intro followsI [OF eq assms(1)]) simp_all
qed

lemma do_write:
  assumes "session hs s" "handle hs h = Some f"
  shows "follows (Write h data) hs s (call_file (Write h data) f hs s)"
proof (cases "denied (f_inode f) hs")
  case True
  then show ?thesis by (rule do_write_denied [OF assms])
next
  case False
  note d = sessionD [OF assms(1)]
  let ?x = "f_inode f" and ?bs = "data_of (dsk s) (f_inode f)" and ?p = "nat (f_pos f)"
  let ?k = "min (length data) (length ?bs - ?p)"
  let ?hs = "hs[h := Some (f\<lparr>f_pos := f_pos f + int ?k\<rparr>)]" and ?new = "overwrite ?p (take ?k data) ?bs"
  obtain n where n: "get_inode ?x s = Inr n" "i_data n = di (dsk s) ?x" "fits (fs_units s) (i_data n)"
      "deny_write_cnt n = int (denies ?x hs)" "length ?bs = nat (inode_length n)" "inode_length n < 2 ^ 31" "node_data hs s ?x = Some ?bs"
    using session_handle [OF assms] by metis
  have p: "0 \<le> f_pos f" "f_pos f < 2 ^ 31" "?p < 2 ^ 31" using d(5) [OF assms(2)] by (simp_all add: nat_less_iff)
  have "deny_write_cnt n = 0" using n(4) False refs_bounds(4) [of ?x hs] by simp
  then obtain w where w: "write_at ?x data (f_pos f) s = Inr (int ?k, w)" "dev_step s w" "bytes_of (dsk w) (di (dsk s) ?x) = ?new"
      "\<forall>j. j \<notin> region (di (dsk s) ?x) \<longrightarrow> dsk w j = dsk s j"
    using write_at_ok [OF fs_inv_opens(2) [OF d(1)] n(1,3) p(3), of data] n(2,5) p(1) by (auto simp: data_of_def)
  have x: "?x \<in> live_of s" "1 < ?x" "?x \<in> nodes hs" using d(5) [OF assms(2)] handleD [OF assms(2)] by (auto simp: live_of_def live_def nodes_def)
  note fr = file_write_frame [OF d(1) w(2,4) x(1,2)]
  have q: "f_pos f + int ?k < 2 ^ 31" using p n(5,6) by (cases "?k = 0") auto
  then have "s32 (f_pos f + int ?k) = f_pos f + int ?k" using p(1) by (intro s32_id) (auto simp: in_s32_def)
  then have eq: "call_file (Write h data) f hs s = Inr (Count (int ?k), ?hs, w)" using w(1) by (simp add: file_write_def)
  have ss: "session ?hs w"
    using fr(1) dev_step_fields(3) [OF w(2) fs_inv_opens(2) [OF d(1)]] p q by (intro session_update [OF assms]) simp_all
  have "node_data ?hs w y = ((node_data hs s)(?x \<mapsto> ?new)) y" for y
    using fr(2) fr(3) [OF x(1)] fr(4) [of y] w(3) x(3) nodes_update [OF assms(2)] session_nodes [OF assms(1), of y]
    by (auto simp: node_data_def data_of_def)
  then have "node_data ?hs w = (node_data hs s)(?x \<mapsto> ?new)" by blast
  then have "spec_step (Write h data) (spec_of hs s) (Count (int ?k)) (spec_of ?hs w)"
    unfolding spec_of_def fr(2) using spec_step.store [where D = "node_data hs s", OF assms(2) False n(7) refl] by simp
  moreover have "live_of w \<subseteq> live_of s"
    using fr(2) dev_step_fields(3) [OF w(2) fs_inv_opens(2) [OF d(1)]] by (auto simp: live_of_def live_def linked_def)
  then have "lost s \<subseteq> lost w"
    using fr(3) dev_step_fields(4) [OF w(2) fs_inv_opens(2) [OF d(1)]] by (intro lost_mono) (auto simp: lost_def)
  ultimately show ?thesis by (intro followsI [OF eq ss]) simp_all
qed

text \<open>Changing the count of denials of an open file.\<close>

lemma deny_session:
  assumes "session hs s" "handle hs h = Some f" "f_deny_write f \<noteq> v"
  defines "x \<equiv> f_inode f"
  defines "ns \<equiv> map (\<lambda>n. if i_sector n = x then n\<lparr>deny_write_cnt := deny_write_cnt n + (if v then 1 else - 1)\<rparr> else n) (open_inodes s)"
  shows "session (hs[h := Some (f\<lparr>f_deny_write := v\<rparr>)]) (s\<lparr>open_inodes := ns\<rparr>)"
proof -
  note d = sessionD [OF assms(1)]
  let ?hs = "hs[h := Some (f\<lparr>f_deny_write := v\<rparr>)]" and ?s = "s\<lparr>open_inodes := ns\<rparr>"
  have x: "1 < x" "x \<in> i_sector ` set (open_inodes s)" using d(5) [OF assms(2)] by (simp_all add: x_def)
  have r: "refs y ?hs = refs y hs" "int (denies y ?hs) = int (denies y hs) + (if y = x then if v then 1 else - 1 else 0)" for y
    using refs_update [OF assms(2), of y "Some (f\<lparr>f_deny_write := v\<rparr>)"] assms(3) by (auto simp: x_def split: if_splits)
  have tr: "tracks ?hs n" if n: "n \<in> set ns" for n
  proof -
    obtain m where m: "m \<in> set (open_inodes s)" "n = (if i_sector m = x then m\<lparr>deny_write_cnt := deny_write_cnt m + (if v then 1 else - 1)\<rparr> else m)"
      using n by (auto simp: ns_def)
    show ?thesis using d(2) [OF m(1)] m(2) x(1) r by (auto simp: tracks_def)
  qed
  have sec: "map i_sector ns = map i_sector (open_inodes s)" by (simp add: ns_def)
  then have img: "i_sector ` set ns = i_sector ` set (open_inodes s)" by (metis list.set_map)
  have op: "opened s ?s ns" by (rule opened_upd [OF fs_inv_opens(2) [OF d(1)]])
  have ok: "open_ok (dsk s) n" if "n \<in> set ns" for n
  proof -
    obtain m where m: "m \<in> set (open_inodes s)" "n = (if i_sector m = x then m\<lparr>deny_write_cnt := deny_write_cnt m + (if v then 1 else - 1)\<rparr> else m)"
      using \<open>n \<in> set ns\<close> by (auto simp: ns_def)
    have "open_ok (dsk s) m" using fs_inv_opens(1) [OF d(1)] m(1) by (simp add: opens_ok_def)
    moreover have "0 \<le> deny_write_cnt n \<and> deny_write_cnt n \<le> open_cnt n" if "i_sector m = x"
      using tr [OF \<open>n \<in> set ns\<close>] that m(2) x(1) refs_bounds(2) [of x ?hs] by (auto simp: tracks_def)
    ultimately show ?thesis using m(2) x(1) by (auto simp: open_ok_def)
  qed
  have "fs_inv ?s"
  proof (rule fs_inv_opened [OF d(1) op])
    show "opens_ok (dsk s) ns" using ok fs_inv_opens(3) [OF d(1)] sec by (simp add: opens_ok_def)
    show "i_sector ` set ns \<subseteq> live (dsk s) (open_inodes s)" unfolding img by (auto simp: live_def)
    obtain n where "n \<in> set (open_inodes s)" "i_sector n = 0" "deny_write_cnt n = 0" using fs_inv_map_open [OF d(1)] by blast
    then show "\<exists>n \<in> set ns. i_sector n = 0 \<and> deny_write_cnt n = 0" using x(1) by (auto simp: ns_def intro!: bexI [of _ n])
  qed
  moreover have "f_inode k \<in> i_sector ` set (open_inodes s) \<and> 1 < f_inode k \<and> 0 \<le> f_pos k \<and> f_pos k < 2 ^ 31" if "Some k \<in> set ?hs" for k
  proof -
    have "k = f\<lparr>f_deny_write := v\<rparr> \<or> Some k \<in> set hs" using that set_update_subset_insert [of hs h] by blast
    then show ?thesis using assms(1) d(5) [OF assms(2)] by (elim disjE) (simp_all add: session_def)
  qed
  ultimately show ?thesis using assms(1) tr img by (simp add: session_def)
qed

lemma deny_spec:
  assumes "handle hs h = Some f" "dsk w = dsk s" "f_inode g = f_inode f"
  shows "spec_of (hs[h := Some g]) w = (names_of (dsk s), node_data hs s, hs[h := Some g])"
  using node_data_disk [OF assms(2), of "hs[h := Some g]" hs] nodes_update [OF assms(1,3)] assms(2) by (simp add: spec_of_def)

lemma file_deny_write_run:
  assumes "session hs s" "handle hs h = Some f"
  shows "\<exists>s'. file_deny_write f s = Inr (f\<lparr>f_deny_write := True\<rparr>, s') \<and> session (hs[h := Some (f\<lparr>f_deny_write := True\<rparr>)]) s' \<and> dsk s' = dsk s \<and> free_map s' = free_map s"
proof (cases "f_deny_write f")
  case True
  then have f: "f\<lparr>f_deny_write := True\<rparr> = f" by simp
  have "hs[h := Some f] = hs" using handleD [OF assms(2)] list_update_id [of hs h] by simp
  then show ?thesis unfolding f using assms(1) True by (simp add: file_deny_write_def)
next
  case False
  note d = sessionD [OF assms(1)]
  obtain n where n: "get_inode (f_inode f) s = Inr n" "n \<in> set (open_inodes s)" "i_sector n = f_inode f"
      "open_cnt n = int (refs (f_inode f) hs)" "deny_write_cnt n = int (denies (f_inode f) hs)"
    using session_handle [OF assms] by metis
  let ?g = "\<lambda>n. n\<lparr>deny_write_cnt := deny_write_cnt n + 1\<rparr>"
  have lt: "denies (f_inode f) hs < refs (f_inode f) hs" "refs (f_inode f) hs < 2 ^ 31"
    using denies_less [OF assms(2) False] refs_bounds(1) [of "f_inode f" hs] assms(1) by (simp_all add: session_def)
  then have "s32 (deny_write_cnt n + 1) = deny_write_cnt n + 1" using n(5) by (intro s32_id) (auto simp: in_s32_def)
  then have "file_deny_write f s = Inr (f\<lparr>f_deny_write := True\<rparr>, put_inode (?g n) s)"
    using False n(1,4,5) lt by (simp add: file_deny_write_def inode_deny_write_def Let_def)
  moreover have "put_inode (?g n) s = s\<lparr>open_inodes := map (\<lambda>m. if i_sector m = f_inode f then ?g m else m) (open_inodes s)\<rparr>"
    using put_inode_map [OF n(2) _ fs_inv_opens(3) [OF d(1)], of ?g] n(3) by simp
  ultimately show ?thesis using deny_session [OF assms, of True, unfolded if_True] False by (simp add: dsk_def)
qed

lemma file_allow_write_run:
  assumes "session hs s" "handle hs h = Some f"
  shows "\<exists>s'. file_allow_write f s = Inr (f\<lparr>f_deny_write := False\<rparr>, s') \<and> session (hs[h := Some (f\<lparr>f_deny_write := False\<rparr>)]) s' \<and> dsk s' = dsk s \<and> free_map s' = free_map s"
proof (cases "f_deny_write f")
  case False
  then have f: "f\<lparr>f_deny_write := False\<rparr> = f" by simp
  have "hs[h := Some f] = hs" using handleD [OF assms(2)] list_update_id [of hs h] by simp
  then show ?thesis unfolding f using assms(1) False by (simp add: file_allow_write_def)
next
  case True
  note d = sessionD [OF assms(1)]
  obtain n where n: "get_inode (f_inode f) s = Inr n" "n \<in> set (open_inodes s)" "i_sector n = f_inode f"
      "open_cnt n = int (refs (f_inode f) hs)" "deny_write_cnt n = int (denies (f_inode f) hs)"
    using session_handle [OF assms] by metis
  let ?g = "\<lambda>n. n\<lparr>deny_write_cnt := deny_write_cnt n + - 1\<rparr>"
  have "denied (f_inode f) hs" using True handleD [OF assms(2)] by (auto simp: denied_def)
  then have "0 < denies (f_inode f) hs" "denies (f_inode f) hs \<le> refs (f_inode f) hs"
    using refs_bounds(4) [of "f_inode f" hs] refs_bounds(2) [of "f_inode f" hs] by simp_all
  then have "file_allow_write f s = Inr (f\<lparr>f_deny_write := False\<rparr>, put_inode (?g n) s)"
    using True n(1,4,5) by (simp add: file_allow_write_def inode_allow_write_def)
  moreover have "put_inode (?g n) s = s\<lparr>open_inodes := map (\<lambda>m. if i_sector m = f_inode f then ?g m else m) (open_inodes s)\<rparr>"
    using put_inode_map [OF n(2) _ fs_inv_opens(3) [OF d(1)], of ?g] n(3) by simp
  ultimately show ?thesis using deny_session [OF assms, of False, unfolded if_False] True by (simp add: dsk_def)
qed

lemma do_deny:
  assumes "session hs s" "handle hs h = Some f"
  shows "follows (Deny h) hs s (call_file (Deny h) f hs s)"
proof -
  obtain w where w: "file_deny_write f s = Inr (f\<lparr>f_deny_write := True\<rparr>, w)" "session (hs[h := Some (f\<lparr>f_deny_write := True\<rparr>)]) w"
      "dsk w = dsk s" "free_map w = free_map s"
    using file_deny_write_run [OF assms] by blast
  have "spec_step (Deny h) (spec_of hs s) (Flag True) (spec_of (hs[h := Some (f\<lparr>f_deny_write := True\<rparr>)]) w)"
    using deny_spec [OF assms(2) w(3)] spec_step.deny [OF assms(2)] by (simp add: spec_of_def [of hs s])
  moreover have "lost s \<subseteq> lost w" using nodes_update [OF assms(2)] by (intro lost_session [OF assms(1) w(2-4)]) simp
  ultimately show ?thesis using w(1,2) by (intro followsI [of _ "Flag True"]) simp_all
qed

lemma do_allow:
  assumes "session hs s" "handle hs h = Some f"
  shows "follows (Allow h) hs s (call_file (Allow h) f hs s)"
proof -
  obtain w where w: "file_allow_write f s = Inr (f\<lparr>f_deny_write := False\<rparr>, w)" "session (hs[h := Some (f\<lparr>f_deny_write := False\<rparr>)]) w"
      "dsk w = dsk s" "free_map w = free_map s"
    using file_allow_write_run [OF assms] by blast
  have "spec_step (Allow h) (spec_of hs s) (Flag True) (spec_of (hs[h := Some (f\<lparr>f_deny_write := False\<rparr>)]) w)"
    using deny_spec [OF assms(2) w(3)] spec_step.allow [OF assms(2)] by (simp add: spec_of_def [of hs s])
  moreover have "lost s \<subseteq> lost w" using nodes_update [OF assms(2)] by (intro lost_session [OF assms(1) w(2-4)]) simp
  ultimately show ?thesis using w(1,2) by (intro followsI [of _ "Flag True"]) simp_all
qed

section \<open>Closing\<close>

text \<open>A table that no longer counts the handle that is closed.\<close>

lemma session_unref:
  assumes "session hs s" "handle hs h = Some f" "\<not> f_deny_write f" "fs_inv w" "open_inodes w = unref (f_inode f) (open_inodes s)"
  shows "session (hs[h := None]) w"
proof -
  note d = sessionD [OF assms(1)]
  let ?x = "f_inode f" and ?hs = "hs[h := None]"
  obtain n where n: "n \<in> set (open_inodes s)" "i_sector n = ?x" "open_cnt n = int (refs ?x hs)"
    using session_handle [OF assms(1,2)] by metis
  have x: "1 < ?x" using d(5) [OF assms(2)] by simp
  have r: "refs y hs = refs y ?hs + (if y = ?x then 1 else 0)" "denies y ?hs = denies y hs" for y
    using refs_update [OF assms(2), of y None] assms(3) by (simp_all split: if_splits)
  have only: "m = n" if "m \<in> set (open_inodes s)" "i_sector m = ?x" for m
    using that n fs_inv_opens(3) [OF d(1)] by (auto simp: distinct_map inj_on_def)
  have tr: "tracks ?hs m" if m: "m \<in> set (open_inodes s)" "i_sector m \<noteq> ?x" for m
    using d(2) [OF m(1)] m(2) r by (simp add: tracks_def)
  show ?thesis
  proof (cases "open_cnt n = 1")
    case True
    then have u: "open_inodes w = filter (\<lambda>m. i_sector m \<noteq> ?x) (open_inodes s)" using assms(5) n(1,2) by (auto simp: unref_def)
    have "?x \<notin> nodes ?hs" using True n(3) r(1) [of ?x] refs_bounds(3) [of ?x ?hs] by simp
    then have "f_inode k \<noteq> ?x \<and> Some k \<in> set hs" if "Some k \<in> set ?hs" for k
      using that set_update_subset_insert [of hs h None] by (auto simp: nodes_def)
    moreover have "i_sector ` set (open_inodes w) = i_sector ` set (open_inodes s) - {?x}" unfolding u by (rule filter_sectors)
    ultimately show ?thesis using assms(1,4) tr u by (simp add: session_def)
  next
    case False
    then have no: "\<not> (\<exists>m \<in> set (open_inodes s). i_sector m = ?x \<and> open_cnt m = 1)" using only by blast
    then have u: "open_inodes w = map (\<lambda>m. if i_sector m = ?x then m\<lparr>open_cnt := open_cnt m - 1\<rparr> else m) (open_inodes s)"
      using assms(5) by (simp only: unref_def if_False)
    have "tracks ?hs m" if m: "m \<in> set (open_inodes w)" for m
    proof -
      obtain q where q: "q \<in> set (open_inodes s)" "m = (if i_sector q = ?x then q\<lparr>open_cnt := open_cnt q - 1\<rparr> else q)"
        using m unfolding u by auto
      show ?thesis using tr [OF q(1)] d(2) [OF q(1)] q(2) r x by (cases "i_sector q = ?x") (auto simp: tracks_def)
    qed
    moreover have "map i_sector (open_inodes w) = map i_sector (open_inodes s)" unfolding u by simp
    then have "i_sector ` set (open_inodes w) = i_sector ` set (open_inodes s)" by (metis list.set_map)
    moreover have "Some k \<in> set hs" if "Some k \<in> set ?hs" for k using that set_update_subset_insert [of hs h None] by auto
    ultimately show ?thesis using assms(1,4) by (simp add: session_def)
  qed
qed

lemma inode_close_run:
  assumes "session hs s" "handle hs h = Some f" "\<not> f_deny_write f"
  shows "\<exists>w. inode_close (Some (f_inode f)) s = Inr w \<and> session (hs[h := None]) w \<and> names_of (dsk w) = names_of (dsk s)
    \<and> (\<forall>y \<in> live_of w. 1 < y \<longrightarrow> data_of (dsk w) y = data_of (dsk s) y) \<and> lost s \<subseteq> lost w"
proof -
  note d = sessionD [OF assms(1)] and o = fs_inv_opens [OF sessionD(1) [OF assms(1)]]
  let ?x = "f_inode f"
  obtain n where n: "n \<in> set (open_inodes s)" "i_sector n = ?x" "open_cnt n = int (refs ?x hs)" "deny_write_cnt n = int (denies ?x hs)"
    using session_handle [OF assms(1,2)] by metis
  have x: "1 < ?x" using d(5) [OF assms(2)] by simp
  have lt: "deny_write_cnt n < open_cnt n" using denies_less [OF assms(2,3)] n(3,4) by simp
  have ok: "open_ok (dsk s) n" using o(1) n(1) by (simp add: opens_ok_def)
  have only: "m = n" if "m \<in> set (open_inodes s)" "i_sector m = ?x" for m
    using that n(1,2) o(3) by (auto simp: distinct_map inj_on_def)
  show ?thesis
  proof (cases "removed n \<and> open_cnt n = 1")
    case True
    obtain w where w: "inode_close (Some ?x) s = Inr w" "fs_inv w" "open_inodes w = filter (\<lambda>m. i_sector m \<noteq> ?x) (open_inodes s)"
        "names_of (dsk w) = names_of (dsk s)" "\<forall>y \<in> live_of w. 0 < y \<longrightarrow> data_of (dsk w) y = data_of (dsk s) y"
        "live_of w = live_of s - {?x}" "marked (free_map w) = marked (free_map s) - space (dsk s) ?x"
        "\<forall>y \<in> live_of w. di (dsk w) y = di (dsk s) y"
      using close_removed [OF d(1) n(1)] True unfolding n(2) by blast
    have "unref ?x (open_inodes s) = filter (\<lambda>m. i_sector m \<noteq> ?x) (open_inodes s)" using True n(1,2) by (auto simp: unref_def)
    moreover have "?x \<in> live_of s" unfolding n(2) [symmetric] using n(1) by (simp add: live_of_def live_def)
    then have "lost s \<subseteq> lost w" using w(6-8) by (intro lost_mono) (auto simp: lost_def live_space_def)
    ultimately show ?thesis using w session_unref [OF assms w(2)] by (intro exI [of _ w]) simp
  next
    case False
    let ?ns = "unref ?x (open_inodes s)"
    let ?w = "s\<lparr>open_inodes := ?ns\<rparr>"
    have eq: "inode_close (Some ?x) s = Inr ?w"
      using inode_close_kept [OF n(1) o(3)] ok False n(2) by (auto simp: open_ok_def)
    have op: "opened s ?w ?ns" by (rule opened_upd [OF o(2)])
    have inv: "fs_inv ?w"
    proof (rule fs_inv_opened [OF d(1) op])
      show "opens_ok (dsk s) ?ns" using opens_unref [OF o(1)] only lt by blast
      show "i_sector ` set ?ns \<subseteq> live (dsk s) (open_inodes s)" using unref_sectors by (auto simp: live_def)
      obtain m where "m \<in> set (open_inodes s)" "i_sector m = 0" "deny_write_cnt m = 0" using fs_inv_map_open [OF d(1)] by blast
      moreover from this have "m \<in> set ?ns" using x by (auto simp: unref_def image_iff intro!: bexI [of _ m])
      ultimately show "\<exists>n \<in> set ?ns. i_sector n = 0 \<and> deny_write_cnt n = 0" by blast
    qed
    have ss: "session (hs[h := None]) ?w" by (rule session_unref [OF assms inv]) simp
    have "nodes (hs[h := None]) \<subseteq> nodes hs" using set_update_subset_insert [of hs h None] by (auto simp: nodes_def)
    then have "lost s \<subseteq> lost ?w"
      using opened_fields(3,6) [OF op o(2)] by (intro lost_session [OF assms(1) ss]) auto
    then show ?thesis using eq ss by (intro exI [of _ ?w]) (simp add: dsk_def)
  qed
qed

lemma do_close:
  assumes "session hs s" "handle hs h = Some f"
  shows "follows (Close h) hs s (call_file (Close h) f hs s)"
proof -
  let ?g = "f\<lparr>f_deny_write := False\<rparr>" and ?hs = "hs[h := None]"
  obtain t where t: "file_allow_write f s = Inr (?g, t)" "session (hs[h := Some ?g]) t" "dsk t = dsk s" "free_map t = free_map s"
    using file_allow_write_run [OF assms] by blast
  have g: "handle (hs[h := Some ?g]) h = Some ?g" using handleD [OF assms(2)] by (simp add: handle_def)
  obtain w where w: "inode_close (Some (f_inode f)) t = Inr w" "session ?hs w" "names_of (dsk w) = names_of (dsk s)"
      "\<forall>y \<in> live_of w. 1 < y \<longrightarrow> data_of (dsk w) y = data_of (dsk s) y" "lost t \<subseteq> lost w"
    using inode_close_run [OF t(2) g] t(3) by auto
  have "lost s \<subseteq> lost t" using nodes_update [OF assms(2), of ?g] by (intro lost_session [OF assms(1) t(2-4)]) simp
  with w(5) have lost: "lost s \<subseteq> lost w" by simp
  have eq: "call_file (Close h) f hs s = Inr (Flag True, ?hs, w)" using t(1) w(1) by (simp add: file_close_def)
  have "nodes ?hs \<subseteq> nodes hs" using set_update_subset_insert [of hs h None] by (auto simp: nodes_def)
  then have "node_data ?hs w = collect (names_of (dsk s)) (node_data hs s) ?hs"
    using node_data_collect [of ?hs s hs w] session_nodes [OF w(2)] w(3,4) by auto
  then have "spec_step (Close h) (spec_of hs s) (Flag True) (spec_of ?hs w)"
    unfolding spec_of_def w(3) using spec_step.close [OF assms(2)] by simp
  then show ?thesis using lost by (intro followsI [OF eq w(2)]) simp_all
qed

section \<open>Sequences of calls\<close>

lemma handle_of_do:
  "handle_of c = Some h \<Longrightarrow>
   fs_do stack c hs s = (case handle hs h of None \<Rightarrow> Inr (NoCall, hs, s) | Some f \<Rightarrow> call_file c f hs s)"
  by (cases c) (auto split: option.split)

lemma do_handle:
  assumes "session hs s" "handle_of c = Some h" "handle hs h = Some f" "call_ok c" "length hs < 2 ^ 31 - 3"
  shows "follows c hs s (call_file c f hs s)"
  using assms(2)
proof (cases c)
  case (Reopen i)
  then show ?thesis using assms do_reopen by simp
next
  case (Read i n)
  then show ?thesis using assms do_read by simp
next
  case (Write i data)
  then show ?thesis using assms do_write by simp
next
  case (Seek i pos)
  then show ?thesis using do_seek [OF assms(1,3), of pos] assms(2,4) by simp
next
  case (Tell i)
  then show ?thesis using assms do_tell by simp
next
  case (Length i)
  then show ?thesis using assms do_length by simp
next
  case (Deny i)
  then show ?thesis using assms do_deny by simp
next
  case (Allow i)
  then show ?thesis using assms do_allow by simp
next
  case (Close i)
  then show ?thesis using assms do_close by simp
qed simp_all

lemma fs_do_follows:
  assumes "session hs s" "call_ok c" "length hs < 2 ^ 31 - 3" "length stack = 20"
  shows "follows c hs s (fs_do stack c hs s)"
proof (cases "handle_of c")
  case None
  then show ?thesis
    using do_create [OF assms(1) _ assms(4)] do_remove [OF assms(1)] do_open [OF assms(1) _ assms(3)] assms(2) by (cases c) simp_all
next
  case (Some h)
  show ?thesis
  proof (cases "handle hs h")
    case None
    then have "fs_do stack c hs s = Inr (NoCall, hs, s)" using handle_of_do [OF Some] by simp
    then show ?thesis using spec_step.no_call [OF Some None] assms(1) by (intro followsI [of _ NoCall hs s]) (simp_all add: spec_of_def)
  next
    case (Some f)
    then show ?thesis using handle_of_do [OF \<open>handle_of c = Some h\<close>] do_handle [OF assms(1) \<open>handle_of c = Some h\<close> Some assms(2,3)] by simp
  qed
qed

lemma fs_run_follows:
  assumes "session hs s" "\<forall>c \<in> set cs. call_ok c" "length hs + length cs < 2 ^ 31 - 3" "length stack = 20"
  shows "\<exists>rs hs' s'. fs_run stack cs hs s = Inr (rs, hs', s') \<and> session hs' s'
    \<and> spec_run cs (spec_of hs s) rs (spec_of hs' s') \<and> lost s \<subseteq> lost s'"
  using assms(1-3)
proof (induction cs arbitrary: hs s)
  case Nil
  then show ?case by (auto intro: spec_run.intros)
next
  case (Cons c cs)
  have "length hs < 2 ^ 31 - 3" "call_ok c" using Cons.prems by simp_all
  then obtain r hs1 s1 where a: "fs_do stack c hs s = Inr (r, hs1, s1)" "session hs1 s1" "length hs1 \<le> length hs + 1"
      "spec_step c (spec_of hs s) r (spec_of hs1 s1)" "lost s \<subseteq> lost s1"
    using fs_do_follows [OF Cons.prems(1) _ _ assms(4)] unfolding follows_def by blast
  then obtain rs hs' s' where "fs_run stack cs hs1 s1 = Inr (rs, hs', s')" "session hs' s'"
      "spec_run cs (spec_of hs1 s1) rs (spec_of hs' s')" "lost s1 \<subseteq> lost s'"
    using Cons.IH [of hs1 s1] Cons.prems by auto
  then show ?case using a spec_run.intros(2) by fastforce
qed

text \<open>C7. The file system, from the calls of its clients down to the sectors of the disk, implements its
  specification: for every sequence of creations, removals, opens, reads, writes, seeks, denials of
  writes and closes, by any number of open files, as long as no \<^verbatim>\<open>malloc\<close> fails, no call fails an assertion or
  follows a dangling pointer, and every result is one the specification allows. In particular what is read is what was
  last written there, files do not disturb each other, and a file removed while it is open stays
  readable and writable through the open files until the last of them is closed.\<close>

theorem file_system_refines:
  assumes "session hs s" "\<forall>c \<in> set cs. call_ok c" "length hs + length cs < 2 ^ 31 - 3" "length stack = 20"
  shows "\<exists>rs hs' s'. fs_run stack cs hs s = Inr (rs, hs', s') \<and> session hs' s' \<and> spec_run cs (spec_of hs s) rs (spec_of hs' s')"
  using fs_run_follows [OF assms] by blast

lemma mounted_session: "session [] (mounted [])"
  using mounted_inv by (simp add: session_def) (simp add: mounted_def tracks_def)

theorem file_system_refines_witness:
  "\<exists>rs hs s. fs_run (replicate 20 0) [Create [97] 600, Open [97], Write 0 [1, 2, 3], Remove [97], Seek 0 1, Read 0 2, Close 0] [] (mounted [])
     = Inr (rs, hs, s) \<and> session hs s"
  using file_system_refines [OF mounted_session, of "[Create [97] 600, Open [97], Write 0 [1, 2, 3], Remove [97], Seek 0 1, Read 0 2, Close 0]" "replicate 20 0"]
  by auto

section \<open>Lost sectors\<close>

text \<open>C12. Creating a file that exists already fails, as it should, and leaves every file as it was, but loses disk
  space: if there are enough consecutive free sectors for the inode and the data, the call takes as many
  sectors as the data needs, none of them marked before, and leaves them marked although they belong to no
  inode, neither one with a name nor an open one. No sequence of calls after it, whatever they are, frees
  any of them.\<close>

theorem filesys_create_leaks:
  assumes "session hs s" "0 \<notin> set name" "length stack = 20" "0 \<le> len" "len \<le> 2 ^ 31 - 512"
    and "files s name \<noteq> None" "group_at (free_map s) i (1 + bytes_to_sectors len) False"
    and "\<forall>c \<in> set cs. call_ok c" "length hs + length cs < 2 ^ 31 - 3"
  shows "\<exists>s' R rs hs' s''. filesys_create stack name len s = Inr (False, s') \<and> files s' = files s
    \<and> marked (free_map s') = marked (free_map s) \<union> R \<and> R \<inter> marked (free_map s) = {} \<and> card R = bytes_to_sectors len
    \<and> R \<inter> live_space s' = {}
    \<and> fs_run stack cs hs s' = Inr (rs, hs', s'') \<and> R \<subseteq> marked (free_map s'') \<and> R \<inter> live_space s'' = {}"
proof -
  note d = sessionD [OF assms(1)]
  obtain ok w where w: "filesys_create stack name len s = Inr (ok, w)" "fs_inv w" "open_inodes w = open_inodes s" and k: "kept s w"
    and f: "if ok then names_of (dsk s) name = None
        else names_of (dsk w) = names_of (dsk s)
          \<and> (spilled (bytes_to_sectors len) (marked (free_map s)) (marked (free_map w))
             \<or> marked (free_map w) = marked (free_map s) \<and> (\<forall>i. \<not> group_at (free_map s) i (1 + bytes_to_sectors len) False))"
    using filesys_create_run [OF d(1,3) assms(2-5)] by metis
  have no: "\<not> ok" using f assms(6) by (auto simp: files_def split: if_splits)
  then have n: "names_of (dsk w) = names_of (dsk s)" using f by simp
  obtain R where R: "R \<inter> marked (free_map s) = {}" "marked (free_map w) = marked (free_map s) \<union> R" "card R = bytes_to_sectors len"
    using f no assms(7) by (auto simp: spilled_def)
  have "live_of w = live_of s" using n w(3) by (simp add: live_of_def live_def linked_def)
  then have "live_space w = live_space s" using k by (simp add: live_space_def kept_def space_def)
  then have own: "R \<inter> live_space w = {}" using R(1) live_space_marked [OF d(1)] by blast
  have ss: "session hs w" using assms(1) w(2,3) by (simp add: session_def)
  obtain rs hs' v where v: "fs_run stack cs hs w = Inr (rs, hs', v)" "lost w \<subseteq> lost v"
    using fs_run_follows [OF ss assms(8,9,3)] by blast
  have "R \<subseteq> lost v" using v(2) own R(2) by (auto simp: lost_def)
  then have "R \<subseteq> marked (free_map v) \<and> R \<inter> live_space v = {}" by (auto simp: lost_def)
  then show ?thesis
    using w(1) no kept_files [OF d(1) k n] R own v(1) by (intro exI [of _ w] exI [of _ R] exI [of _ rs] exI [of _ hs'] exI [of _ v]) simp
qed

text \<open>Neither removing the file nor opening and closing it gives the sectors back.\<close>

theorem filesys_create_leaks_witness:
  "\<exists>s1 s2 s3 R rs hs. filesys_create (replicate 20 0) [97] 600 (mounted []) = Inr (True, s1)
     \<and> filesys_create (replicate 20 0) [97] 600 s1 = Inr (False, s2)
     \<and> fs_run (replicate 20 0) [Open [97], Remove [97], Close 0] [] s2 = Inr (rs, hs, s3) \<and> card R = 2 \<and> R \<subseteq> marked (free_map s3)"
proof -
  obtain x s1 where c: "filesys_create (replicate 20 0) [97] 600 (mounted []) = Inr (True, s1)" "fs_inv s1"
      "open_inodes s1 = open_inodes (mounted [])" "names_of (dsk s1) = [[97] \<mapsto> x]"
      "spilled (1 + 2) (marked (free_map (mounted []))) (marked (free_map s1))" "fs_units s1 = 100"
    by (rule mounted_create) auto
  have n: "bytes_to_sectors 600 = 2" using bytes_to_sectors_nat [of 600] by simp
  have "card (marked (free_map s1)) = 7" using c(5) by (auto simp: spilled_def mounted_marked card_Un_disjoint Int_commute)
  moreover have "bit_cnt (free_map s1) = 100" using c(2,6) by (simp add: fs_inv_def map_ok_def fs_units_def)
  ultimately obtain i where i: "group_at (free_map s1) i 3 False" using room_for_three [of "free_map s1"] by auto
  have three: "1 + bytes_to_sectors 600 = 3" using n by simp
  have ss: "session [] s1" using mounted_session c(2,3) by (simp add: session_def)
  have "files s1 [97] \<noteq> None" using c(4) by (simp add: files_def)
  with filesys_create_leaks [OF ss, of "[97]" "replicate 20 0" 600 i "[Open [97], Remove [97], Close 0]", unfolded three] i n
  obtain s2 R rs hs s3 where "filesys_create (replicate 20 0) [97] 600 s1 = Inr (False, s2)" "card R = 2"
      "fs_run (replicate 20 0) [Open [97], Remove [97], Close 0] [] s2 = Inr (rs, hs, s3)" "R \<subseteq> marked (free_map s3)"
    by auto
  with c(1) show ?thesis by blast
qed

end
