(* ===== verification/Fs_Mount.thy ===== *)
theory Fs_Mount
  imports Fs_Session
begin

text \<open>
  Formatting, mounting and unmounting: a formatted disk is an empty file system, and what is on the
  disk after an orderly shutdown is found again at the next start.
\<close>

section \<open>Mounting\<close>

text \<open>A disk of \<open>N\<close> sectors that holds a file system.\<close>

definition disk_ok :: "nat \<Rightarrow> (nat \<Rightarrow> byte list) \<Rightarrow> bool" where
  "disk_ok N D \<longleftrightarrow> fs_good N D [] (disk_marks (data_of D 0) \<inter> {..<N}) \<and> i_length (di D 0) = int (byte_cnt N)"

lemma marked_bits_of: "bits_of b' = bits_of b \<Longrightarrow> bit_cnt b' = bit_cnt b \<Longrightarrow> marked b' = marked b"
  by (simp add: marked_bits)

text \<open>Reading the free map back: whatever bytes its file holds, the marks are those of the bytes.\<close>

lemma read_map:
  assumes "fs_base s" "get_inode 0 s = Inr n" "i_data n = di (dsk s) 0" "fits (fs_units s) (di (dsk s) 0)"
    and "i_length (di (dsk s) 0) = int (byte_cnt (fs_units s))" "bitmap_ok (free_map s)" "bit_cnt (free_map s) = fs_units s" "0 < fs_units s"
    and "f_inode f = 0"
  shows "\<exists>b s'. bitmap_read (file_read_at f) (free_map s) s = Inr (True, b, s') \<and> dev_step s s' \<and> dsk s' = dsk s
    \<and> bitmap_ok b \<and> bit_cnt b = fs_units s \<and> marked b = disk_marks (data_of (dsk s) 0) \<inter> {..<fs_units s}"
proof -
  let ?bs = "data_of (dsk s) 0" and ?N = "fs_units s"
  have len: "length ?bs = byte_cnt ?N"
    using length_bytes_of [OF assms(1,4)] assms(5) by (simp add: data_of_def)
  then have "length ?bs = 4 * elem_cnt ?N" by (simp add: byte_cnt_def)
  from bytes_as_words [OF this] obtain ws where ws: "length ws = elem_cnt ?N" "concat (map word_bytes ws) = ?bs" by blast
  let ?b = "\<lparr>bit_cnt = ?N, bm_bits = ws\<rparr>"
  have b: "bitmap_ok ?b" "bitmap_bytes ?b = ?bs" using assms(6,7) ws by (simp_all add: bitmap_ok_def bitmap_bytes_def)
  obtain s' where s': "read_at 0 (int (byte_cnt ?N)) 0 s = Inr (?bs, s')" "dev_step s s'" "dsk s' = dsk s"
    using read_at_ok [OF assms(1,2), of 0 "byte_cnt ?N"] assms(3,4) len by (auto simp: data_of_def)
  have "file_read_at f s (int (byte_cnt (bit_cnt ?b))) 0 = Inr (bitmap_bytes ?b, s')"
    using s'(1) b(2) assms(9) by (simp add: file_read_at_def)
  from bitmap_read_bytes [where file_read_at = "file_read_at f", OF b(1) assms(6) _ _ this] obtain c where
    c: "bitmap_read (file_read_at f) (free_map s) s = Inr (True, c, s')" "bitmap_ok c" "bit_cnt c = ?N" "bits_of c = bits_of ?b"
    using assms(7,8) by auto
  have "marked c = disk_marks ?bs \<inter> {..<?N}"
    using marked_bits_of [OF c(4)] c(3) marked_disk_marks [OF b(1)] b(2) by simp
  then show ?thesis using c s'(2,3) by auto
qed

lemma free_map_open_ok:
  assumes "fs_base s" "disk_ok (fs_units s) (dsk s)" "open_inodes s = []" "bitmap_ok (free_map s)" "bit_cnt (free_map s) = fs_units s"
  shows "\<exists>s'. free_map_open s = Inr s' \<and> session [] s' \<and> dsk s' = dsk s"
proof -
  let ?N = "fs_units s" and ?D = "dsk s"
  have g: "fs_good ?N ?D [] (disk_marks (data_of ?D 0) \<inter> {..<?N})" "i_length (di ?D 0) = int (byte_cnt ?N)"
    using assms(2) by (simp_all add: disk_ok_def)
  then have lay: "layout ?N ?D (linked ?D) (disk_marks (data_of ?D 0) \<inter> {..<?N})" by (simp add: fs_good_def live_def)
  then have z: "fits ?N (di ?D 0)" "0 < ?N" by (auto simp: layout_def linked_def)
  obtain t where t: "fs_read 0 s = Inr (?D 0, t)" "dev_step s t" "dsk t = ?D" using fs_read_ok [OF assms(1) z(2)] by blast
  note ft = dev_step_fields [OF t(2) assms(1)]
  let ?n = "\<lparr>i_sector = 0, open_cnt = 1, removed = False, deny_write_cnt = 0, i_data = di ?D 0\<rparr>"
  let ?f = "\<lparr>f_inode = 0, f_pos = 0, f_deny_write = False\<rparr>"
  let ?u = "t\<lparr>open_inodes := [?n], free_map_file := Some ?f\<rparr>"
  have u: "fs_base ?u" "dsk ?u = ?D" "fs_units ?u = ?N" "get_inode 0 ?u = Inr ?n"
    using ft(1,6) t(3) by (simp_all add: fs_base_def dsk_def fs_units_def get_inode_def)
  obtain b w where w: "bitmap_read (file_read_at ?f) (free_map s) ?u = Inr (True, b, w)" "dev_step ?u w" "dsk w = ?D"
      "bitmap_ok b" "bit_cnt b = ?N" "marked b = disk_marks (data_of ?D 0) \<inter> {..<?N}"
    using read_map [OF u(1,4), of ?f] u(2,3) z g(2) assms(4,5) ft(4) by auto
  note fw = dev_step_fields [OF w(2) u(1)]
  let ?w = "w\<lparr>free_map := b\<rparr>"
  have "inode_open 0 s = Inr (Some 0, t\<lparr>open_inodes := [?n]\<rparr>)"
    using assms(3) malloc_ok(2) [OF assms(1)] t(1) ft(3) by (simp add: inode_open_def di_def)
  moreover have "file_open (Some 0) (t\<lparr>open_inodes := [?n]\<rparr>) = Inr (Some ?f, t\<lparr>open_inodes := [?n]\<rparr>)"
    using malloc_ok(2) [of "t\<lparr>open_inodes := [?n]\<rparr>"] ft(1) by (simp add: file_open_def fs_base_def)
  ultimately have eq: "free_map_open s = Inr ?w"
    using w(1) ft(4) by (simp add: free_map_open_def FREE_MAP_SECTOR_def)
  have d: "dsk ?w = ?D" "fs_units ?w = ?N" "open_inodes ?w = [?n]" "free_map_file ?w = Some ?f" "free_map ?w = b"
    using w(3) fw(3,5,6) u(3) by (simp_all add: dsk_def fs_units_def)
  have "fs_inv ?w"
  proof -
    have "live ?D [?n] = live ?D []" by (auto simp: live_def linked_def)
    moreover have "opens_ok ?D [?n]" by (simp add: opens_ok_def open_ok_def linked_def)
    ultimately have "fs_good ?N ?D [?n] (marked b)" using g(1) w(6) by (simp add: fs_good_def)
    moreover have "map_good ?w"
      using g(2) w(5,6) d unfolding map_good_def by (auto simp: get_inode_def)
    moreover have "fs_base ?w" "map_ok ?w"
      using fw(1) d(2) w(4,5) by (simp_all add: fs_base_def map_ok_def fs_units_def)
    ultimately show ?thesis using d by (simp add: fs_inv_def)
  qed
  then show ?thesis using eq d by (auto simp: session_def tracks_def)
qed

section \<open>Unmounting\<close>

text \<open>Without open files, only the free map is open.\<close>

lemma idle_table:
  assumes "session hs s" "nodes hs = {}"
  shows "\<exists>n f. open_inodes s = [n] \<and> i_sector n = 0 \<and> open_cnt n = 1 \<and> \<not> removed n \<and> deny_write_cnt n = 0
    \<and> free_map_file s = Some f \<and> f_inode f = 0 \<and> \<not> f_deny_write f"
proof -
  note d = sessionD [OF assms(1)] and o = fs_inv_opens [OF sessionD(1) [OF assms(1)]]
  have z: "i_sector n = 0 \<and> open_cnt n = 1" if n: "n \<in> set (open_inodes s)" for n
  proof -
    have "0 < open_cnt n" using o(1) n by (auto simp: opens_ok_def open_ok_def)
    moreover have "refs (i_sector n) hs = 0" using refs_bounds(3) [of "i_sector n" hs] assms(2) by simp
    ultimately show ?thesis using d(2) [OF n] by (auto simp: tracks_def)
  qed
  obtain n where n: "n \<in> set (open_inodes s)" "i_sector n = 0" "deny_write_cnt n = 0" using fs_inv_map_open [OF d(1)] by blast
  have "open_inodes s = [n]"
  proof (cases "open_inodes s")
    case (Cons m ms)
    have "ms = []"
    proof (cases ms)
      case (Cons k ks)
      then have s: "open_inodes s = m # k # ks" using \<open>open_inodes s = m # ms\<close> by simp
      then have "i_sector m = 0" "i_sector k = 0" using z [of m] z [of k] by simp_all
      then show ?thesis using o(3) s by simp
    qed
    then show ?thesis using Cons n(1) by simp
  qed (use n in simp)
  moreover have "open_ok (dsk s) n" using o(1) n(1) by (simp add: opens_ok_def)
  then have "\<not> removed n" using n(2) by (simp add: open_ok_def linked_def)
  moreover have "map_good s" using d(1) by (simp add: fs_inv_def)
  ultimately show ?thesis using z [OF n(1)] n(3) by (auto simp: map_good_def)
qed

lemma session_disk_ok:
  assumes "session hs s" "nodes hs = {}"
  shows "disk_ok (fs_units s) (dsk s)"
proof -
  have inv: "fs_inv s" by (rule sessionD(1) [OF assms(1)])
  obtain n where n: "open_inodes s = [n]" "i_sector n = 0" using idle_table [OF assms] by blast
  have "live (dsk s) [n] = live (dsk s) []" using n(2) by (auto simp: live_def linked_def)
  then have "fs_good (fs_units s) (dsk s) [] (marked (free_map s))"
    using inv n(1) by (simp add: fs_inv_def fs_good_def opens_ok_def)
  then show ?thesis using inv by (simp add: disk_ok_def fs_inv_def map_good_def map_ok_def fs_units_def)
qed

lemma filesys_done_ok:
  assumes "session hs s" "nodes hs = {}"
  shows "\<exists>t. filesys_done s = Inr t \<and> dsk t = dsk s \<and> fs_units t = fs_units s \<and> open_inodes t = [] \<and> fs_base t \<and> free_map t = free_map s"
proof -
  note o = fs_inv_opens [OF sessionD(1) [OF assms(1)]]
  obtain n f where n: "open_inodes s = [n]" "i_sector n = 0" "open_cnt n = 1" "\<not> removed n" and f: "free_map_file s = Some f" "f_inode f = 0" "\<not> f_deny_write f"
    using idle_table [OF assms] by blast
  have "inode_close (Some 0) s = Inr (s\<lparr>open_inodes := []\<rparr>)"
    using inode_close_kept [of n s] n o(3) by (simp add: unref_def)
  then have "filesys_done s = Inr (s\<lparr>open_inodes := []\<rparr>)"
    using f by (simp add: filesys_done_def free_map_close_def file_close_def file_allow_write_def)
  then show ?thesis using o(2) by (simp add: dsk_def fs_units_def fs_base_def)
qed

section \<open>Starting\<close>

lemma bitmap_mark_marked:
  assumes "bitmap_ok b" "i < bit_cnt b"
  shows "\<exists>b'. bitmap_mark b i = Inr b' \<and> bitmap_ok b' \<and> bit_cnt b' = bit_cnt b \<and> marked b' = insert i (marked b)"
proof -
  obtain b' where b': "bitmap_set b i True = Inr b'" "bitmap_ok b'" "bit_cnt b' = bit_cnt b" "bits_of b' = (bits_of b)[i := True]"
    using bitmap_set_bits [OF assms] by blast
  have "marked b' = insert i (marked b)" using b'(3,4) assms(2) by (auto simp: marked_bits nth_list_update)
  then show ?thesis using b' assms(2) by (auto simp: bitmap_set_def)
qed

definition boot_ready :: "32 word list \<Rightarrow> fsys \<Rightarrow> nat \<Rightarrow> bool" where
  "boot_ready mem s dev \<longleftrightarrow> block_by_role (blks s) BLOCK_FILESYS = Some dev \<and> dev_ok dev (blks s) \<and> mallocs (blks s) = []
     \<and> dev_size dev (blks s) + ELEM_BITS \<le> 2 ^ 32 \<and> elem_cnt (dev_size dev (blks s)) \<le> length mem"

lemma free_map_init_ok:
  assumes "boot_ready mem s dev" "2 \<le> dev_size dev (blks s)"
  defines "t \<equiv> inode_init (s\<lparr>fs_device := dev\<rparr>)"
  shows "\<exists>b. free_map_init mem t = Inr (t\<lparr>free_map := b\<rparr>) \<and> bitmap_ok b \<and> bit_cnt b = fs_units t \<and> marked b = {0, 1}"
proof -
  let ?N = "dev_size dev (blks s)" and ?b = "\<lparr>bit_cnt = dev_size dev (blks s), bm_bits = take (elem_cnt (dev_size dev (blks s))) mem\<rparr>"
  have base: "fs_base t" using assms(1) by (simp add: t_def inode_init_def fs_base_def boot_ready_def)
  have N: "fs_units t = ?N" "block_size (fs_device t) (blks t) = Inr ?N"
    using assms(1) by (simp_all add: t_def inode_init_def fs_units_def block_size_def get_block_def boot_ready_def dev_ok_def dev_size_def)
  have "bitmap_ok ?b" using assms(1) by (simp add: bitmap_ok_def boot_ready_def)
  then obtain c where c: "bitmap_set_all ?b False = Inr c" "bitmap_ok c" "bit_cnt c = ?N" "marked c = {}"
    using bitmap_set_all_clear [of ?b] by auto
  obtain b0 where b0: "bitmap_mark c 0 = Inr b0" "bitmap_ok b0" "bit_cnt b0 = ?N" "marked b0 = {0}"
    using bitmap_mark_marked [OF c(2), of 0] c(3,4) assms(2) by auto
  obtain b1 where b1: "bitmap_mark b0 1 = Inr b1" "bitmap_ok b1" "bit_cnt b1 = ?N" "marked b1 = {0, 1}"
    using bitmap_mark_marked [OF b0(2), of 1] b0(3,4) assms(2) by auto
  have "bitmap_create ?N True (Some (take (elem_cnt ?N) mem)) = Inr (Some c)" using c(1) by (simp add: bitmap_create_def)
  then have "free_map_init mem t = Inr (t\<lparr>free_map := b1\<rparr>)"
    using N(2) malloc_ok(2) [OF base] b0(1) b1(1)
    by (simp add: free_map_init_def FREE_MAP_SECTOR_def ROOT_DIR_SECTOR_def)
  then show ?thesis using b1 N(1) by auto
qed

section \<open>Formatting\<close>

text \<open>The number of sectors of the free map's file.\<close>

definition map_sectors :: "nat \<Rightarrow> nat" where
  "map_sectors n = bytes_to_sectors (int (byte_cnt n))"

lemma map_length:
  assumes "n + ELEM_BITS \<le> 2 ^ 32"
  shows "s32 (int (byte_cnt n)) = int (byte_cnt n)" "int (byte_cnt n) \<le> 2 ^ 31 - 512"
proof -
  have "elem_cnt n \<le> (n + 31) div 32" by (simp add: elem_cnt_def szadd_def ELEM_BITS_def div_le_mono)
  then have "byte_cnt n \<le> 2 ^ 31 - 512" using assms by (simp add: byte_cnt_def ELEM_BITS_def)
  then show "int (byte_cnt n) \<le> 2 ^ 31 - 512" by simp
  then show "s32 (int (byte_cnt n)) = int (byte_cnt n)" by (intro s32_id) (simp add: in_s32_def)
qed

text \<open>The state between the creation of the free map and that of the root directory.\<close>

definition map_made :: "fsys \<Rightarrow> bool" where
  "map_made s \<longleftrightarrow> fs_base s \<and> map_ok s \<and> free_map_file s = Some \<lparr>f_inode = 0, f_pos = 0, f_deny_write = False\<rparr>
     \<and> open_inodes s = [\<lparr>i_sector = 0, open_cnt = 1, removed = False, deny_write_cnt = 0, i_data = di (dsk s) 0\<rparr>]
     \<and> fits (fs_units s) (di (dsk s) 0) \<and> i_length (di (dsk s) 0) = int (byte_cnt (fs_units s))
     \<and> region (di (dsk s) 0) \<inter> {0, 1} = {} \<and> marked (free_map s) = {0, 1} \<union> region (di (dsk s) 0)
     \<and> data_of (dsk s) 0 = bitmap_bytes (free_map s)"

lemma free_map_create_ok:
  assumes "fs_base t" "bitmap_ok (free_map t)" "bit_cnt (free_map t) = fs_units t" "marked (free_map t) = {0, 1}"
    and "free_map_file t = None" "open_inodes t = []" "2 + map_sectors (fs_units t) \<le> fs_units t"
  shows "\<exists>v. free_map_create t = Inr v \<and> map_made v \<and> fs_units v = fs_units t"
proof -
  let ?N = "fs_units t" and ?len = "int (byte_cnt (fs_units t))"
  have "?N + ELEM_BITS \<le> 2 ^ 32" using assms(2,3) by (simp add: bitmap_ok_def)
  note len = map_length [OF this]
  have "group_at (free_map t) 2 (map_sectors ?N) False" using assms(3,4,7) by (simp add: group_at_free)
  then obtain i b where b: "bitmap_scan_and_flip (free_map t) 0 (map_sectors ?N) False = Inr (i, b)" "i \<noteq> BITMAP_ERROR" "i + map_sectors ?N \<le> ?N"
      "{0, 1} \<inter> {i..<i + map_sectors ?N} = {}" "bitmap_ok b" "bit_cnt b = ?N" "marked b = {0, 1} \<union> {i..<i + map_sectors ?N}"
    using scan_and_flip_marked [OF assms(2), of "map_sectors ?N"] assms(3,4) by metis
  let ?a = "t\<lparr>free_map := b\<rparr>" and ?d = "\<lparr>i_start = i, i_length = ?len, i_magic = INODE_MAGIC\<rparr>"
  have a: "fs_base ?a" "fs_units ?a = ?N" "dsk ?a = dsk t" using assms(1) by (simp_all add: fs_base_def fs_units_def dsk_def)
  have r: "region ?d = {i..<i + map_sectors ?N}" by (simp add: region_def map_sectors_def)
  have al: "free_map_allocate (map_sectors ?N) t = Inr (Some i, ?a)" using b(1,2) assms(5) by (simp add: free_map_allocate_def)
  obtain u where u: "bindR (fs_write 0 (inode_disk_bytes ?d) ?a) (zero_sectors (map_sectors ?N) i) = Inr u" "dev_step ?a u" "di (dsk u) 0 = ?d"
    using new_inode [OF a(1), of 0 i ?len] b(3,4) len(2) assms(7) a(2) r unfolding map_sectors_def by auto
  have ic: "inode_create 0 ?len t = Inr (True, u)"
    using malloc_ok(2) [OF assms(1)] al u(1) by (auto simp: inode_create_def map_sectors_def)
  note fu = dev_step_fields [OF u(2) a(1)]
  have z: "0 < fs_units u" using assms(7) fu(6) a(2) by simp
  obtain w where w: "fs_read 0 u = Inr (dsk u 0, w)" "dev_step u w" "dsk w = dsk u" using fs_read_ok [OF fu(1) z] by blast
  note fw = dev_step_fields [OF w(2) fu(1)]
  let ?n = "\<lparr>i_sector = 0, open_cnt = 1, removed = False, deny_write_cnt = 0, i_data = ?d\<rparr>"
  let ?f = "\<lparr>f_inode = 0, f_pos = 0, f_deny_write = False\<rparr>"
  let ?w = "w\<lparr>open_inodes := [?n]\<rparr>" and ?x = "w\<lparr>open_inodes := [?n], free_map_file := Some ?f\<rparr>"
  have io: "inode_open 0 u = Inr (Some 0, ?w)"
    using malloc_ok(2) [OF fu(1)] w(1) fw(3) fu(3) u(3) assms(6) by (simp add: inode_open_def di_def)
  have fo: "file_open (Some 0) ?w = Inr (Some ?f, ?w)"
    using malloc_ok(2) [of ?w] fw(1) by (simp add: file_open_def fs_base_def)
  have x: "fs_base ?x" "get_inode 0 ?x = Inr ?n" "fs_units ?x = ?N" "dsk ?x = dsk u" "free_map ?x = b"
    using fw(1,4,6) fu(4,6) a(2) w(3) by (simp_all add: fs_base_def get_inode_def fs_units_def dsk_def)
  have fit: "fits ?N ?d" using b(3) len(2) by (simp add: fits_def map_sectors_def)
  have bl: "length (bitmap_bytes b) = byte_cnt ?N" using length_bitmap_bytes [OF b(5)] b(6) by simp
  then obtain v where v: "write_at 0 (bitmap_bytes b) 0 ?x = Inr (?len, v)" "dev_step ?x v"
      "bytes_of (dsk v) ?d = overwrite 0 (bitmap_bytes b) (bytes_of (dsk u) ?d)" "\<forall>j. j \<notin> region ?d \<longrightarrow> dsk v j = dsk u j"
    using write_at_ok [OF x(1,2), of 0 "bitmap_bytes b"] fit x(3,4) by (auto simp: inode_length_def)
  have "bitmap_write (file_write_at ?f) b ?x = Inr (True, v)"
    using bitmap_write_bytes [OF b(5), of "file_write_at ?f" ?x] v(1) b(6) by (simp add: file_write_at_def)
  then have eq: "free_map_create t = Inr v"
    using ic io fo len(1) assms(3) x(5) by (simp add: free_map_create_def bitmap_file_size_def FREE_MAP_SECTOR_def)
  note fv = dev_step_fields [OF v(2) x(1)]
  have d0: "di (dsk v) 0 = ?d" using di_frame [OF v(4)] b(4) r u(3) by auto
  have "length (bytes_of (dsk u) ?d) = byte_cnt ?N" using length_bytes_of [OF x(1), of ?d] fit x(3,4) by simp
  then have "data_of (dsk v) 0 = bitmap_bytes b" unfolding data_of_def d0 v(3) using bl by (simp add: overwrite_def)
  moreover have "map_ok v" using fv(1,4,6) x(3,5) b(5,6) by (simp add: map_ok_def fs_base_def fs_units_def)
  ultimately have "map_made v"
    using fv x(3,5) d0 fit b(4,7) r unfolding map_made_def by auto
  then show ?thesis using eq fv(6) x(3) by auto
qed

lemma map_made_file:
  assumes "map_made s"
  defines "f \<equiv> \<lparr>f_inode = 0, f_pos = 0, f_deny_write = False\<rparr>"
    and "n \<equiv> \<lparr>i_sector = 0, open_cnt = 1, removed = False, deny_write_cnt = 0, i_data = di (dsk s) 0\<rparr>"
  shows "map_file_ok f n s" "map_bytes n s = data_of (dsk s) 0" "marked (free_map s) \<subseteq> disk_marks (map_bytes n s)"
proof -
  show b: "map_bytes n s = data_of (dsk s) 0" by (simp add: map_bytes_def n_def contents_bytes_of data_of_def)
  show "map_file_ok f n s"
    using assms(1) by (simp add: map_file_ok_def map_made_def f_def n_def get_inode_def inode_fits_units inode_length_def map_ok_def fs_units_def)
  have "bitmap_ok (free_map s)" "data_of (dsk s) 0 = bitmap_bytes (free_map s)" using assms(1) by (simp_all add: map_made_def map_ok_def)
  then show "marked (free_map s) \<subseteq> disk_marks (map_bytes n s)" using marked_disk_marks b by simp
qed

text \<open>There is a sector left for the root directory.\<close>

lemma map_made_room:
  assumes "map_made s" "3 + map_sectors (fs_units s) \<le> fs_units s"
  shows "\<exists>i. group_at (free_map s) i 1 False"
proof -
  let ?N = "fs_units s" and ?M = "marked (free_map s)"
  have "region (di (dsk s) 0) = {i_start (di (dsk s) 0)..<i_start (di (dsk s) 0) + map_sectors ?N}"
    using assms(1) by (simp add: region_def map_made_def map_sectors_def)
  then have "card (region (di (dsk s) 0)) = map_sectors ?N" "finite (region (di (dsk s) 0))" by simp_all
  then have "card ?M < ?N" "finite ?M"
    using assms card_Un_le [of "{0, 1}" "region (di (dsk s) 0)"] by (simp_all add: map_made_def)
  moreover have "card {..<?N} \<le> card ?M" if "{..<?N} \<subseteq> ?M" using card_mono [OF calculation(2) that] .
  ultimately obtain i where "i < ?N" "i \<notin> ?M" by auto
  then show ?thesis
    using assms(1) by (intro exI [of _ i]) (simp add: group_at_free map_made_def map_ok_def fs_units_def)
qed

lemma dir_create_ok:
  assumes "map_made s" "3 + map_sectors (fs_units s) \<le> fs_units s"
  shows "\<exists>v. dir_create 1 16 s = Inr (True, v) \<and> fs_base v \<and> disk_ok (fs_units s) (dsk v) \<and> data_of (dsk v) 1 = replicate 320 0
    \<and> fs_units v = fs_units s \<and> open_inodes v = open_inodes s \<and> free_map_file v = free_map_file s \<and> map_ok v"
proof -
  let ?N = "fs_units s" and ?d0 = "di (dsk s) 0"
  let ?n = "\<lparr>i_sector = 0, open_cnt = 1, removed = False, deny_write_cnt = 0, i_data = ?d0\<rparr>"
  have m: "fs_base s" "map_ok s" "fits ?N ?d0" "i_length ?d0 = int (byte_cnt ?N)" "region ?d0 \<inter> {0, 1} = {}"
      "marked (free_map s) = {0, 1} \<union> region ?d0"
    using assms(1) by (simp_all add: map_made_def)
  obtain i where i: "group_at (free_map s) i 1 False" using map_made_room [OF assms] by blast
  note mf = map_made_file [OF assms(1)]
  obtain r t where t: "free_map_allocate 1 s = Inr (r, t)" "map_ok t" "only_map ?d0 s t"
    and c: "case r of
         Some i \<Rightarrow> i + 1 \<le> ?N \<and> marked (free_map s) \<inter> {i..<i + 1} = {}
           \<and> marked (free_map t) = marked (free_map s) \<union> {i..<i + 1} \<and> map_bytes ?n t = bitmap_bytes (free_map t)
       | None \<Rightarrow> fst (try_malloc (blks s)) \<longrightarrow> (\<forall>i. \<not> group_at (free_map s) i 1 False)"
    using free_map_allocate_result [OF m(2) mf(1,3), of 1] by (auto simp: fs_units_def split: option.splits)
  then obtain x where r: "r = Some x" using malloc_ok(1) [OF m(1)] i by (cases r) auto
  then have x: "x < ?N" "x \<notin> {0, 1} \<union> region ?d0" "marked (free_map t) = insert x ({0, 1} \<union> region ?d0)" "map_bytes ?n t = bitmap_bytes (free_map t)"
    using c m(6) by auto
  have st: "map_step s t" by (rule only_map_step [OF t(3) m(1,2) t(2)])
  then have ft: "fs_base t" "fs_units t = ?N" "open_inodes t = open_inodes s" "free_map_file t = free_map_file s"
      "\<forall>i. i \<notin> region ?d0 \<longrightarrow> dsk t i = dsk s i" by (simp_all add: map_step_def)
  let ?d1 = "\<lparr>i_start = x, i_length = 320, i_magic = INODE_MAGIC\<rparr>"
  have r1: "region ?d1 = {x}" by (auto simp: region_def sectors_16_320)
  obtain v where v: "bindR (fs_write 1 (inode_disk_bytes ?d1) t) (zero_sectors 1 x) = Inr v" "dev_step t v"
      "\<forall>i. i \<notin> {1, x} \<longrightarrow> dsk v i = dsk t i" "di (dsk v) 1 = ?d1" "data_of (dsk v) 1 = replicate 320 0"
    using new_inode [OF ft(1), of 1 x 320] x(1,2) ft(2) assms(2) unfolding r1 sectors_16_320 by auto
  note fv = dev_step_fields [OF v(2) ft(1)]
  have eq: "dir_create 1 16 s = Inr (True, v)"
    using malloc_ok(2) [OF m(1)] t(1) r v(1) sectors_16_320(2)
    by (auto simp: dir_create_def inode_create_def ENTRY_SIZE_def s32_def)
  have z: "0 \<notin> region ?d0" "0 \<notin> {1, x}" "1 \<notin> region ?d0" using m(5) x(2) by auto
  have d0: "di (dsk v) 0 = ?d0" using ft(5) v(3) z by (simp add: di_def)
  have "data_of (dsk v) 0 = bitmap_bytes (free_map v)"
  proof -
    have "i \<notin> {1, x}" if "i \<in> region ?d0" for i using that x(2) z(3) by blast
    then have "data_of (dsk v) 0 = bytes_of (dsk t) ?d0" unfolding data_of_def d0 using v(3) by (intro bytes_of_cong) blast
    also have "\<dots> = map_bytes ?n t" by (simp add: map_bytes_def contents_bytes_of)
    finally show ?thesis using x(4) fv(4) by simp
  qed
  moreover have mv: "map_ok v" using t(2) fv(1,2,4,6) by (simp add: map_ok_def fs_base_def fs_units_def)
  ultimately have M: "disk_marks (data_of (dsk v) 0) \<inter> {..<?N} = insert x ({0, 1} \<union> region ?d0)"
    using marked_disk_marks [of "free_map v"] x(3) fv(4,6) ft(2) by (simp add: map_ok_def fs_units_def)
  have "layout ?N (dsk v) {0, 1} (insert x ({0, 1} \<union> region ?d0))"
    using m(3,5) x(1,2) z assms(2) unfolding layout_def space_def by (auto simp: d0 v(4) [unfolded One_nat_def] r1 fits_def sectors_16_320)
  then have "disk_ok ?N (dsk v)"
    using empty_dir [OF v(5)] m(4) d0 M by (simp add: disk_ok_def fs_good_def live_def linked_def opens_ok_def)
  then show ?thesis using eq fv ft v(5) mv by auto
qed

lemma session_empty: "session [] s \<Longrightarrow> names_of (dsk s) = Map.empty \<Longrightarrow> files s = Map.empty"
  by (simp add: files_def fun_eq_iff)

text \<open>C10. Formatting: on a device with room for the free map and a root directory, \<^verbatim>\<open>filesys_init\<close> with
  formatting returns, whatever the device and the memory held before, and leaves a file system that
  satisfies the invariant and has no files.\<close>

theorem format_gives_empty:
  assumes "boot_ready mem s dev" "free_map_file s = None" "3 + map_sectors (dev_size dev (blks s)) \<le> dev_size dev (blks s)"
  shows "\<exists>s'. filesys_init mem True s = Inr s' \<and> session [] s' \<and> files s' = Map.empty"
proof -
  let ?a = "inode_init (s\<lparr>fs_device := dev\<rparr>)"
  have a: "fs_base ?a" "fs_units ?a = dev_size dev (blks s)" "open_inodes ?a = []" "free_map_file ?a = None"
    using assms(1,2) by (simp_all add: inode_init_def fs_base_def fs_units_def boot_ready_def)
  obtain b where b: "free_map_init mem ?a = Inr (?a\<lparr>free_map := b\<rparr>)" "bitmap_ok b" "bit_cnt b = fs_units ?a" "marked b = {0, 1}"
    using free_map_init_ok [OF assms(1)] assms(3) by auto
  let ?b = "?a\<lparr>free_map := b\<rparr>"
  have u: "fs_base ?b" "fs_units ?b = fs_units ?a" using a(1) by (simp_all add: fs_base_def fs_units_def)
  obtain c where c: "free_map_create ?b = Inr c" "map_made c" "fs_units c = fs_units ?a"
    using free_map_create_ok [OF u(1)] b(2-4) a(3,4) assms(3) u(2) a(2) by auto
  obtain v where v: "dir_create 1 16 c = Inr (True, v)" "fs_base v" "disk_ok (fs_units c) (dsk v)" "data_of (dsk v) 1 = replicate 320 0"
      "fs_units v = fs_units c" "open_inodes v = open_inodes c" "free_map_file v = free_map_file c" "map_ok v"
    using dir_create_ok [OF c(2)] c(3) a(2) assms(3) by auto
  let ?n = "\<lparr>i_sector = 0, open_cnt = 1, removed = False, deny_write_cnt = 0, i_data = di (dsk c) 0\<rparr>"
  have n: "open_inodes v = [?n]" "free_map_file v = Some \<lparr>f_inode = 0, f_pos = 0, f_deny_write = False\<rparr>"
    using v(6,7) c(2) by (simp_all add: map_made_def)
  have "inode_close (Some 0) v = Inr (v\<lparr>open_inodes := []\<rparr>)"
    using inode_close_kept [of ?n v] n(1) by (simp add: unref_def)
  then have fc: "free_map_close v = Inr (v\<lparr>open_inodes := []\<rparr>)"
    using n(2) by (simp add: free_map_close_def file_close_def file_allow_write_def)
  have fmt: "do_format ?b = Inr (v\<lparr>open_inodes := []\<rparr>)"
    using c(1) v(1) fc by (simp add: do_format_def ROOT_DIR_SECTOR_def)
  let ?w = "v\<lparr>open_inodes := []\<rparr>"
  have w: "fs_base ?w" "fs_units ?w = fs_units c" "dsk ?w = dsk v" "map_ok ?w"
    using v(2,5,8) by (simp_all add: fs_base_def fs_units_def dsk_def map_ok_def)
  obtain s' where s': "free_map_open ?w = Inr s'" "session [] s'" "dsk s' = dsk v"
    using free_map_open_ok [OF w(1)] w v(3,5) by (auto simp: map_ok_def fs_units_def)
  have "block_get_role BLOCK_FILESYS (blks s) = Inr (Some dev)" using assms(1) by (simp add: block_get_role_def boot_ready_def is_role_def)
  then have "filesys_init mem True s = Inr s'" using b(1) fmt s'(1) by (simp add: filesys_init_def)
  then show ?thesis using s'(2,3) session_empty empty_dir(1) [OF v(4)] by auto
qed

text \<open>C11. Persistence: once every file is closed, the shutdown succeeds, and the next start, without formatting,
  on a device with those sectors finds a file system that satisfies the invariant and holds the same
  files with the same contents.\<close>

theorem remount_persists:
  assumes "session hs s" "nodes hs = {}"
  shows "\<exists>t. filesys_done s = Inr t
    \<and> (\<forall>mem u dev. boot_ready mem u dev \<and> dev_size dev (blks u) = fs_units t \<and> sector_at (blks u) dev = dsk t \<longrightarrow>
        (\<exists>u'. filesys_init mem False u = Inr u' \<and> session [] u' \<and> files u' = files s))"
proof -
  obtain t where t: "filesys_done s = Inr t" "dsk t = dsk s" "fs_units t = fs_units s" using filesys_done_ok [OF assms] by blast
  have ok: "disk_ok (fs_units s) (dsk s)" by (rule session_disk_ok [OF assms])
  have "\<exists>u'. filesys_init mem False u = Inr u' \<and> session [] u' \<and> files u' = files s"
    if u: "boot_ready mem u dev" "dev_size dev (blks u) = fs_units t" "sector_at (blks u) dev = dsk t" for mem u dev
  proof -
    let ?a = "inode_init (u\<lparr>fs_device := dev\<rparr>)"
    have "1 < fs_units s" using ok by (auto simp: disk_ok_def fs_good_def layout_def live_def linked_def)
    then obtain b where b: "free_map_init mem ?a = Inr (?a\<lparr>free_map := b\<rparr>)" "bitmap_ok b" "bit_cnt b = fs_units ?a"
      using free_map_init_ok [OF u(1)] u(2) t(3) by auto
    let ?b = "?a\<lparr>free_map := b\<rparr>"
    have a: "fs_base ?b" "fs_units ?b = fs_units s" "open_inodes ?b = []" "dsk ?b = dsk s" "fs_units ?a = fs_units s"
      using u t by (simp_all add: inode_init_def fs_base_def fs_units_def boot_ready_def dsk_def)
    obtain s' where s': "free_map_open ?b = Inr s'" "session [] s'" "dsk s' = dsk s"
      using free_map_open_ok [OF a(1)] a ok b(2,3) by auto
    have "block_get_role BLOCK_FILESYS (blks u) = Inr (Some dev)" using u(1) by (simp add: block_get_role_def boot_ready_def is_role_def)
    then have "filesys_init mem False u = Inr s'" using b(1) s'(1) by (simp add: filesys_init_def)
    moreover have "files s' = files s" by (rule ext) (simp add: files_def s'(3))
    ultimately show ?thesis using s'(2) by blast
  qed
  then show ?thesis using t(1) by blast
qed

text \<open>A kernel that has found a disk of 100 sectors.\<close>

definition started :: fsys where
  "started = \<lparr>blks = formatted_disk [], fs_device = 0, open_inodes = [], free_map = \<lparr>bit_cnt = 0, bm_bits = []\<rparr>, free_map_file = None\<rparr>"

lemma started_ready: "boot_ready [1, 2, 3, 4] started 0" "map_sectors 100 = 1"
proof -
  have "dev_size 0 (blks started) = 100" "dev_ok 0 (blks started)" using formatted_dev [of "[]"] by (simp_all add: started_def)
  then show "boot_ready [1, 2, 3, 4] started 0"
    by (simp add: boot_ready_def elem_cnt_def szadd_def ELEM_BITS_def) (simp add: started_def formatted_disk_def)
  have "byte_cnt 100 = 16" by (simp add: byte_cnt_def elem_cnt_def szadd_def ELEM_BITS_def)
  then show "map_sectors 100 = 1" by (simp add: map_sectors_def sectors_16_320)
qed

theorem format_gives_empty_witness:
  "\<exists>s'. filesys_init [1, 2, 3, 4] True started = Inr s' \<and> session [] s' \<and> files s' = Map.empty"
proof -
  have "dev_size 0 (blks started) = 100" "free_map_file started = None" using formatted_dev(2) [of "[]"] by (simp_all add: started_def)
  then show ?thesis using format_gives_empty [OF started_ready(1)] started_ready(2) by simp
qed

theorem remount_persists_witness:
  "\<exists>t u'. filesys_done (mounted []) = Inr t \<and> filesys_init [1, 2, 3, 4] False started = Inr u' \<and> files u' = files (mounted [])"
proof -
  have none: "nodes [] = {}" by (simp add: nodes_def)
  obtain t where t: "filesys_done (mounted []) = Inr t" "dsk t = dsk (mounted [])" "fs_units t = fs_units (mounted [])"
    using filesys_done_ok [OF mounted_session none] by blast
  have "dev_size 0 (blks started) = 100" using formatted_dev(2) [of "[]"] by (simp add: started_def)
  moreover have "sector_at (blks started) 0 = formatted" by (simp add: started_def formatted_sector fun_eq_iff)
  ultimately show ?thesis
    using remount_persists [OF mounted_session none] t started_ready(1) by (auto simp: mounted_disk)
qed

end
