(* ===== verification/Spec2Isabelle.thy ===== *)
theory Spec2Isabelle
  imports Fixed_Point Heap Kernel_List_Sort Priority Palloc Block Arithmetic Stdlib Prng Hash Fs_Mount
begin

text \<open>
  A verification development for Pintos with priority scheduling, priority donation and the
  multi-level feedback queue scheduler. File names are relative to \<^verbatim>\<open>src/pintos/src\<close>.

  \<^bold>\<open>The program.\<close> Pintos is a small kernel for the 80x86. Threads (\<^verbatim>\<open>threads/thread.c\<close>) are scheduled by
  priority from a binary heap (\<^verbatim>\<open>lib/kernel/heap.c\<close>); they synchronise through semaphores, locks and
  condition variables (\<^verbatim>\<open>threads/synch.c\<close>), and a thread that waits for a lock donates its priority along
  the chain of lock holders. The timer interrupt (\<^verbatim>\<open>devices/timer.c\<close>, \<^verbatim>\<open>threads/interrupt.c\<close>) wakes
  sleepers, accounts time with fixed-point numbers (\<^verbatim>\<open>threads/fixed-point.h\<close>) and preempts. Memory is handed
  out in pages (\<^verbatim>\<open>threads/palloc.c\<close>) from bitmaps (\<^verbatim>\<open>lib/kernel/bitmap.c\<close>). Disks are block devices with
  partitions (\<^verbatim>\<open>devices/block.c\<close>, \<^verbatim>\<open>devices/partition.c\<close>), and on one of them lies a file system with
  inodes, a free map and one directory (\<^verbatim>\<open>filesys/\<close>). The library has linked lists, hash tables, strings,
  sorting and searching, random numbers and 64-bit division (\<^verbatim>\<open>lib/\<close>).

  \<^bold>\<open>How code is modelled.\<close> A C function is one definition of the same name, its loops definitions of their
  own; a \<^verbatim>\<open>struct\<close> is a record; state is passed explicitly. A result of type \<open>res\<close> (theory \<open>Prelude\<close>) is
  either a value or the fault that ends the kernel: a failed \<^verbatim>\<open>ASSERT\<close>, a \<^verbatim>\<open>PANIC\<close>, an access out of
  bounds, through a null or dangling pointer, or a division trap. Integers keep their width: \<open>s32\<close>, \<open>s64\<close>
  and \<open>u32\<close> write the wrap-around out, and words are used where bits matter. A loop that might not end is a
  \<^theory_text>\<open>partial_function\<close> with \<open>None\<close> for not returning, and the theorems say that it returns; every other loop
  has a termination proof or recursion on a bound that is shown to be enough (\<open>timer_wake\<close>: the number of
  sleeping threads; scans: the length of what is scanned; \<open>boot\<close>: 25 frames for each call of \<^verbatim>\<open>main\<close>). The scan for
  partitions takes a bound on the depth of its recursion, for which no bound is enough on some disks, and
  gives the devices registered so far when it has to go deeper.

  \<^bold>\<open>Containers and arithmetic.\<close>
  \<^item> \<open>Fixed_Point\<close> (\<^verbatim>\<open>threads/fixed-point.h\<close>): conversions round trip, but for the least integer where rounding
    wraps around, and round to nearest.
  \<^item> \<open>Heap\<close> (\<^verbatim>\<open>lib/kernel/heap.c\<close>): pushing, popping and rebuilding keep order and elements, a pop gives a
    maximum, and a push at full capacity writes behind the array.
  \<^item> \<open>Kernel_List\<close>, \<open>Kernel_List_Props\<close>, \<open>Kernel_List_Sort\<close> (\<^verbatim>\<open>lib/kernel/list.c\<close>): pointer routines on a memory
    of links refine operations on sequences, for every sequence of calls, empty lists included; the merge sort
    ends and is stable.
  \<^item> \<open>Hash\<close> (\<^verbatim>\<open>lib/kernel/hash.c\<close>): a table refines a set, resizing included; iteration visits every element
    once. What it asks of its client is the locale \<open>hash_key\<close>.
  \<^item> \<open>Bitmap\<close> (\<^verbatim>\<open>lib/kernel/bitmap.c\<close>): a scan finds the first group of free bits, and flips it; an
    empty group is found at the start, against the comment in the code.
  \<^item> \<open>Bytes\<close>, \<open>Cstring\<close> (\<^verbatim>\<open>lib/string.c\<close>), \<open>Stdlib\<close> (\<^verbatim>\<open>lib/stdlib.c\<close>): blocks and strings in memory; heap sort,
    binary search and \<^verbatim>\<open>atoi\<close> are correct. An array of more than 2^31 elements is outside the sorting
    theorem, since the indices of \<^verbatim>\<open>heapify\<close> then wrap around.
  \<^item> \<open>Arithmetic\<close> (\<^verbatim>\<open>lib/arithmetic.c\<close>) and \<open>Prng\<close> (\<^verbatim>\<open>lib/random.c\<close>): 64-bit quotients are right for all
    arguments, remainders only up to 32 bits; the generator keeps a permutation.

  \<^bold>\<open>Threads.\<close>
  \<^item> \<open>Thread_State\<close>, \<open>Thread\<close>, \<open>Synch\<close>, \<open>Timer\<close> are the routines on one record \<open>kernel\<close> of the globals. The kernel
    stack of a suspended thread is a list of frames, each the place where a routine goes on, and executing a
    frame is one step. A routine that runs with interrupts on is split into frames between its accesses to
    data that other threads change, so \<^verbatim>\<open>donate_priority\<close>, \<^verbatim>\<open>thread_set_priority\<close> and \<^verbatim>\<open>thread_create\<close> can be
    preempted between their statements. Single steps although interrupts are on are the recomputation in
    \<^verbatim>\<open>thread_update_priority\<close>, the initialisation of a new thread, and the list operations of condition
    variables, which their lock protects.
  \<^item> \<open>Machine\<close> is the step relation: the running thread executes its top frame, thread code calls any kernel
    routine, and timer interrupts arrive whenever interrupts are on.
  \<^item> \<open>Scheduler\<close>, \<open>Scheduler_Invariant\<close>: in every reachable state one thread runs, the ready heap holds exactly the
    ready threads, and a blocked thread waits in at most one queue. \<open>Lock_Invariant\<close>: a lock has at most one
    owner. \<open>Boot\<close>: from any loaded memory, under either scheduler and with no interrupt before it is over, the boot
    sequence establishes both invariants, every step keeps them (locale \<open>step_invariant\<close>), and there is a schedule
    in which two threads use one lock as they should and \<^verbatim>\<open>lock_acquire\<close> panics.
  \<^item> \<open>Priority\<close>: the comparison functions of the kernel are strict weak orders, so the scheduler takes the
    first queued of the ready threads of the highest priority (as long as fewer than 2^31 threads have been
    queued, when the 32-bit stamps wrap around) and \<^verbatim>\<open>sema_up\<close> the first such waiter. The computed priority is the
    greatest donation or, with the feedback queue, the formula of \<^verbatim>\<open>doc/44bsd.texi\<close> with the quarter rounded to
    nearest, where the document rounds the result down: it is the documented priority or one more.

  \<^bold>\<open>Memory.\<close> \<open>Vaddr\<close> (\<^verbatim>\<open>threads/vaddr.h\<close>), \<open>Palloc\<close> (\<^verbatim>\<open>threads/palloc.c\<close>): the groups of pages handed out never overlap,
  and only a request with \<^verbatim>\<open>PAL_ASSERT\<close> panics, where another would get the null pointer.
  The argument is made once, for every allocator of contiguous units, in the locale \<open>unit_allocator\<close> of
  \<open>Unit_Allocator\<close>; pools, the page allocator and the free map of the file system are its interpretations.

  \<^bold>\<open>Disks and files.\<close>
  \<^item> \<open>Block\<close>: no access through a partition leaves it, also while a scan is not over; a scan of a disk with an
    extended partition in its first half does not end.
  \<^item> \<open>Inode\<close>, \<open>File\<close> (\<^verbatim>\<open>filesys/inode.c\<close>, \<^verbatim>\<open>filesys/file.c\<close>, \<^verbatim>\<open>filesys/free-map.c\<close>): reading and writing an inode refine
    reading and overwriting a byte array.
  \<^item> \<open>Directory\<close>, \<open>Filesys\<close> (\<^verbatim>\<open>filesys/directory.c\<close>, \<^verbatim>\<open>filesys/filesys.c\<close>): entries and files by name.
  \<^item> \<open>Fs_State\<close>, \<open>Fs_Invariant\<close>, \<open>Fs_Names\<close>, \<open>Fs_Remove\<close>, \<open>Fs_Open\<close>: the invariant of the mounted file system, and what
    creating, removing and opening do. \<open>Fs_Session\<close>: every sequence of calls behaves as a specification by names,
    nodes and byte sequences, and sectors that a failed creation has lost are never freed again. These results
    assume that no \<^verbatim>\<open>malloc\<close> fails (\<open>fs_base\<close>) and that no file is created so large that rounding its length up to
    whole sectors overflows (\<open>call_ok\<close>). \<open>Fs_Mount\<close>: a formatted disk is empty, and files survive a restart.

  \<^bold>\<open>Inputs of the models.\<close> Whether \<^verbatim>\<open>malloc\<close> succeeds is an argument or a sequence of outcomes in the state, and
  results hold for all of them unless a hypothesis says that there is memory. Comparison and hash functions of
  callers are arguments; what is asked of them are the locales \<open>strict_weak_order\<close> and \<open>hash_key\<close>, and the predicate
  \<open>strcmp_type\<close>. The contents of disks are the \<open>media\<close> of \<open>Block\<close>.

  \<^bold>\<open>Not modelled.\<close> The insides of \<^verbatim>\<open>malloc\<close> (\<^verbatim>\<open>threads/malloc.c\<close>); page tables, segments and the task state
  (\<^verbatim>\<open>userprog/pagedir.c\<close>, \<^verbatim>\<open>gdt.c\<close>, \<^verbatim>\<open>tss.c\<close>), whose meaning is that of the processor; user processes and system
  calls (\<^verbatim>\<open>userprog/process.c\<close>, \<^verbatim>\<open>syscall.c\<close>, \<^verbatim>\<open>exception.c\<close>), which this kernel is built without; device drivers and
  the queues between them and threads (\<^verbatim>\<open>devices/ide.c\<close>, \<^verbatim>\<open>kbd.c\<close>, \<^verbatim>\<open>serial.c\<close>, \<^verbatim>\<open>intq.c\<close> and others); calibration
  and busy waiting in \<^verbatim>\<open>devices/timer.c\<close>; the gates of \<^verbatim>\<open>threads/interrupt.c\<close>; of \<^verbatim>\<open>threads/init.c\<close> all but the calls that start
  threads and the timer; formatted output, console and debugging aids; tar archives (\<^verbatim>\<open>lib/ustar.c\<close>,
  \<^verbatim>\<open>filesys/fsutil.c\<close>); assembly code; the user library, examples and tests.
\<close>

end
